(* ===== verification/Ordered_Map.thy ===== *)
theory Ordered_Map
  imports Prelude
begin

text \<open>
  The insertion-ordered map.  \<open>indexmap::IndexMap\<close> is third-party code; what noyalib relies on is
  its documented contract, stated here as the locale \<open>keyed_store\<close> and its extension
  \<open>removable_store\<close>, with the clients' lemmas proved once inside them: a loop of insertions is
  map union with later entries winning, and a loop of \<open>insert unless present\<close> (the merge-key
  loop and \<open>entry(k).or_insert(v)\<close>) is map union with earlier entries winning.  The data model
  is an association list in iteration order with distinct keys; \<open>imap_insert\<close> keeps the
  position of an existing key, \<open>imap_shift_remove\<close> keeps the order of the others and
  \<open>imap_swap_remove\<close> moves the last entry into the hole.
\<close>

section \<open>The interface\<close>

locale keyed_store =
  fixes lookup :: "'m \<Rightarrow> 'k \<Rightarrow> 'v option"
    and insert_entry :: "'k \<Rightarrow> 'v \<Rightarrow> 'm \<Rightarrow> 'm"
    and valid :: "'m \<Rightarrow> bool"
  assumes lookup_insert_entry: "valid m \<Longrightarrow> lookup (insert_entry k v m) = (lookup m)(k \<mapsto> v)"
    and valid_insert_entry: "valid m \<Longrightarrow> valid (insert_entry k v m)"
begin

lemma extend_valid: "valid m \<Longrightarrow> valid (foldl (\<lambda>m (k, v). insert_entry k v m) m kvs)"
  by (induction kvs arbitrary: m) (auto simp: valid_insert_entry)

lemma lookup_extend:
  "valid m \<Longrightarrow> lookup (foldl (\<lambda>m (k, v). insert_entry k v m) m kvs) = lookup m ++ map_of (rev kvs)"
proof (induction kvs arbitrary: m)
  case Nil
  then show ?case by simp
next
  case (Cons kv kvs)
  obtain k v where kv: "kv = (k, v)" by (cases kv)
  have "lookup m ++ ([k \<mapsto> v] ++ map_of (rev kvs)) = (lookup m)(k \<mapsto> v) ++ map_of (rev kvs)"
    by (simp add: map_add_assoc del: fun_upd_apply)
  moreover have "map_of (rev kvs @ [(k, v)]) = [k \<mapsto> v] ++ map_of (rev kvs)"
    by (simp add: map_of_append del: fun_upd_apply)
  moreover have "lookup (foldl (\<lambda>m (k, v). insert_entry k v m) (insert_entry k v m) kvs)
      = (lookup m)(k \<mapsto> v) ++ map_of (rev kvs)"
    using Cons.IH[OF valid_insert_entry[OF Cons.prems], of k v] Cons.prems
    by (simp only: lookup_insert_entry)
  ultimately show ?case using kv by (simp del: fun_upd_apply)
qed

lemma fill_valid:
  "valid m \<Longrightarrow>
     valid (foldl (\<lambda>m (k, v). if lookup m k = None then insert_entry k v m else m) m kvs)"
  by (induction kvs arbitrary: m) (auto simp: valid_insert_entry)

lemma lookup_fill:
  "valid m \<Longrightarrow>
     lookup (foldl (\<lambda>m (k, v). if lookup m k = None then insert_entry k v m else m) m kvs)
       = map_of kvs ++ lookup m"
proof (induction kvs arbitrary: m)
  case Nil
  then show ?case by simp
next
  case (Cons kv kvs)
  obtain k v where kv: "kv = (k, v)" by (cases kv)
  show ?case
  proof (cases "lookup m k")
    case None
    then have "map_of kvs ++ (lookup m)(k \<mapsto> v) = (map_of kvs)(k \<mapsto> v) ++ lookup m"
      by (auto simp: map_add_def split: option.splits)
    moreover have "lookup (foldl (\<lambda>m (k, v). if lookup m k = None then insert_entry k v m else m)
        (insert_entry k v m) kvs) = map_of kvs ++ (lookup m)(k \<mapsto> v)"
      using Cons.IH[OF valid_insert_entry[OF Cons.prems], of k v] Cons.prems
      by (simp only: lookup_insert_entry)
    ultimately show ?thesis using None kv by (simp del: fun_upd_apply)
  next
    case (Some w)
    then have "map_of kvs ++ lookup m = (map_of kvs)(k \<mapsto> v) ++ lookup m"
      by (auto simp: map_add_def split: option.splits)
    with Some kv Cons show ?thesis by (simp del: fun_upd_apply)
  qed
qed

end

locale removable_store = keyed_store +
  fixes remove_entry :: "'b \<Rightarrow> 'a \<Rightarrow> 'a"
  assumes lookup_remove_entry: "valid m \<Longrightarrow> lookup (remove_entry k m) = (lookup m)(k := None)"
    and valid_remove_entry: "valid m \<Longrightarrow> valid (remove_entry k m)"
begin

lemma insert_then_remove:
  "valid m \<Longrightarrow> lookup m k = None \<Longrightarrow> lookup (remove_entry k (insert_entry k v m)) = lookup m"
  by (simp add: lookup_remove_entry lookup_insert_entry valid_insert_entry fun_upd_idem)

end

section \<open>The data model\<close>

type_synonym ('k, 'v) imap = "('k \<times> 'v) list"

definition imap_valid :: "('k, 'v) imap \<Rightarrow> bool" where
  "imap_valid m \<longleftrightarrow> distinct (map fst m)"

fun imap_get :: "('k, 'v) imap \<Rightarrow> 'k \<Rightarrow> 'v option" where
  "imap_get [] k = None"
| "imap_get ((k', v) # m) k = (if k' = k then Some v else imap_get m k)"

fun imap_index_of :: "('k, 'v) imap \<Rightarrow> 'k \<Rightarrow> nat option" where
  "imap_index_of [] k = None"
| "imap_index_of ((k', v) # m) k = (if k' = k then Some 0 else map_option Suc (imap_index_of m k))"

fun imap_insert :: "'k \<Rightarrow> 'v \<Rightarrow> ('k, 'v) imap \<Rightarrow> ('k, 'v) imap" where
  "imap_insert k v [] = [(k, v)]"
| "imap_insert k v ((k', v') # m) = (if k' = k then (k', v) # m else (k', v') # imap_insert k v m)"

fun imap_shift_remove :: "'k \<Rightarrow> ('k, 'v) imap \<Rightarrow> ('k, 'v) imap" where
  "imap_shift_remove k [] = []"
| "imap_shift_remove k ((k', v') # m) = (if k' = k then m else (k', v') # imap_shift_remove k m)"

definition imap_swap_remove :: "'k \<Rightarrow> ('k, 'v) imap \<Rightarrow> ('k, 'v) imap" where
  "imap_swap_remove k m =
     (case imap_index_of m k of
        None \<Rightarrow> m
      | Some i \<Rightarrow> if Suc i = length m then butlast m else butlast (m[i := last m]))"

definition imap_or_insert :: "'k \<Rightarrow> 'v \<Rightarrow> ('k, 'v) imap \<Rightarrow> ('k, 'v) imap" where
  "imap_or_insert k v m = (if imap_get m k = None then imap_insert k v m else m)"

definition imap_extend :: "('k, 'v) imap \<Rightarrow> ('k \<times> 'v) list \<Rightarrow> ('k, 'v) imap" where
  "imap_extend m kvs = foldl (\<lambda>m (k, v). imap_insert k v m) m kvs"

definition imap_fill :: "('k, 'v) imap \<Rightarrow> ('k \<times> 'v) list \<Rightarrow> ('k, 'v) imap" where
  "imap_fill m kvs = foldl (\<lambda>m (k, v). imap_or_insert k v m) m kvs"

section \<open>The data model meets the interface\<close>

lemma imap_get_map_of: "imap_get m = map_of m"
proof
  show "imap_get m k = map_of m k" for k by (induction m) auto
qed

lemma imap_get_insert [omap_simps]: "imap_get (imap_insert k v m) = (imap_get m)(k \<mapsto> v)"
  by (induction m) (auto simp: fun_eq_iff)

lemma imap_insert_keys [omap_simps]:
  "map fst (imap_insert k v m)
     = (if k \<in> set (map fst m) then map fst m else map fst m @ [k])"
  by (induction k v m rule: imap_insert.induct) auto

lemma imap_insert_key_set: "fst ` set (imap_insert k v m) = insert k (fst ` set m)"
  by (induction k v m rule: imap_insert.induct) auto

lemma imap_insert_valid [omap_simps]: "imap_valid m \<Longrightarrow> imap_valid (imap_insert k v m)"
  by (simp add: imap_valid_def imap_insert_keys)

lemma imap_remove_keys [omap_simps]:
  "imap_valid m \<Longrightarrow> map fst (imap_shift_remove k m) = filter (\<lambda>x. x \<noteq> k) (map fst m)"
proof (induction m)
  case Nil
  then show ?case by simp
next
  case (Cons kv m)
  then show ?case
    by (cases kv) (auto simp: imap_valid_def intro!: filter_True [symmetric])
qed

lemma imap_remove_valid [omap_simps]: "imap_valid m \<Longrightarrow> imap_valid (imap_shift_remove k m)"
  using imap_remove_keys[of m k] by (simp add: imap_valid_def)

lemma imap_get_remove:
  "imap_valid m \<Longrightarrow> imap_get (imap_shift_remove k m) = (imap_get m)(k := None)"
proof (induction m)
  case Nil
  then show ?case by (simp add: fun_eq_iff)
next
  case (Cons kv m)
  have "k \<notin> fst ` set m \<Longrightarrow> imap_get m k = None"
    by (simp add: imap_get_map_of map_of_eq_None_iff)
  with Cons show ?case
    by (cases kv) (auto simp: imap_valid_def fun_eq_iff)
qed

interpretation imap: removable_store imap_get imap_insert imap_valid imap_shift_remove
  by unfold_locales (simp_all add: imap_get_insert imap_insert_valid imap_get_remove imap_remove_valid)

lemma imap_fill_lookup: "imap_valid m \<Longrightarrow> imap_get (imap_fill m kvs) = map_of kvs ++ imap_get m"
  using imap.lookup_fill[of m kvs] by (simp add: imap_fill_def imap_or_insert_def)

lemma imap_fill_valid: "imap_valid m \<Longrightarrow> imap_valid (imap_fill m kvs)"
  using imap.fill_valid[of m kvs] by (simp add: imap_fill_def imap_or_insert_def)

lemma imap_extend_lookup:
  "imap_valid m \<Longrightarrow> imap_get (imap_extend m kvs) = imap_get m ++ map_of (rev kvs)"
  using imap.lookup_extend[of m kvs] by (simp add: imap_extend_def)

lemma imap_extend_valid: "imap_valid m \<Longrightarrow> imap_valid (imap_extend m kvs)"
  using imap.extend_valid[of m kvs] by (simp add: imap_extend_def)

section \<open>Positions and membership\<close>

lemma imap_get_None_iff: "imap_get m k = None \<longleftrightarrow> k \<notin> set (map fst m)"
  by (auto simp: imap_get_map_of map_of_eq_None_iff)

lemma imap_get_in_set: "imap_get m k = Some v \<Longrightarrow> (k, v) \<in> set m"
  by (simp add: imap_get_map_of map_of_SomeD)

lemma imap_get_iff: "imap_valid m \<Longrightarrow> imap_get m k = Some v \<longleftrightarrow> (k, v) \<in> set m"
  by (simp add: imap_get_map_of imap_valid_def)

lemma imap_index_of_None: "imap_index_of m k = None \<longleftrightarrow> imap_get m k = None"
  by (induction m k rule: imap_index_of.induct) auto

lemma imap_index_of_Some:
  "imap_index_of m k = Some i \<Longrightarrow> i < length m \<and> fst (m ! i) = k \<and> imap_get m k = Some (snd (m ! i))"
  by (induction m k arbitrary: i rule: imap_index_of.induct) (auto split: if_splits)

lemma imap_insert_absent: "imap_get m k = None \<Longrightarrow> imap_insert k v m = m @ [(k, v)]"
  by (induction m k rule: imap_get.induct) (auto split: if_splits)

lemma imap_insert_present: "imap_index_of m k = Some i \<Longrightarrow> imap_insert k v m = m[i := (k, v)]"
  by (induction m k arbitrary: i rule: imap_index_of.induct) (auto split: if_splits)

lemma imap_insert_set: "set (imap_insert k v m) \<subseteq> insert (k, v) (set m)"
  by (induction k v m rule: imap_insert.induct) auto

lemma imap_or_insert_set: "set (imap_or_insert k v m) \<subseteq> insert (k, v) (set m)"
  using imap_insert_set[of k v m] by (auto simp: imap_or_insert_def)

lemma imap_extend_set: "set (imap_extend m kvs) \<subseteq> set m \<union> set kvs"
proof (induction kvs arbitrary: m)
  case Nil
  then show ?case by (simp add: imap_extend_def)
next
  case (Cons kv kvs)
  obtain k v where kv: "kv = (k, v)" by (cases kv)
  have "imap_extend m (kv # kvs) = imap_extend (imap_insert k v m) kvs"
    by (simp add: kv imap_extend_def)
  with Cons[of "imap_insert k v m"] imap_insert_set[of k v m] show ?case by (auto simp: kv)
qed

lemma imap_fill_set: "set (imap_fill m kvs) \<subseteq> set m \<union> set kvs"
proof (induction kvs arbitrary: m)
  case Nil
  then show ?case by (simp add: imap_fill_def)
next
  case (Cons kv kvs)
  obtain k v where kv: "kv = (k, v)" by (cases kv)
  have "imap_fill m (kv # kvs) = imap_fill (imap_or_insert k v m) kvs"
    by (simp add: kv imap_fill_def)
  with Cons[of "imap_or_insert k v m"] imap_or_insert_set[of k v m] show ?case by (auto simp: kv)
qed

lemma imap_shift_remove_set: "set (imap_shift_remove k m) \<subseteq> set m"
  by (induction k m rule: imap_shift_remove.induct) auto

lemma imap_valid_Nil [simp]: "imap_valid []"
  by (simp add: imap_valid_def)

end
