(* ===== verification/Events.thy ===== *)
theory Events
  imports Ordered_Map
begin

text \<open>
  Model of \<open>parser/events.rs\<close>: the parser that turns the scanner's tokens into events, one state
  per production, with its stack of return states.  The scanner is the source of tokens: the
  tokens it will still deliver and the error it reports after them.  A handler returns the event
  and the parser it leaves, or the scan error (every caller gives up on the first one, so the
  parser it leaves is not part of the result).  The message of an unexpected token is kept as the
  token itself; its \<open>Debug\<close> text is not built.

  The lemmas show that the events of any token sequence, well formed or not, obey the grammar of
  an event stream: documents do not overlap, collections are balanced, keys and values alternate.
\<close>

section \<open>Tokens and events\<close>

record span =
  span_start :: nat
  span_end :: nat

datatype scalar_style = Plain | SingleQuoted | DoubleQuoted | Literal | Folded

datatype token_kind =
    TStreamStart | TStreamEnd | TDocumentStart | TDocumentEnd
  | TBlockSequenceStart | TBlockMappingStart | TBlockEnd
  | TFlowSequenceStart | TFlowSequenceEnd | TFlowMappingStart | TFlowMappingEnd
  | TBlockEntry | TFlowEntry | TKey | TValue
  | TAnchor string | TAlias string | TTag string string | TScalar scalar_style string

record token =
  tok_kind :: token_kind
  tok_span :: span

datatype scan_message = Text string | ExpectedNode token_kind

record scan_error =
  scan_message :: scan_message
  scan_index :: nat

datatype event =
    StreamStart
  | StreamEnd
  | DocumentStart
  | DocumentEnd
  | Alias string span
  | Scalar string scalar_style "string option" "(string \<times> string) option" span
  | SequenceStart "string option" "(string \<times> string) option" span
  | SequenceEnd span
  | MappingStart "string option" "(string \<times> string) option" span
  | MappingEnd span

datatype state =
    SStreamStart | SImplicitDocumentStart | SDocumentStart | SDocumentContent | SDocumentEnd
  | SBlockNode | SBlockSequenceFirstEntry | SBlockSequenceEntry | SIndentlessSequenceEntry
  | SBlockMappingFirstKey | SBlockMappingKey | SBlockMappingValue
  | SFlowSequenceFirstEntry | SFlowSequenceEntry
  | SFlowSequenceEntryMappingKey | SFlowSequenceEntryMappingValue | SFlowSequenceEntryMappingEnd
  | SFlowMappingFirstKey | SFlowMappingKey | SFlowMappingValue | SFlowMappingEmptyValue
  | SEnd

text \<open>\<open>current_kind\<close> is \<open>Some\<close> exactly when \<open>has_current\<close>.\<close>

record parser =
  scanner :: "token list"
  scanner_error :: scan_error
  states :: "state list"
  pstate :: state
  current_kind :: "token_kind option"
  current_span :: span
  marks :: "(string, nat) imap"
  next_anchor_id :: nat
  first_document_ended :: bool

type_synonym 'a parse = "(scan_error, 'a) res"

definition parser_new :: "token list \<Rightarrow> scan_error \<Rightarrow> parser" where
  "parser_new tokens err =
     \<lparr>scanner = tokens, scanner_error = err, states = [], pstate = SStreamStart, current_kind = None,
      current_span = \<lparr>span_start = 0, span_end = 0\<rparr>, marks = [], next_anchor_id = 0,
      first_document_ended = False\<rparr>"

definition scan_error_at :: "string \<Rightarrow> span \<Rightarrow> scan_error" where
  "scan_error_at msg span = \<lparr>scan_message = Text msg, scan_index = span_start span\<rparr>"

section \<open>The token cursor\<close>

definition peek :: "parser \<Rightarrow> (token_kind \<times> parser) parse" where
  "peek p =
     (case current_kind p of
        Some k \<Rightarrow> Inr (k, p)
      | None \<Rightarrow>
          (case scanner p of
             [] \<Rightarrow> Inl (scanner_error p)
           | t # ts \<Rightarrow>
               Inr (tok_kind t, p\<lparr>scanner := ts, current_kind := Some (tok_kind t), current_span := tok_span t\<rparr>)))"

definition take_token :: "parser \<Rightarrow> ((token_kind \<times> span) \<times> parser) parse" where
  "take_token p =
     (case current_kind p of
        Some k \<Rightarrow> Inr ((k, current_span p), p\<lparr>current_kind := None\<rparr>)
      | None \<Rightarrow>
          (case scanner p of
             [] \<Rightarrow> Inl (scanner_error p)
           | t # ts \<Rightarrow> Inr ((tok_kind t, tok_span t), p\<lparr>scanner := ts\<rparr>)))"

definition skip :: "parser \<Rightarrow> parser parse" where
  "skip p = and_then (take_token p) (\<lambda>(_, p). Inr p)"

text \<open>\<open>pop_state\<close>, assigned to \<open>self.state\<close> as every caller does.\<close>

definition pop_state :: "parser \<Rightarrow> parser" where
  "pop_state p =
     (case states p of
        [] \<Rightarrow> p\<lparr>pstate := SEnd\<rparr>
      | s # ss \<Rightarrow> p\<lparr>pstate := s, states := ss\<rparr>)"

definition push_state :: "state \<Rightarrow> parser \<Rightarrow> parser" where
  "push_state s p = p\<lparr>states := s # states p\<rparr>"

definition goto :: "state \<Rightarrow> parser \<Rightarrow> parser" where
  "goto s p = p\<lparr>pstate := s\<rparr>"

definition empty_scalar :: "span \<Rightarrow> event" where
  "empty_scalar span = Scalar [] Plain None None span"

section \<open>Nodes\<close>

record node_props =
  np_anchor :: "string option"
  np_tag :: "(string \<times> string) option"
  np_start :: "nat option"

definition widen :: "node_props \<Rightarrow> span \<Rightarrow> span" where
  "widen props s =
     (case np_start props of
        Some b \<Rightarrow> if b < span_start s then \<lparr>span_start = b, span_end = span_end s\<rparr> else s
      | None \<Rightarrow> s)"

definition take_anchor :: "parser \<Rightarrow> (string option \<times> parser) parse" where
  "take_anchor p =
     and_then (peek p) (\<lambda>(k, p).
       case k of
         TAnchor name \<Rightarrow>
           and_then (take_token p) (\<lambda>(_, p).
             Inr (Some name, p\<lparr>marks := imap_insert name (next_anchor_id p) (marks p),
                              next_anchor_id := next_anchor_id p + 1\<rparr>))
       | _ \<Rightarrow> Inr (None, p))"

definition take_tag :: "parser \<Rightarrow> ((string \<times> string) option \<times> parser) parse" where
  "take_tag p =
     and_then (peek p) (\<lambda>(k, p).
       case k of
         TTag h s \<Rightarrow> and_then (take_token p) (\<lambda>(_, p). Inr (Some (h, s), p))
       | _ \<Rightarrow> Inr (None, p))"

definition parse_node_properties :: "span \<Rightarrow> parser \<Rightarrow> (node_props \<times> parser) parse" where
  "parse_node_properties span p =
     and_then (take_anchor p) (\<lambda>(anchor, p).
     and_then (take_tag p) (\<lambda>(tag, p).
     and_then (if anchor = None then take_anchor p else Inr (anchor, p)) (\<lambda>(anchor, p).
       Inr (\<lparr>np_anchor = anchor, np_tag = tag,
             np_start = (if anchor \<noteq> None \<or> tag \<noteq> None then Some (span_start span) else None)\<rparr>, p))))"

definition open_node ::
  "state \<Rightarrow> bool \<Rightarrow> bool \<Rightarrow> node_props \<Rightarrow> span \<Rightarrow> parser \<Rightarrow> (event \<times> parser) parse" where
  "open_node st sequence skip_start props start_span p =
     and_then (if skip_start then skip p else Inr p) (\<lambda>p.
       Inr ((if sequence then SequenceStart else MappingStart) (np_anchor props) (np_tag props)
              (widen props start_span),
            goto st p))"

definition parse_empty_node ::
  "node_props \<Rightarrow> bool \<Rightarrow> span \<Rightarrow> parser \<Rightarrow> (event \<times> parser) parse" where
  "parse_empty_node props indentless span p =
     (if np_start props \<noteq> None then
        Inr (Scalar [] Plain (np_anchor props) (np_tag props) span, pop_state p)
      else if indentless then Inr (empty_scalar span, pop_state p)
      else and_then (peek p) (\<lambda>(k, p).
             Inl \<lparr>scan_message = ExpectedNode k, scan_index = span_start span\<rparr>))"

definition parse_scalar_node :: "node_props \<Rightarrow> parser \<Rightarrow> (event \<times> parser) parse" where
  "parse_scalar_node props p =
     and_then (take_token p) (\<lambda>((k, span), p).
       case k of
         TScalar style v \<Rightarrow>
           Inr (Scalar v style (np_anchor props) (np_tag props) (widen props span), pop_state p)
       | _ \<Rightarrow> Inl (scan_error_at ''invariant violated'' span))"

definition parse_node :: "bool \<Rightarrow> bool \<Rightarrow> parser \<Rightarrow> (event \<times> parser) parse" where
  "parse_node block indentless p =
     and_then (peek p) (\<lambda>(_, p).
     let span = current_span p in
     and_then (parse_node_properties span p) (\<lambda>(props, p).
     and_then (peek p) (\<lambda>(k, p).
     let start_span = current_span p in
     case k of
       TAlias name \<Rightarrow>
         and_then (take_token p) (\<lambda>((_, alias_span), p). Inr (Alias name alias_span, pop_state p))
     | TScalar _ _ \<Rightarrow> parse_scalar_node props p
     | TFlowSequenceStart \<Rightarrow> open_node SFlowSequenceFirstEntry True True props start_span p
     | TFlowMappingStart \<Rightarrow> open_node SFlowMappingFirstKey False True props start_span p
     | TBlockSequenceStart \<Rightarrow>
         if block then open_node SBlockSequenceFirstEntry True True props start_span p
         else parse_empty_node props indentless span p
     | TBlockMappingStart \<Rightarrow>
         if block then open_node SBlockMappingFirstKey False True props start_span p
         else parse_empty_node props indentless span p
     | TBlockEntry \<Rightarrow>
         if indentless then open_node SIndentlessSequenceEntry True False props start_span p
         else parse_empty_node props indentless span p
     | _ \<Rightarrow> parse_empty_node props indentless span p)))"

section \<open>Streams and documents\<close>

definition parse_stream_start :: "parser \<Rightarrow> (event \<times> parser) parse" where
  "parse_stream_start p = and_then (skip p) (\<lambda>p. Inr (StreamStart, goto SImplicitDocumentStart p))"

definition tokens_left :: "parser \<Rightarrow> nat" where
  "tokens_left p = length (scanner p) + (if current_kind p = None then 0 else 1)"

text \<open>\<open>while self.peek_is(DocumentEnd)? { self.skip()?; }\<close>\<close>

function skip_document_ends :: "parser \<Rightarrow> parser parse" where
  "skip_document_ends p =
     (case peek p of
        Inl e \<Rightarrow> Inl e
      | Inr (k, q) \<Rightarrow>
          if k = TDocumentEnd
          then (case skip q of Inl e \<Rightarrow> Inl e | Inr r \<Rightarrow> skip_document_ends r)
          else Inr q)"
  by pat_completeness auto

termination
  by (relation "measure tokens_left")
     (auto simp: tokens_left_def peek_def skip_def take_token_def split: option.splits list.splits)

declare skip_document_ends.simps [simp del]

definition stray_content :: string where
  "stray_content =
     ''stray content after document '' @ [CHR 0xE2, CHR 0x80, CHR 0x94]
     @ '' subsequent documents must start with '' @ [CHR 0x27] @ ''---'' @ [CHR 0x27]"

definition parse_document_start :: "bool \<Rightarrow> parser \<Rightarrow> (event \<times> parser) parse" where
  "parse_document_start implicit p =
     and_then (skip_document_ends p) (\<lambda>p.
     and_then (peek p) (\<lambda>(k, p).
       if k = TStreamEnd then and_then (skip p) (\<lambda>p. Inr (StreamEnd, goto SEnd p))
       else if k = TDocumentStart
       then and_then (skip p) (\<lambda>p. Inr (DocumentStart, goto SDocumentContent p))
       else if first_document_ended p
       then Inl (scan_error_at
              stray_content
              (current_span p))
       else if implicit then Inr (DocumentStart, push_state SDocumentEnd (goto SBlockNode p))
       else Inr (DocumentStart, goto SDocumentContent p)))"

definition parse_document_content :: "parser \<Rightarrow> (event \<times> parser) parse" where
  "parse_document_content p =
     and_then (peek p) (\<lambda>(k, p).
       let span = current_span p in
       if k \<in> {TDocumentEnd, TDocumentStart, TStreamEnd}
       then Inr (empty_scalar span, goto SDocumentEnd p)
       else parse_node True False (push_state SDocumentEnd p))"

definition parse_document_end :: "parser \<Rightarrow> (event \<times> parser) parse" where
  "parse_document_end p =
     and_then (peek p) (\<lambda>(k, p).
     let saw_explicit_end = (k = TDocumentEnd) in
     and_then (if saw_explicit_end then skip p else Inr p) (\<lambda>p.
       Inr (DocumentEnd,
            p\<lparr>marks := [], next_anchor_id := 0, pstate := SDocumentStart,
              first_document_ended := (first_document_ended p \<or> \<not> saw_explicit_end)\<rparr>)))"

section \<open>Block collections\<close>

definition parse_block_sequence_entry :: "parser \<Rightarrow> (event \<times> parser) parse" where
  "parse_block_sequence_entry p =
     and_then (peek p) (\<lambda>(k, p).
     let span = current_span p in
     if k = TBlockEntry then
       and_then (skip p) (\<lambda>p.
       and_then (peek p) (\<lambda>(k, p).
         if k \<in> {TBlockEntry, TBlockEnd}
         then Inr (empty_scalar span, goto SBlockSequenceEntry p)
         else parse_node True False (push_state SBlockSequenceEntry p)))
     else if k = TBlockEnd then
       and_then (skip p) (\<lambda>p. Inr (SequenceEnd span, pop_state p))
     else Inl (scan_error_at ''expected block sequence entry or end'' span))"

definition parse_indentless_sequence_entry :: "parser \<Rightarrow> (event \<times> parser) parse" where
  "parse_indentless_sequence_entry p =
     and_then (peek p) (\<lambda>(k, p).
     let span = current_span p in
     if k = TBlockEntry then
       and_then (skip p) (\<lambda>p.
       and_then (peek p) (\<lambda>(k, p).
         if k \<in> {TBlockEntry, TKey, TValue, TBlockEnd}
         then Inr (empty_scalar span, goto SIndentlessSequenceEntry p)
         else parse_node True False (push_state SIndentlessSequenceEntry p)))
     else Inr (SequenceEnd span, pop_state p))"

definition parse_block_mapping_key :: "parser \<Rightarrow> (event \<times> parser) parse" where
  "parse_block_mapping_key p =
     and_then (peek p) (\<lambda>(k, p).
     let span = current_span p in
     if k = TKey then
       and_then (skip p) (\<lambda>p.
       and_then (peek p) (\<lambda>(k, p).
         if k \<in> {TKey, TValue, TBlockEnd}
         then Inr (empty_scalar span, goto SBlockMappingValue p)
         else parse_node True True (push_state SBlockMappingValue p)))
     else if k = TBlockEnd then
       and_then (skip p) (\<lambda>p. Inr (MappingEnd span, pop_state p))
     else if k = TValue then Inr (empty_scalar span, goto SBlockMappingValue p)
     else if k \<in> {TBlockSequenceStart, TBlockEntry, TBlockMappingStart}
     then Inr (MappingEnd span, pop_state p)
     else Inl (scan_error_at ''expected block mapping key or end'' span))"

definition parse_block_mapping_value :: "parser \<Rightarrow> (event \<times> parser) parse" where
  "parse_block_mapping_value p =
     and_then (peek p) (\<lambda>(k, p).
     let span = current_span p in
     if k = TValue then
       and_then (skip p) (\<lambda>p.
       and_then (peek p) (\<lambda>(k, p).
         if k \<in> {TKey, TValue, TBlockEnd}
         then Inr (empty_scalar span, goto SBlockMappingKey p)
         else parse_node True True (push_state SBlockMappingKey p)))
     else Inr (empty_scalar span, goto SBlockMappingKey p))"

section \<open>Flow collections\<close>

text \<open>The separator in front of an entry that is not the first one.\<close>

definition flow_separator :: "bool \<Rightarrow> token_kind \<Rightarrow> string \<Rightarrow> parser \<Rightarrow> parser parse" where
  "flow_separator is_first closer msg p =
     (if is_first then Inr p
      else and_then (peek p) (\<lambda>(k, p).
             if k = TFlowEntry then skip p
             else if k \<noteq> closer then Inl (scan_error_at msg (current_span p))
             else Inr p))"

definition parse_flow_sequence_entry :: "bool \<Rightarrow> parser \<Rightarrow> (event \<times> parser) parse" where
  "parse_flow_sequence_entry is_first p =
     and_then (flow_separator is_first TFlowSequenceEnd ''expected ',' or ']' in flow sequence'' p) (\<lambda>p.
     and_then (peek p) (\<lambda>(k, p).
     let span = current_span p in
     if k = TFlowSequenceEnd then
       and_then (skip p) (\<lambda>p. Inr (SequenceEnd span, pop_state p))
     else if k = TKey then
       and_then (skip p) (\<lambda>p.
         Inr (MappingStart None None span,
              push_state SFlowSequenceEntry (goto SFlowSequenceEntryMappingKey p)))
     else if k = TValue then
       Inr (MappingStart None None span,
            push_state SFlowSequenceEntry (goto SFlowSequenceEntryMappingKey p))
     else parse_node False False (push_state SFlowSequenceEntry p)))"

definition parse_flow_sequence_entry_mapping_key :: "parser \<Rightarrow> (event \<times> parser) parse" where
  "parse_flow_sequence_entry_mapping_key p =
     and_then (peek p) (\<lambda>(k, p).
     let span = current_span p in
     if k \<in> {TValue, TFlowEntry, TFlowSequenceEnd}
     then Inr (empty_scalar span, goto SFlowSequenceEntryMappingValue p)
     else parse_node False False (push_state SFlowSequenceEntryMappingValue p))"

definition parse_flow_sequence_entry_mapping_value :: "parser \<Rightarrow> (event \<times> parser) parse" where
  "parse_flow_sequence_entry_mapping_value p =
     and_then (peek p) (\<lambda>(k, p).
     let span = current_span p in
     if k = TValue then
       and_then (skip p) (\<lambda>p.
       and_then (peek p) (\<lambda>(k, p).
         if k \<in> {TFlowEntry, TFlowSequenceEnd}
         then Inr (empty_scalar span, goto SFlowSequenceEntryMappingEnd p)
         else parse_node False False (push_state SFlowSequenceEntryMappingEnd p)))
     else Inr (empty_scalar span, goto SFlowSequenceEntryMappingEnd p))"

definition parse_flow_sequence_entry_mapping_end :: "parser \<Rightarrow> (event \<times> parser) parse" where
  "parse_flow_sequence_entry_mapping_end p =
     and_then (peek p) (\<lambda>(_, p). Inr (MappingEnd (current_span p), pop_state p))"

definition parse_flow_mapping_key :: "bool \<Rightarrow> parser \<Rightarrow> (event \<times> parser) parse" where
  "parse_flow_mapping_key is_first p =
     and_then (flow_separator is_first TFlowMappingEnd ''expected ',' or '}' in flow mapping'' p) (\<lambda>p.
     and_then (peek p) (\<lambda>(k, p).
     let span = current_span p in
     if k = TFlowMappingEnd then
       and_then (skip p) (\<lambda>p. Inr (MappingEnd span, pop_state p))
     else if k = TKey then
       and_then (skip p) (\<lambda>p.
       and_then (peek p) (\<lambda>(k, p).
         if k \<in> {TValue, TFlowEntry, TFlowMappingEnd}
         then Inr (empty_scalar (current_span p), goto SFlowMappingValue p)
         else parse_node False False (push_state SFlowMappingValue p)))
     else if k = TValue then Inr (empty_scalar span, goto SFlowMappingValue p)
     else parse_node False False (push_state SFlowMappingEmptyValue p)))"

definition parse_flow_mapping_value :: "bool \<Rightarrow> parser \<Rightarrow> (event \<times> parser) parse" where
  "parse_flow_mapping_value is_empty p =
     and_then (peek p) (\<lambda>(k, p).
     let span = current_span p in
     if is_empty then Inr (empty_scalar span, goto SFlowMappingKey p)
     else if k = TValue then
       and_then (skip p) (\<lambda>p.
       and_then (peek p) (\<lambda>(k, p).
         if k \<in> {TFlowEntry, TFlowMappingEnd}
         then Inr (empty_scalar span, goto SFlowMappingKey p)
         else parse_node False False (push_state SFlowMappingKey p)))
     else Inr (empty_scalar span, goto SFlowMappingKey p))"

section \<open>Dispatch\<close>

fun next_event_in :: "state \<Rightarrow> parser \<Rightarrow> (event \<times> parser) parse" where
  "next_event_in SStreamStart p = parse_stream_start p"
| "next_event_in SImplicitDocumentStart p = parse_document_start True p"
| "next_event_in SDocumentStart p = parse_document_start False p"
| "next_event_in SDocumentContent p = parse_document_content p"
| "next_event_in SDocumentEnd p = parse_document_end p"
| "next_event_in SBlockNode p = parse_node True False p"
| "next_event_in SBlockSequenceFirstEntry p = parse_block_sequence_entry p"
| "next_event_in SBlockSequenceEntry p = parse_block_sequence_entry p"
| "next_event_in SIndentlessSequenceEntry p = parse_indentless_sequence_entry p"
| "next_event_in SBlockMappingFirstKey p = parse_block_mapping_key p"
| "next_event_in SBlockMappingKey p = parse_block_mapping_key p"
| "next_event_in SBlockMappingValue p = parse_block_mapping_value p"
| "next_event_in SFlowSequenceFirstEntry p = parse_flow_sequence_entry True p"
| "next_event_in SFlowSequenceEntry p = parse_flow_sequence_entry False p"
| "next_event_in SFlowSequenceEntryMappingKey p = parse_flow_sequence_entry_mapping_key p"
| "next_event_in SFlowSequenceEntryMappingValue p = parse_flow_sequence_entry_mapping_value p"
| "next_event_in SFlowSequenceEntryMappingEnd p = parse_flow_sequence_entry_mapping_end p"
| "next_event_in SFlowMappingFirstKey p = parse_flow_mapping_key True p"
| "next_event_in SFlowMappingKey p = parse_flow_mapping_key False p"
| "next_event_in SFlowMappingValue p = parse_flow_mapping_value False p"
| "next_event_in SFlowMappingEmptyValue p = parse_flow_mapping_value True p"
| "next_event_in SEnd p = Inl \<lparr>scan_message = Text ''parser has already finished'', scan_index = 0\<rparr>"

definition next_event :: "parser \<Rightarrow> (event \<times> parser) parse" where
  "next_event p = next_event_in (pstate p) p"

section \<open>The grammar of an event stream\<close>

text \<open>
  The specification: an automaton over events.  Its stack has one phase per open collection: a
  sequence that takes items, or a mapping that takes a key (or its end) or the value of a key.
\<close>

datatype phase = InSeq | AtKey | AtValue

datatype doc_phase = BeforeStream | BetweenDocuments | RootPending | RootDone | AfterStream

type_synonym grammar = "doc_phase \<times> phase list"

fun complete_node :: "grammar \<Rightarrow> grammar option" where
  "complete_node (RootPending, []) = Some (RootDone, [])"
| "complete_node (RootDone, InSeq # ps) = Some (RootDone, InSeq # ps)"
| "complete_node (RootDone, AtKey # ps) = Some (RootDone, AtValue # ps)"
| "complete_node (RootDone, AtValue # ps) = Some (RootDone, AtKey # ps)"
| "complete_node _ = None"

definition push_phase :: "phase \<Rightarrow> grammar \<Rightarrow> grammar" where
  "push_phase ph g = (fst g, ph # snd g)"

fun grammar_step :: "grammar \<Rightarrow> event \<Rightarrow> grammar option" where
  "grammar_step g StreamStart = (if g = (BeforeStream, []) then Some (BetweenDocuments, []) else None)"
| "grammar_step g StreamEnd = (if g = (BetweenDocuments, []) then Some (AfterStream, []) else None)"
| "grammar_step g DocumentStart = (if g = (BetweenDocuments, []) then Some (RootPending, []) else None)"
| "grammar_step g DocumentEnd = (if g = (RootDone, []) then Some (BetweenDocuments, []) else None)"
| "grammar_step g (Alias _ _) = complete_node g"
| "grammar_step g (Scalar _ _ _ _ _) = complete_node g"
| "grammar_step g (SequenceStart _ _ _) = map_option (push_phase InSeq) (complete_node g)"
| "grammar_step g (MappingStart _ _ _) = map_option (push_phase AtKey) (complete_node g)"
| "grammar_step g (SequenceEnd _) =
     (case g of (RootDone, InSeq # ps) \<Rightarrow> Some (RootDone, ps) | _ \<Rightarrow> None)"
| "grammar_step g (MappingEnd _) =
     (case g of (RootDone, AtKey # ps) \<Rightarrow> Some (RootDone, ps) | _ \<Rightarrow> None)"

fun grammar_run :: "grammar \<Rightarrow> event list \<Rightarrow> grammar option" where
  "grammar_run g [] = Some g"
| "grammar_run g (e # es) = (case grammar_step g e of None \<Rightarrow> None | Some h \<Rightarrow> grammar_run h es)"

section \<open>The parser's states as phases\<close>

fun frame_phase :: "state \<Rightarrow> phase option" where
  "frame_phase SBlockSequenceFirstEntry = Some InSeq"
| "frame_phase SBlockSequenceEntry = Some InSeq"
| "frame_phase SIndentlessSequenceEntry = Some InSeq"
| "frame_phase SFlowSequenceFirstEntry = Some InSeq"
| "frame_phase SFlowSequenceEntry = Some InSeq"
| "frame_phase SBlockMappingFirstKey = Some AtKey"
| "frame_phase SBlockMappingKey = Some AtKey"
| "frame_phase SFlowMappingFirstKey = Some AtKey"
| "frame_phase SFlowMappingKey = Some AtKey"
| "frame_phase SFlowSequenceEntryMappingKey = Some AtKey"
| "frame_phase SFlowSequenceEntryMappingEnd = Some AtKey"
| "frame_phase SBlockMappingValue = Some AtValue"
| "frame_phase SFlowMappingValue = Some AtValue"
| "frame_phase SFlowMappingEmptyValue = Some AtValue"
| "frame_phase SFlowSequenceEntryMappingValue = Some AtValue"
| "frame_phase _ = None"

text \<open>The return states of an open document: collections down to the end of the document.\<close>

fun stack_phases :: "state list \<Rightarrow> phase list option" where
  "stack_phases [] = None"
| "stack_phases (s # ss) =
     (if s = SDocumentEnd then (if ss = [] then Some [] else None)
      else case frame_phase s of
             None \<Rightarrow> None
           | Some ph \<Rightarrow> map_option (Cons ph) (stack_phases ss))"

fun grammar_at :: "state \<Rightarrow> state list \<Rightarrow> grammar option" where
  "grammar_at SStreamStart ss = (if ss = [] then Some (BeforeStream, []) else None)"
| "grammar_at SImplicitDocumentStart ss = (if ss = [] then Some (BetweenDocuments, []) else None)"
| "grammar_at SDocumentStart ss = (if ss = [] then Some (BetweenDocuments, []) else None)"
| "grammar_at SDocumentContent ss = (if ss = [] then Some (RootPending, []) else None)"
| "grammar_at SBlockNode ss = (if ss = [SDocumentEnd] then Some (RootPending, []) else None)"
| "grammar_at SEnd ss = (if ss = [] then Some (AfterStream, []) else None)"
| "grammar_at s ss = map_option (Pair RootDone) (stack_phases (s # ss))"

definition grammar_of :: "parser \<Rightarrow> grammar option" where
  "grammar_of p = grammar_at (pstate p) (states p)"

definition control :: "parser \<Rightarrow> state \<times> state list" where
  "control p = (pstate p, states p)"

lemma peek_control: "peek p = Inr (k, q) \<Longrightarrow> control q = control p"
  by (auto simp: peek_def control_def split: option.splits list.splits)

lemma take_control: "take_token p = Inr (t, q) \<Longrightarrow> control q = control p"
  by (auto simp: take_token_def control_def split: option.splits list.splits)

lemma skip_control: "skip p = Inr q \<Longrightarrow> control q = control p"
  by (auto simp: skip_def res_simps dest: take_control)

lemma skip_document_ends_control: "skip_document_ends p = Inr q \<Longrightarrow> control q = control p"
proof (induction p rule: skip_document_ends.induct)
  case (1 p)
  from "1.prems" obtain k r where r: "peek p = Inr (k, r)"
    by (subst (asm) skip_document_ends.simps) (auto split: sum.splits)
  show ?case
  proof (cases "k = TDocumentEnd")
    case True
    with "1.prems" r obtain u where u: "skip r = Inr u" "skip_document_ends u = Inr q"
      by (subst (asm) skip_document_ends.simps) (auto split: sum.splits)
    from "1.IH"[OF r refl True u(1) u(2)] show ?thesis
      using skip_control[OF u(1)] peek_control[OF r] by simp
  next
    case False
    with "1.prems" r have "q = r" by (subst (asm) skip_document_ends.simps) auto
    then show ?thesis using peek_control[OF r] by simp
  qed
qed

lemma take_anchor_control: "take_anchor p = Inr (a, q) \<Longrightarrow> control q = control p"
proof -
  assume a: "take_anchor p = Inr (a, q)"
  then obtain k r where r: "peek p = Inr (k, r)" by (auto simp: take_anchor_def res_simps)
  show ?thesis using a r peek_control[OF r]
    by (cases k) (auto simp: take_anchor_def res_simps control_def dest: take_control[unfolded control_def])
qed

lemma take_tag_control: "take_tag p = Inr (t, q) \<Longrightarrow> control q = control p"
proof -
  assume a: "take_tag p = Inr (t, q)"
  then obtain k r where r: "peek p = Inr (k, r)" by (auto simp: take_tag_def res_simps)
  show ?thesis using a r peek_control[OF r]
    by (cases k) (auto simp: take_tag_def res_simps dest: take_control)
qed

lemma properties_control: "parse_node_properties sp p = Inr (props, q) \<Longrightarrow> control q = control p"
  by (auto simp: parse_node_properties_def res_simps split: if_splits
      dest!: take_anchor_control take_tag_control)

lemma flow_separator_control: "flow_separator b c m p = Inr q \<Longrightarrow> control q = control p"
  by (auto simp: flow_separator_def res_simps split: if_splits dest!: peek_control skip_control)

lemmas control_dests =
  peek_control take_control skip_control skip_document_ends_control properties_control
  flow_separator_control

text \<open>What one node event does to the phases its parent has once the node is complete.\<close>

fun after_node :: "event \<Rightarrow> phase list \<Rightarrow> phase list option" where
  "after_node (Alias _ _) ps = Some ps"
| "after_node (Scalar _ _ _ _ _) ps = Some ps"
| "after_node (SequenceStart _ _ _) ps = Some (InSeq # ps)"
| "after_node (MappingStart _ _ _) ps = Some (AtKey # ps)"
| "after_node _ ps = None"

lemma grammar_step_node:
  "\<lbrakk>complete_node g = Some (RootDone, ps); after_node e ps = Some qs\<rbrakk> \<Longrightarrow>
   grammar_step g e = Some (RootDone, qs)"
  by (cases e) (auto simp: push_phase_def)

lemma grammar_at_stack: "stack_phases (s # ss) = Some ps \<Longrightarrow> grammar_at s ss = Some (RootDone, ps)"
  by (cases s) (auto split: if_splits)

lemma pop_state_grammar:
  "stack_phases (states p) = Some ps \<Longrightarrow> grammar_of (pop_state p) = Some (RootDone, ps)"
  by (cases "states p") (auto simp: pop_state_def grammar_of_def grammar_at_stack
      simp del: stack_phases.simps(2))

lemma goto_grammar:
  "stack_phases (s # states p) = Some ps \<Longrightarrow> grammar_of (goto s p) = Some (RootDone, ps)"
  by (auto simp: goto_def grammar_of_def grammar_at_stack simp del: stack_phases.simps)

lemma control_states: "control q = control p \<Longrightarrow> states q = states p \<and> pstate q = pstate p"
  by (simp add: control_def)

lemma open_node_step:
  assumes "open_node st sequence sk props sp p = Inr (e, q)" and "stack_phases (states p) = Some ps"
    and "frame_phase st = Some (if sequence then InSeq else AtKey)"
  shows "\<exists>qs. after_node e ps = Some qs \<and> grammar_of q = Some (RootDone, qs)"
proof -
  obtain r where r: "states r = states p"
    and e: "e = (if sequence then SequenceStart else MappingStart) (np_anchor props) (np_tag props)
       (widen props sp)" "q = goto st r"
    using assms(1) by (auto simp: open_node_def res_simps split: if_splits
        dest!: skip_control control_states)
  have "stack_phases (st # states r) = Some ((if sequence then InSeq else AtKey) # ps)"
    using assms(2,3) r by (auto split: if_splits)
  from goto_grammar[OF this] e show ?thesis by auto
qed

lemma parse_empty_node_step:
  assumes "parse_empty_node props ind sp p = Inr (e, q)" and "stack_phases (states p) = Some ps"
  shows "\<exists>qs. after_node e ps = Some qs \<and> grammar_of q = Some (RootDone, qs)"
  using assms pop_state_grammar[OF assms(2)]
  by (auto simp: parse_empty_node_def res_simps empty_scalar_def split: if_splits)

lemma parse_scalar_node_step:
  assumes "parse_scalar_node props p = Inr (e, q)" and "stack_phases (states p) = Some ps"
  shows "\<exists>qs. after_node e ps = Some qs \<and> grammar_of q = Some (RootDone, qs)"
proof -
  obtain k sp r where r: "take_token p = Inr ((k, sp), r)"
    using assms(1) by (auto simp: parse_scalar_node_def res_simps)
  then have "stack_phases (states r) = Some ps"
    using assms(2) by (auto dest!: take_control control_states)
  from pop_state_grammar[OF this] r assms(1) show ?thesis
    by (auto simp: parse_scalar_node_def split: token_kind.splits)
qed

lemma parse_node_step:
  assumes "parse_node block ind p = Inr (e, q)" and "stack_phases (states p) = Some ps"
  shows "\<exists>qs. after_node e ps = Some qs \<and> grammar_of q = Some (RootDone, qs)"
proof -
  obtain k0 p1 props p2 k r where steps:
    "peek p = Inr (k0, p1)" "parse_node_properties (current_span p1) p1 = Inr (props, p2)"
    "peek p2 = Inr (k, r)"
    using assms(1) by (auto simp: parse_node_def res_simps Let_def)
  then have ps: "stack_phases (states r) = Some ps"
    using assms(2) by (auto dest!: control_dests control_states)
  have rest: "(case k of
       TAlias name \<Rightarrow>
         and_then (take_token r) (\<lambda>((_, alias_span), p). Inr (Alias name alias_span, pop_state p))
     | TScalar _ _ \<Rightarrow> parse_scalar_node props r
     | TFlowSequenceStart \<Rightarrow> open_node SFlowSequenceFirstEntry True True props (current_span r) r
     | TFlowMappingStart \<Rightarrow> open_node SFlowMappingFirstKey False True props (current_span r) r
     | TBlockSequenceStart \<Rightarrow>
         if block then open_node SBlockSequenceFirstEntry True True props (current_span r) r
         else parse_empty_node props ind (current_span p1) r
     | TBlockMappingStart \<Rightarrow>
         if block then open_node SBlockMappingFirstKey False True props (current_span r) r
         else parse_empty_node props ind (current_span p1) r
     | TBlockEntry \<Rightarrow>
         if ind then open_node SIndentlessSequenceEntry True False props (current_span r) r
         else parse_empty_node props ind (current_span p1) r
     | _ \<Rightarrow> parse_empty_node props ind (current_span p1) r) = Inr (e, q)"
    using assms(1) steps by (simp add: parse_node_def Let_def)
  show ?thesis
  proof (cases "\<exists>name. k = TAlias name")
    case True
    then obtain name sp u where u: "take_token r = Inr (sp, u)" "q = pop_state u"
      "\<exists>s. e = Alias name s" using rest by (auto simp: res_simps)
    then have "stack_phases (states u) = Some ps"
      using ps by (auto dest!: take_control control_states)
    from pop_state_grammar[OF this] u show ?thesis by auto
  next
    case False
    then show ?thesis
      using rest parse_scalar_node_step[OF _ ps] parse_empty_node_step[OF _ ps]
        open_node_step[OF _ ps]
      by (cases k) (auto split: if_splits)
  qed
qed

section \<open>Every handler follows the grammar\<close>

definition follows :: "grammar \<Rightarrow> event \<Rightarrow> parser \<Rightarrow> bool" where
  "follows g e q \<longleftrightarrow> (\<exists>h. grammar_step g e = Some h \<and> grammar_of q = Some h)"

lemma follows_node:
  assumes "parse_node b i (push_state s p) = Inr (e, q)"
    and "stack_phases (s # states p) = Some ps" and "complete_node g = Some (RootDone, ps)"
  shows "follows g e q"
proof -
  have "stack_phases (states (push_state s p)) = Some ps"
    using assms(2) by (simp add: push_state_def)
  from parse_node_step[OF assms(1) this] show ?thesis
    using grammar_step_node[OF assms(3)] unfolding follows_def by blast
qed

lemma follows_empty:
  assumes "stack_phases (s # states p) = Some ps" and "complete_node g = Some (RootDone, ps)"
  shows "follows g (empty_scalar sp) (goto s p)"
  using goto_grammar[OF assms(1)] assms(2) by (simp add: follows_def empty_scalar_def)

lemma follows_end:
  assumes "stack_phases (states p) = Some ps"
  shows "follows (RootDone, InSeq # ps) (SequenceEnd sp) (pop_state p)"
    and "follows (RootDone, AtKey # ps) (MappingEnd sp) (pop_state p)"
  using pop_state_grammar[OF assms] by (simp_all add: follows_def)

lemmas handler_simps = res_simps Let_def stack_phases.simps(2)

lemma block_sequence_follows:
  assumes "parse_block_sequence_entry p = Inr (e, q)" and "stack_phases (states p) = Some ps"
  shows "follows (RootDone, InSeq # ps) e q"
  using assms
  by (auto simp: parse_block_sequence_entry_def handler_simps split: if_splits
      dest!: control_dests control_states intro: follows_end follows_empty elim!: follows_node)

lemma indentless_sequence_follows:
  assumes "parse_indentless_sequence_entry p = Inr (e, q)" and "stack_phases (states p) = Some ps"
  shows "follows (RootDone, InSeq # ps) e q"
  using assms
  by (auto simp: parse_indentless_sequence_entry_def handler_simps split: if_splits
      dest!: control_dests control_states intro: follows_end follows_empty elim!: follows_node)

lemma block_mapping_key_follows:
  assumes "parse_block_mapping_key p = Inr (e, q)" and "stack_phases (states p) = Some ps"
  shows "follows (RootDone, AtKey # ps) e q"
  using assms
  by (auto simp: parse_block_mapping_key_def handler_simps split: if_splits
      dest!: control_dests control_states intro: follows_end follows_empty elim!: follows_node)

lemma block_mapping_value_follows:
  assumes "parse_block_mapping_value p = Inr (e, q)" and "stack_phases (states p) = Some ps"
  shows "follows (RootDone, AtValue # ps) e q"
  using assms
  by (auto simp: parse_block_mapping_value_def handler_simps split: if_splits
      dest!: control_dests control_states intro: follows_empty elim!: follows_node)

lemma follows_pair_start:
  assumes "stack_phases (states p) = Some ps"
  shows "follows (RootDone, InSeq # ps) (MappingStart None None sp)
    (push_state SFlowSequenceEntry (goto SFlowSequenceEntryMappingKey p))"
  using assms
  by (simp add: follows_def push_phase_def push_state_def goto_def grammar_of_def)

lemma flow_sequence_follows:
  assumes "parse_flow_sequence_entry b p = Inr (e, q)" and "stack_phases (states p) = Some ps"
  shows "follows (RootDone, InSeq # ps) e q"
  using assms
  by (auto simp: parse_flow_sequence_entry_def handler_simps split: if_splits
      dest!: control_dests control_states intro: follows_end follows_pair_start elim!: follows_node)

lemma pair_key_follows:
  assumes "parse_flow_sequence_entry_mapping_key p = Inr (e, q)" and "stack_phases (states p) = Some ps"
  shows "follows (RootDone, AtKey # ps) e q"
  using assms
  by (auto simp: parse_flow_sequence_entry_mapping_key_def handler_simps split: if_splits
      dest!: control_dests control_states intro: follows_empty elim!: follows_node)

lemma pair_value_follows:
  assumes "parse_flow_sequence_entry_mapping_value p = Inr (e, q)" and "stack_phases (states p) = Some ps"
  shows "follows (RootDone, AtValue # ps) e q"
  using assms
  by (auto simp: parse_flow_sequence_entry_mapping_value_def handler_simps split: if_splits
      dest!: control_dests control_states intro: follows_empty elim!: follows_node)

lemma pair_end_follows:
  assumes "parse_flow_sequence_entry_mapping_end p = Inr (e, q)" and "stack_phases (states p) = Some ps"
  shows "follows (RootDone, AtKey # ps) e q"
  using assms
  by (auto simp: parse_flow_sequence_entry_mapping_end_def handler_simps
      dest!: control_dests control_states intro: follows_end)

lemma flow_mapping_key_follows:
  assumes "parse_flow_mapping_key b p = Inr (e, q)" and "stack_phases (states p) = Some ps"
  shows "follows (RootDone, AtKey # ps) e q"
  using assms
  by (auto simp: parse_flow_mapping_key_def handler_simps split: if_splits
      dest!: control_dests control_states intro: follows_end follows_empty elim!: follows_node)

lemma flow_mapping_value_follows:
  assumes "parse_flow_mapping_value b p = Inr (e, q)" and "stack_phases (states p) = Some ps"
  shows "follows (RootDone, AtValue # ps) e q"
  using assms
  by (auto simp: parse_flow_mapping_value_def handler_simps split: if_splits
      dest!: control_dests control_states intro: follows_empty elim!: follows_node)

lemma document_start_follows:
  assumes "parse_document_start implicit p = Inr (e, q)" and "states p = []"
  shows "follows (BetweenDocuments, []) e q"
  using assms
  by (auto simp: parse_document_start_def handler_simps follows_def grammar_of_def goto_def
      push_state_def split: if_splits dest!: control_dests control_states)

lemma document_content_follows:
  assumes "parse_document_content p = Inr (e, q)" and "states p = []"
  shows "follows (RootPending, []) e q"
  using assms
  by (auto simp: parse_document_content_def handler_simps split: if_splits
      dest!: control_dests control_states intro: follows_empty elim!: follows_node)

lemma document_end_follows:
  assumes "parse_document_end p = Inr (e, q)" and "states p = []"
  shows "follows (RootDone, []) e q"
  using assms
  by (auto simp: parse_document_end_def handler_simps follows_def grammar_of_def split: if_splits
      dest!: control_dests control_states)

lemma stream_start_follows:
  assumes "parse_stream_start p = Inr (e, q)" and "states p = []"
  shows "follows (BeforeStream, []) e q"
  using assms
  by (auto simp: parse_stream_start_def res_simps follows_def grammar_of_def goto_def
      dest!: control_dests control_states)

lemma root_node_follows:
  assumes "parse_node True False p = Inr (e, q)" and "states p = [SDocumentEnd]"
  shows "follows (RootPending, []) e q"
proof -
  have "stack_phases (states p) = Some []" using assms(2) by simp
  from parse_node_step[OF assms(1) this] show ?thesis
    using grammar_step_node[of "(RootPending, [])" "[]" e] unfolding follows_def by auto
qed

lemmas handler_follows =
  stream_start_follows document_start_follows document_content_follows document_end_follows
  root_node_follows block_sequence_follows indentless_sequence_follows block_mapping_key_follows
  block_mapping_value_follows flow_sequence_follows pair_key_follows pair_value_follows
  pair_end_follows flow_mapping_key_follows flow_mapping_value_follows

lemma next_event_follows:
  assumes "next_event p = Inr (e, q)" and "grammar_of p = Some g"
  shows "follows g e q"
  using assms
  by (cases "pstate p")
     (auto simp: next_event_def grammar_of_def split: if_splits dest: handler_follows)

section \<open>Runs of the parser\<close>

text \<open>The caller's loop: events until the first error, at most \<open>n\<close> of them.\<close>

fun parse_events :: "nat \<Rightarrow> parser \<Rightarrow> event list \<times> scan_error option \<times> parser" where
  "parse_events 0 p = ([], None, p)"
| "parse_events (Suc n) p =
     (case next_event p of
        Inl e \<Rightarrow> ([], Some e, p)
      | Inr (ev, q) \<Rightarrow> (case parse_events n q of (es, err, r) \<Rightarrow> (ev # es, err, r)))"

lemma parse_events_grammar:
  "\<lbrakk>grammar_of p = Some g; parse_events n p = (es, err, q)\<rbrakk> \<Longrightarrow>
   grammar_run g es = grammar_of q \<and> grammar_of q \<noteq> None"
proof (induction n p arbitrary: g es err q rule: parse_events.induct)
  case (2 n p)
  show ?case
  proof (cases "next_event p")
    case (Inl e)
    then show ?thesis using "2.prems" by auto
  next
    case (Inr a)
    then obtain ev p' where ev: "next_event p = Inr (ev, p')" by (cases a) auto
    obtain es' where es': "parse_events n p' = (es', err, q)" "es = ev # es'"
      using "2.prems"(2) ev by (auto split: prod.splits)
    obtain h where h: "grammar_step g ev = Some h" "grammar_of p' = Some h"
      using next_event_follows[OF ev "2.prems"(1)] by (auto simp: follows_def)
    show ?thesis using "2.IH"[OF ev refl h(2) es'(1)] h(1) es'(2) by simp
  qed
qed auto

text \<open>
  C8.  The events of any token sequence, however malformed, obey the grammar of an event stream:
  the stream and each document start and end once and in order, a document has one root, every
  collection that ends is the innermost open one and of the same kind, and a mapping ends only
  after a value.  What ends the run early is an error, never an ungrammatical event.
\<close>

theorem parser_events_grammatical:
  "case parse_events n (parser_new tokens err) of
     (es, status, q) \<Rightarrow> \<exists>g. grammar_run (BeforeStream, []) es = Some g \<and> grammar_of q = Some g"
proof -
  have "grammar_of (parser_new tokens err) = Some (BeforeStream, [])"
    by (simp add: parser_new_def grammar_of_def)
  from parse_events_grammar[OF this] show ?thesis by (auto split: prod.split)
qed

section \<open>Every run ends\<close>

text \<open>
  A measure on parsers that every event decreases.  A token is worth eight; a state is worth the
  events it may still produce without taking a token, which depends on the token it looks at.
\<close>

definition head_kind :: "parser \<Rightarrow> token_kind option" where
  "head_kind p =
     (case current_kind p of
        Some k \<Rightarrow> Some k
      | None \<Rightarrow> (case scanner p of [] \<Rightarrow> None | t # _ \<Rightarrow> Some (tok_kind t)))"

fun state_weight :: "bool \<Rightarrow> token_kind option \<Rightarrow> state \<Rightarrow> nat" where
  "state_weight ended k SImplicitDocumentStart = 2"
| "state_weight ended k SDocumentStart = (if ended then 0 else 3)"
| "state_weight ended k SDocumentContent = 2"
| "state_weight ended k SDocumentEnd = 1"
| "state_weight ended k SIndentlessSequenceEntry = 1"
| "state_weight ended k SBlockMappingFirstKey = (if k = Some TValue then 3 else 1)"
| "state_weight ended k SBlockMappingKey = (if k = Some TValue then 3 else 1)"
| "state_weight ended k SBlockMappingValue = 2"
| "state_weight ended k SFlowSequenceFirstEntry = 4"
| "state_weight ended k SFlowSequenceEntryMappingKey = 3"
| "state_weight ended k SFlowSequenceEntryMappingValue = 2"
| "state_weight ended k SFlowSequenceEntryMappingEnd = 1"
| "state_weight ended k SFlowMappingFirstKey = 2"
| "state_weight ended k SFlowMappingValue = 1"
| "state_weight ended k SFlowMappingEmptyValue = 1"
| "state_weight ended k _ = 0"

definition stacked :: "state \<Rightarrow> nat" where
  "stacked s = state_weight False (Some TValue) s"

definition stack_weight :: "parser \<Rightarrow> nat" where
  "stack_weight p = sum_list (map stacked (states p))"

definition current_weight :: "parser \<Rightarrow> nat" where
  "current_weight p = state_weight (first_document_ended p) (head_kind p) (pstate p)"

definition potential :: "parser \<Rightarrow> nat" where
  "potential p = 8 * tokens_left p + current_weight p + stack_weight p"

lemma measure_updates [simp]:
  "tokens_left (p\<lparr>pstate := s\<rparr>) = tokens_left p" "tokens_left (p\<lparr>states := ss\<rparr>) = tokens_left p"
  "tokens_left (p\<lparr>marks := m\<rparr>) = tokens_left p" "tokens_left (p\<lparr>next_anchor_id := i\<rparr>) = tokens_left p"
  "tokens_left (p\<lparr>first_document_ended := b\<rparr>) = tokens_left p"
  "stack_weight (p\<lparr>pstate := s\<rparr>) = stack_weight p"
  "stack_weight (p\<lparr>states := ss\<rparr>) = sum_list (map stacked ss)"
  "stack_weight (p\<lparr>marks := m\<rparr>) = stack_weight p" "stack_weight (p\<lparr>next_anchor_id := i\<rparr>) = stack_weight p"
  "stack_weight (p\<lparr>first_document_ended := b\<rparr>) = stack_weight p"
  by (simp_all add: tokens_left_def stack_weight_def)

lemma state_weight_stacked: "state_weight b k s \<le> stacked s"
  by (cases s) (auto simp: stacked_def)

lemma state_weight_4: "state_weight b k s \<le> 4"
  by (cases s) auto

lemma peek_facts:
  "peek p = Inr (k, q) \<Longrightarrow>
   tokens_left q = tokens_left p \<and> stack_weight q = stack_weight p \<and> head_kind q = Some k
   \<and> head_kind p = Some k \<and> pstate q = pstate p \<and> first_document_ended q = first_document_ended p
   \<and> 0 < tokens_left q"
  by (auto simp: peek_def tokens_left_def stack_weight_def head_kind_def split: option.splits list.splits)

lemma take_facts:
  "take_token p = Inr (t, q) \<Longrightarrow>
   Suc (tokens_left q) = tokens_left p \<and> stack_weight q = stack_weight p \<and> pstate q = pstate p
   \<and> first_document_ended q = first_document_ended p"
  by (auto simp: take_token_def tokens_left_def stack_weight_def split: option.splits list.splits)

lemma skip_facts:
  "skip p = Inr q \<Longrightarrow>
   Suc (tokens_left q) = tokens_left p \<and> stack_weight q = stack_weight p \<and> pstate q = pstate p
   \<and> first_document_ended q = first_document_ended p"
  by (auto simp: skip_def res_simps dest: take_facts)

lemma skip_document_ends_facts:
  "skip_document_ends p = Inr q \<Longrightarrow>
   tokens_left q \<le> tokens_left p \<and> stack_weight q = stack_weight p \<and> pstate q = pstate p
   \<and> first_document_ended q = first_document_ended p"
proof (induction p rule: skip_document_ends.induct)
  case (1 p)
  from "1.prems" obtain k r where r: "peek p = Inr (k, r)"
    by (subst (asm) skip_document_ends.simps) (auto split: sum.splits)
  show ?case
  proof (cases "k = TDocumentEnd")
    case True
    with "1.prems" r obtain u where u: "skip r = Inr u" "skip_document_ends u = Inr q"
      by (subst (asm) skip_document_ends.simps) (auto split: sum.splits)
    from "1.IH"[OF r refl True u(1) u(2)] show ?thesis
      using skip_facts[OF u(1)] peek_facts[OF r] by simp
  next
    case False
    with "1.prems" r have "q = r" by (subst (asm) skip_document_ends.simps) auto
    then show ?thesis using peek_facts[OF r] by simp
  qed
qed

lemma take_anchor_facts:
  "take_anchor p = Inr (a, q) \<Longrightarrow>
   tokens_left q + (if a = None then 0 else 1) = tokens_left p \<and> stack_weight q = stack_weight p"
proof -
  assume a: "take_anchor p = Inr (a, q)"
  then obtain k r where r: "peek p = Inr (k, r)" by (auto simp: take_anchor_def res_simps)
  have tok: "tokens_left (u\<lparr>marks := m, next_anchor_id := i\<rparr>) = tokens_left u"
    "stack_weight (u\<lparr>marks := m, next_anchor_id := i\<rparr>) = stack_weight u" for u m i
    by (simp_all add: tokens_left_def stack_weight_def)
  show ?thesis using a r peek_facts[OF r]
    by (cases k) (auto simp: take_anchor_def res_simps tok dest!: take_facts)
qed

lemma take_tag_facts:
  "take_tag p = Inr (t, q) \<Longrightarrow>
   tokens_left q + (if t = None then 0 else 1) = tokens_left p \<and> stack_weight q = stack_weight p"
proof -
  assume a: "take_tag p = Inr (t, q)"
  then obtain k r where r: "peek p = Inr (k, r)" by (auto simp: take_tag_def res_simps)
  show ?thesis using a r peek_facts[OF r]
    by (cases k) (auto simp: take_tag_def res_simps dest!: take_facts)
qed

lemma properties_facts:
  "parse_node_properties sp p = Inr (props, q) \<Longrightarrow>
   tokens_left q + (if np_start props = None then 0 else 1) \<le> tokens_left p
   \<and> stack_weight q = stack_weight p"
  by (auto simp: parse_node_properties_def res_simps split: if_splits
      dest!: take_anchor_facts take_tag_facts)

lemma pop_facts:
  "tokens_left (pop_state p) = tokens_left p"
  "current_weight (pop_state p) + stack_weight (pop_state p) \<le> stack_weight p"
  using state_weight_stacked
  by (auto simp: pop_state_def tokens_left_def current_weight_def stack_weight_def split: list.splits)

lemma push_facts:
  "tokens_left (push_state s p) = tokens_left p" "stack_weight (push_state s p) = stacked s + stack_weight p"
  by (simp_all add: push_state_def tokens_left_def stack_weight_def)

lemma goto_facts:
  "tokens_left (goto s p) = tokens_left p" "stack_weight (goto s p) = stack_weight p"
  "current_weight (goto s p) = state_weight (first_document_ended p) (head_kind p) s"
  by (simp_all add: goto_def tokens_left_def stack_weight_def current_weight_def head_kind_def
      split: option.split list.split)

text \<open>A node takes a token, unless it may be empty, and leaves at most four extra.\<close>

definition cheap :: "bool \<Rightarrow> parser \<Rightarrow> parser \<Rightarrow> bool" where
  "cheap may_be_empty p q \<longleftrightarrow>
     tokens_left q + (if may_be_empty then 0 else 1) \<le> tokens_left p
     \<and> current_weight q + stack_weight q \<le> stack_weight p + 4"

lemma open_node_cheap:
  assumes "open_node st sequence sk props sp p = Inr (e, q)"
  shows "cheap (\<not> sk) p q"
  using assms state_weight_4
  by (auto simp: open_node_def res_simps cheap_def goto_facts add.commute split: if_splits
      dest!: skip_facts)

lemma parse_empty_node_cheap:
  assumes "parse_empty_node props ind sp p = Inr (e, q)"
  shows "cheap True p q \<and> (ind \<or> np_start props \<noteq> None)"
  using assms pop_facts[of p]
  by (auto simp: parse_empty_node_def res_simps cheap_def split: if_splits)

lemma parse_scalar_node_cheap:
  assumes "parse_scalar_node props p = Inr (e, q)"
  shows "cheap False p q"
proof -
  obtain k sp r where r: "take_token p = Inr ((k, sp), r)"
    using assms by (auto simp: parse_scalar_node_def res_simps)
  then have "q = pop_state r" using assms by (cases k) (auto simp: parse_scalar_node_def)
  then show ?thesis using take_facts[OF r] pop_facts[of r] by (auto simp: cheap_def)
qed

lemma parse_node_cheap:
  assumes "parse_node block ind p = Inr (e, q)"
  shows "cheap ind p q"
proof -
  obtain k0 p1 props p2 k r where steps:
    "peek p = Inr (k0, p1)" "parse_node_properties (current_span p1) p1 = Inr (props, p2)"
    "peek p2 = Inr (k, r)"
    using assms by (auto simp: parse_node_def res_simps Let_def)
  then have r: "tokens_left r + (if np_start props = None then 0 else 1) \<le> tokens_left p"
    "stack_weight r = stack_weight p"
    by (auto dest!: peek_facts properties_facts split: if_splits)
  have empty: "cheap ind p q" if "parse_empty_node props ind (current_span p1) r = Inr (e, q)"
    using parse_empty_node_cheap[OF that] r by (auto simp: cheap_def split: if_splits)
  have opened: "cheap ind p q"
    if "open_node st sequence sk props sp r = Inr (e, q)" "sk \<or> ind" for st sequence sk sp
    using open_node_cheap[OF that(1)] that(2) r by (auto simp: cheap_def split: if_splits)
  have scalar: "cheap ind p q" if "parse_scalar_node props r = Inr (e, q)"
    using parse_scalar_node_cheap[OF that] r by (auto simp: cheap_def split: if_splits)
  show ?thesis
  proof (cases "\<exists>name. k = TAlias name")
    case True
    then obtain sp u where u: "take_token r = Inr (sp, u)" "q = pop_state u"
      using assms steps by (auto simp: parse_node_def Let_def res_simps)
    then show ?thesis
      using take_facts[OF u(1)] pop_facts[of u] r by (auto simp: cheap_def split: if_splits)
  next
    case False
    then show ?thesis
      using assms steps empty opened scalar
      by (cases k) (auto simp: parse_node_def Let_def split: if_splits)
  qed
qed

lemma potential_node:
  assumes "parse_node b i (push_state s r) = Inr (e, q)"
  shows "potential q + (if i then 0 else 8) \<le> 8 * tokens_left r + stacked s + stack_weight r + 4"
  using parse_node_cheap[OF assms] by (auto simp: cheap_def push_facts potential_def split: if_splits)

lemma potential_pop: "potential (pop_state p) \<le> 8 * tokens_left p + stack_weight p"
  using pop_facts[of p] by (simp add: potential_def)

lemma potential_goto:
  "potential (goto s p)
     = 8 * tokens_left p + state_weight (first_document_ended p) (head_kind p) s + stack_weight p"
  by (simp add: goto_facts potential_def)

lemma potential_at:
  "pstate p = s \<Longrightarrow> potential p
     = 8 * tokens_left p + state_weight (first_document_ended p) (head_kind p) s + stack_weight p"
  by (simp add: current_weight_def potential_def)

text \<open>The part most entries share: take the indicator, then an empty node or a real one.\<close>

definition entry ::
  "token_kind set \<Rightarrow> (parser \<Rightarrow> span) \<Rightarrow> state \<Rightarrow> bool \<Rightarrow> bool \<Rightarrow> parser \<Rightarrow> (event \<times> parser) parse" where
  "entry ends sp s b i p =
     and_then (skip p) (\<lambda>p. and_then (peek p) (\<lambda>(k, p).
       if k \<in> ends then Inr (empty_scalar (sp p), goto s p) else parse_node b i (push_state s p)))"

lemma entry_decreases:
  assumes "entry ends sp s b i p = Inr (e, q)"
  shows "potential q + 4 \<le> 8 * tokens_left p + stack_weight p + stacked s"
proof -
  obtain r k t where r: "skip p = Inr r" "peek r = Inr (k, t)"
    using assms by (auto simp: entry_def res_simps)
  show ?thesis
  proof (cases "k \<in> ends")
    case True
    then have "q = goto s t" using assms r by (simp add: entry_def)
    then show ?thesis
      using skip_facts[OF r(1)] peek_facts[OF r(2)]
        state_weight_stacked[of "first_document_ended t" "head_kind t" s]
      by (simp add: potential_goto)
  next
    case False
    then have "parse_node b i (push_state s t) = Inr (e, q)" using assms r by (simp add: entry_def)
    from potential_node[OF this] show ?thesis
      using skip_facts[OF r(1)] peek_facts[OF r(2)] by (simp split: if_splits)
  qed
qed

lemma skip_end_decreases:
  assumes "and_then (skip p) (\<lambda>r. Inr (ev, pop_state r)) = Inr (e, q)"
  shows "potential q < 8 * tokens_left p + stack_weight p"
  using assms by (auto simp: res_simps dest!: skip_facts intro: le_less_trans[OF potential_pop])

lemma peek_then:
  assumes "and_then (peek p) f = Inr (e, q)"
  obtains k r where "peek p = Inr (k, r)" "f (k, r) = Inr (e, q)"
  using assms by (auto simp: res_simps)

lemma block_sequence_decreases:
  assumes "parse_block_sequence_entry p = Inr (e, q)"
  shows "potential q < potential p"
proof -
  obtain k r where r: "peek p = Inr (k, r)" and
    c: "(if k = TBlockEntry
         then entry {TBlockEntry, TBlockEnd} (\<lambda>_. current_span r) SBlockSequenceEntry True False r
         else if k = TBlockEnd then and_then (skip r) (\<lambda>p. Inr (SequenceEnd (current_span r), pop_state p))
         else Inl (scan_error_at ''expected block sequence entry or end'' (current_span r))) = Inr (e, q)"
    using assms unfolding parse_block_sequence_entry_def Let_def entry_def
    by (rule peek_then) simp
  then show ?thesis
    using peek_facts[OF r]
    by (auto simp: potential_def[of p] stacked_def split: if_splits
        dest!: entry_decreases skip_end_decreases)
qed

lemma indentless_sequence_decreases:
  assumes "parse_indentless_sequence_entry p = Inr (e, q)" and "pstate p = SIndentlessSequenceEntry"
  shows "potential q < potential p"
proof -
  obtain k r where r: "peek p = Inr (k, r)" and
    c: "(if k = TBlockEntry
         then entry {TBlockEntry, TKey, TValue, TBlockEnd} (\<lambda>_. current_span r)
           SIndentlessSequenceEntry True False r
         else Inr (SequenceEnd (current_span r), pop_state r)) = Inr (e, q)"
    using assms(1) unfolding parse_indentless_sequence_entry_def Let_def entry_def
    by (rule peek_then) simp
  then show ?thesis
    using peek_facts[OF r] potential_pop[of r]
    by (auto simp: potential_at[OF assms(2)] stacked_def split: if_splits dest!: entry_decreases)
qed

lemma block_mapping_key_decreases:
  assumes "parse_block_mapping_key p = Inr (e, q)"
    and "pstate p \<in> {SBlockMappingFirstKey, SBlockMappingKey}"
  shows "potential q < potential p"
proof -
  obtain k r where r: "peek p = Inr (k, r)" and
    c: "(if k = TKey
         then entry {TKey, TValue, TBlockEnd} (\<lambda>_. current_span r) SBlockMappingValue True True r
         else if k = TBlockEnd then and_then (skip r) (\<lambda>p. Inr (MappingEnd (current_span r), pop_state p))
         else if k = TValue then Inr (empty_scalar (current_span r), goto SBlockMappingValue r)
         else if k \<in> {TBlockSequenceStart, TBlockEntry, TBlockMappingStart}
         then Inr (MappingEnd (current_span r), pop_state r)
         else Inl (scan_error_at ''expected block mapping key or end'' (current_span r))) = Inr (e, q)"
    using assms(1) unfolding parse_block_mapping_key_def Let_def entry_def
    by (rule peek_then) simp
  have p: "potential p = 8 * tokens_left p + (if head_kind p = Some TValue then 3 else 1) + stack_weight p"
    using assms(2) by (auto simp: potential_at)
  show ?thesis
    using c peek_facts[OF r] potential_pop[of r] unfolding p
    by (auto simp: stacked_def potential_goto split: if_splits
        dest!: entry_decreases skip_end_decreases)
qed

lemma block_mapping_value_decreases:
  assumes "parse_block_mapping_value p = Inr (e, q)" and "pstate p = SBlockMappingValue"
  shows "potential q < potential p"
proof -
  obtain k r where r: "peek p = Inr (k, r)" and
    c: "(if k = TValue
         then entry {TKey, TValue, TBlockEnd} (\<lambda>_. current_span r) SBlockMappingKey True True r
         else Inr (empty_scalar (current_span r), goto SBlockMappingKey r)) = Inr (e, q)"
    using assms(1) unfolding parse_block_mapping_value_def Let_def entry_def
    by (rule peek_then) simp
  then show ?thesis
    using peek_facts[OF r]
    by (auto simp: potential_at[OF assms(2)] potential_goto stacked_def split: if_splits
        dest!: entry_decreases)
qed

lemma flow_separator_facts:
  "flow_separator is_first c m p = Inr q \<Longrightarrow>
   stack_weight q = stack_weight p \<and> tokens_left q \<le> tokens_left p
   \<and> (is_first \<longrightarrow> q = p) \<and> (tokens_left q = tokens_left p \<longrightarrow> is_first \<or> head_kind q = Some c)"
  by (auto simp: flow_separator_def res_simps split: if_splits dest!: peek_facts skip_facts)

lemma separator_then:
  assumes "and_then (flow_separator b c m p) (\<lambda>p. and_then (peek p) (f p)) = Inr (e, q)"
  obtains r k t where "flow_separator b c m p = Inr r" "peek r = Inr (k, t)" "f r (k, t) = Inr (e, q)"
  using assms by (auto simp: res_simps)

lemma pair_start_potential:
  "potential (push_state SFlowSequenceEntry (goto SFlowSequenceEntryMappingKey p))
     = 8 * tokens_left p + 3 + stack_weight p"
  by (simp add: potential_def stacked_def current_weight_def push_state_def goto_def
      stack_weight_def[symmetric])

lemma flow_sequence_decreases:
  assumes "parse_flow_sequence_entry is_first p = Inr (e, q)"
    and "is_first \<longrightarrow> pstate p = SFlowSequenceFirstEntry"
  shows "potential q < potential p"
proof -
  obtain r k t where s: "flow_separator is_first TFlowSequenceEnd ''expected ',' or ']' in flow sequence'' p = Inr r"
    and r: "peek r = Inr (k, t)" and
    c: "(if k = TFlowSequenceEnd
         then and_then (skip t) (\<lambda>p. Inr (SequenceEnd (current_span t), pop_state p))
         else if k = TKey
         then and_then (skip t) (\<lambda>p. Inr (MappingStart None None (current_span t),
                push_state SFlowSequenceEntry (goto SFlowSequenceEntryMappingKey p)))
         else if k = TValue
         then Inr (MappingStart None None (current_span t),
                push_state SFlowSequenceEntry (goto SFlowSequenceEntryMappingKey t))
         else parse_node False False (push_state SFlowSequenceEntry t)) = Inr (e, q)"
    using assms(1) unfolding parse_flow_sequence_entry_def Let_def
    by (rule separator_then) simp
  have p: "8 * tokens_left p + (if is_first then 4 else 0) + stack_weight p \<le> potential p"
    using assms(2) by (auto simp: potential_def current_weight_def)
  have sep: "tokens_left t + (if is_first \<or> k = TFlowSequenceEnd then 0 else 1) \<le> tokens_left p"
    "stack_weight t = stack_weight p"
    using flow_separator_facts[OF s] peek_facts[OF r] by (auto split: if_splits)
  show ?thesis
    using c sep p
    by (auto simp: stacked_def pair_start_potential res_simps split: if_splits
        dest!: potential_node skip_facts intro: le_less_trans[OF potential_pop])
qed

lemma flow_mapping_key_decreases:
  assumes "parse_flow_mapping_key is_first p = Inr (e, q)"
    and "is_first \<longrightarrow> pstate p = SFlowMappingFirstKey"
  shows "potential q < potential p"
proof -
  obtain r k t where s: "flow_separator is_first TFlowMappingEnd ''expected ',' or '}' in flow mapping'' p = Inr r"
    and r: "peek r = Inr (k, t)" and
    c: "(if k = TFlowMappingEnd
         then and_then (skip t) (\<lambda>p. Inr (MappingEnd (current_span t), pop_state p))
         else if k = TKey
         then entry {TValue, TFlowEntry, TFlowMappingEnd} current_span SFlowMappingValue False False t
         else if k = TValue then Inr (empty_scalar (current_span t), goto SFlowMappingValue t)
         else parse_node False False (push_state SFlowMappingEmptyValue t)) = Inr (e, q)"
    using assms(1) unfolding parse_flow_mapping_key_def Let_def entry_def
    by (rule separator_then) simp
  have p: "8 * tokens_left p + (if is_first then 2 else 0) + stack_weight p \<le> potential p"
    using assms(2) by (auto simp: potential_def current_weight_def)
  have sep: "tokens_left t + (if is_first \<or> k = TFlowMappingEnd then 0 else 1) \<le> tokens_left p"
    "stack_weight t = stack_weight p"
    using flow_separator_facts[OF s] peek_facts[OF r] by (auto split: if_splits)
  show ?thesis
    using c sep p
    by (auto simp: stacked_def potential_goto split: if_splits
        dest!: skip_end_decreases potential_node entry_decreases)
qed

lemma pair_key_decreases:
  assumes "parse_flow_sequence_entry_mapping_key p = Inr (e, q)"
    and "pstate p = SFlowSequenceEntryMappingKey"
  shows "potential q < potential p"
  using assms(1) unfolding parse_flow_sequence_entry_mapping_key_def Let_def
  by (elim peek_then)
     (auto simp: potential_at[OF assms(2)] potential_goto stacked_def split: if_splits
       dest!: potential_node peek_facts)

lemma pair_value_decreases:
  assumes "parse_flow_sequence_entry_mapping_value p = Inr (e, q)"
    and "pstate p = SFlowSequenceEntryMappingValue"
  shows "potential q < potential p"
proof -
  obtain k r where r: "peek p = Inr (k, r)" and
    c: "(if k = TValue
         then entry {TFlowEntry, TFlowSequenceEnd} (\<lambda>_. current_span r)
           SFlowSequenceEntryMappingEnd False False r
         else Inr (empty_scalar (current_span r), goto SFlowSequenceEntryMappingEnd r)) = Inr (e, q)"
    using assms(1) unfolding parse_flow_sequence_entry_mapping_value_def Let_def entry_def
    by (rule peek_then) simp
  then show ?thesis
    using peek_facts[OF r]
    by (auto simp: potential_at[OF assms(2)] potential_goto stacked_def split: if_splits
        dest!: entry_decreases)
qed

lemma pair_end_decreases:
  assumes "parse_flow_sequence_entry_mapping_end p = Inr (e, q)"
    and "pstate p = SFlowSequenceEntryMappingEnd"
  shows "potential q < potential p"
  using assms(1) unfolding parse_flow_sequence_entry_mapping_end_def
  by (elim peek_then)
     (auto simp: potential_at[OF assms(2)] dest!: peek_facts intro: le_less_trans[OF potential_pop])

lemma flow_mapping_value_decreases:
  assumes "parse_flow_mapping_value is_empty p = Inr (e, q)"
    and "pstate p = (if is_empty then SFlowMappingEmptyValue else SFlowMappingValue)"
  shows "potential q < potential p"
proof -
  obtain k r where r: "peek p = Inr (k, r)" and
    c: "(if is_empty then Inr (empty_scalar (current_span r), goto SFlowMappingKey r)
         else if k = TValue
         then entry {TFlowEntry, TFlowMappingEnd} (\<lambda>_. current_span r) SFlowMappingKey False False r
         else Inr (empty_scalar (current_span r), goto SFlowMappingKey r)) = Inr (e, q)"
    using assms(1) unfolding parse_flow_mapping_value_def Let_def entry_def
    by (rule peek_then) simp
  have p: "potential p = 8 * tokens_left p + 1 + stack_weight p"
    using assms(2) by (simp add: potential_def current_weight_def)
  show ?thesis
    using c peek_facts[OF r] unfolding p
    by (auto simp: potential_goto stacked_def split: if_splits dest!: entry_decreases)
qed

lemma document_start_decreases:
  assumes "parse_document_start implicit p = Inr (e, q)"
    and "pstate p = (if implicit then SImplicitDocumentStart else SDocumentStart)"
  shows "potential q < potential p"
proof -
  obtain r k t where s: "skip_document_ends p = Inr r" "peek r = Inr (k, t)" and
    c: "(if k = TStreamEnd then and_then (skip t) (\<lambda>p. Inr (StreamEnd, goto SEnd p))
         else if k = TDocumentStart
         then and_then (skip t) (\<lambda>p. Inr (DocumentStart, goto SDocumentContent p))
         else if first_document_ended t then Inl (scan_error_at stray_content (current_span t))
         else if implicit then Inr (DocumentStart, push_state SDocumentEnd (goto SBlockNode t))
         else Inr (DocumentStart, goto SDocumentContent t)) = Inr (e, q)"
    using assms(1) by (auto simp: parse_document_start_def res_simps)
  have sep: "tokens_left t \<le> tokens_left p" "stack_weight t = stack_weight p"
    "first_document_ended t = first_document_ended p"
    using skip_document_ends_facts[OF s(1)] peek_facts[OF s(2)] by auto
  have p: "potential p = 8 * tokens_left p + stack_weight p
      + (if implicit then 2 else if first_document_ended p then 0 else 3)"
    using assms(2) by (simp add: potential_def current_weight_def)
  have i: "potential (push_state SDocumentEnd (goto SBlockNode t)) = 8 * tokens_left t + 1 + stack_weight t"
    by (simp add: potential_def stacked_def current_weight_def push_state_def goto_def
        stack_weight_def[symmetric])
  show ?thesis
    using c sep unfolding p
    by (auto simp: res_simps potential_goto i split: if_splits dest!: skip_facts)
qed

lemma document_content_decreases:
  assumes "parse_document_content p = Inr (e, q)" and "pstate p = SDocumentContent"
  shows "potential q < potential p"
  using assms(1) unfolding parse_document_content_def Let_def
  by (elim peek_then)
     (auto simp: potential_at[OF assms(2)] potential_goto stacked_def split: if_splits
       dest!: potential_node peek_facts)

lemma document_end_decreases:
  assumes "parse_document_end p = Inr (e, q)" and "pstate p = SDocumentEnd"
  shows "potential q < potential p"
proof -
  obtain k r where r: "peek p = Inr (k, r)" and
    c: "and_then (if k = TDocumentEnd then skip r else Inr r) (\<lambda>p.
       Inr (DocumentEnd,
            p\<lparr>marks := [], next_anchor_id := 0, pstate := SDocumentStart,
              first_document_ended := (first_document_ended p \<or> k \<noteq> TDocumentEnd)\<rparr>)) = Inr (e, q)"
    using assms(1) unfolding parse_document_end_def Let_def by (rule peek_then) simp
  have d: "pstate t = SDocumentStart \<Longrightarrow> potential t = 8 * tokens_left t
      + (if first_document_ended t then 0 else 3) + stack_weight t" for t
    by (simp add: potential_def current_weight_def)
  show ?thesis
    using c peek_facts[OF r]
    by (auto simp: potential_at[OF assms(2)] d res_simps split: if_splits dest!: skip_facts)
qed

lemma stream_start_decreases:
  assumes "parse_stream_start p = Inr (e, q)"
  shows "potential q < potential p"
  using assms
  by (auto simp: parse_stream_start_def res_simps potential_goto potential_def[of p] dest!: skip_facts)

lemma block_node_decreases:
  assumes "parse_node True False p = Inr (e, q)"
  shows "potential q < potential p"
  using parse_node_cheap[OF assms] by (simp add: cheap_def potential_def)

lemma next_event_decreases:
  assumes "next_event p = Inr (e, q)"
  shows "potential q < potential p"
  using assms
  by (cases "pstate p")
     (auto simp: next_event_def intro: stream_start_decreases document_content_decreases
       document_end_decreases block_node_decreases block_sequence_decreases
       indentless_sequence_decreases block_mapping_value_decreases pair_key_decreases
       pair_value_decreases pair_end_decreases
       document_start_decreases[where implicit = True] document_start_decreases[where implicit = False]
       block_mapping_key_decreases
       flow_sequence_decreases[where is_first = True] flow_sequence_decreases[where is_first = False]
       flow_mapping_key_decreases[where is_first = True] flow_mapping_key_decreases[where is_first = False]
       flow_mapping_value_decreases[where is_empty = True]
       flow_mapping_value_decreases[where is_empty = False])

lemma parse_events_ends:
  "potential p < n \<Longrightarrow> \<exists>es e q. parse_events n p = (es, Some e, q) \<and> length es \<le> potential p"
proof (induction n p rule: parse_events.induct)
  case (2 n p)
  show ?case
  proof (cases "next_event p")
    case (Inr a)
    then obtain ev p' where ev: "next_event p = Inr (ev, p')" by (cases a) auto
    have "potential p' < potential p" by (rule next_event_decreases[OF ev])
    with "2.IH"[OF ev refl] "2.prems" ev show ?thesis by fastforce
  qed simp
qed simp

text \<open>
  C9.  The parser ends on every token sequence: after at most eight events per token comes the
  end of the stream or an error.  No input keeps it producing events without reading.
\<close>

theorem parser_terminates:
  "\<exists>es e q. parse_events (Suc (8 * length tokens)) (parser_new tokens err) = (es, Some e, q)
    \<and> length es \<le> 8 * length tokens"
proof -
  have "potential (parser_new tokens err) = 8 * length tokens"
    by (simp add: potential_def parser_new_def tokens_left_def current_weight_def stack_weight_def)
  then show ?thesis using parse_events_ends[of "parser_new tokens err"] by fastforce
qed

end
