(* ===== verification/Text.thy ===== *)
theory Text
  imports Prelude
begin

text \<open>
  The functions of Rust's \<open>str\<close> and integer types that the program calls, on UTF-8 bytes:
  prefixes, trimming of Unicode white space, splitting into lines and at a character, and
  \<open>FromStr\<close>/\<open>from_str_radix\<close> of \<open>i64\<close> and \<open>u64\<close>.
\<close>

section \<open>Prefixes\<close>

fun strip_prefix :: "string \<Rightarrow> string \<Rightarrow> string option" where
  "strip_prefix [] s = Some s"
| "strip_prefix (p # ps) [] = None"
| "strip_prefix (p # ps) (c # cs) = (if p = c then strip_prefix ps cs else None)"

definition starts_with :: "string \<Rightarrow> string \<Rightarrow> bool" where
  "starts_with p s \<longleftrightarrow> strip_prefix p s \<noteq> None"

lemma strip_prefix_Some: "strip_prefix p s = Some t \<longleftrightarrow> s = p @ t"
  by (induction p s rule: strip_prefix.induct) auto

section \<open>White space\<close>

text \<open>
  \<open>char::is_whitespace\<close> (Unicode \<open>White_Space\<close>) by its UTF-8 encodings: the ASCII ones, then
  U+0085, U+00A0, U+1680, U+2000 to U+200A, U+2028, U+2029, U+202F, U+205F and U+3000.
\<close>

definition ascii_ws :: "nat \<Rightarrow> bool" where
  "ascii_ws b \<longleftrightarrow> (9 \<le> b \<and> b \<le> 13) \<or> b = 32"

definition ws2 :: "nat \<Rightarrow> nat \<Rightarrow> bool" where
  "ws2 a b \<longleftrightarrow> a = 0xC2 \<and> (b = 0x85 \<or> b = 0xA0)"

definition ws3 :: "nat \<Rightarrow> nat \<Rightarrow> nat \<Rightarrow> bool" where
  "ws3 a b c \<longleftrightarrow>
     (a = 0xE1 \<and> b = 0x9A \<and> c = 0x80)
     \<or> (a = 0xE2 \<and> b = 0x80 \<and> ((0x80 \<le> c \<and> c \<le> 0x8A) \<or> c = 0xA8 \<or> c = 0xA9 \<or> c = 0xAF))
     \<or> (a = 0xE2 \<and> b = 0x81 \<and> c = 0x9F)
     \<or> (a = 0xE3 \<and> b = 0x80 \<and> c = 0x80)"

fun trim_start :: "string \<Rightarrow> string" where
  "trim_start [] = []"
| "trim_start [a] = (if ascii_ws (byte a) then [] else [a])"
| "trim_start [a, b] =
     (if ascii_ws (byte a) then trim_start [b] else if ws2 (byte a) (byte b) then [] else [a, b])"
| "trim_start (a # b # c # s) =
     (if ascii_ws (byte a) then trim_start (b # c # s)
      else if ws2 (byte a) (byte b) then trim_start (c # s)
      else if ws3 (byte a) (byte b) (byte c) then trim_start s
      else a # b # c # s)"

fun trim_end_rev :: "string \<Rightarrow> string" where
  "trim_end_rev [] = []"
| "trim_end_rev [a] = (if ascii_ws (byte a) then [] else [a])"
| "trim_end_rev [b, a] =
     (if ascii_ws (byte b) then trim_end_rev [a] else if ws2 (byte a) (byte b) then [] else [b, a])"
| "trim_end_rev (c # b # a # s) =
     (if ascii_ws (byte c) then trim_end_rev (b # a # s)
      else if ws2 (byte b) (byte c) then trim_end_rev (a # s)
      else if ws3 (byte a) (byte b) (byte c) then trim_end_rev s
      else c # b # a # s)"

definition trim_end :: "string \<Rightarrow> string" where
  "trim_end s = rev (trim_end_rev (rev s))"

definition trim :: "string \<Rightarrow> string" where
  "trim s = trim_end (trim_start s)"

section \<open>Splitting\<close>

text \<open>\<open>str::lines\<close>: split at \<open>\n\<close> or \<open>\r\n\<close>, no empty line after a final terminator.\<close>

definition strip_cr :: "string \<Rightarrow> string" where
  "strip_cr l = (if l \<noteq> [] \<and> last l = CHR 0x0D then butlast l else l)"

fun lines_from :: "string \<Rightarrow> string \<Rightarrow> string list" where
  "lines_from l [] = (if l = [] then [] else [l])"
| "lines_from l (c # cs) =
     (if c = CHR 0x0A then strip_cr l # lines_from [] cs else lines_from (l @ [c]) cs)"

definition lines :: "string \<Rightarrow> string list" where
  "lines s = lines_from [] s"

text \<open>\<open>str::split(c)\<close>: always at least one part.\<close>

fun split_at_char :: "char \<Rightarrow> string \<Rightarrow> string list" where
  "split_at_char d [] = [[]]"
| "split_at_char d (c # cs) =
     (if c = d then [] # split_at_char d cs
      else (case split_at_char d cs of
              [] \<Rightarrow> [[c]]
            | p # ps \<Rightarrow> (c # p) # ps))"

section \<open>Integers\<close>

text \<open>\<open>char::to_digit(radix)\<close> for radices up to 16.\<close>

definition hex_digit :: "char \<Rightarrow> nat option" where
  "hex_digit c =
     (let b = byte c in
      if 48 \<le> b \<and> b \<le> 57 then Some (b - 48)
      else if 97 \<le> b \<and> b \<le> 102 then Some (b - 87)
      else if 65 \<le> b \<and> b \<le> 70 then Some (b - 55)
      else None)"

definition is_radix_digit :: "nat \<Rightarrow> char \<Rightarrow> bool" where
  "is_radix_digit radix c = (case hex_digit c of None \<Rightarrow> False | Some d \<Rightarrow> d < radix)"

definition radix_value :: "nat \<Rightarrow> string \<Rightarrow> nat" where
  "radix_value radix s = foldl (\<lambda>acc c. acc * radix + the (hex_digit c)) 0 s"

definition all_radix_digits :: "nat \<Rightarrow> string \<Rightarrow> bool" where
  "all_radix_digits radix s \<longleftrightarrow> s \<noteq> [] \<and> (\<forall>c \<in> set s. is_radix_digit radix c)"

text \<open>
  \<open>i64::from_str_radix\<close> takes an optional sign of either kind; \<open>u64::from_str_radix\<close> takes an
  optional \<open>+\<close>.  \<open>str::parse\<close> is radix 10.
\<close>

definition i64_from_str_radix :: "nat \<Rightarrow> string \<Rightarrow> int option" where
  "i64_from_str_radix radix s =
     (let neg = (s \<noteq> [] \<and> hd s = CHR ''-'');
          ds = (if s \<noteq> [] \<and> (hd s = CHR ''-'' \<or> hd s = CHR ''+'') then tl s else s);
          n = int (radix_value radix ds);
          v = (if neg then - n else n)
      in if all_radix_digits radix ds \<and> - (2 ^ 63) \<le> v \<and> v < 2 ^ 63 then Some v else None)"

definition u64_from_str_radix :: "nat \<Rightarrow> string \<Rightarrow> nat option" where
  "u64_from_str_radix radix s =
     (let ds = (if s \<noteq> [] \<and> hd s = CHR ''+'' then tl s else s);
          n = radix_value radix ds
      in if all_radix_digits radix ds \<and> n < 2 ^ 64 then Some n else None)"

lemma i64_from_str_radix_range:
  "i64_from_str_radix r s = Some v \<Longrightarrow> - (2 ^ 63) \<le> v \<and> v < 2 ^ 63"
  by (auto simp: i64_from_str_radix_def Let_def split: if_splits)

end
