(* ===== verification/Scanner_State.thy ===== *)
theory Scanner_State
  imports Events Text
begin

text \<open>
  The state of the scanner (\<open>parser/scanner.rs\<close>) and the operations its token readers share: the
  cursor, the token queue, blanks, comments and line breaks, indentation and simple keys.

  Positions and columns are byte offsets, \<open>nat\<close> for \<open>usize\<close> and \<open>int\<close> for the \<open>i32\<close> columns.  The
  queue holds the tokens not handed out yet: the consumed prefix that the code keeps until the next
  compaction is never read, except by \<open>tokens.last()\<close>, where its emptied slots have span end 0.
  \<open>indents\<close> is a stack with its top at the head; \<open>simple_keys\<close> and \<open>flow_stack\<close> are read by index
  and keep the order of the \<open>Vec\<close>, the top last.  A reader that fails returns the error alone,
  since the parser gives up on the first one.
\<close>

section \<open>Bytes\<close>

abbreviation nul :: char where "nul \<equiv> CHR 0x00"
abbreviation tab :: char where "tab \<equiv> CHR 0x09"
abbreviation line_feed :: char where "line_feed \<equiv> CHR 0x0A"
abbreviation carriage_return :: char where "carriage_return \<equiv> CHR 0x0D"
abbreviation space :: char where "space \<equiv> CHR '' ''"
abbreviation grave :: char where "grave \<equiv> CHR 0x60"

definition is_blank :: "char \<Rightarrow> bool" where
  "is_blank c \<longleftrightarrow> c = space \<or> c = tab"

definition is_break :: "char \<Rightarrow> bool" where
  "is_break c \<longleftrightarrow> c = line_feed \<or> c = carriage_return"

definition is_blank_or_break :: "char \<Rightarrow> bool" where
  "is_blank_or_break c \<longleftrightarrow> is_blank c \<or> is_break c"

definition is_raw_control :: "char \<Rightarrow> bool" where
  "is_raw_control b \<longleftrightarrow> (byte b < 0x20 \<and> b \<noteq> tab \<and> b \<noteq> line_feed) \<or> byte b = 0x7f"

definition slice_bytes :: "string \<Rightarrow> nat \<Rightarrow> nat \<Rightarrow> string" where
  "slice_bytes s a b = take (b - a) (drop a s)"

text \<open>\<open>floor_char_boundary\<close>: the nearest character boundary at or below an index.\<close>

fun boundary_below :: "string \<Rightarrow> nat \<Rightarrow> nat" where
  "boundary_below s 0 = 0"
| "boundary_below s (Suc n) = (if is_continuation (s ! Suc n) then boundary_below s n else Suc n)"

definition floor_char_boundary :: "string \<Rightarrow> nat \<Rightarrow> nat" where
  "floor_char_boundary s index = (if index \<ge> length s then length s else boundary_below s index)"

definition bom :: string where "bom = [CHR 0xEF, CHR 0xBB, CHR 0xBF]"

text \<open>The em dash of the error messages.\<close>

definition em_dash :: string where "em_dash = [CHR 0xE2, CHR 0x80, CHR 0x94]"

section \<open>State\<close>

record simple_key =
  sk_possible :: bool
  sk_required :: bool
  sk_token_number :: nat
  sk_index :: nat
  sk_json_like :: bool
  sk_line_start :: nat
  sk_stale :: bool

definition no_simple_key :: simple_key where
  "no_simple_key =
     \<lparr>sk_possible = False, sk_required = False, sk_token_number = 0, sk_index = 0, sk_json_like = False,
      sk_line_start = 0, sk_stale = False\<rparr>"

definition max_implicit_key_chars :: nat where "max_implicit_key_chars = 1024"
definition max_implicit_key_bytes :: nat where "max_implicit_key_bytes = 4 * max_implicit_key_chars"
definition max_scalar_key_tokens :: nat where "max_scalar_key_tokens = 3"

datatype last_emitted = LastOther | LastAnchor | LastTag

record scanned_comment =
  cm_start :: nat
  cm_end :: nat
  cm_text :: string
  cm_inline :: bool

datatype trivia_kind = Whitespace | Newline | Bom | Directive

record trivia =
  tv_start :: nat
  tv_end :: nat
  tv_kind :: trivia_kind

datatype recorded_token_kind =
    RDocStart | RDocEnd | RDashIndicator | RQuestionIndicator | RColonIndicator | RComma
  | ROpenBracket | RCloseBracket | ROpenBrace | RCloseBrace | RAnchorMark | RAliasMark | RTagMark
  | RPlainScalar | RSingleQuotedScalar | RDoubleQuotedScalar | RLiteralScalar | RFoldedScalar
  | RBlockMapStart | RBlockSeqStart | RBlockEnd | RSyntheticKey

record recorded_token =
  rt_start :: nat
  rt_end :: nat
  rt_kind :: recorded_token_kind

fun recorded_kind :: "token_kind \<Rightarrow> nat \<Rightarrow> recorded_token_kind option" where
  "recorded_kind TDocumentStart n = Some RDocStart"
| "recorded_kind TDocumentEnd n = Some RDocEnd"
| "recorded_kind TBlockEntry n = Some RDashIndicator"
| "recorded_kind TFlowEntry n = Some RComma"
| "recorded_kind TKey n = Some (if n = 0 then RSyntheticKey else RQuestionIndicator)"
| "recorded_kind TValue n = Some RColonIndicator"
| "recorded_kind TFlowSequenceStart n = Some ROpenBracket"
| "recorded_kind TFlowSequenceEnd n = Some RCloseBracket"
| "recorded_kind TFlowMappingStart n = Some ROpenBrace"
| "recorded_kind TFlowMappingEnd n = Some RCloseBrace"
| "recorded_kind (TAnchor a) n = Some RAnchorMark"
| "recorded_kind (TAlias a) n = Some RAliasMark"
| "recorded_kind (TTag h t) n = Some RTagMark"
| "recorded_kind (TScalar style v) n =
     Some (case style of Plain \<Rightarrow> RPlainScalar | SingleQuoted \<Rightarrow> RSingleQuotedScalar
           | DoubleQuoted \<Rightarrow> RDoubleQuotedScalar | Literal \<Rightarrow> RLiteralScalar | Folded \<Rightarrow> RFoldedScalar)"
| "recorded_kind TBlockSequenceStart n = Some RBlockSeqStart"
| "recorded_kind TBlockMappingStart n = Some RBlockMapStart"
| "recorded_kind TBlockEnd n = Some RBlockEnd"
| "recorded_kind TStreamStart n = None"
| "recorded_kind TStreamEnd n = None"

definition is_leaf :: "recorded_token_kind \<Rightarrow> bool" where
  "is_leaf k \<longleftrightarrow> k \<notin> {RBlockMapStart, RBlockSeqStart, RBlockEnd, RSyntheticKey}"

record scanner =
  sc_input :: string
  sc_pos :: nat
  sc_mark :: nat
  sc_col :: nat
  sc_tokens :: "token list"
  sc_max_events :: nat
  sc_produced :: nat
  sc_indent :: int
  sc_indents :: "int list"
  sc_flow_level :: nat
  sc_simple_keys :: "simple_key list"
  sc_simple_key_allowed :: bool
  sc_adjacent_value_allowed :: bool
  sc_explicit_key_pending :: bool
  sc_stream_started :: bool
  sc_stream_ended :: bool
  sc_comments :: "scanned_comment list"
  sc_capture_comments :: bool
  sc_yaml_directive_seen :: bool
  sc_tag_handles :: "(string, string) imap"
  sc_flow_stack :: "bool list"
  sc_recording :: bool
  sc_trivia :: "trivia list"
  sc_recorded_tokens :: "recorded_token list"
  sc_last_token_opens_block :: bool
  sc_doc_start_inline :: bool
  sc_pending_directive :: bool
  sc_in_document_body :: bool
  sc_last_emitted_kind :: last_emitted
  sc_pending_property_col :: "int option"
  sc_line_end_memo :: "nat \<times> nat \<times> bool"
  sc_last_token_end :: nat
  sc_live_key_floor :: nat

type_synonym 'a scan = "(scan_error, 'a) res"

definition scanner_new :: "string \<Rightarrow> scanner" where
  "scanner_new input =
     \<lparr>sc_input = input, sc_pos = 0, sc_mark = 0, sc_col = 0, sc_tokens = [], sc_max_events = usize_max,
      sc_produced = 0, sc_indent = - 1, sc_indents = [], sc_flow_level = 0, sc_simple_keys = [],
      sc_simple_key_allowed = False, sc_adjacent_value_allowed = False, sc_explicit_key_pending = False,
      sc_stream_started = False, sc_stream_ended = False, sc_comments = [], sc_capture_comments = False,
      sc_yaml_directive_seen = False, sc_tag_handles = [], sc_flow_stack = [], sc_recording = False,
      sc_trivia = [], sc_recorded_tokens = [], sc_last_token_opens_block = True,
      sc_doc_start_inline = False, sc_pending_directive = False, sc_in_document_body = False,
      sc_last_emitted_kind = LastOther, sc_pending_property_col = None,
      sc_line_end_memo = (usize_max, 0, False), sc_last_token_end = 0, sc_live_key_floor = 0\<rparr>"

definition enable_recording :: "scanner \<Rightarrow> scanner" where
  "enable_recording s = s\<lparr>sc_recording := True, sc_capture_comments := True\<rparr>"

definition enable_comment_capture :: "scanner \<Rightarrow> scanner" where
  "enable_comment_capture s = s\<lparr>sc_capture_comments := True\<rparr>"

definition set_max_events :: "nat \<Rightarrow> scanner \<Rightarrow> scanner" where
  "set_max_events n s = s\<lparr>sc_max_events := n\<rparr>"

section \<open>The cursor\<close>

definition rest :: "scanner \<Rightarrow> string" where
  "rest s = drop (sc_pos s) (sc_input s)"

definition sc_peek :: "scanner \<Rightarrow> char" where
  "sc_peek s = (if sc_pos s < length (sc_input s) then sc_input s ! sc_pos s else nul)"

definition peek_at :: "nat \<Rightarrow> scanner \<Rightarrow> char" where
  "peek_at offset s =
     (if sc_pos s + offset < length (sc_input s) then sc_input s ! (sc_pos s + offset) else nul)"

definition is_eof :: "scanner \<Rightarrow> bool" where
  "is_eof s \<longleftrightarrow> sc_pos s \<ge> length (sc_input s)"

definition advance :: "scanner \<Rightarrow> scanner" where
  "advance s =
     (if sc_pos s < length (sc_input s)
      then s\<lparr>sc_col := (if is_break (sc_input s ! sc_pos s) then 0 else sc_col s + 1), sc_pos := sc_pos s + 1\<rparr>
      else s)"

definition advance_by :: "nat \<Rightarrow> scanner \<Rightarrow> scanner" where
  "advance_by n s =
     (let stop = min (sc_pos s + n) (length (sc_input s));
          slice = slice_bytes (sc_input s) (sc_pos s) stop
      in s\<lparr>sc_col := (if list_ex is_break slice then length (takeWhile (\<lambda>b. \<not> is_break b) (rev slice))
                      else sc_col s + length slice),
           sc_pos := stop\<rparr>)"

text \<open>\<open>while p(self.peek()) { self.advance() }\<close>, for a \<open>p\<close> that the end of input does not satisfy.\<close>

definition advance_while :: "(char \<Rightarrow> bool) \<Rightarrow> scanner \<Rightarrow> scanner" where
  "advance_while p s = advance_by (length (takeWhile p (rest s))) s"

definition slice_str :: "nat \<Rightarrow> nat \<Rightarrow> scanner \<Rightarrow> string" where
  "slice_str start stop s =
     (let len = length (sc_input s); stop = min stop len; start = min start stop
      in slice_bytes (sc_input s) (floor_char_boundary (sc_input s) start) (floor_char_boundary (sc_input s) stop))"

definition scan_err_at :: "string \<Rightarrow> nat \<Rightarrow> scan_error" where
  "scan_err_at msg index = \<lparr>scan_message = Text msg, scan_index = index\<rparr>"

definition scan_err :: "string \<Rightarrow> scanner \<Rightarrow> scan_error" where
  "scan_err msg s = scan_err_at msg (sc_pos s)"

definition ensure :: "bool \<Rightarrow> scan_error \<Rightarrow> unit scan" where
  "ensure ok e = (if ok then Inr () else Inl e)"

section \<open>The token queue\<close>

definition is_content_token :: "token_kind \<Rightarrow> bool" where
  "is_content_token kind \<longleftrightarrow> kind \<notin> {TStreamStart, TStreamEnd, TDocumentStart, TDocumentEnd, TBlockEnd}"

definition property_col :: "token_kind \<Rightarrow> scanner \<Rightarrow> int option" where
  "property_col kind s =
     (case kind of
        TAnchor _ \<Rightarrow> if sc_pending_property_col s = None then Some (int (sc_col s)) else sc_pending_property_col s
      | TTag _ _ \<Rightarrow> if sc_pending_property_col s = None then Some (int (sc_col s)) else sc_pending_property_col s
      | TScalar _ _ \<Rightarrow> None
      | TFlowSequenceStart \<Rightarrow> None
      | TFlowMappingStart \<Rightarrow> None
      | TBlockSequenceStart \<Rightarrow> None
      | TBlockMappingStart \<Rightarrow> None
      | TAlias _ \<Rightarrow> None
      | _ \<Rightarrow> sc_pending_property_col s)"

definition emit :: "token_kind \<Rightarrow> scanner \<Rightarrow> scanner" where
  "emit kind s =
     s\<lparr>sc_in_document_body := (sc_in_document_body s \<or> is_content_token kind),
       sc_last_emitted_kind := (case kind of TAnchor _ \<Rightarrow> LastAnchor | TTag _ _ \<Rightarrow> LastTag | _ \<Rightarrow> LastOther),
       sc_pending_property_col := property_col kind s,
       sc_last_token_end := sc_pos s,
       sc_tokens := sc_tokens s @ [\<lparr>tok_kind = kind, tok_span = \<lparr>span_start = sc_mark s, span_end = sc_pos s\<rparr>\<rparr>]\<rparr>"

definition insert_token :: "nat \<Rightarrow> token_kind \<Rightarrow> span \<Rightarrow> scanner \<Rightarrow> scanner" where
  "insert_token index kind span s =
     s\<lparr>sc_in_document_body := (sc_in_document_body s \<or> kind \<noteq> TBlockEnd),
       sc_tokens := take index (sc_tokens s) @ \<lparr>tok_kind = kind, tok_span = span\<rparr> # drop index (sc_tokens s)\<rparr>"

definition next_token_number :: "scanner \<Rightarrow> nat" where
  "next_token_number s = sc_produced s + length (sc_tokens s)"

definition queue_over_budget :: "scanner \<Rightarrow> bool" where
  "queue_over_budget s \<longleftrightarrow> length (sc_tokens s) > sat_add (sat_mul (sc_max_events s) 8) 1024"

definition event_backlog :: string where
  "event_backlog = ''a pending key holds more tokens than max_events allows''"

section \<open>Blanks, comments, line breaks\<close>

definition record_trivia :: "nat \<Rightarrow> trivia_kind \<Rightarrow> scanner \<Rightarrow> scanner" where
  "record_trivia start kind s =
     (if sc_recording s
      then s\<lparr>sc_trivia := sc_trivia s @ [\<lparr>tv_start = start, tv_end = sc_pos s, tv_kind = kind\<rparr>]\<rparr> else s)"

definition skip_blank :: "scanner \<Rightarrow> scanner" where
  "skip_blank s =
     (let count = length (takeWhile is_blank (rest s))
      in s\<lparr>sc_col := sc_col s + count, sc_pos := sc_pos s + count\<rparr>)"

text \<open>A block indicator at a position: \<open>-\<close>, \<open>?\<close> or \<open>:\<close> before a blank, a break or the end.\<close>

definition is_structural_at :: "nat \<Rightarrow> string \<Rightarrow> bool" where
  "is_structural_at p input \<longleftrightarrow>
     p < length input \<and> input ! p \<in> {CHR ''-'', CHR ''?'', CHR '':''}
     \<and> (p + 1 \<ge> length input \<or> is_blank_or_break (input ! (p + 1)))"

definition illegal_tab :: "string \<Rightarrow> string" where
  "illegal_tab indicator = ''tabs are not allowed as separation or indentation after '' @ indicator"

definition reject_illegal_tab :: "nat \<Rightarrow> string \<Rightarrow> scanner \<Rightarrow> unit scan" where
  "reject_illegal_tab start indicator s =
     ensure (\<not> (tab \<in> set (slice_bytes (sc_input s) start (sc_pos s)) \<and> is_structural_at (sc_pos s) (sc_input s)))
       (scan_err_at (illegal_tab indicator) start)"

definition check_illegal_tab_lookahead :: "string \<Rightarrow> scanner \<Rightarrow> unit scan" where
  "check_illegal_tab_lookahead indicator s =
     (let blanks = takeWhile is_blank (rest s)
      in ensure (\<not> (tab \<in> set blanks \<and> is_structural_at (sc_pos s + length blanks) (sc_input s)))
           (scan_err (illegal_tab indicator) s))"

definition skip_line :: "scanner \<Rightarrow> scanner" where
  "skip_line s =
     (if sc_peek s = carriage_return \<and> peek_at 1 s = line_feed then advance_by 2 s
      else if is_break (sc_peek s) then advance s else s)"

definition reject_tab_indentation :: "scanner \<Rightarrow> unit scan" where
  "reject_tab_indentation s =
     (let look = sc_pos s + length (takeWhile is_blank (rest s)); input = sc_input s
      in ensure (sc_peek s \<noteq> tab \<or> look \<ge> length input \<or> is_break (input ! look) \<or> input ! look = CHR ''#''
           \<or> (sc_indent s < 0 \<and> \<not> is_structural_at look input))
           (scan_err ''tab characters are not allowed as indentation'' s))"

definition skip_comment :: "bool \<Rightarrow> scanner \<Rightarrow> scanner scan" where
  "skip_comment inline s =
     (let pos = sc_pos s; input = sc_input s;
          text = takeWhile (\<lambda>b. \<not> is_break b) (rest s);
          after_leading_bom = (pos = 3 \<and> starts_with bom input)
      in if pos > 0 \<and> \<not> after_leading_bom \<and> \<not> is_blank_or_break (input ! (pos - 1))
         then Inl (scan_err ''comment indicator '#' must be preceded by a space, tab, or line break'' s)
         else if list_ex is_raw_control text
         then Inl (scan_err (''comment contains a raw control character '' @ em_dash
                @ '' YAML content is limited to printable characters'') s)
         else
           let s = (if sc_capture_comments s
                    then s\<lparr>sc_comments := sc_comments s @
                             [\<lparr>cm_start = pos, cm_end = pos + length text, cm_text = drop 1 text, cm_inline = inline\<rparr>]\<rparr>
                    else s)
           in Inr (s\<lparr>sc_col := sc_col s + length text, sc_pos := pos + length text\<rparr>))"

text \<open>The flow content that opens a line must be indented more than the block around it.\<close>

definition flow_line_indented :: "scanner \<Rightarrow> bool" where
  "flow_line_indented s =
     (let spaces = length (takeWhile (\<lambda>c. c = space) (rest s));
          look = sc_pos s + spaces + length (takeWhile is_blank (drop spaces (rest s)));
          line_has_content = (look < length (sc_input s) \<and> \<not> is_break (sc_input s ! look));
          closes_flow = (line_has_content \<and> sc_input s ! look \<in> {CHR '']'', CHR ''}''})
      in \<not> (sc_flow_level s > 0 \<and> sc_indent s \<ge> 0 \<and> line_has_content \<and> \<not> closes_flow \<and> int spaces \<le> sc_indent s))"

definition cross_line_break :: "scanner \<Rightarrow> scanner scan" where
  "cross_line_break s =
     (let s = record_trivia (sc_pos s) Newline (skip_line s);
          s = s\<lparr>sc_doc_start_inline := False, sc_last_emitted_kind := LastOther\<rparr>
      in and_then (ensure (flow_line_indented s)
             (scan_err ''flow content must be indented more than the surrounding block'' s)) (\<lambda>_.
         Inr (if sc_flow_level s = 0 then s\<lparr>sc_simple_key_allowed := True\<rparr> else s)))"

text \<open>One line of \<open>skip_to_next_token\<close>: the blanks and the comment before its end.\<close>

definition skip_separation :: "scanner \<Rightarrow> scanner scan" where
  "skip_separation s =
     and_then (if sc_col s = 0 \<and> sc_flow_level s = 0 then reject_tab_indentation s else Inr ()) (\<lambda>_.
     let inline = sc_col s > 0;
         start = sc_pos s;
         s = skip_blank s;
         s = (if sc_pos s > start then record_trivia start Whitespace s else s)
     in if sc_peek s = CHR ''#'' then skip_comment inline s else Inr s)"

section \<open>The cursor only moves forward\<close>

text \<open>What the readers of blanks and scalars leave alone: the queue, the keys, the open blocks.\<close>

definition frame_of ::
  "scanner \<Rightarrow> string \<times> bool \<times> bool \<times> token list \<times> nat \<times> nat \<times> simple_key list \<times> nat \<times> int \<times> int list
     \<times> nat \<times> bool list \<times> nat \<times> nat \<times> bool" where
  "frame_of s =
     (sc_input s, sc_stream_started s, sc_stream_ended s, sc_tokens s, sc_produced s, sc_mark s,
      sc_simple_keys s, sc_live_key_floor s, sc_indent s, sc_indents s, sc_flow_level s, sc_flow_stack s, sc_line_end_memo s)"

definition forward :: "scanner \<Rightarrow> scanner \<Rightarrow> bool" where
  "forward s t \<longleftrightarrow> frame_of t = frame_of s \<and> sc_input t = sc_input s
     \<and> min (sc_pos s) (length (sc_input s)) \<le> sc_pos t
     \<and> (sc_pos s \<le> length (sc_input s) \<longrightarrow> sc_pos t \<le> length (sc_input s))"

lemma frame_updates:
  "frame_of (s\<lparr>sc_pos := a\<rparr>) = frame_of s" "frame_of (s\<lparr>sc_col := a\<rparr>) = frame_of s"
  "frame_of (s\<lparr>sc_comments := cs\<rparr>) = frame_of s" "frame_of (s\<lparr>sc_trivia := tr\<rparr>) = frame_of s"
  "frame_of (s\<lparr>sc_doc_start_inline := b\<rparr>) = frame_of s"
  "frame_of (s\<lparr>sc_simple_key_allowed := b\<rparr>) = frame_of s"
  "frame_of (s\<lparr>sc_last_emitted_kind := l\<rparr>) = frame_of s"
  "frame_of (s\<lparr>sc_adjacent_value_allowed := b\<rparr>) = frame_of s"
  by (simp_all add: frame_of_def)

named_theorems forward_intros \<open>steps of the scanner that only move forward\<close>

lemma forward_refl [forward_intros]: "forward s s"
  by (simp add: forward_def)

lemma forward_trans: "forward s t \<Longrightarrow> forward t u \<Longrightarrow> forward s u"
  by (auto simp: forward_def)

lemma advance_by_pos [simp]:
  "sc_pos (advance_by n s) = min (sc_pos s + n) (length (sc_input s))"
  "sc_input (advance_by n s) = sc_input s"
  "frame_of (advance_by n s) = frame_of s"
  by (simp_all add: advance_by_def Let_def frame_of_def)

lemma advance_pos [simp]:
  "sc_pos (advance s) = (if sc_pos s < length (sc_input s) then sc_pos s + 1 else sc_pos s)"
  "sc_input (advance s) = sc_input s"
  "frame_of (advance s) = frame_of s"
  by (simp_all add: advance_def frame_of_def)

lemma length_takeWhile_rest: "length (takeWhile p (rest s)) \<le> length (sc_input s) - sc_pos s"
  by (metis length_drop length_takeWhile_le rest_def)

lemma skip_blank_pos [simp]:
  "sc_pos (skip_blank s) = sc_pos s + length (takeWhile is_blank (rest s))"
  "sc_input (skip_blank s) = sc_input s"
  "frame_of (skip_blank s) = frame_of s"
  by (simp_all add: skip_blank_def Let_def frame_of_def)

lemma record_trivia_pos [simp]:
  "sc_pos (record_trivia a k s) = sc_pos s" "sc_input (record_trivia a k s) = sc_input s"
  "frame_of (record_trivia a k s) = frame_of s"
  by (simp_all add: record_trivia_def frame_of_def)

lemma emit_pos [simp]: "sc_pos (emit k s) = sc_pos s" "sc_input (emit k s) = sc_input s"
  "sc_stream_started (emit k s) = sc_stream_started s" "sc_stream_ended (emit k s) = sc_stream_ended s"
  by (simp_all add: emit_def)

lemma insert_token_pos [simp]:
  "sc_pos (insert_token i k sp s) = sc_pos s" "sc_input (insert_token i k sp s) = sc_input s"
  "sc_stream_started (insert_token i k sp s) = sc_stream_started s" "sc_stream_ended (insert_token i k sp s) = sc_stream_ended s"
  by (simp_all add: insert_token_def)

lemma peek_eof: "sc_peek s \<noteq> nul \<Longrightarrow> sc_pos s < length (sc_input s)"
  by (auto simp: sc_peek_def split: if_splits)

lemma break_not_eof: "is_break (sc_peek s) \<Longrightarrow> sc_pos s < length (sc_input s)"
  by (rule peek_eof) (auto simp: is_break_def)

lemma forward_advance [forward_intros]: "forward s (advance s)"
  by (simp add: forward_def)

lemma forward_advance_by [forward_intros]: "forward s (advance_by n s)"
  by (simp add: forward_def)

lemma forward_advance_while [forward_intros]: "forward s (advance_while p s)"
  by (simp add: advance_while_def forward_advance_by)

lemma advance_while_pos:
  "sc_pos s \<le> length (sc_input s) \<Longrightarrow> sc_pos (advance_while p s) = sc_pos s + length (takeWhile p (rest s))"
  using length_takeWhile_rest[of p s] by (simp add: advance_while_def)

lemma advance_while_input [simp]: "sc_input (advance_while p s) = sc_input s"
  "frame_of (advance_while p s) = frame_of s"
  by (simp_all add: advance_while_def)

lemma forward_skip_blank [forward_intros]: "forward s (skip_blank s)"
  using length_takeWhile_rest[of is_blank s] by (auto simp: forward_def)

lemma skip_line_pos:
  "is_break (sc_peek s) \<Longrightarrow> sc_pos s < sc_pos (skip_line s) \<and> sc_pos (skip_line s) \<le> length (sc_input s)"
  "sc_input (skip_line s) = sc_input s" "frame_of (skip_line s) = frame_of s"
  using break_not_eof[of s] by (auto simp: skip_line_def)

lemma forward_skip_line [forward_intros]: "forward s (skip_line s)"
  using skip_line_pos[of s] peek_eof[of s] by (auto simp: forward_def skip_line_def)

lemma cross_line_break_forward:
  assumes "cross_line_break s = Inr t" and "is_break (sc_peek s)"
  shows "forward s t \<and> sc_pos s < sc_pos t"
  using assms skip_line_pos[of s] break_not_eof[of s]
  by (auto simp: cross_line_break_def forward_def frame_updates ensure_def res_simps Let_def split: if_splits)

lemma skip_comment_forward: "skip_comment i s = Inr t \<Longrightarrow> forward s t"
  using length_takeWhile_rest[of "\<lambda>b. \<not> is_break b" s]
  by (auto simp: skip_comment_def forward_def frame_updates Let_def split: if_splits)

lemma skip_separation_forward:
  assumes "skip_separation s = Inr t" shows "forward s t"
proof -
  let ?b = "if sc_pos (skip_blank s) > sc_pos s then record_trivia (sc_pos s) Whitespace (skip_blank s) else skip_blank s"
  have b: "forward s ?b" using forward_skip_blank[of s] by (simp add: forward_def)
  have "t = ?b \<or> (\<exists>i. skip_comment i ?b = Inr t)"
    using assms by (auto simp: skip_separation_def res_simps Let_def split: if_splits)
  then show ?thesis using b skip_comment_forward forward_trans by blast
qed

function skip_to_next_token :: "scanner \<Rightarrow> scanner scan" where
  "skip_to_next_token s =
     and_then (skip_separation s) (\<lambda>t.
       if is_break (sc_peek t)
       then (case cross_line_break t of Inl e \<Rightarrow> Inl e | Inr u \<Rightarrow> skip_to_next_token u)
       else Inr t)"
  by pat_completeness auto

termination
proof (relation "measure (\<lambda>s. length (sc_input s) - sc_pos s)")
  fix s t u
  assume a: "skip_separation s = Inr t" "is_break (sc_peek t)" "cross_line_break t = Inr u"
  have "forward s t" using a(1) by (rule skip_separation_forward)
  then show "(u, s) \<in> measure (\<lambda>s. length (sc_input s) - sc_pos s)"
    using cross_line_break_forward[OF a(3,2)] break_not_eof[OF a(2)] by (auto simp: forward_def)
qed simp

declare skip_to_next_token.simps [simp del]

lemma skip_to_next_token_forward: "skip_to_next_token s = Inr t \<Longrightarrow> forward s t"
proof (induction s rule: skip_to_next_token.induct)
  case (1 s)
  obtain u where u: "skip_separation s = Inr u" and t: "(if is_break (sc_peek u)
       then (case cross_line_break u of Inl e \<Rightarrow> Inl e | Inr v \<Rightarrow> skip_to_next_token v) else Inr u) = Inr t"
    using 1(2) by (subst (asm) skip_to_next_token.simps) (auto simp: res_simps)
  have su: "forward s u" using u by (rule skip_separation_forward)
  show ?case
  proof (cases "is_break (sc_peek u)")
    case True
    then obtain v where v: "cross_line_break u = Inr v" "skip_to_next_token v = Inr t"
      using t by (auto split: sum.splits)
    have "forward u v" using cross_line_break_forward[OF v(1) True] by blast
    then show ?thesis using 1(1)[OF u True v] su forward_trans by blast
  next
    case False
    then show ?thesis using t su by simp
  qed
qed

section \<open>Indentation\<close>

definition roll_indent :: "int \<Rightarrow> nat option \<Rightarrow> token_kind \<Rightarrow> nat \<Rightarrow> scanner \<Rightarrow> scanner" where
  "roll_indent column number kind mark s =
     (if sc_flow_level s > 0 \<or> \<not> sc_indent s < column then s
      else
        let s = s\<lparr>sc_indents := sc_indent s # sc_indents s, sc_indent := column\<rparr>;
            span = \<lparr>span_start = mark, span_end = mark\<rparr>
        in case number of
             Some n \<Rightarrow> insert_token (n - sc_produced s) kind span s
           | None \<Rightarrow> s\<lparr>sc_last_token_end := mark,
                       sc_tokens := sc_tokens s @ [\<lparr>tok_kind = kind, tok_span = span\<rparr>]\<rparr>)"

text \<open>
  How many blocks close above a column, with the indentation and the stack left.  The columns asked
  for are at least \<open>-1\<close>, where the loop stops with an empty stack.
\<close>

fun pop_indents :: "int \<Rightarrow> int \<Rightarrow> int list \<Rightarrow> nat \<times> int \<times> int list" where
  "pop_indents column indent indents =
     (if indent > column
      then (case indents of
              [] \<Rightarrow> (1, - 1, [])
            | i # is \<Rightarrow> (case pop_indents column i is of (n, r) \<Rightarrow> (Suc n, r)))
      else (0, indent, indents))"

declare pop_indents.simps [simp del]

definition unroll_indent :: "int \<Rightarrow> scanner \<Rightarrow> scanner" where
  "unroll_indent column s =
     (if sc_flow_level s > 0 then s
      else case pop_indents column (sc_indent s) (sc_indents s) of
             (n, indent, indents) \<Rightarrow> (emit TBlockEnd ^^ n) (s\<lparr>sc_indent := indent, sc_indents := indents\<rparr>))"

section \<open>Simple keys\<close>

text \<open>An update of the last key of the stack.\<close>

definition update_last_key :: "(simple_key \<Rightarrow> simple_key) \<Rightarrow> scanner \<Rightarrow> scanner" where
  "update_last_key f s =
     (let ks = sc_simple_keys s
      in s\<lparr>sc_simple_keys := (if ks = [] then [] else butlast ks @ [f (last ks)])\<rparr>)"

definition save_simple_key_ext :: "bool \<Rightarrow> scanner \<Rightarrow> scanner" where
  "save_simple_key_ext json_like s =
     (if \<not> sc_simple_key_allowed s then s
      else
        let sk = \<lparr>sk_possible = True,
                  sk_required = (sc_flow_level s = 0 \<and> sc_indent s = int (sc_col s)),
                  sk_token_number = next_token_number s, sk_index = sc_pos s, sk_json_like = json_like,
                  sk_line_start = sc_pos s - sc_col s, sk_stale = False\<rparr>;
            s = update_last_key (\<lambda>_. sk) s
        in s\<lparr>sc_live_key_floor := min (sc_live_key_floor s) (length (sc_simple_keys s) - 1)\<rparr>)"

definition save_simple_key :: "scanner \<Rightarrow> scanner" where
  "save_simple_key s = save_simple_key_ext False s"

definition forget_simple_key :: "scanner \<Rightarrow> scanner" where
  "forget_simple_key s = update_last_key (\<lambda>sk. sk\<lparr>sk_possible := False\<rparr>) s"

definition remove_simple_key :: "scanner \<Rightarrow> scanner scan" where
  "remove_simple_key s =
     (let ks = sc_simple_keys s
      in if ks \<noteq> [] \<and> sk_possible (last ks) \<and> sk_required (last ks)
         then Inl (scan_err_at ''simple key was required but not found'' (sk_index (last ks)))
         else Inr (forget_simple_key s))"

text \<open>The flow collection at a level of the stack is a sequence.\<close>

definition flow_sequence_at :: "nat \<Rightarrow> scanner \<Rightarrow> bool" where
  "flow_sequence_at i s \<longleftrightarrow> i < length (sc_flow_stack s) \<and> sc_flow_stack s ! i"

definition simple_key_is_stale :: "nat \<Rightarrow> simple_key \<Rightarrow> scanner \<Rightarrow> bool" where
  "simple_key_is_stale level sk s =
     (if level \<noteq> 0 \<and> \<not> flow_sequence_at (level - 1) s then False
      else if level = 0 \<and> sk_line_start sk \<noteq> sc_pos s - sc_col s then True
      else next_token_number s - sk_token_number sk > max_scalar_key_tokens
           \<and> sc_pos s - sk_index sk > max_implicit_key_bytes)"

definition is_live :: "simple_key \<Rightarrow> bool" where
  "is_live sk \<longleftrightarrow> sk_possible sk \<and> \<not> sk_stale sk"

function stale_simple_keys :: "scanner \<Rightarrow> scanner" where
  "stale_simple_keys s =
     (let floor = sc_live_key_floor s; ks = sc_simple_keys s in
      if floor < length ks then
        (if is_live (ks ! floor) \<and> \<not> simple_key_is_stale floor (ks ! floor) s then s
         else stale_simple_keys
                (s\<lparr>sc_simple_keys := (if is_live (ks ! floor) then ks[floor := (ks ! floor)\<lparr>sk_stale := True\<rparr>] else ks),
                   sc_live_key_floor := floor + 1\<rparr>))
      else s)"
  by pat_completeness auto

termination
  by (relation "measure (\<lambda>s. length (sc_simple_keys s) - sc_live_key_floor s)") auto

declare stale_simple_keys.simps [simp del]

definition in_flow_sequence :: "scanner \<Rightarrow> bool" where
  "in_flow_sequence s \<longleftrightarrow> sc_flow_stack s \<noteq> [] \<and> last (sc_flow_stack s)"

definition implicit_key_too_long :: "simple_key \<Rightarrow> scanner \<Rightarrow> bool" where
  "implicit_key_too_long sk s =
     (if \<not> (sc_flow_level s = 0 \<or> in_flow_sequence s) then False
      else if sk_stale sk then True
      else if next_token_number s - sk_token_number sk \<le> max_scalar_key_tokens then False
      else
        let span = slice_bytes (sc_input s) (min (sk_index sk) (sc_pos s)) (sc_pos s)
        in if length span \<le> max_implicit_key_chars then False
           else if length span > max_implicit_key_bytes then True
           else length (filter (\<lambda>b. \<not> is_continuation b) span) > max_implicit_key_chars)"

end
