(* ===== verification/Scan_Plain.thy ===== *)
theory Scan_Plain
  imports Scanner_State
begin

text \<open>
  The readers of plain scalars (\<open>parser/scanner/scalars.rs\<close>): the single-line fast path over the
  memoised end of the line, and the multi-line path with its folding.
\<close>

section \<open>The end of the line\<close>

text \<open>
  The first line break, or the first \<open>#\<close> after a blank: its offset and whether it is a break.
\<close>

fun line_end_from :: "nat \<Rightarrow> char option \<Rightarrow> string \<Rightarrow> nat \<times> bool" where
  "line_end_from n prev [] = (n, False)"
| "line_end_from n prev (c # cs) =
     (if is_break c then (n, True)
      else if c = CHR ''#'' \<and> (case prev of Some p \<Rightarrow> is_blank p | None \<Rightarrow> False) then (n, False)
      else line_end_from (n + 1) (Some c) cs)"

definition scan_line_end :: "string \<Rightarrow> nat \<times> bool" where
  "scan_line_end remaining = line_end_from 0 None remaining"

definition plain_line_end :: "scanner \<Rightarrow> (nat \<times> bool) \<times> scanner" where
  "plain_line_end s =
     (case sc_line_end_memo s of
        (start, stop, brk) \<Rightarrow>
          if start \<le> sc_pos s
             \<and> (sc_pos s < stop \<or> (sc_pos s = stop \<and> (brk \<or> stop = length (sc_input s))))
          then ((stop - sc_pos s, brk), s)
          else (case scan_line_end (rest s) of
                  (rel, b) \<Rightarrow> ((rel, b), s\<lparr>sc_line_end_memo := (sc_pos s, sc_pos s + rel, b)\<rparr>)))"

section \<open>The single-line path\<close>

definition is_flow_indicator :: "char \<Rightarrow> bool" where
  "is_flow_indicator c \<longleftrightarrow> c \<in> {CHR '','', CHR ''['', CHR '']'', CHR ''{'', CHR ''}''}"

definition colon_ends_plain :: "string \<Rightarrow> nat \<Rightarrow> bool \<Rightarrow> bool" where
  "colon_ends_plain remaining at in_flow \<longleftrightarrow>
     at + 1 \<ge> length remaining
     \<or> is_blank_or_break (remaining ! (at + 1))
     \<or> (in_flow \<and> remaining ! (at + 1) \<in> {CHR '','', CHR '']'', CHR ''}''})"

datatype blank_run = BlankEnd | BlankToBreak nat | BlankInner nat

definition classify_blank_run :: "string \<Rightarrow> nat \<Rightarrow> bool \<Rightarrow> blank_run" where
  "classify_blank_run remaining start in_flow =
     (let j = start + 1 + length (takeWhile is_blank (drop (start + 1) remaining))
      in if j \<ge> length remaining \<or> remaining ! j = CHR ''#'' then BlankEnd
         else if is_break (remaining ! j) then BlankToBreak j
         else if remaining ! j = CHR '':'' \<and> colon_ends_plain remaining j in_flow then BlankEnd
         else BlankInner j)"

definition is_plain_candidate :: "bool \<Rightarrow> char \<Rightarrow> bool" where
  "is_plain_candidate in_flow c \<longleftrightarrow> c = CHR '':'' \<or> is_blank c \<or> (in_flow \<and> is_flow_indicator c)"

lemma classify_blank_run_inner: "classify_blank_run r a f = BlankInner j \<Longrightarrow> a < j"
  by (auto simp: classify_blank_run_def Let_def split: if_splits)

function plain_line_from :: "string \<Rightarrow> nat \<Rightarrow> bool \<Rightarrow> nat \<Rightarrow> nat" where
  "plain_line_from remaining search_end in_flow n =
     (if n \<ge> search_end then n
      else
        let at = n + length (takeWhile (\<lambda>c. \<not> is_plain_candidate in_flow c) (slice_bytes remaining n search_end)) in
        if at \<ge> search_end then at
        else if remaining ! at = CHR '':'' \<and> colon_ends_plain remaining at in_flow then at
        else if in_flow \<and> is_flow_indicator (remaining ! at) then at
        else if is_blank (remaining ! at) then
          (case classify_blank_run remaining at in_flow of
             BlankEnd \<Rightarrow> at
           | BlankToBreak j \<Rightarrow> j
           | BlankInner j \<Rightarrow> plain_line_from remaining search_end in_flow j)
        else plain_line_from remaining search_end in_flow (at + 1))"
  by pat_completeness auto

termination
  by (relation "measure (\<lambda>(r, e, f, n). e - n)") (auto dest: classify_blank_run_inner)

declare plain_line_from.simps [simp del]

definition plain_line_len :: "string \<Rightarrow> nat \<Rightarrow> bool \<Rightarrow> nat" where
  "plain_line_len remaining search_end in_flow = plain_line_from remaining search_end in_flow 0"

definition check_scalar_printable :: "string \<Rightarrow> scanner \<Rightarrow> unit scan" where
  "check_scalar_printable v s =
     ensure (\<not> list_ex is_raw_control v)
       (scan_err (''scalar contains a raw control character '' @ em_dash
          @ '' YAML content is limited to printable characters (use an escape in a double-quoted scalar)'') s)"

definition try_plain_single_line :: "scanner \<Rightarrow> (bool \<times> scanner) scan" where
  "try_plain_single_line s =
     (case plain_line_end s of
        ((search_end, ends_on_break), s) \<Rightarrow>
          let remaining = rest s;
              len = plain_line_len remaining search_end (sc_flow_level s > 0);
              content_len = len - length (takeWhile is_blank (rev (take len remaining)))
          in if (ends_on_break \<and> \<not> len < search_end) \<or> len = 0 \<or> content_len = 0 then Inr (False, s)
             else
               let v = slice_str (sc_pos s) (sc_pos s + content_len) s
               in and_then (check_scalar_printable v s) (\<lambda>_.
                    Inr (True, (emit (TScalar Plain v) (advance_by len s))\<lparr>sc_last_token_opens_block := False\<rparr>)))"

section \<open>The multi-line path\<close>

record plain_fold =
  pf_string :: string
  pf_whitespace :: string
  pf_leading_blanks :: bool
  pf_single_chunk :: bool

definition plain_fold_new :: plain_fold where
  "plain_fold_new = \<lparr>pf_string = [], pf_whitespace = [], pf_leading_blanks = False, pf_single_chunk = True\<rparr>"

definition fold_join :: "string \<Rightarrow> plain_fold \<Rightarrow> plain_fold" where
  "fold_join run f =
     (if pf_leading_blanks f then
        let joint = (case strip_prefix [line_feed] (pf_whitespace f) of
                       Some stripped \<Rightarrow> if stripped = [] then [space] else stripped
                     | None \<Rightarrow> pf_whitespace f)
        in f\<lparr>pf_single_chunk := False, pf_string := pf_string f @ joint @ run, pf_whitespace := []\<rparr>
      else f\<lparr>pf_string := pf_string f @ pf_whitespace f @ run, pf_whitespace := []\<rparr>)"

definition at_document_marker :: "scanner \<Rightarrow> bool" where
  "at_document_marker s \<longleftrightarrow>
     (sc_peek s = CHR ''-'' \<or> sc_peek s = CHR ''.'') \<and> peek_at 1 s = sc_peek s \<and> peek_at 2 s = sc_peek s
     \<and> (sc_pos s + 3 \<ge> length (sc_input s) \<or> is_blank_or_break (peek_at 3 s))"

text \<open>What ends a run of plain content at an offset of it.\<close>

definition plain_run_stops :: "bool \<Rightarrow> scanner \<Rightarrow> nat \<Rightarrow> bool" where
  "plain_run_stops in_flow s n \<longleftrightarrow>
     (let remaining = rest s; c = remaining ! n
      in (c = CHR '':'' \<and> colon_ends_plain remaining n in_flow)
         \<or> (in_flow \<and> is_flow_indicator c)
         \<or> is_blank_or_break c
         \<or> (c = CHR ''#'' \<and> (n = 0 \<or> is_blank (remaining ! (n - 1))))
         \<or> (n = 0 \<and> sc_col s = 0 \<and> at_document_marker s))"

function plain_run_from :: "bool \<Rightarrow> scanner \<Rightarrow> nat \<Rightarrow> nat" where
  "plain_run_from in_flow s n =
     (if n < length (rest s) \<and> \<not> plain_run_stops in_flow s n then plain_run_from in_flow s (n + 1) else n)"
  by pat_completeness auto

termination
  by (relation "measure (\<lambda>(f, s, n). length (rest s) - n)") auto

declare plain_run_from.simps [simp del]

definition plain_run_len :: "bool \<Rightarrow> scanner \<Rightarrow> nat" where
  "plain_run_len in_flow s = plain_run_from in_flow s 0"

lemma plain_run_from_le: "n \<le> length (rest s) \<Longrightarrow> plain_run_from fl s n \<le> length (rest s)"
  by (induction fl s n rule: plain_run_from.induct) (subst plain_run_from.simps, simp)

lemma plain_run_len_le: "plain_run_len fl s \<le> length (rest s)"
  by (simp add: plain_run_len_def plain_run_from_le)

text \<open>One line break, as one character when it is CR LF.\<close>

definition take_break :: "scanner \<Rightarrow> scanner" where
  "take_break s =
     (if sc_peek s = carriage_return \<and> peek_at 1 s = line_feed then advance_by 2 s else advance s)"

lemma forward_take_break [forward_intros]: "forward s (take_break s)"
  by (simp add: take_break_def forward_advance forward_advance_by)

lemma take_break_pos: "sc_pos s < length (sc_input s) \<Longrightarrow> sc_pos s < sc_pos (take_break s)"
  by (simp add: take_break_def)

lemma break_line_moves:
  assumes "t = advance_while p (take_break s)" and "is_break (sc_peek t)"
  shows "sc_pos s < sc_pos t \<and> sc_pos t < length (sc_input s) \<and> sc_input t = sc_input s"
proof -
  have f: "forward s (take_break s)" "forward (take_break s) t"
    using assms(1) by (simp_all add: forward_take_break forward_advance_while)
  have i: "sc_input t = sc_input s" using f by (simp add: forward_def)
  have e: "sc_pos t < length (sc_input s)" using break_not_eof[OF assms(2)] i by simp
  have "sc_pos s < length (sc_input s)" using f e by (auto simp: forward_def)
  then show ?thesis using f e i take_break_pos[of s] by (auto simp: forward_def)
qed

text \<open>A run of breaks, each with the blanks after it: how many there are.\<close>

function break_run :: "scanner \<Rightarrow> nat \<times> scanner" where
  "break_run s =
     (let t = advance_while is_blank (take_break s)
      in if is_break (sc_peek t) then (case break_run t of (n, u) \<Rightarrow> (Suc n, u)) else (1, t))"
  by pat_completeness auto

termination
  by (relation "measure (\<lambda>s. length (sc_input s) - sc_pos s)") (auto dest!: break_line_moves[OF refl])

declare break_run.simps [simp del]

lemma break_run_forward: "break_run s = (n, t) \<Longrightarrow> forward s t"
proof (induction s arbitrary: n t rule: break_run.induct)
  case (1 s)
  let ?t = "advance_while is_blank (take_break s)"
  have f: "forward s ?t"
    using forward_trans[OF forward_take_break forward_advance_while] by blast
  show ?case
    using 1 f forward_trans by (subst (asm) (2) break_run.simps) (auto simp: Let_def split: if_splits prod.splits)
qed

lemma break_run_pos: "break_run s = (n, t) \<Longrightarrow> sc_pos s < length (sc_input s) \<Longrightarrow> sc_pos s < sc_pos t"
proof -
  assume b: "break_run s = (n, t)" and p: "sc_pos s < length (sc_input s)"
  let ?t = "advance_while is_blank (take_break s)"
  have "sc_pos s < sc_pos (take_break s)" using p by (rule take_break_pos)
  moreover have "forward (take_break s) ?t" by (rule forward_advance_while)
  moreover have "forward s (take_break s)" by (rule forward_take_break)
  ultimately have m: "sc_pos s < sc_pos ?t" and i: "sc_input ?t = sc_input s"
    and le: "sc_pos ?t \<le> length (sc_input s)" using p by (auto simp: forward_def)
  have "t = ?t \<or> (\<exists>k. break_run ?t = (k, t))"
    using b by (subst (asm) break_run.simps) (auto simp: Let_def split: if_splits prod.splits)
  then have "forward ?t t" using break_run_forward forward_refl by blast
  then show ?thesis using m i le by (auto simp: forward_def)
qed

definition skip_plain_separation :: "plain_fold \<Rightarrow> int \<Rightarrow> scanner \<Rightarrow> bool \<times> plain_fold \<times> scanner" where
  "skip_plain_separation f indent s =
     (let blanks = takeWhile is_blank (rest s);
          s = advance_while is_blank s
      in if \<not> is_break (sc_peek s) then (False, f\<lparr>pf_whitespace := blanks\<rparr>, s)
         else (case break_run s of
                 (n, s) \<Rightarrow>
                   (sc_flow_level s = 0 \<and> int (sc_col s) < indent,
                    f\<lparr>pf_leading_blanks := True, pf_whitespace := replicate n line_feed\<rparr>, s)))"

lemma skip_plain_separation_moves:
  assumes "skip_plain_separation f i s = (b, g, t)"
  shows "forward s t \<and> (is_blank_or_break (sc_peek s) \<longrightarrow> sc_pos s < sc_pos t)"
proof -
  let ?u = "advance_while is_blank s"
  have su: "forward s ?u" by (rule forward_advance_while)
  have t: "(t = ?u \<and> \<not> is_break (sc_peek ?u)) \<or> (\<exists>n. break_run ?u = (n, t) \<and> is_break (sc_peek ?u))"
    using assms by (auto simp: skip_plain_separation_def Let_def split: if_splits prod.splits)
  have ut: "forward ?u t" using t break_run_forward forward_refl by blast
  have "sc_pos s < sc_pos t" if c: "is_blank_or_break (sc_peek s)"
  proof -
    have p: "sc_pos s < length (sc_input s)"
      using c by (intro peek_eof) (auto simp: is_blank_or_break_def is_blank_def is_break_def)
    show ?thesis
    proof (cases "is_blank (sc_peek s)")
      case True
      then have "takeWhile is_blank (rest s) \<noteq> []"
        using p by (simp add: rest_def sc_peek_def takeWhile_eq_Nil_iff hd_drop_conv_nth)
      then have "sc_pos s < sc_pos ?u" using p by (simp add: advance_while_pos)
      then show ?thesis using ut su p by (auto simp: forward_def)
    next
      case False
      then have "takeWhile is_blank (rest s) = []"
        using p by (simp add: rest_def sc_peek_def takeWhile_eq_Nil_iff hd_drop_conv_nth)
      then have u: "?u = advance_by 0 s" by (simp add: advance_while_def)
      then have "sc_pos ?u = sc_pos s" "sc_input ?u = sc_input s" using p by simp_all
      moreover from this have "sc_peek ?u = sc_peek s" by (simp add: sc_peek_def)
      then have "is_break (sc_peek ?u)" using False c by (simp add: is_blank_or_break_def)
      ultimately show ?thesis using t break_run_pos[of ?u _ t] p by auto
    qed
  qed
  then show ?thesis using su ut forward_trans by blast
qed

lemma run_then_separation:
  assumes "t = (if 0 < n then advance_by n s else s)" and "is_blank_or_break (sc_peek t)"
    and "skip_plain_separation g i t = (b, h, u)"
  shows "sc_pos s < sc_pos u \<and> sc_pos s < length (sc_input s) \<and> sc_input u = sc_input s"
proof -
  have f: "forward s t" using assms(1) by (simp add: forward_advance_by forward_refl)
  have p: "sc_pos t < length (sc_input t)"
    using assms(2) by (intro peek_eof) (auto simp: is_blank_or_break_def is_blank_def is_break_def)
  then have ps: "sc_pos s < length (sc_input s)" using f by (auto simp: forward_def)
  then have "sc_pos s \<le> sc_pos t" using f by (auto simp: forward_def)
  then show ?thesis
    using skip_plain_separation_moves[OF assms(3)] assms(2) f ps by (auto simp: forward_def)
qed

function plain_loop ::
  "int \<Rightarrow> bool \<Rightarrow> plain_fold \<Rightarrow> nat \<Rightarrow> scanner \<Rightarrow> plain_fold \<times> nat \<times> scanner" where
  "plain_loop indent in_flow f content_end s =
     (let n = plain_run_len in_flow s in
      if n = 0 \<and> \<not> pf_leading_blanks f then (f, content_end, s)
      else
        let g = (if n > 0 then fold_join (slice_str (sc_pos s) (sc_pos s + n) s) f else f);
            t = (if n > 0 then advance_by n s else s);
            content_end = (if n > 0 then sc_pos t else content_end)
        in if \<not> is_blank_or_break (sc_peek t) then (g, content_end, t)
           else (case skip_plain_separation g indent t of
                   (True, h, u) \<Rightarrow> (h, content_end, u)
                 | (False, h, u) \<Rightarrow> plain_loop indent in_flow h content_end u))"
  by pat_completeness auto

termination
proof (relation "measure (\<lambda>(i, fl, f, c, s). length (sc_input s) - sc_pos s)", goal_cases)
  case (2 indent in_flow f content_end s n g t c' stop hu h u)
  then have "skip_plain_separation g indent t = (False, h, u)" by simp
  from run_then_separation[OF 2(4) _ this] 2(6) show ?case by auto
qed simp

declare plain_loop.simps [simp del]

lemma plain_loop_forward:
  "plain_loop i fl f ce s = (g, ce', t) \<Longrightarrow>
   forward s t \<and> (pf_string f = [] \<longrightarrow> pf_string g \<noteq> [] \<longrightarrow> sc_pos s < sc_pos t)"
proof (induction i fl f ce s arbitrary: rule: plain_loop.induct)
  case (1 i fl f ce s)
  let ?n = "plain_run_len fl s"
  let ?g = "if ?n > 0 then fold_join (slice_str (sc_pos s) (sc_pos s + ?n) s) f else f"
  let ?t = "if ?n > 0 then advance_by ?n s else s"
  let ?ce = "if ?n > 0 then sc_pos ?t else ce"
  have st: "forward s ?t" by (simp add: forward_advance_by forward_refl)
  have run: "sc_pos s < sc_pos ?t" if "?n > 0"
    using that plain_run_len_le[of fl s] by (auto simp: rest_def)
  show ?case
  proof (cases "?n = 0 \<and> \<not> pf_leading_blanks f")
    case True
    then show ?thesis using "1.prems" by (subst (asm) plain_loop.simps) (auto simp: forward_refl)
  next
    case loops: False
    show ?thesis
    proof (cases "is_blank_or_break (sc_peek ?t)")
      case False
      then have "g = ?g \<and> t = ?t" using "1.prems" loops by (subst (asm) plain_loop.simps) (simp add: Let_def)
      then show ?thesis using st run by auto
    next
      case True
      obtain b h u where u: "skip_plain_separation ?g i ?t = (b, h, u)" by (metis prod_cases3)
      have m: "forward ?t u" "sc_pos s < sc_pos u"
        using skip_plain_separation_moves[OF u] run_then_separation[OF refl True u] by auto
      have r: "if b then (g, t) = (h, u) else plain_loop i fl h ?ce u = (g, ce', t)"
        using "1.prems" loops True u by (subst (asm) plain_loop.simps) (cases b; simp add: Let_def split: if_splits)
      have "forward u t"
      proof (cases b)
        case True
        then show ?thesis using r by (simp add: forward_refl)
      next
        case False
        then show ?thesis
          using "1.IH"[OF refl loops refl refl refl] True u r by auto
      qed
      moreover have "forward s u" using forward_trans[OF st m(1)] .
      ultimately show ?thesis
        using m(2) run_then_separation[OF refl True u] forward_trans by (fastforce simp: forward_def)
    qed
  qed
qed

definition scan_plain_multiline :: "scanner \<Rightarrow> scanner scan" where
  "scan_plain_multiline s =
     (case plain_loop (sc_indent s + 1) (sc_flow_level s > 0) plain_fold_new (sc_pos s) s of
        (f, content_end, t) \<Rightarrow>
          if pf_string f = [] then Inl (scan_err ''unexpected character in YAML stream'' t)
          else
            let t = (if sc_flow_level t = 0 \<and> pf_leading_blanks f then t\<lparr>sc_simple_key_allowed := True\<rparr> else t);
                v = (if pf_single_chunk f then slice_str (sc_pos s) content_end t else pf_string f)
            in and_then (check_scalar_printable v t) (\<lambda>_.
                 Inr ((emit (TScalar Plain v) t)\<lparr>sc_last_token_opens_block := False\<rparr>)))"

definition fetch_plain_scalar :: "scanner \<Rightarrow> scanner scan" where
  "fetch_plain_scalar s =
     (let s = (save_simple_key s)\<lparr>sc_simple_key_allowed := False\<rparr>;
          s = s\<lparr>sc_mark := sc_pos s\<rparr>
      in and_then (try_plain_single_line s) (\<lambda>(emitted, s).
           if emitted then Inr s else scan_plain_multiline s))"

end
