(* ===== verification/Unicode.thy ===== *)
theory Unicode
  imports Text
begin

text \<open>
  Strings as characters: \<open>str::chars\<close> over UTF-8 bytes, the code points with their encoding, and
  hexadecimal numerals.
\<close>

section \<open>Encoding\<close>

text \<open>UTF-8 of a code point, and of the byte of \<open>u8 as char\<close>.\<close>

definition utf8_encode :: "nat \<Rightarrow> string" where
  "utf8_encode c =
     (if c < 0x80 then [char_of c]
      else if c < 0x800 then [char_of (0xC0 + c div 64), char_of (0x80 + c mod 64)]
      else if c < 0x10000
      then [char_of (0xE0 + c div 4096), char_of (0x80 + c div 64 mod 64), char_of (0x80 + c mod 64)]
      else [char_of (0xF0 + c div 262144), char_of (0x80 + c div 4096 mod 64),
            char_of (0x80 + c div 64 mod 64), char_of (0x80 + c mod 64)])"

definition is_scalar_value :: "nat \<Rightarrow> bool" where
  "is_scalar_value c \<longleftrightarrow> c < 0xD800 \<or> (0xE000 \<le> c \<and> c \<le> 0x10FFFF)"

text \<open>The bytes of a string, a list for each character; the width comes from the first byte.\<close>

definition char_len :: "char \<Rightarrow> nat" where
  "char_len c = (if byte c < 0x80 then 1 else if byte c < 0xE0 then 2 else if byte c < 0xF0 then 3 else 4)"

function chars :: "string \<Rightarrow> string list" where
  "chars [] = []"
| "chars (c # cs) = (c # take (char_len c - 1) cs) # chars (drop (char_len c - 1) cs)"
  by pat_completeness auto

termination
  by (relation "measure length") auto

fun code_point :: "string \<Rightarrow> nat" where
  "code_point [a] = byte a"
| "code_point [a, b] = (byte a - 0xC0) * 64 + (byte b - 0x80)"
| "code_point [a, b, c] = (byte a - 0xE0) * 4096 + (byte b - 0x80) * 64 + (byte c - 0x80)"
| "code_point [a, b, c, d] =
     (byte a - 0xF0) * 262144 + (byte b - 0x80) * 4096 + (byte c - 0x80) * 64 + (byte d - 0x80)"
| "code_point _ = 0"

text \<open>A Rust string is the encoding of a list of scalar values.\<close>

definition utf8 :: "nat list \<Rightarrow> string" where
  "utf8 cs = concat (map utf8_encode cs)"

declare byte_char_of [simp]

lemma utf8_encode_cases:
  assumes "c < 0x110000"
  obtains (one) "c < 0x80" "utf8_encode c = [char_of c]"
  | (two) a b where "utf8_encode c = [a, b]" "byte a = 0xC0 + c div 64" "byte b = 0x80 + c mod 64" "0x80 \<le> c" "c < 0x800"
  | (three) a b d where "utf8_encode c = [a, b, d]" "byte a = 0xE0 + c div 4096" "byte b = 0x80 + c div 64 mod 64"
      "byte d = 0x80 + c mod 64" "0x800 \<le> c" "c < 0x10000"
  | (four) a b d e where "utf8_encode c = [a, b, d, e]" "byte a = 0xF0 + c div 262144"
      "byte b = 0x80 + c div 4096 mod 64" "byte d = 0x80 + c div 64 mod 64" "byte e = 0x80 + c mod 64" "0x10000 \<le> c"
proof -
  consider "c < 0x80" | "0x80 \<le> c" "c < 0x800" | "0x800 \<le> c" "c < 0x10000" | "0x10000 \<le> c" by linarith
  then show thesis
  proof cases
    case 1
    then show ?thesis using one by (simp add: utf8_encode_def)
  next
    case 2
    have "c div 64 < 32" using 2 by (simp add: div_less_iff_less_mult)
    then show ?thesis using 2 two[of "char_of (0xC0 + c div 64)" "char_of (0x80 + c mod 64)"]
      by (simp add: utf8_encode_def)
  next
    case 3
    have "c div 4096 < 16" using 3 by (simp add: div_less_iff_less_mult)
    then show ?thesis
      using 3 three[of "char_of (0xE0 + c div 4096)" "char_of (0x80 + c div 64 mod 64)" "char_of (0x80 + c mod 64)"]
      by (simp add: utf8_encode_def)
  next
    case 4
    have "c div 262144 < 5" using assms by (simp add: div_less_iff_less_mult)
    then show ?thesis
      using 4 four[of "char_of (0xF0 + c div 262144)" "char_of (0x80 + c div 4096 mod 64)"
          "char_of (0x80 + c div 64 mod 64)" "char_of (0x80 + c mod 64)"]
      by (simp add: utf8_encode_def)
  qed
qed

lemma base64_digits:
  fixes c :: nat
  shows "c div 4096 * 4096 + c div 64 mod 64 * 64 + c mod 64 = c"
    and "c div 262144 * 262144 + c div 4096 mod 64 * 4096 + c div 64 mod 64 * 64 + c mod 64 = c"
proof -
  define q where "q = c div 64"
  define r where "r = q div 64"
  have c: "c = 64 * q + c mod 64" and q: "q = 64 * r + q mod 64" and r: "r = 64 * (r div 64) + r mod 64"
    by (simp_all add: q_def r_def)
  have d: "c div 4096 = r" "c div 262144 = r div 64" by (simp_all add: q_def r_def div_mult2_eq[symmetric])
  show "c div 4096 * 4096 + c div 64 mod 64 * 64 + c mod 64 = c"
    unfolding d q_def[symmetric] using c q by linarith
  show "c div 262144 * 262144 + c div 4096 mod 64 * 4096 + c div 64 mod 64 * 64 + c mod 64 = c"
    unfolding d q_def[symmetric] using c q r by linarith
qed

lemma code_point_encode: "c < 0x110000 \<Longrightarrow> code_point (utf8_encode c) = c"
  by (erule utf8_encode_cases) (simp_all add: base64_digits)

lemma chars_one: "c < (0x80 :: nat) \<Longrightarrow> chars (char_of c # s) = [char_of c] # chars s"
  by (simp add: char_len_def)

lemma chars_encode:
  assumes "c < 0x110000" shows "chars (utf8_encode c @ s) = utf8_encode c # chars s"
  using assms
proof (cases c rule: utf8_encode_cases)
  case one
  then show ?thesis by (simp only: append.simps chars_one)
next
  case (two a b)
  have "c div 64 < 32" using two by (simp add: div_less_iff_less_mult)
  then have "char_len a = 2" using two(2) by (simp add: char_len_def)
  then show ?thesis using two(1) by simp
next
  case (three a b d)
  have "c div 4096 < 16" using three by (simp add: div_less_iff_less_mult)
  then have "char_len a = 3" using three(2) by (simp add: char_len_def)
  then show ?thesis using three(1) by (simp add: numeral_eq_Suc)
next
  case (four a b d e)
  then have "char_len a = 4" by (simp add: char_len_def)
  then show ?thesis using four(1) by (simp add: numeral_eq_Suc)
qed

lemma chars_utf8: "list_all (\<lambda>c. c < 0x110000) cs \<Longrightarrow> chars (utf8 cs) = map utf8_encode cs"
  by (induction cs) (simp_all add: utf8_def chars_encode)

section \<open>Hexadecimal\<close>

definition is_hex_digit :: "char \<Rightarrow> bool" where
  "is_hex_digit c \<longleftrightarrow> is_ascii_digit c \<or> (65 \<le> byte c \<and> byte c \<le> 70) \<or> (97 \<le> byte c \<and> byte c \<le> 102)"

definition hex_val :: "char \<Rightarrow> nat" where
  "hex_val c = (if is_ascii_digit c then byte c - 48 else if byte c \<le> 70 then byte c - 55 else byte c - 87)"

definition hex_value :: "string \<Rightarrow> nat" where
  "hex_value ds = foldl (\<lambda>acc c. acc * 16 + hex_val c) 0 ds"

text \<open>\<open>{code:04X}\<close>\<close>

definition hex_digit_upper :: "nat \<Rightarrow> char" where
  "hex_digit_upper d = char_of (if d < 10 then 48 + d else 55 + d)"

fun show_hex :: "nat \<Rightarrow> nat \<Rightarrow> string" where
  "show_hex 0 n = (if n = 0 then [] else show_hex 0 (n div 16) @ [hex_digit_upper (n mod 16)])"
| "show_hex (Suc w) n = show_hex w (n div 16) @ [hex_digit_upper (n mod 16)]"

declare show_hex.simps(1) [simp del]

end
