(* ===== verification/Scan_Quoted.thy ===== *)
theory Scan_Quoted
  imports Scan_Plain Unicode
begin

text \<open>
  The readers of quoted scalars (\<open>parser/scanner/scalars.rs\<close>) with their line folding and the
  escapes of double quotes.
\<close>

abbreviation single_quote :: char where "single_quote \<equiv> CHR 0x27"
abbreviation double_quote :: char where "double_quote \<equiv> CHR 0x22"
abbreviation backslash :: char where "backslash \<equiv> CHR 0x5C"

section \<open>Continuation lines\<close>

definition continuation_error :: "string \<Rightarrow> string" where
  "continuation_error style = style @ '' continuation must be indented more than the parent block''"

definition require_quoted_continuation_indent :: "string \<Rightarrow> scanner \<Rightarrow> unit scan" where
  "require_quoted_continuation_indent style s =
     ensure (sc_flow_level s \<noteq> 0 \<or> is_eof s \<or> is_break (sc_peek s) \<or> \<not> int (sc_col s) \<le> sc_indent s)
       (scan_err (continuation_error style) s)"

definition require_quoted_continuation_indent_spaces :: "string \<Rightarrow> int \<Rightarrow> scanner \<Rightarrow> unit scan" where
  "require_quoted_continuation_indent_spaces style space_indent s =
     ensure (sc_flow_level s \<noteq> 0 \<or> is_eof s \<or> is_break (sc_peek s) \<or> \<not> space_indent \<le> sc_indent s)
       (scan_err (continuation_error style) s)"

definition reject_doc_marker_in_quoted :: "string \<Rightarrow> scanner \<Rightarrow> unit scan" where
  "reject_doc_marker_in_quoted style s =
     ensure (\<not> (sc_col s = 0 \<and> \<not> is_eof s \<and> at_document_marker s))
       (scan_err (''document marker '' @ [single_quote] @ replicate 3 (sc_peek s) @ [single_quote]
          @ '' is not allowed inside a '' @ style @ '' scalar'') s)"

section \<open>Single quotes\<close>

text \<open>The pending fold or white space, written before more content or the end.\<close>

definition flush_single :: "string \<Rightarrow> string \<Rightarrow> bool \<Rightarrow> string" where
  "flush_single str whitespace leading_break =
     str @ (if leading_break \<and> whitespace = [] then [space] else whitespace)"

definition single_break :: "string \<Rightarrow> bool \<Rightarrow> scanner \<Rightarrow> (string \<times> scanner) scan" where
  "single_break whitespace leading_break s =
     (let s = take_break s in
      and_then (reject_doc_marker_in_quoted ''single-quoted'' s) (\<lambda>_.
      let s = advance_while is_blank s in
      and_then (require_quoted_continuation_indent ''single-quoted'' s) (\<lambda>_.
        Inr (if leading_break then whitespace @ [line_feed] else [], s))))"

definition is_single_stop :: "char \<Rightarrow> bool" where
  "is_single_stop c \<longleftrightarrow> c = single_quote \<or> is_blank_or_break c"

lemma ensure_Inr [res_simps]: "ensure ok e = Inr u \<longleftrightarrow> ok"
  by (simp add: ensure_def)

lemma single_break_forward:
  assumes "single_break w l s = Inr (v, t)" and "\<not> is_eof s"
  shows "forward s t \<and> sc_pos s < sc_pos t"
proof -
  have t: "t = advance_while is_blank (take_break s)"
    using assms(1) by (auto simp: single_break_def Let_def res_simps)
  have "forward (take_break s) t" unfolding t by (rule forward_advance_while)
  moreover have "forward s (take_break s)" by (rule forward_take_break)
  moreover have "sc_pos s < sc_pos (take_break s)" using assms(2) by (intro take_break_pos) (simp add: is_eof_def)
  ultimately show ?thesis using assms(2) by (auto simp: forward_def is_eof_def)
qed

lemma blanks_move:
  assumes "is_blank (sc_peek s)"
  shows "sc_pos s < sc_pos (advance_while is_blank s)" "\<not> is_eof s"
proof -
  have p: "sc_pos s < length (sc_input s)"
    using assms by (intro peek_eof) (auto simp: is_blank_def)
  then have "takeWhile is_blank (rest s) \<noteq> []"
    using assms by (simp add: rest_def sc_peek_def takeWhile_eq_Nil_iff hd_drop_conv_nth)
  then show "sc_pos s < sc_pos (advance_while is_blank s)" "\<not> is_eof s"
    using p by (simp_all add: advance_while_pos is_eof_def)
qed

lemma blanks_decrease:
  "is_blank (sc_peek s) \<Longrightarrow> length (sc_input s) - sc_pos (advance_while is_blank s) < length (sc_input s) - sc_pos s"
  using blanks_move[of s] by (auto simp: is_eof_def)

function single_loop :: "string \<Rightarrow> string \<Rightarrow> bool \<Rightarrow> scanner \<Rightarrow> (string \<times> scanner) scan" where
  "single_loop str whitespace leading_break s =
     (if is_eof s then Inl (scan_err ''unterminated single-quoted string'' s)
      else if sc_peek s = single_quote then
        (if peek_at 1 s = single_quote
         then single_loop (flush_single str whitespace leading_break @ [single_quote]) [] False (advance_by 2 s)
         else Inr (flush_single str whitespace leading_break, advance s))
      else if is_break (sc_peek s) then
        (case single_break whitespace leading_break s of
           Inl e \<Rightarrow> Inl e
         | Inr (w, t) \<Rightarrow> single_loop str w True t)
      else
        let str = flush_single str whitespace leading_break in
        if is_blank (sc_peek s) then
          let t = advance_while is_blank s; run = slice_str (sc_pos s) (sc_pos t) s
          in if is_break (sc_peek t) \<or> sc_peek t = single_quote then single_loop str run False t
             else single_loop (str @ run) [] False t
        else
          let n = length (takeWhile (\<lambda>c. \<not> is_single_stop c) (rest s));
              t = advance_by (if n = 0 then 1 else n) s
          in single_loop (str @ slice_str (sc_pos s) (sc_pos t) s) [] False t)"
  by pat_completeness auto

termination
proof (relation "measure (\<lambda>(str, w, l, s). length (sc_input s) - sc_pos s)", goal_cases)
  case (3 str w l s p w' t)
  then have "single_break w l s = Inr (w', t)" by simp
  from single_break_forward[OF this 3(1)] 3(1) show ?case by (auto simp: is_eof_def forward_def)
next
  case (6 str w l s)
  then show ?case
    by (auto simp: is_eof_def intro!: diff_less_mono2)
qed (auto simp: is_eof_def blanks_decrease)

declare single_loop.simps [simp del]

lemma single_loop_forward: "single_loop str w l s = Inr (v, t) \<Longrightarrow> forward s t"
proof (induction str w l s rule: single_loop.induct)
  case (1 str w l s)
  show ?case
  proof (cases "is_eof s \<or> (sc_peek s = single_quote \<and> peek_at 1 s \<noteq> single_quote)")
    case True
    then show ?thesis
      using "1.prems" by (subst (asm) single_loop.simps) (auto simp: forward_advance split: if_splits)
  next
    case False
    then have ne: "\<not> is_eof s" by blast
    have "\<exists>u. forward s u \<and> forward u t"
    proof (cases "sc_peek s = single_quote")
      case True
      have "single_loop (flush_single str w l @ [single_quote]) [] False (advance_by 2 s) = Inr (v, t)"
        using "1.prems" False True by (subst (asm) single_loop.simps) simp
      then show ?thesis using "1.IH"(1) False True forward_advance_by by blast
    next
      case quote: False
      show ?thesis
      proof (cases "is_break (sc_peek s)")
        case True
        then obtain w' u where u: "single_break w l s = Inr (w', u)" "single_loop str w' True u = Inr (v, t)"
          using "1.prems" ne quote by (subst (asm) single_loop.simps) (auto split: sum.splits)
        then show ?thesis using "1.IH"(2)[OF ne quote True u(1) refl] single_break_forward[OF u(1) ne] by blast
      next
        case break: False
        show ?thesis
        proof (cases "is_blank (sc_peek s)")
          case True
          let ?t = "advance_while is_blank s"
          have f: "forward s ?t" by (rule forward_advance_while)
          show ?thesis
          proof (cases "is_break (sc_peek ?t) \<or> sc_peek ?t = single_quote")
            case c: True
            then have "single_loop (flush_single str w l) (slice_str (sc_pos s) (sc_pos ?t) s) False ?t = Inr (v, t)"
              using "1.prems" ne quote break True by (subst (asm) single_loop.simps) (simp add: Let_def)
            then show ?thesis using "1.IH"(3)[OF ne quote break refl True refl refl c] f by blast
          next
            case c: False
            then have "single_loop (flush_single str w l @ slice_str (sc_pos s) (sc_pos ?t) s) [] False ?t = Inr (v, t)"
              using "1.prems" ne quote break True by (subst (asm) single_loop.simps) (simp add: Let_def)
            then show ?thesis using "1.IH"(4)[OF ne quote break refl True refl refl c] f by blast
          qed
        next
          case blank: False
          let ?n = "length (takeWhile (\<lambda>c. \<not> is_single_stop c) (rest s))"
          let ?t = "advance_by (if ?n = 0 then 1 else ?n) s"
          have "single_loop (flush_single str w l @ slice_str (sc_pos s) (sc_pos ?t) s) [] False ?t = Inr (v, t)"
            using "1.prems" ne quote break blank by (subst (asm) single_loop.simps) (simp only: Let_def if_False)
          then show ?thesis using "1.IH"(5)[OF ne quote break refl blank refl refl] forward_advance_by by blast
        qed
      qed
    qed
    then show ?thesis using forward_trans by blast
  qed
qed

definition scan_single_quoted_scalar :: "scanner \<Rightarrow> (string \<times> scanner) scan" where
  "scan_single_quoted_scalar s = single_loop [] [] False (advance s)"

section \<open>Escapes\<close>

definition invalid_code_point :: "nat \<Rightarrow> nat \<Rightarrow> scan_error" where
  "invalid_code_point code index = scan_err_at (''invalid Unicode code point U+'' @ show_hex 4 code) index"

text \<open>\<open>n\<close> hexadecimal digits at the cursor, or an error.\<close>

definition read_hex :: "nat \<Rightarrow> scan_error \<Rightarrow> scanner \<Rightarrow> (nat \<times> scanner) scan" where
  "read_hex n e s =
     (let digits = take n (takeWhile is_hex_digit (rest s))
      in if length digits < n then Inl e else Inr (hex_value digits, advance_by n s))"

definition scan_hex_escape :: "nat \<Rightarrow> scanner \<Rightarrow> (nat \<times> scanner) scan" where
  "scan_hex_escape digits s =
     and_then (read_hex digits
         (scan_err (''expected '' @ show_nat digits @ '' hex digits in escape sequence'') s) s) (\<lambda>(code, t).
       if is_scalar_value code then Inr (code, t) else Inl (invalid_code_point code (sc_pos s)))"

definition scan_unicode_4 :: "scanner \<Rightarrow> (nat \<times> scanner) scan" where
  "scan_unicode_4 s =
     and_then (read_hex 4 (scan_err ''expected 4 hex digits in escape sequence'' s) s) (\<lambda>(code, t).
       if is_scalar_value code then Inr (code, t)
       else if 0xD800 \<le> code \<and> code \<le> 0xDBFF \<and> sc_peek t = backslash \<and> peek_at 1 t = CHR ''u'' then
         and_then (read_hex 4 (scan_err (''high surrogate must be followed by a '' @ [grave, backslash]
             @ ''uXXXX'' @ [grave] @ '' low surrogate'') t) (advance_by 2 t)) (\<lambda>(low, u).
           if 0xDC00 \<le> low \<and> low \<le> 0xDFFF
           then Inr (0x10000 + (code - 0xD800) * 1024 + (low - 0xDC00), u)
           else Inl (scan_err (''high surrogate U+'' @ show_hex 4 code
                  @ '' not followed by a low surrogate (got U+'' @ show_hex 4 low @ '')'') t))
       else Inl (invalid_code_point code (sc_pos s)))"

record quoted_fold =
  qf_whitespace :: string
  qf_leading_break :: bool
  qf_escaped_break :: bool

definition quoted_fold_new :: quoted_fold where
  "quoted_fold_new = \<lparr>qf_whitespace = [], qf_leading_break = False, qf_escaped_break = False\<rparr>"

text \<open>\<open>QuotedFold::flush\<close>, which leaves the fold empty.\<close>

definition flush_double :: "quoted_fold \<Rightarrow> string \<Rightarrow> string" where
  "flush_double f out =
     (if qf_leading_break f \<and> qf_whitespace f = []
      then (if qf_escaped_break f then out else out @ [space])
      else out @ qf_whitespace f)"

text \<open>The escapes of one character.\<close>

definition simple_escape :: "char \<Rightarrow> nat option" where
  "simple_escape c =
     (if c = CHR ''0'' then Some 0
      else if c = CHR ''a'' then Some 7
      else if c = CHR ''b'' then Some 8
      else if c = CHR ''t'' \<or> c = tab then Some 9
      else if c = CHR ''n'' then Some 10
      else if c = CHR ''v'' then Some 11
      else if c = CHR ''f'' then Some 12
      else if c = CHR ''r'' then Some 13
      else if c = CHR ''e'' then Some 27
      else if c = space then Some 32
      else if c = double_quote then Some 34
      else if c = CHR ''/'' then Some 47
      else if c = backslash then Some 92
      else if c = CHR ''N'' then Some 0x85
      else if c = CHR ''_'' then Some 0xA0
      else if c = CHR ''L'' then Some 0x2028
      else if c = CHR ''P'' then Some 0x2029
      else None)"

text \<open>An escape after its backslash: the text and the fold after it.\<close>

definition scan_double_escape :: "string \<Rightarrow> scanner \<Rightarrow> ((string \<times> quoted_fold) \<times> scanner) scan" where
  "scan_double_escape str s0 =
     (let s = advance s0 in
      if is_eof s then Inl (scan_err ''unexpected end of input in escape sequence'' s)
      else
        let escaped = sc_peek s; s = advance s;
            push = (\<lambda>(code, t). Inr ((str @ utf8_encode code, quoted_fold_new), t))
        in case simple_escape escaped of
             Some code \<Rightarrow> push (code, s)
           | None \<Rightarrow>
               if escaped = CHR ''x'' then and_then (scan_hex_escape 2 s) push
               else if escaped = CHR ''u'' then and_then (scan_unicode_4 s) push
               else if escaped = CHR ''U'' then and_then (scan_hex_escape 8 s) push
               else if is_break escaped then
                 let s = (if escaped = carriage_return \<and> sc_peek s = line_feed then advance s else s)
                 in Inr ((str, quoted_fold_new\<lparr>qf_leading_break := True, qf_escaped_break := True\<rparr>),
                         advance_while is_blank s)
               else Inl (scan_err_at (''unknown escape character '' @ [single_quote, backslash]
                      @ utf8_encode (byte escaped) @ [single_quote]) (sc_pos s - 1)))"

section \<open>Double quotes\<close>

definition scan_double_break :: "quoted_fold \<Rightarrow> scanner \<Rightarrow> (quoted_fold \<times> scanner) scan" where
  "scan_double_break f s =
     (let f = (if qf_leading_break f then f\<lparr>qf_whitespace := qf_whitespace f @ [line_feed]\<rparr>
               else f\<lparr>qf_whitespace := [], qf_leading_break := True\<rparr>);
          s = take_break s
      in and_then (reject_doc_marker_in_quoted ''double-quoted'' s) (\<lambda>_.
         let space_indent = length (takeWhile (\<lambda>c. c = space) (rest s));
             s = advance_while is_blank s
         in and_then (require_quoted_continuation_indent_spaces ''double-quoted'' (int space_indent) s) (\<lambda>_.
              Inr (f, s))))"

definition is_double_stop :: "char \<Rightarrow> bool" where
  "is_double_stop c \<longleftrightarrow> c = double_quote \<or> c = backslash \<or> is_blank_or_break c"

definition scan_double_content :: "string \<Rightarrow> scanner \<Rightarrow> ((string \<times> quoted_fold) \<times> scanner) scan" where
  "scan_double_content str s =
     (if is_blank (sc_peek s) then
        let t = advance_while is_blank s; run = slice_str (sc_pos s) (sc_pos t) s
        in Inr (if is_break (sc_peek t) \<or> sc_peek t = double_quote \<or> sc_peek t = backslash
                then (str, quoted_fold_new\<lparr>qf_whitespace := run\<rparr>) else (str @ run, quoted_fold_new), t)
      else
        let n = length (takeWhile (\<lambda>c. \<not> is_double_stop c) (rest s));
            t = advance_by (if n = 0 then 1 else n) s;
            run = slice_str (sc_pos s) (sc_pos t) s
        in if list_ex (\<lambda>b. byte b < 0x20 \<or> byte b = 0x7f) run
           then Inl (scan_err (''double-quoted scalar contains a raw control character '' @ em_dash
                  @ '' use an escape ('' @ [backslash] @ ''x.., '' @ [backslash] @ ''u....) instead'') s)
           else Inr ((str @ run, quoted_fold_new), t))"

lemma read_hex_forward: "read_hex n e s = Inr (c, t) \<Longrightarrow> forward s t"
  by (auto simp: read_hex_def Let_def forward_advance_by split: if_splits)

lemma scan_hex_escape_forward: "scan_hex_escape n s = Inr (c, t) \<Longrightarrow> forward s t"
  by (auto simp: scan_hex_escape_def res_simps dest: read_hex_forward split: if_splits)

lemma scan_unicode_4_forward: "scan_unicode_4 s = Inr (c, t) \<Longrightarrow> forward s t"
proof -
  assume "scan_unicode_4 s = Inr (c, t)"
  then obtain d u where u: "read_hex 4 (scan_err ''expected 4 hex digits in escape sequence'' s) s = Inr (d, u)"
    and "t = u \<or> (\<exists>e l. read_hex 4 e (advance_by 2 u) = Inr (l, t))"
    by (auto simp: scan_unicode_4_def res_simps split: if_splits)
  then have "t = u \<or> forward (advance_by 2 u) t" using read_hex_forward by blast
  then have "forward u t" using forward_trans[OF forward_advance_by] forward_refl by blast
  then show ?thesis using read_hex_forward[OF u] forward_trans by blast
qed

lemma scan_double_escape_forward:
  assumes "scan_double_escape str s = Inr (r, t)" and "\<not> is_eof s"
  shows "forward s t \<and> sc_pos s < sc_pos t"
proof -
  let ?a = "advance s" let ?b = "advance ?a"
  have "forward ?b t"
  proof -
    have "t = ?b \<or> (\<exists>c. scan_hex_escape 2 ?b = Inr (c, t)) \<or> (\<exists>c. scan_unicode_4 ?b = Inr (c, t))
        \<or> (\<exists>c. scan_hex_escape 8 ?b = Inr (c, t)) \<or> t = advance_while is_blank ?b
        \<or> t = advance_while is_blank (advance ?b)"
      using assms(1) by (auto simp: scan_double_escape_def Let_def res_simps split: if_splits option.splits)
    moreover have "forward ?b (advance_while is_blank (advance ?b))"
      by (rule forward_trans[OF forward_advance forward_advance_while])
    ultimately show ?thesis
      using scan_hex_escape_forward scan_unicode_4_forward forward_refl forward_advance_while by blast
  qed
  moreover have "forward ?a ?b" by (rule forward_advance)
  ultimately have "forward ?a t" by (metis forward_trans)
  then show ?thesis using assms(2) by (auto simp: forward_def is_eof_def)
qed

lemma scan_double_break_forward:
  assumes "scan_double_break f s = Inr (g, t)" and "\<not> is_eof s"
  shows "forward s t \<and> sc_pos s < sc_pos t"
proof -
  have t: "t = advance_while is_blank (take_break s)"
    using assms(1) by (auto simp: scan_double_break_def Let_def res_simps)
  have "forward (take_break s) t" unfolding t by (rule forward_advance_while)
  moreover have "forward s (take_break s)" by (rule forward_take_break)
  moreover have "sc_pos s < sc_pos (take_break s)" using assms(2) by (intro take_break_pos) (simp add: is_eof_def)
  ultimately show ?thesis using assms(2) by (auto simp: forward_def is_eof_def)
qed

lemma scan_double_content_forward:
  assumes "scan_double_content str s = Inr (r, t)" and "\<not> is_eof s"
  shows "forward s t \<and> sc_pos s < sc_pos t"
proof (cases "is_blank (sc_peek s)")
  case True
  then have "t = advance_while is_blank s" using assms(1) by (auto simp: scan_double_content_def Let_def)
  then show ?thesis using blanks_move[OF True] forward_advance_while[of s is_blank] assms(2)
    by (auto simp: forward_def is_eof_def)
next
  case False
  then show ?thesis using assms by (auto simp: scan_double_content_def Let_def is_eof_def forward_advance_by split: if_splits)
qed

function double_loop :: "string \<Rightarrow> quoted_fold \<Rightarrow> scanner \<Rightarrow> (string \<times> scanner) scan" where
  "double_loop str f s =
     (if is_eof s then Inl (scan_err ''unterminated double-quoted string'' s)
      else if sc_peek s = double_quote then Inr (flush_double f str, advance s)
      else if sc_peek s = backslash then
        (case scan_double_escape (flush_double f str) s of
           Inl e \<Rightarrow> Inl e
         | Inr ((str, g), t) \<Rightarrow> double_loop str g t)
      else if is_break (sc_peek s) then
        (case scan_double_break f s of
           Inl e \<Rightarrow> Inl e
         | Inr (g, t) \<Rightarrow> double_loop str g t)
      else
        (case scan_double_content (flush_double f str) s of
           Inl e \<Rightarrow> Inl e
         | Inr ((str, g), t) \<Rightarrow> double_loop str g t))"
  by pat_completeness auto

termination
proof (relation "measure (\<lambda>(str, f, s). length (sc_input s) - sc_pos s)", goal_cases)
  case (2 str f s r p t str' g)
  then show ?case
    using scan_double_escape_forward[of "flush_double f str" s "(str', g)" t] by (auto simp: is_eof_def forward_def)
next
  case (3 str f s p g t)
  then show ?case using scan_double_break_forward[of f s g t] by (auto simp: is_eof_def forward_def)
next
  case (4 str f s r p t str' g)
  then show ?case
    using scan_double_content_forward[of "flush_double f str" s "(str', g)" t] by (auto simp: is_eof_def forward_def)
qed simp

declare double_loop.simps [simp del]

lemma double_loop_forward: "double_loop str f s = Inr (v, t) \<Longrightarrow> forward s t"
proof (induction str f s rule: double_loop.induct)
  case (1 str f s)
  show ?case
  proof (cases "is_eof s \<or> sc_peek s = double_quote")
    case True
    then show ?thesis
      using "1.prems" by (subst (asm) double_loop.simps) (auto simp: forward_advance split: if_splits)
  next
    case False
    have "\<exists>str' g u. forward s u \<and> double_loop str' g u = Inr (v, t)
      \<and> (double_loop str' g u = Inr (v, t) \<longrightarrow> forward u t)"
    proof (cases "sc_peek s = backslash")
      case True
      then obtain str' g u where u: "scan_double_escape (flush_double f str) s = Inr ((str', g), u)"
          "double_loop str' g u = Inr (v, t)"
        using "1.prems" False by (subst (asm) double_loop.simps) (auto split: sum.splits)
      then show ?thesis
        using "1.IH"(1)[of "((str', g), u)" "(str', g)" u str' g] False True scan_double_escape_forward[OF u(1)] by blast
    next
      case escape: False
      show ?thesis
      proof (cases "is_break (sc_peek s)")
        case True
        then obtain g u where u: "scan_double_break f s = Inr (g, u)" "double_loop str g u = Inr (v, t)"
          using "1.prems" False escape by (subst (asm) double_loop.simps) (auto split: sum.splits)
        then show ?thesis
          using "1.IH"(2)[of "(g, u)" g u] False escape True scan_double_break_forward[OF u(1)] by blast
      next
        case break: False
        then obtain str' g u where u: "scan_double_content (flush_double f str) s = Inr ((str', g), u)"
            "double_loop str' g u = Inr (v, t)"
          using "1.prems" False escape by (subst (asm) double_loop.simps) (auto split: sum.splits)
        then show ?thesis
          using "1.IH"(3)[of "((str', g), u)" "(str', g)" u str' g] False escape break scan_double_content_forward[OF u(1)]
          by blast
      qed
    qed
    then show ?thesis using forward_trans by blast
  qed
qed

definition scan_double_quoted_scalar :: "scanner \<Rightarrow> (string \<times> scanner) scan" where
  "scan_double_quoted_scalar s = double_loop [] quoted_fold_new (advance s)"

definition fetch_quoted_scalar :: "bool \<Rightarrow> scanner \<Rightarrow> scanner scan" where
  "fetch_quoted_scalar double s =
     (let s = (save_simple_key_ext True s)\<lparr>sc_simple_key_allowed := False\<rparr>;
          s = s\<lparr>sc_mark := sc_pos s\<rparr>
      in and_then (if double then scan_double_quoted_scalar s
                   else and_then (scan_single_quoted_scalar s) (\<lambda>(v, s).
                          and_then (check_scalar_printable v s) (\<lambda>_. Inr (v, s)))) (\<lambda>(v, s).
           let s = (emit (TScalar (if double then DoubleQuoted else SingleQuoted) v) s)\<lparr>sc_last_token_opens_block := False\<rparr>
           in Inr (if sc_flow_level s > 0 then s\<lparr>sc_adjacent_value_allowed := True\<rparr> else s)))"

end
