(* ===== verification/Scan_Block.thy ===== *)
theory Scan_Block
  imports Scan_Plain
begin

text \<open>
  The reader of literal and folded block scalars (\<open>parser/scanner/block_scalars.rs\<close>): the header,
  the detection of the indentation, and the lines with their folding and chomping.
\<close>

section \<open>The body\<close>

record block_body =
  bb_string :: string
  bb_trailing_breaks :: string
  bb_leading_blank :: bool

definition block_body_new :: block_body where
  "block_body_new = \<lparr>bb_string = [], bb_trailing_breaks = [], bb_leading_blank = False\<rparr>"

definition place_breaks :: "bool \<Rightarrow> bool \<Rightarrow> block_body \<Rightarrow> block_body" where
  "place_breaks literal is_more_indented b =
     (if bb_trailing_breaks b = [] then b
      else
        let preserve_all = (literal \<or> bb_string b = [] \<or> is_more_indented \<or> bb_leading_blank b);
            joint = (if preserve_all then bb_trailing_breaks b
                     else if length (bb_trailing_breaks b) = 1 then [space]
                     else drop 1 (bb_trailing_breaks b))
        in b\<lparr>bb_string := bb_string b @ joint, bb_trailing_breaks := []\<rparr>)"

definition push_spaced_blank :: "nat \<Rightarrow> block_body \<Rightarrow> block_body" where
  "push_spaced_blank extra b =
     b\<lparr>bb_string := bb_string b @ bb_trailing_breaks b @ replicate extra space, bb_trailing_breaks := [],
       bb_leading_blank := True\<rparr>"

text \<open>1 keeps the trailing breaks, 0 clips them to one, \<open>-1\<close> strips them.\<close>

definition chomp :: "int \<Rightarrow> block_body \<Rightarrow> string" where
  "chomp chomping b =
     (if chomping = 1 then bb_string b @ bb_trailing_breaks b
      else if chomping = 0 \<and> bb_string b \<noteq> [] then bb_string b @ [line_feed]
      else bb_string b)"

section \<open>The header\<close>

text \<open>At most two indicators, in either order.\<close>

fun block_indicators :: "nat \<Rightarrow> int \<Rightarrow> nat \<Rightarrow> scanner \<Rightarrow> (int \<times> nat) \<times> scanner" where
  "block_indicators 0 chomping increment s = ((chomping, increment), s)"
| "block_indicators (Suc n) chomping increment s =
     (let c = sc_peek s in
      if is_eof s then ((chomping, increment), s)
      else if c = CHR ''+'' then block_indicators n 1 increment (advance s)
      else if c = CHR ''-'' then block_indicators n (- 1) increment (advance s)
      else if is_ascii_digit c \<and> c \<noteq> CHR ''0'' then block_indicators n chomping (byte c - 48) (advance s)
      else ((chomping, increment), s))"

definition scan_block_indicators :: "scanner \<Rightarrow> (int \<times> nat) \<times> scanner" where
  "scan_block_indicators s = block_indicators 2 0 0 s"

text \<open>The text of a header comment up to the break, refused at a control character.\<close>

definition skip_header_comment :: "scanner \<Rightarrow> scanner scan" where
  "skip_header_comment s =
     (let text = takeWhile (\<lambda>c. \<not> is_break c) (rest s);
          clean = takeWhile (\<lambda>c. \<not> is_raw_control c) text;
          t = advance_by (length clean) s
      in if length clean < length text then Inl (scan_err ''comment contains a raw control character'' t)
         else Inr t)"

definition scan_block_header :: "scanner \<Rightarrow> ((int \<times> nat) \<times> scanner) scan" where
  "scan_block_header s =
     (case scan_block_indicators s of
        (indicators, s) \<Rightarrow>
          and_then (ensure (\<not> is_ascii_digit (sc_peek s))
            (scan_err ''invalid block scalar indentation indicator (must be a single digit 1..9)'' s)) (\<lambda>_.
          let prior = sc_pos s; s = advance_while is_blank s in
          and_then (if sc_peek s = CHR ''#'' then
                      (if sc_pos s = prior
                       then Inl (scan_err ''comment indicator '#' must be preceded by a space or tab'' s)
                       else skip_header_comment s)
                    else Inr s) (\<lambda>s.
          and_then (ensure (is_eof s \<or> is_break (sc_peek s))
            (scan_err ''block scalar header must be followed by a comment or a line break'' s)) (\<lambda>_.
          Inr (indicators, if is_break (sc_peek s) then skip_line s else s)))))"

section \<open>Indentation\<close>

lemma line_after_spaces:
  assumes "is_break (sc_peek (advance_while p s))"
  shows "sc_pos s < sc_pos (skip_line (advance_while p s)) \<and> sc_pos s < length (sc_input s)
    \<and> sc_input (skip_line (advance_while p s)) = sc_input s
    \<and> sc_pos (skip_line (advance_while p s)) \<le> length (sc_input s)"
  using skip_line_pos[of "advance_while p s"] assms break_not_eof[OF assms] forward_advance_while[of s p]
  by (auto simp: forward_def)

text \<open>
  The look-ahead over the leading empty lines: the indentation of the first line of the scalar, if
  it has one, and the most spaces of an empty line before it.
\<close>

function content_indent_from :: "nat \<Rightarrow> scanner \<Rightarrow> nat \<times> bool \<times> nat" where
  "content_indent_from max_empty s =
     (let spaces = length (takeWhile (\<lambda>c. c = space) (rest s));
          t = advance_while (\<lambda>c. c = space) s
      in if is_break (sc_peek t) then content_indent_from (max max_empty spaces) (skip_line t)
         else if is_eof t then (0, False, max_empty)
         else if int spaces > sc_indent s \<and> \<not> (spaces = 0 \<and> at_document_marker t)
         then (spaces, True, max_empty)
         else (0, False, max_empty))"
  by pat_completeness auto

termination
  by (relation "measure (\<lambda>(m, s). length (sc_input s) - sc_pos s)") (auto dest!: line_after_spaces)

declare content_indent_from.simps [simp del]

definition peek_first_content_indent :: "scanner \<Rightarrow> nat \<times> bool \<times> nat" where
  "peek_first_content_indent s = content_indent_from 0 s"

definition detect_block_indent :: "nat \<Rightarrow> scanner \<Rightarrow> nat scan" where
  "detect_block_indent increment s =
     (case peek_first_content_indent s of
        (detected, has_content, max_leading_empty_spaces) \<Rightarrow>
          let block_indent =
                (if increment > 0 then (if sc_indent s \<ge> 0 then nat (sc_indent s) + increment else increment)
                 else
                   let min_indent = (if sc_indent s \<ge> 0 then nat (sc_indent s) + 1 else 0)
                   in max (if has_content then detected else max_leading_empty_spaces) min_indent)
          in if increment = 0 \<and> max_leading_empty_spaces > block_indent
             then Inl (scan_err ''a leading all-space line must not have too many spaces'' s)
             else Inr block_indent)"

section \<open>Lines\<close>

definition scan_block_blank_line ::
  "block_body \<Rightarrow> nat \<Rightarrow> bool \<Rightarrow> scanner \<Rightarrow> bool \<times> block_body \<times> scanner" where
  "scan_block_blank_line b extra explicit_indent s =
     (let spaced = (extra > 0 \<and> (explicit_indent \<or> bb_string b \<noteq> []));
          b = (if spaced then push_spaced_blank extra b else b)
      in if \<not> is_break (sc_peek s)
         then (False, if spaced then b\<lparr>bb_trailing_breaks := bb_trailing_breaks b @ [line_feed]\<rparr> else b, s)
         else (True, b\<lparr>bb_trailing_breaks := bb_trailing_breaks b @ [line_feed]\<rparr>, skip_line s))"

definition scan_block_content_line :: "block_body \<Rightarrow> bool \<Rightarrow> nat \<Rightarrow> scanner \<Rightarrow> block_body \<times> scanner" where
  "scan_block_content_line b literal extra s =
     (let is_more_indented = (extra > 0 \<or> sc_peek s = tab);
          b = place_breaks literal is_more_indented b;
          t = advance_while (\<lambda>c. \<not> is_break c) s;
          b = b\<lparr>bb_string := bb_string b @ replicate extra space @ slice_str (sc_pos s) (sc_pos t) s,
                bb_leading_blank := is_more_indented\<rparr>
      in if is_break (sc_peek t)
         then (b\<lparr>bb_trailing_breaks := bb_trailing_breaks b @ [line_feed]\<rparr>, skip_line t)
         else (b, t))"

definition scan_block_line ::
  "block_body \<Rightarrow> bool \<Rightarrow> nat \<Rightarrow> nat \<Rightarrow> scanner \<Rightarrow> (bool \<times> block_body \<times> scanner) scan" where
  "scan_block_line b literal block_indent increment s =
     (if sc_col s = 0 \<and> at_document_marker s then Inr (False, b, s)
      else
        let spaces = length (takeWhile (\<lambda>c. c = space) (rest s));
            s = advance_while (\<lambda>c. c = space) s;
            extra = spaces - block_indent
        in if spaces < block_indent \<and> sc_peek s = tab
           then Inl (scan_err ''tab characters are not allowed as block-scalar indentation'' s)
           else if spaces < block_indent \<and> \<not> is_break (sc_peek s) \<and> \<not> is_eof s then Inr (False, b, s)
           else if is_break (sc_peek s) \<or> is_eof s
           then Inr (scan_block_blank_line b extra (increment > 0) s)
           else (case scan_block_content_line b literal extra s of (b, s) \<Rightarrow> Inr (True, b, s)))"

lemma scan_block_blank_line_end:
  "scan_block_blank_line b e x s = (goes_on, c, t) \<Longrightarrow> goes_on = is_break (sc_peek s) \<and> t = (if goes_on then skip_line s else s)"
  by (auto simp: scan_block_blank_line_def Let_def split: if_splits)

lemma scan_block_content_line_end:
  "scan_block_content_line b l e s = (c, t) \<Longrightarrow>
   t = (let u = advance_while (\<lambda>c. \<not> is_break c) s in if is_break (sc_peek u) then skip_line u else u)"
  by (simp add: scan_block_content_line_def Let_def split: if_splits)

lemma scan_block_line_forward:
  assumes "scan_block_line b l bi inc s = Inr (goes_on, c, t)"
  shows "forward s t \<and> (goes_on \<longrightarrow> \<not> is_eof s \<longrightarrow> sc_pos s < sc_pos t)"
proof -
  let ?u = "advance_while (\<lambda>c. c = space) s"
  let ?v = "advance_while (\<lambda>c. \<not> is_break c) ?u"
  have su: "forward s ?u" by (rule forward_advance_while)
  have uv: "forward ?u ?v" by (rule forward_advance_while)
  consider "\<not> goes_on" "t = s" | "\<not> goes_on" "t = ?u"
    | "is_break (sc_peek ?u)" "t = skip_line ?u"
    | "\<not> is_break (sc_peek ?u)" "\<not> is_eof ?u" "t = ?v \<or> t = skip_line ?v"
  proof (cases "sc_col s = 0 \<and> at_document_marker s")
    case True
    then show ?thesis using assms that(1) by (simp add: scan_block_line_def)
  next
    case marker: False
    show ?thesis
    proof (cases "is_break (sc_peek ?u) \<or> is_eof ?u")
      case True
      then have "scan_block_blank_line b (length (takeWhile (\<lambda>c. c = space) (rest s)) - bi) (inc > 0) ?u = (goes_on, c, t)"
        using assms marker by (simp add: scan_block_line_def Let_def split: if_splits)
      from scan_block_blank_line_end[OF this] show ?thesis using that(2,3) by (cases goes_on) auto
    next
      case False
      then consider "\<not> goes_on" "t = ?u"
        | "scan_block_content_line b l (length (takeWhile (\<lambda>c. c = space) (rest s)) - bi) ?u = (c, t)"
        using assms marker by (auto simp: scan_block_line_def Let_def split: if_splits prod.splits)
      then show ?thesis
      proof cases
        case 1
        then show ?thesis by (rule that(2))
      next
        case 2
        then show ?thesis using scan_block_content_line_end[OF 2] that(4) False by (auto simp: Let_def)
      qed
    qed
  qed
  then show ?thesis
  proof cases
    case 1
    then show ?thesis by (simp add: forward_refl)
  next
    case 2
    then show ?thesis using su by simp
  next
    case 3
    then show ?thesis using forward_trans[OF su forward_skip_line] line_after_spaces[of "\<lambda>c. c = space" s] by auto
  next
    case 4
    have "takeWhile (\<lambda>c. \<not> is_break c) (rest ?u) \<noteq> []"
      using 4 by (simp add: rest_def sc_peek_def is_eof_def takeWhile_eq_Nil_iff hd_drop_conv_nth)
    then have "sc_pos ?u < sc_pos ?v" using 4(2) by (simp add: advance_while_pos is_eof_def)
    moreover have vt: "forward ?v t" using 4(3) forward_skip_line forward_refl by blast
    ultimately have "\<not> is_eof s \<longrightarrow> sc_pos s < sc_pos t"
      using su uv 4(2) by (auto simp: forward_def is_eof_def)
    then show ?thesis using forward_trans[OF su forward_trans[OF uv vt]] by blast
  qed
qed

function block_lines ::
  "bool \<Rightarrow> nat \<Rightarrow> nat \<Rightarrow> block_body \<Rightarrow> scanner \<Rightarrow> (block_body \<times> scanner) scan" where
  "block_lines literal block_indent increment b s =
     (if is_eof s then Inr (b, s)
      else
        (case scan_block_line b literal block_indent increment s of
           Inl e \<Rightarrow> Inl e
         | Inr (goes_on, b, t) \<Rightarrow>
             if goes_on then block_lines literal block_indent increment b t else Inr (b, t)))"
  by pat_completeness auto

termination
proof (relation "measure (\<lambda>(l, bi, inc, b, s). length (sc_input s) - sc_pos s)", goal_cases)
  case (2 l bi inc b s r goes_on br c t)
  then have "scan_block_line b l bi inc s = Inr (goes_on, c, t)" by simp
  from scan_block_line_forward[OF this] 2 show ?case by (auto simp: is_eof_def forward_def)
qed simp

declare block_lines.simps [simp del]

lemma block_lines_forward: "block_lines l bi inc b s = Inr (c, t) \<Longrightarrow> forward s t"
proof (induction l bi inc b s rule: block_lines.induct)
  case (1 l bi inc b s)
  show ?case
  proof (cases "is_eof s")
    case True
    then show ?thesis using "1.prems" by (subst (asm) block_lines.simps) (auto simp: forward_refl)
  next
    case False
    then obtain go d u where u: "scan_block_line b l bi inc s = Inr (go, d, u)"
        "if go then block_lines l bi inc d u = Inr (c, t) else (c, t) = (d, u)"
      using "1.prems" by (subst (asm) block_lines.simps) (auto split: sum.splits if_splits)
    have "forward u t"
      using u(2) "1.IH"[OF False u(1) refl refl] forward_refl by (auto split: if_splits)
    then show ?thesis using scan_block_line_forward[OF u(1)] forward_trans by blast
  qed
qed

definition scan_block_scalar :: "bool \<Rightarrow> scanner \<Rightarrow> (string \<times> scanner) scan" where
  "scan_block_scalar literal s =
     and_then (scan_block_header (advance s)) (\<lambda>((chomping, increment), s).
     and_then (detect_block_indent increment s) (\<lambda>block_indent.
     and_then (block_lines literal block_indent increment block_body_new s) (\<lambda>(b, s).
       Inr (chomp chomping b, s))))"

definition fetch_block_scalar :: "bool \<Rightarrow> scanner \<Rightarrow> scanner scan" where
  "fetch_block_scalar literal s =
     and_then (remove_simple_key s) (\<lambda>s.
     let s = s\<lparr>sc_simple_key_allowed := True, sc_mark := sc_pos s\<rparr> in
     and_then (scan_block_scalar literal s) (\<lambda>(v, s).
     and_then (check_scalar_printable v s) (\<lambda>_.
       Inr ((emit (TScalar (if literal then Literal else Folded) v) s)\<lparr>sc_last_token_opens_block := False\<rparr>))))"

end
