(* ===== verification/Scanner.thy ===== *)
theory Scanner
  imports Scan_Quoted Scan_Block
begin

text \<open>
  The token readers of the scanner (\<open>parser/scanner.rs\<close>): document markers and directives, flow
  collections, block entries, keys and values with the promotion of simple keys, anchors, aliases
  and tags, and the dispatch that chooses among them.
\<close>

section \<open>Stream, directives, documents\<close>

definition fetch_stream_start :: "scanner \<Rightarrow> scanner scan" where
  "fetch_stream_start s =
     (let s = s\<lparr>sc_stream_started := True, sc_simple_key_allowed := True,
                sc_simple_keys := sc_simple_keys s @ [no_simple_key]\<rparr>;
          s = (if take 3 (rest s) = bom
               then record_trivia (sc_pos s) Bom ((advance_by 3 s)\<lparr>sc_col := 0\<rparr>) else s)
      in Inr (emit TStreamStart (s\<lparr>sc_mark := sc_pos s\<rparr>)))"

definition fetch_stream_end :: "scanner \<Rightarrow> scanner scan" where
  "fetch_stream_end s =
     (if sc_pending_directive s
      then Inl (scan_err ''directive must be followed by an explicit '---' document indicator'' s)
      else and_then (remove_simple_key (unroll_indent (- 1) s)) (\<lambda>s.
             Inr (emit TStreamEnd (s\<lparr>sc_simple_key_allowed := False, sc_stream_ended := True\<rparr>))))"

definition not_blank_or_break :: "char \<Rightarrow> bool" where
  "not_blank_or_break c \<longleftrightarrow> \<not> is_blank_or_break c"

definition directive_char :: "char \<Rightarrow> bool" where
  "directive_char c \<longleftrightarrow> \<not> is_blank_or_break c \<and> c \<noteq> CHR ''#''"

definition tag_directive :: "scanner \<Rightarrow> scanner" where
  "tag_directive s =
     (let s = skip_blank s in
      if sc_peek s = CHR ''!'' then
        let a = advance_while not_blank_or_break s;
            b = skip_blank a;
            c = advance_while not_blank_or_break b
        in c\<lparr>sc_tag_handles := imap_insert (slice_str (sc_pos s) (sc_pos a) s) (slice_str (sc_pos b) (sc_pos c) s)
                                 (sc_tag_handles c)\<rparr>
      else s)"

definition yaml_directive :: "scanner \<Rightarrow> scanner scan" where
  "yaml_directive s =
     (if sc_yaml_directive_seen s
      then Inl (scan_err ''duplicate %YAML directive (at most one allowed per document)'' s)
      else
        let s = skip_blank (s\<lparr>sc_yaml_directive_seen := True\<rparr>);
            s = skip_blank (advance_while directive_char s);
            extra = sc_peek s
        in if \<not> is_eof s \<and> \<not> is_break extra \<and> extra \<noteq> CHR ''#'' \<and> \<not> is_ascii_digit extra \<and> extra \<noteq> CHR ''.''
           then Inl (scan_err ''unexpected non-numeric argument on %YAML directive'' s)
           else Inr s)"

definition finish_directive_line :: "nat \<Rightarrow> scanner \<Rightarrow> scanner scan" where
  "finish_directive_line directive_start s =
     (let line = takeWhile (\<lambda>b. \<not> is_break b) (rest s) in
      if list_ex is_raw_control line
      then Inl (scan_err ''directive line contains a raw control character'' s)
      else
        let s = (if length line < length (rest s) then advance_by (length line) s
                 else s\<lparr>sc_pos := length (sc_input s)\<rparr>)
        in Inr (record_trivia directive_start Directive s))"

definition fetch_directive :: "scanner \<Rightarrow> scanner scan" where
  "fetch_directive s0 =
     (if sc_in_document_body s0
      then Inl (scan_err ''directive must be preceded by '...' to close the previous document'' s0)
      else
        and_then (remove_simple_key (unroll_indent (- 1) s0)) (\<lambda>s.
        let s = s\<lparr>sc_simple_key_allowed := False, sc_pending_directive := True\<rparr>;
            directive_start = sc_pos s;
            s = advance s;
            name_start = sc_pos s;
            s = advance_while directive_char s;
            name = slice_str name_start (sc_pos s) s
        in and_then (if name = ''TAG'' then Inr (tag_directive s)
                     else if name = ''YAML'' then yaml_directive s else Inr s) (\<lambda>s.
           if sc_peek s = CHR ''#'' \<and> sc_pos s > 0 \<and> \<not> is_blank_or_break (sc_input s ! (sc_pos s - 1))
           then Inl (scan_err ''comment indicator '#' on a directive line must be preceded by a space or tab'' s)
           else finish_directive_line directive_start s)))"

definition fetch_document_indicator :: "bool \<Rightarrow> scanner \<Rightarrow> scanner scan" where
  "fetch_document_indicator is_start s =
     and_then (remove_simple_key (unroll_indent (- 1) s)) (\<lambda>s.
     let s = s\<lparr>sc_simple_key_allowed := False, sc_mark := sc_pos s\<rparr>;
         s = advance_by 3 s
     in if is_start then
          let s = (emit TDocumentStart s)\<lparr>sc_doc_start_inline := True\<rparr>;
              s = (if sc_in_document_body s \<and> \<not> sc_pending_directive s
                   then s\<lparr>sc_yaml_directive_seen := False, sc_tag_handles := []\<rparr> else s)
          in Inr (s\<lparr>sc_pending_directive := False, sc_in_document_body := False\<rparr>)
        else
          let s = (emit TDocumentEnd s)
                    \<lparr>sc_yaml_directive_seen := False, sc_in_document_body := False, sc_tag_handles := []\<rparr>;
              blanks = takeWhile is_blank (rest s);
              look = sc_pos s + length blanks
          in if tab \<in> set blanks
             then Inl (scan_err ''tabs are not allowed as separation after document marker'' s)
             else if look < length (sc_input s) \<and> \<not> is_break (sc_input s ! look) \<and> sc_input s ! look \<noteq> CHR ''#''
             then Inl (scan_err (''unexpected content after document-end marker '...'' @ [single_quote]) s)
             else Inr s)"

section \<open>Flow collections\<close>

definition fetch_flow_collection_start :: "bool \<Rightarrow> scanner \<Rightarrow> scanner scan" where
  "fetch_flow_collection_start is_seq s =
     (let s = save_simple_key_ext True s;
          s = s\<lparr>sc_flow_level := sc_flow_level s + 1, sc_simple_keys := sc_simple_keys s @ [no_simple_key],
                sc_simple_key_allowed := True, sc_mark := sc_pos s\<rparr>;
          s = emit (if is_seq then TFlowSequenceStart else TFlowMappingStart) (advance s)
      in Inr (s\<lparr>sc_flow_stack := sc_flow_stack s @ [is_seq], sc_last_token_opens_block := False\<rparr>))"

definition fetch_flow_collection_end :: "bool \<Rightarrow> scanner \<Rightarrow> scanner scan" where
  "fetch_flow_collection_end is_seq s =
     (if sc_flow_level s = 0
      then Inl (scan_err (if is_seq then ''unexpected ']' outside of any flow sequence''
                          else ''unexpected '}' outside of any flow mapping'') s)
      else
        and_then (remove_simple_key s) (\<lambda>s.
        let ks = butlast (sc_simple_keys s);
            s = s\<lparr>sc_simple_keys := ks, sc_live_key_floor := min (sc_live_key_floor s) (length ks),
                  sc_flow_level := sc_flow_level s - 1, sc_flow_stack := butlast (sc_flow_stack s),
                  sc_simple_key_allowed := False, sc_mark := sc_pos s\<rparr>;
            s = emit (if is_seq then TFlowSequenceEnd else TFlowMappingEnd) (advance s)
        in Inr (if sc_flow_level s > 0 then s\<lparr>sc_adjacent_value_allowed := True\<rparr> else s)))"

definition fetch_flow_entry :: "scanner \<Rightarrow> scanner scan" where
  "fetch_flow_entry s =
     and_then (remove_simple_key s) (\<lambda>s.
       Inr (emit TFlowEntry (advance (s\<lparr>sc_simple_key_allowed := True, sc_mark := sc_pos s\<rparr>))))"

section \<open>Block entries and keys\<close>

definition reject_block_inline_with_doc_start :: "string \<Rightarrow> scanner \<Rightarrow> unit scan" where
  "reject_block_inline_with_doc_start indicator s =
     ensure (\<not> sc_doc_start_inline s)
       (scan_err (indicator @ '' cannot open a block collection on the same line as '---'' @ [single_quote]) s)"

definition fetch_block_entry :: "scanner \<Rightarrow> scanner scan" where
  "fetch_block_entry s =
     and_then (if sc_flow_level s = 0 then
                 (if \<not> sc_simple_key_allowed s \<and> \<not> sc_explicit_key_pending s
                  then Inl (scan_err ''block sequence entries are not allowed in this context'' s)
                  else and_then (reject_block_inline_with_doc_start [single_quote, CHR ''-'', single_quote] s) (\<lambda>_.
                         Inr (roll_indent (int (sc_col s)) None TBlockSequenceStart (sc_pos s) s)))
               else Inr s) (\<lambda>s.
     and_then (remove_simple_key s) (\<lambda>s.
     let s = advance (s\<lparr>sc_simple_key_allowed := True, sc_mark := sc_pos s\<rparr>) in
     and_then (if sc_flow_level s = 0
               then check_illegal_tab_lookahead [single_quote, CHR ''-'', single_quote] s else Inr ()) (\<lambda>_.
       Inr ((emit TBlockEntry s)\<lparr>sc_last_token_opens_block := True\<rparr>))))"

definition fetch_key :: "scanner \<Rightarrow> scanner scan" where
  "fetch_key s =
     and_then (if sc_flow_level s = 0 then
                 (if \<not> sc_simple_key_allowed s
                  then Inl (scan_err ''mapping keys are not allowed in this context'' s)
                  else and_then (reject_block_inline_with_doc_start [single_quote, CHR ''?'', single_quote] s) (\<lambda>_.
                         Inr (roll_indent (int (sc_col s)) None TBlockMappingStart (sc_pos s) s)))
               else Inr s) (\<lambda>s.
     and_then (remove_simple_key s) (\<lambda>s.
     let s = (if sc_flow_level s = 0 then s\<lparr>sc_simple_key_allowed := True, sc_explicit_key_pending := True\<rparr>
              else s\<lparr>sc_simple_key_allowed := False\<rparr>);
         s = advance (s\<lparr>sc_mark := sc_pos s\<rparr>)
     in and_then (if sc_flow_level s = 0
                  then check_illegal_tab_lookahead [single_quote, CHR ''?'', single_quote] s else Inr ()) (\<lambda>_.
          Inr ((emit TKey s)\<lparr>sc_last_token_opens_block := True\<rparr>))))"

section \<open>Values\<close>

fun trim_key_end :: "string \<Rightarrow> nat \<Rightarrow> nat \<Rightarrow> nat" where
  "trim_key_end input low 0 = 0"
| "trim_key_end input low (Suc n) =
     (if Suc n > low \<and> n < length input \<and> is_blank_or_break (input ! n) then trim_key_end input low n else Suc n)"

definition simple_key_end :: "simple_key \<Rightarrow> scanner \<Rightarrow> nat" where
  "simple_key_end sk s =
     (let key_end = (if sk_stale sk then sc_last_token_end s
                     else if sc_tokens s = [] then sk_index sk
                     else span_end (tok_span (last (sc_tokens s))))
      in trim_key_end (sc_input s) (sk_index sk) (max key_end (sk_index sk)))"

definition check_implicit_key_lines :: "simple_key \<Rightarrow> scanner \<Rightarrow> (bool \<times> scanner) scan" where
  "check_implicit_key_lines sk s =
     (let key_end = simple_key_end sk s;
          key_has_newline = list_ex is_break (slice_bytes (sc_input s) (sk_index sk) key_end);
          between_has_newline = list_ex is_break (slice_bytes (sc_input s) key_end (sc_pos s));
          previous = sc_input s ! (sc_pos s - 1)
      in if key_has_newline \<and> sc_flow_level s = 0 then
           (if sc_explicit_key_pending s then Inr (True, forget_simple_key s)
            else Inl (scan_err ''implicit mapping key in block context cannot span multiple lines'' s))
         else if between_has_newline \<and> sc_flow_level s = 0 then Inr (True, forget_simple_key s)
         else if between_has_newline \<and> in_flow_sequence s
         then Inl (scan_err ''implicit mapping key in flow sequence must be on the same line as the colon'' s)
         else if between_has_newline \<and> key_has_newline \<and> (sc_pos s = 0 \<or> \<not> is_blank previous)
         then Inl (scan_err ''implicit mapping key cannot span multiple lines (flow)'' s)
         else Inr (False, s))"

definition roll_indent_for_simple_key :: "simple_key \<Rightarrow> scanner \<Rightarrow> scanner scan" where
  "roll_indent_for_simple_key sk s =
     and_then (reject_block_inline_with_doc_start [single_quote, CHR '':'', single_quote] s) (\<lambda>_.
     let index = sk_index sk;
         line_start = index - length (takeWhile (\<lambda>b. \<not> is_break b) (rev (take index (sc_input s))));
         line_start = (if line_start = 0 \<and> starts_with bom (sc_input s) then 3 else line_start)
     in if tab \<in> set (slice_bytes (sc_input s) line_start index)
        then Inl (scan_err ''tab characters are not allowed in block-mapping key indentation'' s)
        else Inr (roll_indent (int index - int line_start) (Some (sk_token_number sk)) TBlockMappingStart index s))"

text \<open>The value of a simple key: its \<open>Key\<close> token is inserted where the key began.\<close>

definition promote_simple_key :: "simple_key \<Rightarrow> scanner \<Rightarrow> scanner scan" where
  "promote_simple_key sk s =
     (let index = sk_index sk;
          s = insert_token (sk_token_number sk - sc_produced s) TKey \<lparr>span_start = index, span_end = index\<rparr> s
      in and_then (if sc_flow_level s = 0 then roll_indent_for_simple_key sk s else Inr s) (\<lambda>s.
           Inr ((forget_simple_key s)\<lparr>sc_simple_key_allowed := False\<rparr>)))"

text \<open>The value of an explicit key, or of an absent one.\<close>

definition complex_value :: "scanner \<Rightarrow> scanner scan" where
  "complex_value s =
     (if sc_flow_level s = 0 \<and> \<not> sc_simple_key_allowed s \<and> \<not> sc_explicit_key_pending s
      then Inl (scan_err ''mapping values are not allowed in this context'' s)
      else
        let s = (if sc_flow_level s = 0
                 then roll_indent (int (sc_col s)) None TBlockMappingStart (sc_pos s) s else s)
        in Inr (s\<lparr>sc_simple_key_allowed := (sc_flow_level s = 0)\<rparr>))"

definition emit_value :: "scanner \<Rightarrow> scanner scan" where
  "emit_value s =
     (let s = advance (s\<lparr>sc_explicit_key_pending := False, sc_mark := sc_pos s\<rparr>);
          start_val = sc_pos s;
          s = skip_blank s
      in and_then (if sc_flow_level s = 0
                   then reject_illegal_tab start_val [single_quote, CHR '':'', single_quote] s else Inr ()) (\<lambda>_.
           Inr ((emit TValue s)\<lparr>sc_last_token_opens_block := True\<rparr>)))"

definition fetch_value :: "scanner \<Rightarrow> scanner scan" where
  "fetch_value s =
     (let ks = sc_simple_keys s; sk = last ks in
      if ks \<noteq> [] \<and> sk_possible sk then
        and_then (check_implicit_key_lines sk s) (\<lambda>(invalidated, s).
          if invalidated then Inr s
          else if implicit_key_too_long sk s
          then Inl (scan_err_at ''implicit mapping key is longer than 1024 characters'' (sk_index sk))
          else and_then (promote_simple_key sk s) emit_value)
      else and_then (complex_value s) emit_value)"

section \<open>Anchors and aliases\<close>

definition is_name_end :: "char \<Rightarrow> bool" where
  "is_name_end c \<longleftrightarrow> is_blank_or_break c \<or> is_flow_indicator c"

text \<open>The length of a name of at most 1024 bytes, or where it grew too long.\<close>

fun anchor_run :: "nat \<Rightarrow> string \<Rightarrow> (nat, nat) res" where
  "anchor_run n [] = Inr n"
| "anchor_run n (c # cs) = (if n > 1024 then Inl n else if is_name_end c then Inr n else anchor_run (Suc n) cs)"

definition scan_anchor_name :: "scanner \<Rightarrow> (string \<times> scanner) scan" where
  "scan_anchor_name s =
     (case anchor_run 0 (rest s) of
        Inl n \<Rightarrow> Inl (scan_err_at ''anchor name exceeds maximum length of 1024 bytes'' (sc_pos s + n))
      | Inr n \<Rightarrow>
          if n = 0 then Inl (scan_err ''expected anchor or alias name'' s)
          else Inr (slice_str (sc_pos s) (sc_pos s + n) s, advance_by n s))"

definition check_pending_property_indent :: "scanner \<Rightarrow> unit scan" where
  "check_pending_property_indent s =
     ensure (\<not> (sc_pending_property_col s \<noteq> None \<and> int (sc_col s) \<le> sc_indent s))
       (scan_err ''node properties (anchor/tag) must be indented more than the parent block'' s)"

text \<open>The start of a node that is a single token.\<close>

definition begin_node :: "scanner \<Rightarrow> scanner" where
  "begin_node s =
     (let s = (save_simple_key s)\<lparr>sc_simple_key_allowed := False\<rparr> in advance (s\<lparr>sc_mark := sc_pos s\<rparr>))"

definition fetch_anchor :: "scanner \<Rightarrow> scanner scan" where
  "fetch_anchor s =
     and_then (if sc_flow_level s = 0 then check_pending_property_indent s else Inr ()) (\<lambda>_.
     and_then (scan_anchor_name (begin_node s)) (\<lambda>(name, s). Inr (emit (TAnchor name) s)))"

definition fetch_alias :: "scanner \<Rightarrow> scanner scan" where
  "fetch_alias s =
     (if sc_last_emitted_kind s \<in> {LastAnchor, LastTag}
      then Inl (scan_err (''alias cannot be decorated with an anchor or tag '' @ em_dash
             @ '' aliases are complete references'') s)
      else and_then (scan_anchor_name (begin_node s)) (\<lambda>(name, s).
             Inr ((emit (TAlias name) s)\<lparr>sc_last_token_opens_block := False\<rparr>)))"

section \<open>Tags\<close>

definition split_verbatim_tag :: "string \<Rightarrow> string \<times> string" where
  "split_verbatim_tag uri =
     (case strip_prefix ''tag:yaml.org,2002:'' uri of
        Some r \<Rightarrow> (''tag:yaml.org,2002:'', r)
      | None \<Rightarrow> (case strip_prefix ''!'' uri of Some r \<Rightarrow> (''!'', r) | None \<Rightarrow> ([], uri)))"

text \<open>
  The length of a run of tag characters: where it ends, or the message and the place of the first
  character that is refused.
\<close>

fun tag_run ::
  "(char \<Rightarrow> bool) \<Rightarrow> (char \<Rightarrow> string option) \<Rightarrow> string \<Rightarrow> nat \<Rightarrow> string \<Rightarrow> (string \<times> nat, nat) res" where
  "tag_run ends refused too_long n [] = Inr n"
| "tag_run ends refused too_long n (c # cs) =
     (if ends c then Inr n
      else if n > 1024 then Inl (too_long, n)
      else case refused c of Some msg \<Rightarrow> Inl (msg, n) | None \<Rightarrow> tag_run ends refused too_long (Suc n) cs)"

definition is_tag_control :: "char \<Rightarrow> bool" where
  "is_tag_control b \<longleftrightarrow> byte b < 0x20 \<or> byte b = 0x7f"

definition refused_in_uri :: "char \<Rightarrow> string option" where
  "refused_in_uri b =
     (if is_tag_control b
      then Some (''verbatim tag contains a control character '' @ em_dash
             @ '' tag URIs are limited to printable characters'')
      else None)"

definition refused_in_suffix :: "char \<Rightarrow> string option" where
  "refused_in_suffix b =
     (if is_tag_control b
      then Some (''tag suffix contains a control character '' @ em_dash
             @ '' tags are limited to printable characters'')
      else if b = CHR ''>''
      then Some (''tag suffix contains '' @ [grave] @ ''>'' @ [grave] @ '' '' @ em_dash @ '' not a URI character'')
      else None)"

definition scan_tag_run ::
  "(char \<Rightarrow> bool) \<Rightarrow> (char \<Rightarrow> string option) \<Rightarrow> string \<Rightarrow> scanner \<Rightarrow> (string \<times> scanner) scan" where
  "scan_tag_run ends refused too_long s =
     (case tag_run ends refused too_long 0 (rest s) of
        Inl (msg, n) \<Rightarrow> Inl (scan_err_at msg (sc_pos s + n))
      | Inr n \<Rightarrow> Inr (slice_str (sc_pos s) (sc_pos s + n) s, advance_by n s))"

definition quoted :: "string \<Rightarrow> string" where "quoted v = [grave] @ v @ [grave]"

definition bang_message :: string where
  "bang_message = ''tag suffix must not contain '' @ [grave] @ ''!'' @ [grave] @ '': ''"

definition scan_verbatim_tag :: "scanner \<Rightarrow> ((string \<times> string) \<times> scanner) scan" where
  "scan_verbatim_tag s =
     and_then (scan_tag_run (\<lambda>c. c = CHR ''>'') refused_in_uri ''tag URI exceeds maximum length of 1024 bytes'' s)
       (\<lambda>(uri, t).
         if sc_pos t = sc_pos s
         then Inl (scan_err (''verbatim tag must not be empty ('' @ quoted ''!<>'' @ '')'') t)
         else if is_eof t
         then Inl (scan_err (''verbatim tag is not closed (expected '' @ quoted ''>'' @ '')'') t)
         else Inr (split_verbatim_tag uri, advance t))"

definition scan_suffix :: "scanner \<Rightarrow> (string \<times> scanner) scan" where
  "scan_suffix s = scan_tag_run is_name_end refused_in_suffix ''tag suffix exceeds maximum length of 1024 bytes'' s"

definition scan_secondary_tag :: "scanner \<Rightarrow> ((string \<times> string) \<times> scanner) scan" where
  "scan_secondary_tag s =
     and_then (scan_suffix s) (\<lambda>(suffix, t).
       if starts_with ''!'' suffix
       then Inl (scan_err_at (bang_message @ quoted (''!!'' @ suffix) @ '' is not a tag; did you mean ''
              @ quoted (''!!'' @ dropWhile (\<lambda>c. c = CHR ''!'') suffix) @ ''?'') (sc_pos s))
       else Inr ((''!!'', suffix), t))"

definition scan_primary_tag :: "scanner \<Rightarrow> ((string \<times> string) \<times> scanner) scan" where
  "scan_primary_tag s =
     and_then (scan_suffix s) (\<lambda>(_, t).
       let run = slice_bytes (sc_input s) (sc_pos s) (sc_pos t);
           bang_pos = sc_pos s + length (takeWhile (\<lambda>c. c \<noteq> CHR ''!'') run)
       in if CHR ''!'' \<in> set run then
            let handle = ''!'' @ slice_str (sc_pos s) bang_pos s @ ''!'';
                suffix = slice_str (bang_pos + 1) (sc_pos t) s
            in if CHR ''!'' \<in> set suffix
               then Inl (scan_err_at (bang_message @ quoted (handle @ suffix) @ '' is not a tag'') (bang_pos + 1))
               else Inr ((handle, suffix), t)
          else Inr ((''!'', slice_str (sc_pos s) (sc_pos t) s), t))"

text \<open>What must follow a tag, and the handle that a \<open>%TAG\<close> directive declared.\<close>

definition finish_tag :: "string \<Rightarrow> string \<Rightarrow> scanner \<Rightarrow> scanner scan" where
  "finish_tag handle suffix s =
     and_then (ensure (\<not> (sc_peek s \<in> {CHR ''{'', CHR ''[''}
                 \<or> (sc_flow_level s = 0 \<and> sc_peek s \<in> {CHR ''}'', CHR '']'', CHR '',''})))
       (scan_err ''tag must be followed by whitespace or a line break, not a flow indicator'' s)) (\<lambda>_.
     case imap_get (sc_tag_handles s) handle of
       Some prefix \<Rightarrow> Inr (emit (TTag prefix suffix) s)
     | None \<Rightarrow>
         if length handle > 2 \<and> hd handle = CHR ''!'' \<and> last handle = CHR ''!''
         then Inl (scan_err ''named tag handle is not declared by a %TAG directive in this document'' s)
         else Inr (emit (TTag handle suffix) s))"

definition fetch_tag :: "scanner \<Rightarrow> scanner scan" where
  "fetch_tag s =
     and_then (if sc_flow_level s = 0 then check_pending_property_indent s else Inr ()) (\<lambda>_.
     let s = begin_node s in
     and_then (if sc_peek s = CHR ''<'' then scan_verbatim_tag (advance s)
               else if sc_peek s = CHR ''!'' then scan_secondary_tag (advance s)
               else scan_primary_tag s) (\<lambda>((handle, suffix), s). finish_tag handle suffix s))"

section \<open>Dispatch\<close>

text \<open>An indicator stands alone before a blank, a break, the end or, in flow, a terminator.\<close>

definition indicator_ends :: "scanner \<Rightarrow> bool" where
  "indicator_ends s \<longleftrightarrow>
     sc_pos s + 1 \<ge> length (sc_input s) \<or> is_blank_or_break (peek_at 1 s)
     \<or> (sc_flow_level s > 0 \<and> peek_at 1 s \<in> {CHR '','', CHR '']'', CHR ''}''})"

definition json_key_pending :: "scanner \<Rightarrow> bool" where
  "json_key_pending s \<longleftrightarrow>
     sc_simple_keys s \<noteq> [] \<and> sk_possible (last (sc_simple_keys s)) \<and> sk_json_like (last (sc_simple_keys s))"

definition at_marker_of :: "char \<Rightarrow> scanner \<Rightarrow> bool" where
  "at_marker_of c s \<longleftrightarrow>
     sc_peek s = c \<and> peek_at 1 s = c \<and> peek_at 2 s = c
     \<and> (sc_pos s + 3 \<ge> length (sc_input s) \<or> is_blank_or_break (peek_at 3 s))"

definition dispatch :: "bool \<Rightarrow> scanner \<Rightarrow> scanner scan" where
  "dispatch adjacent_value s =
     (let c = sc_peek s; in_flow = (sc_flow_level s > 0) in
      if sc_col s = 0 \<and> at_marker_of (CHR ''-'') s then fetch_document_indicator True s
      else if sc_col s = 0 \<and> at_marker_of (CHR ''.'') s then fetch_document_indicator False s
      else if c = CHR ''['' then fetch_flow_collection_start True s
      else if c = CHR ''{'' then fetch_flow_collection_start False s
      else if c = CHR '']'' then fetch_flow_collection_end True s
      else if c = CHR ''}'' then fetch_flow_collection_end False s
      else if c = CHR '','' then fetch_flow_entry s
      else if c = CHR ''-'' \<and> indicator_ends s then fetch_block_entry s
      else if c = CHR ''?'' \<and> indicator_ends s then fetch_key s
      else if c = CHR '':'' \<and> (indicator_ends s \<or> (in_flow \<and> (adjacent_value \<or> json_key_pending s)))
      then fetch_value s
      else if c = CHR ''*'' then fetch_alias s
      else if c = CHR ''&'' then fetch_anchor s
      else if c = CHR ''!'' then fetch_tag s
      else if c = CHR ''|'' \<and> \<not> in_flow then fetch_block_scalar True s
      else if c = CHR ''>'' \<and> \<not> in_flow then fetch_block_scalar False s
      else if c = CHR ''|'' \<or> c = CHR ''>''
      then Inl (scan_err (''block scalar indicator ('' @ quoted ''|'' @ '' or '' @ quoted ''>''
             @ '') is not allowed inside a flow collection'') s)
      else if c = single_quote then fetch_quoted_scalar False s
      else if c = double_quote then fetch_quoted_scalar True s
      else if c = CHR ''%'' \<and> sc_col s = 0 then fetch_directive s
      else if take 3 (rest s) = bom then
        (if sc_pos s = 0 then Inr (advance_by 3 s)
         else Inl (scan_err (''byte order mark inside the stream '' @ em_dash
                @ '' a BOM is only allowed at the very start'') s))
      else if c = CHR ''@'' \<or> c = grave
      then Inl (scan_err (''reserved indicator ('' @ [single_quote] @ ''@'' @ [single_quote] @ '' or ''
             @ [single_quote, grave, single_quote] @ '') cannot start a plain scalar'') s)
      else fetch_plain_scalar s)"

definition fetch_next_token :: "scanner \<Rightarrow> scanner scan" where
  "fetch_next_token s0 =
     (if \<not> sc_stream_started s0 then fetch_stream_start s0
      else
        let start = sc_pos s0; adj = sc_adjacent_value_allowed s0 in
        and_then (skip_to_next_token (s0\<lparr>sc_adjacent_value_allowed := False\<rparr>)) (\<lambda>s.
        let adjacent_value = (adj \<and> sc_pos s = start);
            s = stale_simple_keys s;
            s = unroll_indent (int (sc_col s)) s
        in if sc_flow_level s = 0 \<and> sc_indent s \<ge> 0 \<and> int (sc_col s) > sc_indent s
              \<and> \<not> sc_last_token_opens_block s \<and> sc_simple_key_allowed s \<and> \<not> is_eof s
           then Inl (scan_err (''inconsistent indentation: token at a column that does not match ''
                  @ ''any open block scope'') s)
           else
             let s = s\<lparr>sc_mark := sc_pos s\<rparr>
             in if is_eof s then fetch_stream_end s else dispatch adjacent_value s))"

end
