(* ===== verification/Scan_Stream.thy ===== *)
theory Scan_Stream
  imports Scanner
begin

text \<open>
  The token stream of a text: \<open>next_token\<close> with its look-ahead, and its repetition until the error
  that ends it.  Every reader moves the cursor forward, so the look-ahead and the stream end: the
  measure counts two for a byte not read, one for a pending simple key.
\<close>

section \<open>Steps that leave the cursor\<close>

definition stays :: "scanner \<Rightarrow> scanner \<Rightarrow> bool" where
  "stays s t \<longleftrightarrow> sc_input t = sc_input s \<and> sc_pos t = sc_pos s
     \<and> sc_stream_started t = sc_stream_started s \<and> sc_stream_ended t = sc_stream_ended s"

definition ahead :: "scanner \<Rightarrow> scanner \<Rightarrow> bool" where
  "ahead s t \<longleftrightarrow> sc_input t = sc_input s
     \<and> sc_stream_started t = sc_stream_started s \<and> sc_stream_ended t = sc_stream_ended s
     \<and> min (sc_pos s) (length (sc_input s)) \<le> sc_pos t
     \<and> (sc_pos s \<le> length (sc_input s) \<longrightarrow> sc_pos t \<le> length (sc_input s))"

lemma forward_ahead: "forward s t \<Longrightarrow> ahead s t"
  by (simp add: forward_def ahead_def frame_of_def)

lemma ahead_refl: "ahead s s" by (simp add: ahead_def)

lemma ahead_trans: "ahead s t \<Longrightarrow> ahead t u \<Longrightarrow> ahead s u" by (auto simp: ahead_def)

lemmas ahead_advance = forward_ahead[OF forward_advance]
lemmas ahead_advance_by = forward_ahead[OF forward_advance_by]
lemmas ahead_advance_while = forward_ahead[OF forward_advance_while]
lemmas ahead_skip_blank = forward_ahead[OF forward_skip_blank]
lemmas ahead_skip_line = forward_ahead[OF forward_skip_line]

lemma frame_fields:
  assumes "frame_of t = frame_of s"
  shows "sc_stream_started t = sc_stream_started s" "sc_stream_ended t = sc_stream_ended s"
    "sc_tokens t = sc_tokens s" "sc_produced t = sc_produced s" "sc_mark t = sc_mark s"
    "sc_simple_keys t = sc_simple_keys s" "sc_indent t = sc_indent s" "sc_indents t = sc_indents s"
    "sc_flow_level t = sc_flow_level s" "sc_flow_stack t = sc_flow_stack s" "sc_live_key_floor t = sc_live_key_floor s"
  using assms by (simp_all add: frame_of_def)

lemma flags_kept [simp]:
  "sc_stream_started (advance s) = sc_stream_started s" "sc_stream_ended (advance s) = sc_stream_ended s"
  "sc_stream_started (advance_by n s) = sc_stream_started s" "sc_stream_ended (advance_by n s) = sc_stream_ended s"
  "sc_stream_started (skip_blank s) = sc_stream_started s" "sc_stream_ended (skip_blank s) = sc_stream_ended s"
  "sc_stream_started (record_trivia a k s) = sc_stream_started s" "sc_stream_ended (record_trivia a k s) = sc_stream_ended s"
  using frame_fields(1,2)[of "advance s" s] frame_fields(1,2)[of "advance_by n s" s]
    frame_fields(1,2)[of "skip_blank s" s] frame_fields(1,2)[of "record_trivia a k s" s] by simp_all

definition progress :: "scanner \<Rightarrow> scanner \<Rightarrow> bool" where
  "progress s t \<longleftrightarrow> ahead s t \<and> sc_pos s < sc_pos t"

lemma stays_ahead: "stays s t \<Longrightarrow> ahead s t"
  by (simp add: stays_def ahead_def)

lemma stays_eof: "stays s t \<Longrightarrow> is_eof t = is_eof s" "stays s t \<Longrightarrow> sc_peek t = sc_peek s"
  by (simp_all add: stays_def is_eof_def sc_peek_def)

lemma stays_refl: "stays s s" by (simp add: stays_def)

lemma stays_trans: "stays s t \<Longrightarrow> stays t u \<Longrightarrow> stays s u" by (simp add: stays_def)

lemma progress_after_stay: "stays s t \<Longrightarrow> progress t u \<Longrightarrow> progress s u"
  by (auto simp: progress_def stays_def ahead_def)

lemma progress_then: "progress s t \<Longrightarrow> ahead t u \<Longrightarrow> \<not> is_eof s \<Longrightarrow> progress s u"
  by (auto simp: progress_def ahead_def is_eof_def)

lemma progress_advance: "\<not> is_eof s \<Longrightarrow> progress s (advance s)"
  by (simp add: progress_def ahead_advance is_eof_def)

lemma progress_advance_by: "\<not> is_eof s \<Longrightarrow> 0 < n \<Longrightarrow> progress s (advance_by n s)"
  by (simp add: progress_def ahead_advance_by is_eof_def)

lemma stays_emit: "stays s (emit k s)" by (simp add: stays_def)

lemma stays_insert_token: "stays s (insert_token i k sp s)" by (simp add: stays_def)

lemma stays_record_trivia: "stays s (record_trivia a k s)" by (simp add: stays_def)

lemma stays_emits: "stays s ((emit k ^^ n) s)"
  by (induction n) (auto simp: stays_refl intro: stays_trans stays_emit)

lemma stays_roll_indent: "stays s (roll_indent c n k m s)"
  by (auto simp: roll_indent_def stays_def Let_def split: option.splits)

lemma stays_unroll_indent: "stays s (unroll_indent c s)"
proof -
  obtain n i ii where p: "pop_indents c (sc_indent s) (sc_indents s) = (n, i, ii)" by (metis prod_cases3)
  have "stays s (s\<lparr>sc_indent := i, sc_indents := ii\<rparr>)" by (simp add: stays_def)
  then show ?thesis using stays_emits stays_trans by (auto simp: unroll_indent_def p stays_refl)
qed

lemma stays_update_last_key: "stays s (update_last_key f s)"
  by (simp add: update_last_key_def stays_def Let_def)

lemma stays_save_simple_key: "stays s (save_simple_key_ext j s)"
  using stays_update_last_key[of s]
  by (auto simp: save_simple_key_ext_def stays_def Let_def)

lemma stays_forget_simple_key: "stays s (forget_simple_key s)"
  by (simp add: forget_simple_key_def stays_update_last_key)

lemma stays_remove_simple_key: "remove_simple_key s = Inr t \<Longrightarrow> stays s t"
  by (auto simp: remove_simple_key_def Let_def stays_forget_simple_key split: if_splits)

lemma stays_stale_simple_keys: "stays s (stale_simple_keys s)"
proof (induction s rule: stale_simple_keys.induct)
  case (1 s)
  then show ?case
    by (subst stale_simple_keys.simps) (auto simp: stays_def Let_def)
qed

section \<open>The readers move ahead\<close>

named_theorems reader_moves \<open>what a token reader does to the cursor\<close>

lemma fetch_flow_start_moves [reader_moves]:
  assumes "fetch_flow_collection_start q s = Inr t" and "\<not> is_eof s" shows "progress s t"
  using assms stays_save_simple_key[of s True]
  by (auto simp: fetch_flow_collection_start_def Let_def progress_def ahead_def stays_def is_eof_def)

lemma eof_stays: "stays s t \<Longrightarrow> \<not> is_eof s \<Longrightarrow> \<not> is_eof t"
  by (simp add: stays_eof)

lemma fetch_flow_end_moves [reader_moves]:
  assumes "fetch_flow_collection_end q s = Inr t" and ne: "\<not> is_eof s" shows "progress s t"
proof -
  obtain u where u: "remove_simple_key s = Inr u"
    using assms(1) by (auto simp: fetch_flow_collection_end_def and_then_Inr split: if_splits)
  then have su: "stays s u" by (rule stays_remove_simple_key)
  have "progress u t"
    using assms(1) eof_stays[OF su ne]
    by (simp add: fetch_flow_collection_end_def u Let_def progress_def ahead_def is_eof_def split: if_splits; fastforce)
  then show ?thesis by (rule progress_after_stay[OF su])
qed

lemma fetch_flow_entry_moves [reader_moves]:
  assumes "fetch_flow_entry s = Inr t" and ne: "\<not> is_eof s" shows "progress s t"
proof -
  obtain u where u: "remove_simple_key s = Inr u"
    using assms(1) by (auto simp: fetch_flow_entry_def and_then_Inr)
  then have su: "stays s u" by (rule stays_remove_simple_key)
  have "progress u t"
    using assms(1) eof_stays[OF su ne]
    by (simp add: fetch_flow_entry_def u progress_def ahead_def is_eof_def; fastforce)
  then show ?thesis by (rule progress_after_stay[OF su])
qed

lemma fetch_document_indicator_moves [reader_moves]:
  assumes "fetch_document_indicator b s = Inr t" and ne: "\<not> is_eof s" shows "progress s t"
proof -
  obtain u where u: "remove_simple_key (unroll_indent (- 1) s) = Inr u"
    using assms(1) by (auto simp: fetch_document_indicator_def and_then_Inr)
  have su: "stays s u" using stays_trans[OF stays_unroll_indent stays_remove_simple_key[OF u]] .
  let ?v = "advance_by 3 (u\<lparr>sc_simple_key_allowed := False, sc_mark := sc_pos u\<rparr>)"
  have "stays ?v t"
    using assms(1) by (simp add: fetch_document_indicator_def u Let_def stays_def split: if_splits; fastforce)
  moreover have "progress u ?v" using eof_stays[OF su ne] by (simp add: progress_def ahead_def is_eof_def)
  ultimately show ?thesis
    using progress_after_stay[OF su] progress_then stays_ahead eof_stays[OF su ne] by blast
qed

lemma fetch_block_entry_parts:
  assumes "fetch_block_entry s = Inr t"
  obtains q r where "q = s \<or> q = roll_indent (int (sc_col s)) None TBlockSequenceStart (sc_pos s) s"
    and "remove_simple_key q = Inr r"
    and "t = (emit TBlockEntry (advance (r\<lparr>sc_simple_key_allowed := True, sc_mark := sc_pos r\<rparr>)))
      \<lparr>sc_last_token_opens_block := True\<rparr>"
  using assms unfolding fetch_block_entry_def and_then_Inr Let_def by (auto simp: and_then_Inr split: if_splits)

lemma fetch_key_parts:
  assumes "fetch_key s = Inr t"
  obtains q r p where "q = s \<or> q = roll_indent (int (sc_col s)) None TBlockMappingStart (sc_pos s) s"
    and "remove_simple_key q = Inr r"
    and "p = (if sc_flow_level r = 0 then r\<lparr>sc_simple_key_allowed := True, sc_explicit_key_pending := True\<rparr>
              else r\<lparr>sc_simple_key_allowed := False\<rparr>)"
    and "t = (emit TKey (advance (p\<lparr>sc_mark := sc_pos p\<rparr>)))\<lparr>sc_last_token_opens_block := True\<rparr>"
proof -
  obtain q r where q: "(if sc_flow_level s = 0 then
                 (if \<not> sc_simple_key_allowed s
                  then Inl (scan_err ''mapping keys are not allowed in this context'' s)
                  else and_then (reject_block_inline_with_doc_start [single_quote, CHR ''?'', single_quote] s) (\<lambda>_.
                         Inr (roll_indent (int (sc_col s)) None TBlockMappingStart (sc_pos s) s)))
               else Inr s) = Inr q"
    and r: "remove_simple_key q = Inr r" and p: "(let s = (if sc_flow_level r = 0
        then r\<lparr>sc_simple_key_allowed := True, sc_explicit_key_pending := True\<rparr> else r\<lparr>sc_simple_key_allowed := False\<rparr>);
         s = advance (s\<lparr>sc_mark := sc_pos s\<rparr>)
     in and_then (if sc_flow_level s = 0
                  then check_illegal_tab_lookahead [single_quote, CHR ''?'', single_quote] s else Inr ()) (\<lambda>_.
          Inr ((emit TKey s)\<lparr>sc_last_token_opens_block := True\<rparr>))) = Inr t"
    using assms unfolding fetch_key_def and_then_Inr by blast
  show thesis
    by (rule that[OF _ r refl]) (use q p in \<open>auto simp: and_then_Inr Let_def split: if_splits\<close>)
qed

lemma fetch_block_entry_moves [reader_moves]:
  assumes "fetch_block_entry s = Inr t" and ne: "\<not> is_eof s" shows "progress s t"
  using assms(1)
proof (rule fetch_block_entry_parts)
  fix u v
  assume u: "u = s \<or> u = roll_indent (int (sc_col s)) None TBlockSequenceStart (sc_pos s) s"
    and v: "remove_simple_key u = Inr v"
    and t: "t = (emit TBlockEntry (advance (v\<lparr>sc_simple_key_allowed := True, sc_mark := sc_pos v\<rparr>)))
      \<lparr>sc_last_token_opens_block := True\<rparr>"
  have sv: "stays s v" using u stays_roll_indent stays_remove_simple_key[OF v] stays_trans stays_refl by blast
  have "progress v t" using eof_stays[OF sv ne] by (simp add: t progress_def ahead_def is_eof_def)
  then show ?thesis by (rule progress_after_stay[OF sv])
qed

lemma fetch_key_moves [reader_moves]:
  assumes "fetch_key s = Inr t" and ne: "\<not> is_eof s" shows "progress s t"
  using assms(1)
proof (rule fetch_key_parts)
  fix u v p
  assume u: "u = s \<or> u = roll_indent (int (sc_col s)) None TBlockMappingStart (sc_pos s) s"
    and v: "remove_simple_key u = Inr v"
    and p: "p = (if sc_flow_level v = 0 then v\<lparr>sc_simple_key_allowed := True, sc_explicit_key_pending := True\<rparr>
              else v\<lparr>sc_simple_key_allowed := False\<rparr>)"
    and t: "t = (emit TKey (advance (p\<lparr>sc_mark := sc_pos p\<rparr>)))\<lparr>sc_last_token_opens_block := True\<rparr>"
  have sv: "stays s v" using u stays_roll_indent stays_remove_simple_key[OF v] stays_trans stays_refl by blast
  have "progress v t" using eof_stays[OF sv ne] by (simp add: t p progress_def ahead_def is_eof_def)
  then show ?thesis by (rule progress_after_stay[OF sv])
qed

lemma emit_value_moves: "emit_value s = Inr t \<Longrightarrow> \<not> is_eof s \<Longrightarrow> progress s t"
  using length_takeWhile_rest[of is_blank "advance (s\<lparr>sc_explicit_key_pending := False, sc_mark := sc_pos s\<rparr>)"]
  by (auto simp: emit_value_def Let_def res_simps progress_def ahead_def is_eof_def split: if_splits)

lemma stays_promote: "promote_simple_key sk s = Inr t \<Longrightarrow> stays s t"
proof -
  assume p: "promote_simple_key sk s = Inr t"
  let ?s = "insert_token (sk_token_number sk - sc_produced s) TKey \<lparr>span_start = sk_index sk, span_end = sk_index sk\<rparr> s"
  obtain u where u: "u = ?s \<or> roll_indent_for_simple_key sk ?s = Inr u"
    and t: "t = (forget_simple_key u)\<lparr>sc_simple_key_allowed := False\<rparr>"
    using p by (auto simp: promote_simple_key_def Let_def res_simps split: if_splits)
  have "stays ?s u" using u
    by (auto simp: roll_indent_for_simple_key_def Let_def res_simps stays_refl intro: stays_roll_indent split: if_splits)
  moreover have "stays u t" using stays_forget_simple_key[of u] by (simp add: t stays_def)
  ultimately show ?thesis using stays_insert_token stays_trans by blast
qed

lemma stays_complex: "complex_value s = Inr t \<Longrightarrow> stays s t"
  using stays_roll_indent[of s] by (auto simp: complex_value_def Let_def stays_def split: if_splits)

lemma check_lines_moves:
  "check_implicit_key_lines sk s = Inr (b, t) \<Longrightarrow> t = (if b then forget_simple_key s else s)"
  by (auto simp: check_implicit_key_lines_def Let_def split: if_splits)

text \<open>The one reader that may read nothing: it then gives up the pending key.\<close>

lemma fetch_value_moves:
  assumes "fetch_value s = Inr t" and "\<not> is_eof s"
  shows "progress s t \<or> (t = forget_simple_key s \<and> sc_simple_keys s \<noteq> [] \<and> sk_possible (last (sc_simple_keys s)))"
proof (cases "sc_simple_keys s \<noteq> [] \<and> sk_possible (last (sc_simple_keys s))")
  case True
  let ?sk = "last (sc_simple_keys s)"
  obtain b u where bu: "check_implicit_key_lines ?sk s = Inr (b, u)"
    using assms(1) True by (auto simp: fetch_value_def Let_def res_simps)
  show ?thesis
  proof (cases b)
    case True
    then show ?thesis using check_lines_moves[OF bu] assms(1) bu \<open>_ \<and> _\<close> by (simp add: fetch_value_def Let_def)
  next
    case False
    then obtain v where "promote_simple_key ?sk s = Inr v" "emit_value v = Inr t"
      using check_lines_moves[OF bu] assms(1) bu True by (auto simp: fetch_value_def Let_def res_simps split: if_splits)
    then show ?thesis using stays_promote emit_value_moves assms(2) progress_after_stay stays_eof by blast
  qed
next
  case False
  then obtain v where "complex_value s = Inr v" "emit_value v = Inr t"
    using assms(1) by (auto simp: fetch_value_def Let_def res_simps)
  then show ?thesis using stays_complex emit_value_moves assms(2) progress_after_stay stays_eof by blast
qed

lemma begin_node_moves: "\<not> is_eof s \<Longrightarrow> progress s (begin_node s)"
  using stays_save_simple_key[of s False]
  by (auto simp: begin_node_def save_simple_key_def Let_def progress_def ahead_def stays_def is_eof_def)

lemma scan_anchor_name_moves: "scan_anchor_name s = Inr (n, t) \<Longrightarrow> forward s t"
  by (auto simp: scan_anchor_name_def forward_advance_by split: sum.splits if_splits)

lemma fetch_anchor_moves [reader_moves]:
  assumes "fetch_anchor s = Inr t" and "\<not> is_eof s" shows "progress s t"
proof -
  obtain n u where u: "scan_anchor_name (begin_node s) = Inr (n, u)" and t: "t = emit (TAnchor n) u"
    using assms(1) by (auto simp: fetch_anchor_def res_simps)
  have "ahead (begin_node s) t"
    using ahead_trans[OF forward_ahead[OF scan_anchor_name_moves[OF u]] stays_ahead[OF stays_emit]] by (simp add: t)
  then show ?thesis using progress_then begin_node_moves assms(2) by blast
qed

lemma fetch_alias_moves [reader_moves]:
  assumes "fetch_alias s = Inr t" and "\<not> is_eof s" shows "progress s t"
proof -
  obtain n u where u: "scan_anchor_name (begin_node s) = Inr (n, u)"
    and t: "t = (emit (TAlias n) u)\<lparr>sc_last_token_opens_block := False\<rparr>"
    using assms(1) by (auto simp: fetch_alias_def res_simps split: if_splits)
  have "stays u t" by (simp add: t stays_def)
  then have "ahead (begin_node s) t"
    using ahead_trans[OF forward_ahead[OF scan_anchor_name_moves[OF u]] stays_ahead] by blast
  then show ?thesis using progress_then begin_node_moves assms(2) by blast
qed

lemma scan_tag_run_moves: "scan_tag_run e r m s = Inr (v, t) \<Longrightarrow> forward s t"
  by (auto simp: scan_tag_run_def forward_advance_by split: sum.splits)

lemma scan_verbatim_moves:
  assumes "scan_verbatim_tag s = Inr (p, t)" shows "forward s t"
proof -
  obtain v u where "scan_tag_run (\<lambda>c. c = CHR ''>'') refused_in_uri ''tag URI exceeds maximum length of 1024 bytes'' s
      = Inr (v, u)" and "t = advance u"
    using assms by (auto simp: scan_verbatim_tag_def res_simps split: if_splits)
  then show ?thesis using forward_trans[OF scan_tag_run_moves forward_advance] by blast
qed

lemma scan_secondary_moves: "scan_secondary_tag s = Inr (p, t) \<Longrightarrow> forward s t"
  by (auto simp: scan_secondary_tag_def scan_suffix_def res_simps dest: scan_tag_run_moves split: if_splits)

lemma scan_primary_moves: "scan_primary_tag s = Inr (p, t) \<Longrightarrow> forward s t"
  by (auto simp: scan_primary_tag_def scan_suffix_def res_simps Let_def dest: scan_tag_run_moves split: if_splits)

lemma scan_tag_parts_moves:
  assumes "(if sc_peek s = CHR ''<'' then scan_verbatim_tag (advance s)
               else if sc_peek s = CHR ''!'' then scan_secondary_tag (advance s)
               else scan_primary_tag s) = Inr (p, u)"
  shows "forward s u"
  using assms scan_verbatim_moves scan_secondary_moves scan_primary_moves forward_trans[OF forward_advance]
  by (auto split: if_splits)

lemma finish_tag_emits:
  assumes "finish_tag h x s = Inr t" shows "\<exists>h x. t = emit (TTag h x) s"
  using assms by (cases "imap_get (sc_tag_handles s) h") (auto simp: finish_tag_def and_then_Inr split: if_splits)

lemma fetch_tag_parts:
  assumes "fetch_tag s = Inr t"
  obtains u h x where "forward (begin_node s) u" and "t = emit (TTag h x) u"
proof -
  let ?s = "begin_node s"
  obtain h x u where u: "(if sc_peek ?s = CHR ''<'' then scan_verbatim_tag (advance ?s)
               else if sc_peek ?s = CHR ''!'' then scan_secondary_tag (advance ?s)
               else scan_primary_tag ?s) = Inr ((h, x), u)" and t: "finish_tag h x u = Inr t"
    using assms by (auto simp: fetch_tag_def Let_def and_then_Inr)
  show thesis using finish_tag_emits[OF t] scan_tag_parts_moves[OF u] that by blast
qed

lemma fetch_tag_moves [reader_moves]:
  assumes "fetch_tag s = Inr t" and "\<not> is_eof s" shows "progress s t"
proof -
  obtain u h x where u: "forward (begin_node s) u" "t = emit (TTag h x) u" using assms(1) by (rule fetch_tag_parts)
  have "ahead (begin_node s) t" using forward_ahead[OF u(1)] stays_ahead[OF stays_emit] ahead_trans u(2) by blast
  then show ?thesis using progress_then begin_node_moves assms(2) by blast
qed

text \<open>Scalars.\<close>

lemma fetch_quoted_moves [reader_moves]:
  assumes "fetch_quoted_scalar d s = Inr t" and "\<not> is_eof s" shows "progress s t"
proof -
  let ?k = "(save_simple_key_ext True s)\<lparr>sc_simple_key_allowed := False\<rparr>"
  let ?s = "?k\<lparr>sc_mark := sc_pos ?k\<rparr>"
  have k: "stays s ?s" using stays_save_simple_key[of s True] by (simp add: stays_def)
  have ne: "\<not> is_eof ?s" using stays_eof[OF k] assms(2) by simp
  obtain v u where u: "double_loop [] quoted_fold_new (advance ?s) = Inr (v, u)
      \<or> single_loop [] [] False (advance ?s) = Inr (v, u)" and t: "stays u t"
  proof -
    obtain p where p: "(if d then scan_double_quoted_scalar ?s
                   else and_then (scan_single_quoted_scalar ?s) (\<lambda>(v, s).
                          and_then (check_scalar_printable v s) (\<lambda>_. Inr (v, s)))) = Inr p"
      and t: "(case p of (v, s) \<Rightarrow>
           let s = (emit (TScalar (if d then DoubleQuoted else SingleQuoted) v) s)\<lparr>sc_last_token_opens_block := False\<rparr>
           in Inr (if sc_flow_level s > 0 then s\<lparr>sc_adjacent_value_allowed := True\<rparr> else s)) = (Inr t :: scanner scan)"
      using assms(1) unfolding fetch_quoted_scalar_def Let_def and_then_Inr by blast
    obtain v u where vu: "p = (v, u)" by fastforce
    have "stays u t" using t by (auto simp: vu Let_def stays_def split: if_splits)
    moreover have "double_loop [] quoted_fold_new (advance ?s) = Inr (v, u)
        \<or> single_loop [] [] False (advance ?s) = Inr (v, u)"
      using p by (auto simp: vu and_then_Inr scan_double_quoted_scalar_def scan_single_quoted_scalar_def split: if_splits)
    ultimately show thesis using that by blast
  qed
  have "ahead (advance ?s) u" using u double_loop_forward single_loop_forward forward_ahead by blast
  then have "ahead (advance ?s) t" using t stays_ahead ahead_trans by blast
  then show ?thesis using progress_then[OF progress_advance[OF ne]] ne progress_after_stay[OF k] by blast
qed

lemma scan_block_header_moves: "scan_block_header s = Inr (p, t) \<Longrightarrow> forward s t"
proof -
  assume h: "scan_block_header s = Inr (p, t)"
  have ind: "forward s u" if "block_indicators n c i s = (q, u)" for n c i s q u
    using that
  proof (induction n arbitrary: c i s)
    case (Suc n)
    then show ?case using forward_trans[OF forward_advance]
      by (fastforce simp: Let_def forward_refl split: if_splits)
  qed (simp add: forward_refl)
  obtain q u where u: "scan_block_indicators s = (q, u)" by fastforce
  let ?u = "advance_while is_blank u"
  obtain w where w: "w = ?u \<or> skip_header_comment ?u = Inr w" and t: "t = w \<or> t = skip_line w"
    using h by (auto simp: scan_block_header_def u Let_def res_simps split: if_splits)
  have "forward ?u w" using w
    by (auto simp: skip_header_comment_def Let_def forward_refl forward_advance_by split: if_splits)
  moreover have "forward w t" using t forward_refl forward_skip_line by blast
  moreover have "forward s u" using ind u unfolding scan_block_indicators_def by blast
  ultimately show ?thesis using forward_advance_while forward_trans by metis
qed

lemma fetch_block_moves [reader_moves]:
  assumes "fetch_block_scalar l s = Inr t" and "\<not> is_eof s" shows "progress s t"
proof -
  obtain k where k: "remove_simple_key s = Inr k" using assms(1) by (auto simp: fetch_block_scalar_def res_simps)
  let ?s = "k\<lparr>sc_simple_key_allowed := True, sc_mark := sc_pos k\<rparr>"
  have sk: "stays s ?s" using stays_remove_simple_key[OF k] by (simp add: stays_def)
  have ne: "\<not> is_eof ?s" using stays_eof[OF sk] assms(2) by simp
  obtain p u bi inc b w where h: "scan_block_header (advance ?s) = Inr (p, u)"
      "block_lines l bi inc block_body_new u = Inr (b, w)" and t: "stays w t"
    using assms(1) k
    by (auto simp: fetch_block_scalar_def scan_block_scalar_def Let_def res_simps stays_def split: prod.splits)
  have "ahead (advance ?s) t"
    using forward_ahead[OF scan_block_header_moves[OF h(1)]] forward_ahead[OF block_lines_forward[OF h(2)]] stays_ahead[OF t] ahead_trans by blast
  then show ?thesis using progress_then[OF progress_advance[OF ne]] ne progress_after_stay[OF sk] by blast
qed

lemma plain_line_end_stays: "plain_line_end s = (r, t) \<Longrightarrow> stays s t"
  by (auto simp: plain_line_end_def stays_def split: prod.splits if_splits)

lemma fetch_plain_moves [reader_moves]:
  assumes "fetch_plain_scalar s = Inr t" and "\<not> is_eof s" shows "progress s t"
proof -
  let ?k = "(save_simple_key s)\<lparr>sc_simple_key_allowed := False\<rparr>"
  let ?s = "?k\<lparr>sc_mark := sc_pos ?k\<rparr>"
  have k: "stays s ?s" using stays_save_simple_key[of s False] by (simp add: stays_def save_simple_key_def)
  obtain b u where bu: "try_plain_single_line ?s = Inr (b, u)" and t: "if b then t = u else scan_plain_multiline u = Inr t"
    using assms(1) by (auto simp: fetch_plain_scalar_def Let_def res_simps split: if_splits)
  obtain r w where w: "plain_line_end ?s = (r, w)" by fastforce
  have sw: "stays s w" using stays_trans[OF k plain_line_end_stays[OF w]] .
  have ne: "\<not> is_eof w" using stays_eof(1)[OF sw] assms(2) by simp
  show ?thesis
  proof (cases b)
    case True
    then obtain n k where "0 < n" "u = (emit k (advance_by n w))\<lparr>sc_last_token_opens_block := False\<rparr>"
      using bu w by (auto simp: try_plain_single_line_def Let_def res_simps split: prod.splits if_splits)
    then have "progress w u" using ne by (auto simp: progress_def ahead_def is_eof_def)
    then show ?thesis using progress_after_stay[OF sw] t True by simp
  next
    case False
    then have u: "u = w" using bu w
      by (auto simp: try_plain_single_line_def Let_def res_simps split: prod.splits if_splits)
    obtain f ce v where l: "plain_loop (sc_indent w + 1) (sc_flow_level w > 0) plain_fold_new (sc_pos w) w = (f, ce, v)"
      by (metis prod_cases3)
    have "scan_plain_multiline w = Inr t" using t False u by simp
    then have "pf_string f \<noteq> []" "stays v t" using l
      by (auto simp: scan_plain_multiline_def Let_def res_simps stays_def split: if_splits)
    then have "progress w v" "stays v t"
      using plain_loop_forward[OF l] by (simp_all add: progress_def plain_fold_new_def forward_ahead)
    then show ?thesis using progress_after_stay[OF sw] progress_then stays_ahead ne by blast
  qed
qed

lemma tag_directive_moves: "forward a (tag_directive a)"
proof -
  let ?b = "advance_while not_blank_or_break (skip_blank a)"
  have "forward a (advance_while not_blank_or_break (skip_blank ?b))"
    using forward_skip_blank forward_advance_while forward_trans by metis
  then show ?thesis
    using forward_skip_blank[of a] by (auto simp: tag_directive_def Let_def forward_def frame_of_def)
qed

lemma yaml_directive_moves:
  assumes "yaml_directive a = Inr b" shows "forward a b"
proof -
  have b: "b = skip_blank (advance_while directive_char (skip_blank (a\<lparr>sc_yaml_directive_seen := True\<rparr>)))"
    using assms by (auto simp: yaml_directive_def Let_def split: if_splits)
  have "forward (a\<lparr>sc_yaml_directive_seen := True\<rparr>) b"
    unfolding b using forward_skip_blank forward_advance_while forward_trans by metis
  then show ?thesis by (simp add: forward_def frame_of_def)
qed

lemma finish_directive_moves: "finish_directive_line n s = Inr t \<Longrightarrow> forward s t"
  by (auto simp: finish_directive_line_def Let_def forward_def frame_updates split: if_splits)

lemma fetch_directive_moves [reader_moves]:
  assumes "fetch_directive s = Inr t" and "\<not> is_eof s" shows "progress s t"
proof -
  obtain k where k: "remove_simple_key (unroll_indent (- 1) s) = Inr k"
    using assms(1) by (auto simp: fetch_directive_def res_simps split: if_splits)
  let ?k = "k\<lparr>sc_simple_key_allowed := False, sc_pending_directive := True\<rparr>"
  let ?a = "advance_while directive_char (advance ?k)"
  have sk: "stays s ?k"
    using stays_trans[OF stays_unroll_indent stays_remove_simple_key[OF k]] by (simp add: stays_def)
  have ne: "\<not> is_eof ?k" using stays_eof[OF sk] assms(2) by simp
  obtain u where u: "u = tag_directive ?a \<or> yaml_directive ?a = Inr u \<or> u = ?a"
    and f: "finish_directive_line (sc_pos k) u = Inr t"
    using assms(1) k by (auto simp: fetch_directive_def Let_def res_simps split: if_splits)
  have "forward ?a t"
    using u tag_directive_moves yaml_directive_moves finish_directive_moves[OF f] forward_trans by blast
  then have "ahead (advance ?k) t" using ahead_advance_while forward_ahead ahead_trans by metis
  then show ?thesis using progress_then[OF progress_advance[OF ne]] ne progress_after_stay[OF sk] by blast
qed

section \<open>One fetch\<close>

lemma if_elim: "(if c then a else b) = r \<Longrightarrow> (c \<Longrightarrow> a = r \<Longrightarrow> P) \<Longrightarrow> (\<not> c \<Longrightarrow> b = r \<Longrightarrow> P) \<Longrightarrow> P"
  by (cases c) simp_all

definition top_possible :: "scanner \<Rightarrow> bool" where
  "top_possible s \<longleftrightarrow> sc_simple_keys s \<noteq> [] \<and> sk_possible (last (sc_simple_keys s))"

definition gives_up_key :: "scanner \<Rightarrow> scanner \<Rightarrow> bool" where
  "gives_up_key s t \<longleftrightarrow> t = forget_simple_key s \<and> top_possible s"

lemma fetch_value_step: "fetch_value s = Inr t \<Longrightarrow> \<not> is_eof s \<Longrightarrow> progress s t \<or> gives_up_key s t"
  using fetch_value_moves unfolding gives_up_key_def top_possible_def by blast

lemma dispatch_moves:
  assumes "dispatch adj s = Inr t" and "\<not> is_eof s" shows "progress s t \<or> gives_up_key s t"
  using assms(1) unfolding dispatch_def Let_def
  by (elim if_elim) (use assms(2) fetch_value_step progress_advance_by[of s 3] in \<open>auto dest: reader_moves\<close>)

lemma skip_to_next_token_keys: "skip_to_next_token s = Inr t \<Longrightarrow> sc_simple_keys t = sc_simple_keys s"
  using skip_to_next_token_forward[of s t] frame_fields(6)[of t s] by (simp add: forward_def)

lemma stale_keys_possible: "map sk_possible (sc_simple_keys (stale_simple_keys s)) = map sk_possible (sc_simple_keys s)"
proof (induction s rule: stale_simple_keys.induct)
  case (1 s)
  let ?f = "sc_live_key_floor s" and ?ks = "sc_simple_keys s"
  have u: "map sk_possible (?ks[?f := (?ks ! ?f)\<lparr>sk_stale := True\<rparr>]) = map sk_possible ?ks" if "?f < length ?ks"
    using that by (simp add: map_update list_update_same_conv)
  show ?case
    using 1[OF refl refl] u by (subst stale_simple_keys.simps) (auto simp: Let_def)
qed

lemma top_possible_map: "map sk_possible (sc_simple_keys s) = map sk_possible (sc_simple_keys t) \<Longrightarrow> top_possible s = top_possible t"
  by (metis last_map map_is_Nil_conv top_possible_def)

lemma emits_keys: "sc_simple_keys ((emit k ^^ n) s) = sc_simple_keys s"
  by (induction n) (auto simp: emit_def)

lemma unroll_keys: "sc_simple_keys (unroll_indent c s) = sc_simple_keys s"
  by (auto simp: unroll_indent_def emits_keys split: prod.splits)

text \<open>What one fetch does: it reads on, gives up a key where it is, or ends the stream.\<close>

definition at_token :: "scanner \<Rightarrow> scanner" where
  "at_token u = (let w = unroll_indent (int (sc_col (stale_simple_keys u))) (stale_simple_keys u)
                 in w\<lparr>sc_mark := sc_pos w\<rparr>)"

lemma stays_at_token: "stays u (at_token u)"
  using stays_trans[OF stays_stale_simple_keys stays_unroll_indent[of "stale_simple_keys u"]]
  by (simp add: at_token_def Let_def stays_def)

lemma fetch_next_token_parts:
  assumes "fetch_next_token s = Inr t" and "sc_stream_started s"
  obtains u adj where "skip_to_next_token (s\<lparr>sc_adjacent_value_allowed := False\<rparr>) = Inr u"
    and "(if is_eof (at_token u) then fetch_stream_end (at_token u) else dispatch adj (at_token u)) = Inr t"
  using assms by (auto simp: fetch_next_token_def at_token_def Let_def and_then_Inr split: if_splits)

lemma fetch_next_token_step:
  assumes "fetch_next_token s = Inr t" and "sc_stream_started s"
  obtains v where "ahead s v" and "top_possible v = top_possible s"
    and "(is_eof v \<and> fetch_stream_end v = Inr t) \<or> (\<not> is_eof v \<and> (progress v t \<or> gives_up_key v t))"
proof -
  obtain u adj where u: "skip_to_next_token (s\<lparr>sc_adjacent_value_allowed := False\<rparr>) = Inr u"
    and t: "(if is_eof (at_token u) then fetch_stream_end (at_token u) else dispatch adj (at_token u)) = Inr t"
    using assms by (rule fetch_next_token_parts)
  have "ahead (s\<lparr>sc_adjacent_value_allowed := False\<rparr>) u" using skip_to_next_token_forward[OF u] by (rule forward_ahead)
  then have "ahead s (at_token u)" using stays_at_token[of u] by (simp add: ahead_def stays_def)
  moreover have "top_possible (at_token u) = top_possible s"
  proof (rule top_possible_map)
    show "map sk_possible (sc_simple_keys (at_token u)) = map sk_possible (sc_simple_keys s)"
      using skip_to_next_token_keys[OF u] stale_keys_possible[of u] by (simp add: at_token_def Let_def unroll_keys)
  qed
  ultimately show thesis using that t dispatch_moves by (auto split: if_splits)
qed

section \<open>The measure\<close>

definition scan_fuel :: "scanner \<Rightarrow> nat" where
  "scan_fuel s =
     of_bool (\<not> sc_stream_ended s) + of_bool (\<not> sc_stream_started s) + 2 * (length (sc_input s) - sc_pos s)
     + of_bool (top_possible s)"

lemma forget_not_possible: "\<not> top_possible (forget_simple_key s)"
  by (simp add: top_possible_def forget_simple_key_def update_last_key_def Let_def)

lemma fetch_stream_end_ends:
  assumes "fetch_stream_end s = Inr t"
  shows "sc_stream_ended t \<and> sc_input t = sc_input s \<and> sc_pos t = sc_pos s \<and> sc_stream_started t = sc_stream_started s
    \<and> \<not> top_possible t"
proof -
  obtain u where u: "remove_simple_key (unroll_indent (- 1) s) = Inr u"
    and t: "t = emit TStreamEnd (u\<lparr>sc_simple_key_allowed := False, sc_stream_ended := True\<rparr>)"
    using assms by (auto simp: fetch_stream_end_def and_then_Inr split: if_splits)
  have "stays s u" using stays_trans[OF stays_unroll_indent stays_remove_simple_key[OF u]] .
  moreover have "u = forget_simple_key (unroll_indent (- 1) s)"
    using u by (auto simp: remove_simple_key_def Let_def split: if_splits)
  then have "\<not> top_possible u" by (simp add: forget_not_possible)
  ultimately show ?thesis by (simp add: t stays_def top_possible_def emit_def)
qed

lemma fetch_stream_start_starts:
  assumes "fetch_stream_start s = Inr t"
  shows "sc_stream_started t \<and> sc_input t = sc_input s \<and> min (sc_pos s) (length (sc_input s)) \<le> sc_pos t
    \<and> sc_stream_ended t = sc_stream_ended s \<and> \<not> top_possible t"
proof -
  let ?s = "s\<lparr>sc_stream_started := True, sc_simple_key_allowed := True, sc_simple_keys := sc_simple_keys s @ [no_simple_key]\<rparr>"
  let ?b = "record_trivia (sc_pos ?s) Bom ((advance_by 3 ?s)\<lparr>sc_col := 0\<rparr>)"
  have t: "t = emit TStreamStart (?s\<lparr>sc_mark := sc_pos ?s\<rparr>) \<or> t = emit TStreamStart (?b\<lparr>sc_mark := sc_pos ?b\<rparr>)"
    using assms unfolding fetch_stream_start_def Let_def by (auto split: if_splits)
  have k: "sc_simple_keys (record_trivia a k' x) = sc_simple_keys x" for a k' x by (simp add: record_trivia_def)
  have e: "sc_simple_keys (emit k' x) = sc_simple_keys x" for k' x by (simp add: emit_def)
  have d: "sc_simple_keys (advance_by n x) = sc_simple_keys x" for n x by (simp add: advance_by_def Let_def)
  show ?thesis using t by (elim disjE) (simp_all add: top_possible_def no_simple_key_def k e d)
qed

lemma fetch_next_token_decreases:
  assumes "fetch_next_token s = Inr t" and "\<not> sc_stream_ended s"
  shows "scan_fuel t < scan_fuel s"
proof (cases "sc_stream_started s")
  case False
  then have "fetch_stream_start s = Inr t" using assms(1) by (simp add: fetch_next_token_def)
  from fetch_stream_start_starts[OF this] have st: "sc_stream_started t" "sc_input t = sc_input s"
    "length (sc_input s) - sc_pos t \<le> length (sc_input s) - sc_pos s" "\<not> top_possible t" "\<not> sc_stream_ended t"
    using assms(2) by auto
  then show ?thesis using assms(2) False by (simp add: scan_fuel_def)
next
  case True
  obtain v where v: "ahead s v" "top_possible v = top_possible s"
    and c: "(is_eof v \<and> fetch_stream_end v = Inr t) \<or> (\<not> is_eof v \<and> (progress v t \<or> gives_up_key v t))"
    using fetch_next_token_step[OF assms(1) True] by blast
  have le: "length (sc_input s) - sc_pos v \<le> length (sc_input s) - sc_pos s"
    and i: "sc_input v = sc_input s" "sc_stream_started v" "\<not> sc_stream_ended v"
    using v(1) True assms(2) by (auto simp: ahead_def)
  from c consider "fetch_stream_end v = Inr t" | "\<not> is_eof v" "progress v t" | "gives_up_key v t" by blast
  then show ?thesis
  proof cases
    case 1
    from fetch_stream_end_ends[OF this] show ?thesis using le i by (simp add: scan_fuel_def assms(2) True)
  next
    case 2
    then have "length (sc_input s) - sc_pos t < length (sc_input s) - sc_pos s"
      using le i by (auto simp: progress_def ahead_def is_eof_def)
    moreover have "sc_input t = sc_input s" "sc_stream_started t" "\<not> sc_stream_ended t"
      using 2 i by (auto simp: progress_def ahead_def)
    ultimately show ?thesis using assms(2) True by (simp add: scan_fuel_def of_bool_def)
  next
    case 3
    then have "\<not> top_possible t" "top_possible s" "stays v t"
      using v(2) forget_not_possible stays_forget_simple_key by (auto simp: gives_up_key_def)
    then show ?thesis using le i assms(2) True by (simp add: scan_fuel_def stays_def)
  qed
qed

section \<open>The stream of tokens\<close>

definition needs_more_tokens :: "scanner \<Rightarrow> bool" where
  "needs_more_tokens s \<longleftrightarrow>
     \<not> sc_stream_ended s
     \<and> (sc_tokens s = []
        \<or> (case find is_live (drop (sc_live_key_floor s) (sc_simple_keys s)) of
             Some sk \<Rightarrow> sk_token_number sk = sc_produced s
           | None \<Rightarrow> False))"

function fetch_more :: "scanner \<Rightarrow> scanner scan" where
  "fetch_more s =
     (if needs_more_tokens s then
        (case fetch_next_token s of
           Inl e \<Rightarrow> Inl e
         | Inr t \<Rightarrow> if queue_over_budget t then Inl (scan_err event_backlog t) else fetch_more t)
      else Inr s)"
  by pat_completeness auto

termination
  by (relation "measure scan_fuel") (auto simp: needs_more_tokens_def intro: fetch_next_token_decreases)

declare fetch_more.simps [simp del]

definition record_token :: "token \<Rightarrow> scanner \<Rightarrow> scanner" where
  "record_token t s =
     (let start = span_start (tok_span t); stop = span_end (tok_span t) in
      case (if sc_recording s then recorded_kind (tok_kind t) (stop - start) else None) of
        None \<Rightarrow> s
      | Some kind \<Rightarrow>
          if is_leaf kind \<and> stop - start = 0 then s
          else s\<lparr>sc_recorded_tokens := sc_recorded_tokens s @ [\<lparr>rt_start = start, rt_end = stop, rt_kind = kind\<rparr>]\<rparr>)"

definition next_token :: "scanner \<Rightarrow> (token \<times> scanner) scan" where
  "next_token s =
     and_then (fetch_more s) (\<lambda>s.
       case sc_tokens s of
         [] \<Rightarrow> Inl (scan_err ''unexpected end of token stream'' s)
       | t # ts \<Rightarrow> Inr (t, (record_token t s)\<lparr>sc_tokens := ts, sc_produced := sc_produced s + 1\<rparr>))"

lemma fetch_more_fuel: "fetch_more s = Inr t \<Longrightarrow> t = s \<or> scan_fuel t < scan_fuel s"
proof (induction s rule: fetch_more.induct)
  case (1 s)
  show ?case
  proof (cases "needs_more_tokens s")
    case True
    then obtain u where u: "fetch_next_token s = Inr u" "\<not> queue_over_budget u" "fetch_more u = Inr t"
      using "1.prems" by (subst (asm) fetch_more.simps) (auto split: sum.splits if_splits)
    have "scan_fuel u < scan_fuel s" using u(1) True by (auto simp: needs_more_tokens_def intro: fetch_next_token_decreases)
    then show ?thesis using "1.IH"[OF True u(1,2,3)] by auto
  next
    case False
    then show ?thesis using "1.prems" by (subst (asm) fetch_more.simps) simp
  qed
qed

lemma record_token_fields:
  "sc_tokens (record_token t s) = sc_tokens s" "scan_fuel ((record_token t s)\<lparr>sc_tokens := ts, sc_produced := n\<rparr>) = scan_fuel s"
  by (auto simp: record_token_def scan_fuel_def top_possible_def Let_def split: option.splits)

lemma next_token_decreases:
  assumes "next_token s = Inr (t, u)"
  shows "scan_fuel u < scan_fuel s \<or> (scan_fuel u = scan_fuel s \<and> length (sc_tokens u) < length (sc_tokens s))"
proof -
  obtain v where v: "fetch_more s = Inr v" and c: "(case sc_tokens v of
         [] \<Rightarrow> Inl (scan_err ''unexpected end of token stream'' v)
       | t # ts \<Rightarrow> Inr (t, (record_token t v)\<lparr>sc_tokens := ts, sc_produced := sc_produced v + 1\<rparr>)) = Inr (t, u)"
    using assms unfolding next_token_def and_then_Inr by blast
  obtain ts where ts: "sc_tokens v = t # ts"
    and u: "u = (record_token t v)\<lparr>sc_tokens := ts, sc_produced := sc_produced v + 1\<rparr>"
    using c by (cases "sc_tokens v") simp_all
  show ?thesis using fetch_more_fuel[OF v] ts by (auto simp: u record_token_fields)
qed

function scan_all :: "scanner \<Rightarrow> token list \<times> scan_error" where
  "scan_all s =
     (case next_token s of
        Inl e \<Rightarrow> ([], e)
      | Inr (t, u) \<Rightarrow> (case scan_all u of (ts, e) \<Rightarrow> (t # ts, e)))"
  by pat_completeness auto

termination
  by (relation "measures [scan_fuel, \<lambda>s. length (sc_tokens s)]") (auto dest: next_token_decreases)

declare scan_all.simps [simp del]

text \<open>The tokens of a text under \<open>max_events\<close>, and the parser over them.\<close>

definition scan_text :: "nat \<Rightarrow> string \<Rightarrow> token list \<times> scan_error" where
  "scan_text max_events input = scan_all (set_max_events max_events (scanner_new input))"

definition parser_with_max_events :: "nat \<Rightarrow> string \<Rightarrow> parser" where
  "parser_with_max_events max_events input =
     (case scan_text max_events input of (tokens, e) \<Rightarrow> parser_new tokens e)"

end
