(* ===== verification/Scan_Effect.thy ===== *)
theory Scan_Effect
  imports Scan_Stream
begin

text \<open>
  Invariants of the scanner, by rule induction over the primitive effects of its readers.  Every
  reader is a sequence of effects: moving the cursor, marking a token, emitting or inserting one,
  opening and closing blocks, replacing keys.  The index of an effect bounds what it adds to the
  token count, where a block that is open counts for the token that will close it.
\<close>

section \<open>Effects\<close>

definition opens_block :: "token_kind \<Rightarrow> bool" where
  "opens_block k \<longleftrightarrow> k = TBlockSequenceStart \<or> k = TBlockMappingStart"

definition closes_block :: "token_kind \<Rightarrow> bool" where
  "closes_block k \<longleftrightarrow> k = TBlockEnd"

inductive effect :: "nat \<Rightarrow> scanner \<Rightarrow> scanner \<Rightarrow> bool" where
  effect_quiet: "forward s t \<Longrightarrow> effect 0 s t"
| effect_mark: "effect 0 s (s\<lparr>sc_mark := sc_pos s\<rparr>)"
| effect_emit: "\<not> opens_block k \<Longrightarrow> \<not> closes_block k \<Longrightarrow> effect 1 s (emit k s)"
| effect_insert: "sk \<in> set (sc_simple_keys s) \<Longrightarrow>
    effect 1 s (insert_token i TKey \<lparr>span_start = sk_index sk, span_end = sk_index sk\<rparr> s)"
| effect_roll: "opens_block k \<Longrightarrow> m = sc_pos s \<or> (\<exists>sk \<in> set (sc_simple_keys s). m = sk_index sk) \<Longrightarrow>
    effect 2 s (roll_indent c n k m s)"
| effect_unroll: "- 1 \<le> c \<Longrightarrow> effect 0 s (unroll_indent c s)"
| effect_keys: "(\<And>k. k \<in> set ks \<Longrightarrow> sk_index k \<le> sc_pos s \<or> sk_index k \<in> sk_index ` set (sc_simple_keys s)) \<Longrightarrow>
    effect 0 s (s\<lparr>sc_simple_keys := ks, sc_live_key_floor := f\<rparr>)"
| effect_flow: "effect 0 s (s\<lparr>sc_flow_level := l, sc_flow_stack := fs\<rparr>)"
| effect_flags: "effect 0 s (s\<lparr>sc_stream_started := a, sc_stream_ended := b\<rparr>)"
| effect_memo: "plain_line_end s = (r, t) \<Longrightarrow> effect 0 s t"
| effect_trans [trans]: "effect m s t \<Longrightarrow> effect n t u \<Longrightarrow> effect (m + n) s u"

lemma effect_le: "effect m s t \<Longrightarrow> m \<le> n \<Longrightarrow> \<exists>k \<le> n. effect k s t"
  by blast

lemma effect_frame:
  assumes "frame_of t = frame_of s" and "sc_pos t = sc_pos s" shows "effect 0 s t"
  using assms by (intro effect_quiet) (simp add: forward_def frame_of_def)

lemma effect_then_frame:
  assumes "effect n s t" and "frame_of u = frame_of t" and "sc_pos u = sc_pos t" shows "effect n s u"
  using effect_trans[OF assms(1) effect_frame[OF assms(2,3)]] by simp

lemma effect_no_key: "effect 0 s (s\<lparr>sc_simple_keys := sc_simple_keys s @ [no_simple_key]\<rparr>)"
proof -
  have "effect 0 s (s\<lparr>sc_simple_keys := sc_simple_keys s @ [no_simple_key], sc_live_key_floor := sc_live_key_floor s\<rparr>)"
    by (rule effect_keys) (auto simp: no_simple_key_def)
  then show ?thesis by simp
qed

lemma effect_level: "effect 0 s (s\<lparr>sc_flow_level := l\<rparr>)"
  using effect_flow[where s = s and l = l and fs = "sc_flow_stack s"] by simp

lemma effect_stack: "effect 0 s (s\<lparr>sc_flow_stack := fs\<rparr>)"
  using effect_flow[where s = s and l = "sc_flow_level s" and fs = fs] by simp

lemma effect_forget: "effect 0 s (forget_simple_key s)"
proof -
  let ?ks = "sc_simple_keys s"
  have "effect 0 s (s\<lparr>sc_simple_keys := (if ?ks = [] then [] else butlast ?ks @ [(last ?ks)\<lparr>sk_possible := False\<rparr>]),
      sc_live_key_floor := sc_live_key_floor s\<rparr>)"
    by (rule effect_keys) (auto dest: in_set_butlastD split: if_splits)
  then show ?thesis by (simp add: forget_simple_key_def update_last_key_def Let_def)
qed

lemma effect_remove: "remove_simple_key s = Inr t \<Longrightarrow> effect 0 s t"
  using effect_forget[of s] by (auto simp: remove_simple_key_def Let_def split: if_splits)

lemma effect_save: "effect 0 s (save_simple_key_ext j s)"
proof (cases "sc_simple_key_allowed s")
  case True
  let ?sk = "\<lparr>sk_possible = True, sk_required = (sc_flow_level s = 0 \<and> sc_indent s = int (sc_col s)),
      sk_token_number = next_token_number s, sk_index = sc_pos s, sk_json_like = j,
      sk_line_start = sc_pos s - sc_col s, sk_stale = False\<rparr>"
  let ?ks = "if sc_simple_keys s = [] then [] else butlast (sc_simple_keys s) @ [?sk]"
  have "effect 0 s (s\<lparr>sc_simple_keys := ?ks, sc_live_key_floor := min (sc_live_key_floor s) (length ?ks - 1)\<rparr>)"
    by (rule effect_keys) (auto dest: in_set_butlastD split: if_splits)
  then show ?thesis using True by (simp add: save_simple_key_ext_def update_last_key_def Let_def)
next
  case False
  then show ?thesis by (simp add: save_simple_key_ext_def effect_frame)
qed

lemma effect_stale: "effect 0 s (stale_simple_keys s)"
proof (induction s rule: stale_simple_keys.induct)
  case (1 s)
  let ?f = "sc_live_key_floor s" and ?ks = "sc_simple_keys s"
  let ?u = "s\<lparr>sc_simple_keys := (if is_live (?ks ! ?f) then ?ks[?f := (?ks ! ?f)\<lparr>sk_stale := True\<rparr>] else ?ks),
    sc_live_key_floor := ?f + 1\<rparr>"
  show ?case
  proof (cases "?f < length ?ks \<and> \<not> (is_live (?ks ! ?f) \<and> \<not> simple_key_is_stale ?f (?ks ! ?f) s)")
    case True
    then have "effect 0 s ?u"
      by (intro effect_keys) (auto dest!: set_update_subset_insert[THEN subsetD] split: if_splits)
    also have "effect 0 ?u (stale_simple_keys ?u)" using 1[OF refl refl] True by auto
    finally have "effect 0 s (stale_simple_keys ?u)" by simp
    moreover have "stale_simple_keys s = stale_simple_keys ?u"
      using True by (subst stale_simple_keys.simps) (auto simp: Let_def)
    ultimately show ?thesis by simp
  next
    case False
    then have "stale_simple_keys s = s" by (subst stale_simple_keys.simps) (auto simp: Let_def)
    then show ?thesis by (simp add: effect_frame)
  qed
qed

lemma effect_advance: "effect 0 s (advance s)"
  by (rule effect_quiet, rule forward_advance)

lemma effect_advance_by: "effect 0 s (advance_by n s)"
  by (rule effect_quiet, rule forward_advance_by)

text \<open>A one-character token: the mark, the cursor, the emission.\<close>

lemma effect_token:
  assumes "\<not> opens_block k" and "\<not> closes_block k" shows "effect 1 s (emit k (advance (s\<lparr>sc_mark := sc_pos s\<rparr>)))"
proof -
  have "effect 0 s (s\<lparr>sc_mark := sc_pos s\<rparr>)" by (rule effect_mark)
  also have "effect 0 \<dots> (advance (s\<lparr>sc_mark := sc_pos s\<rparr>))" by (rule effect_advance)
  also have "effect 1 \<dots> (emit k (advance (s\<lparr>sc_mark := sc_pos s\<rparr>)))" using assms by (rule effect_emit)
  finally show ?thesis by simp
qed

lemma block_kinds [simp]:
  "\<not> opens_block (TScalar st v)" "\<not> closes_block (TScalar st v)" "\<not> opens_block TKey" "\<not> closes_block TKey"
  "\<not> opens_block TValue" "\<not> closes_block TValue" "\<not> opens_block TBlockEntry" "\<not> closes_block TBlockEntry"
  "\<not> opens_block TFlowEntry" "\<not> closes_block TFlowEntry" "\<not> opens_block (TAnchor a)" "\<not> closes_block (TAnchor a)"
  "\<not> opens_block (TAlias a)" "\<not> closes_block (TAlias a)" "\<not> opens_block (TTag h x)" "\<not> closes_block (TTag h x)"
  "\<not> opens_block TDocumentStart" "\<not> closes_block TDocumentStart" "\<not> opens_block TDocumentEnd" "\<not> closes_block TDocumentEnd"
  "\<not> opens_block TStreamStart" "\<not> closes_block TStreamStart" "\<not> opens_block TStreamEnd" "\<not> closes_block TStreamEnd"
  "\<not> opens_block TFlowSequenceStart" "\<not> closes_block TFlowSequenceStart" "\<not> opens_block TFlowMappingStart"
  "\<not> closes_block TFlowMappingStart" "\<not> opens_block TFlowSequenceEnd" "\<not> closes_block TFlowSequenceEnd"
  "\<not> opens_block TFlowMappingEnd" "\<not> closes_block TFlowMappingEnd" "opens_block TBlockSequenceStart"
  "opens_block TBlockMappingStart" "\<not> closes_block TBlockSequenceStart" "\<not> closes_block TBlockMappingStart"
  "closes_block TBlockEnd" "\<not> opens_block TBlockEnd"
  by (simp_all add: opens_block_def closes_block_def)

section \<open>The readers as effects\<close>

named_theorems reader_effects \<open>token readers as sequences of effects\<close>

lemma effect_up_to: "effect n s t \<Longrightarrow> n \<le> 4 \<Longrightarrow> \<exists>n \<le> 4. effect n s t" by blast

lemma flow_start_effect [reader_effects]:
  assumes "fetch_flow_collection_start q s = Inr t" shows "\<exists>n \<le> 4. effect n s t"
proof -
  let ?a = "save_simple_key_ext True s"
  let ?b = "?a\<lparr>sc_flow_level := sc_flow_level ?a + 1\<rparr>"
  let ?c = "?b\<lparr>sc_simple_keys := sc_simple_keys ?b @ [no_simple_key]\<rparr>"
  let ?d = "?c\<lparr>sc_simple_key_allowed := True\<rparr>"
  let ?e = "emit (if q then TFlowSequenceStart else TFlowMappingStart) (advance (?d\<lparr>sc_mark := sc_pos ?d\<rparr>))"
  have "effect 0 s ?a" by (rule effect_save)
  also have "effect 0 ?a ?b" by (rule effect_level)
  also have "effect 0 ?b ?c" by (rule effect_no_key)
  also have "effect 0 ?c ?d" by (rule effect_frame) (simp_all add: frame_of_def)
  also have "effect 1 ?d ?e" by (rule effect_token) simp_all
  also have "effect 0 ?e (?e\<lparr>sc_flow_stack := sc_flow_stack ?e @ [q]\<rparr>)" by (rule effect_stack)
  finally have "effect 1 s (?e\<lparr>sc_flow_stack := sc_flow_stack ?e @ [q]\<rparr>)" by simp
  moreover have "t = ?e\<lparr>sc_flow_stack := sc_flow_stack ?e @ [q], sc_last_token_opens_block := False\<rparr>"
    using assms by (simp add: fetch_flow_collection_start_def Let_def)
  ultimately have "effect 1 s t" using effect_then_frame by (fastforce simp: frame_of_def)
  then show ?thesis by (rule effect_up_to) simp
qed

lemma flow_end_effect [reader_effects]:
  assumes "fetch_flow_collection_end q s = Inr t" shows "\<exists>n \<le> 4. effect n s t"
proof -
  obtain u where u: "remove_simple_key s = Inr u"
    using assms by (auto simp: fetch_flow_collection_end_def and_then_Inr split: if_splits)
  let ?ks = "butlast (sc_simple_keys u)"
  let ?a = "u\<lparr>sc_simple_keys := ?ks, sc_live_key_floor := min (sc_live_key_floor u) (length ?ks)\<rparr>"
  let ?b = "?a\<lparr>sc_flow_level := sc_flow_level u - 1, sc_flow_stack := butlast (sc_flow_stack u)\<rparr>"
  let ?c = "?b\<lparr>sc_simple_key_allowed := False\<rparr>"
  let ?d = "emit (if q then TFlowSequenceEnd else TFlowMappingEnd) (advance (?c\<lparr>sc_mark := sc_pos ?c\<rparr>))"
  have "effect 0 s u" using u by (rule effect_remove)
  also have "effect 0 u ?a" by (rule effect_keys) (auto dest: in_set_butlastD)
  also have "effect 0 ?a ?b" by (rule effect_flow)
  also have "effect 0 ?b ?c" by (rule effect_frame) (simp_all add: frame_of_def)
  also have "effect 1 ?c ?d" by (rule effect_token) simp_all
  finally have "effect 1 s ?d" by simp
  moreover have "t = ?d \<or> t = ?d\<lparr>sc_adjacent_value_allowed := True\<rparr>"
    using assms u by (auto simp: fetch_flow_collection_end_def Let_def split: if_splits)
  ultimately have "effect 1 s t" using effect_then_frame frame_updates by fastforce
  then show ?thesis by (rule effect_up_to) simp
qed

lemma flow_entry_effect [reader_effects]:
  assumes "fetch_flow_entry s = Inr t" shows "\<exists>n \<le> 4. effect n s t"
proof -
  obtain u where u: "remove_simple_key s = Inr u" using assms by (auto simp: fetch_flow_entry_def and_then_Inr)
  let ?a = "u\<lparr>sc_simple_key_allowed := True\<rparr>"
  have "effect 0 s u" using u by (rule effect_remove)
  also have "effect 0 u ?a" by (rule effect_frame) (simp_all add: frame_of_def)
  also have "effect 1 ?a (emit TFlowEntry (advance (?a\<lparr>sc_mark := sc_pos ?a\<rparr>)))" by (rule effect_token) simp_all
  finally have "effect 1 s t" using assms u by (simp add: fetch_flow_entry_def)
  then show ?thesis by (rule effect_up_to) simp
qed

lemma document_indicator_effect [reader_effects]:
  assumes "fetch_document_indicator b s = Inr t" shows "\<exists>n \<le> 4. effect n s t"
proof -
  obtain u where u: "remove_simple_key (unroll_indent (- 1) s) = Inr u"
    using assms by (auto simp: fetch_document_indicator_def and_then_Inr)
  let ?a = "u\<lparr>sc_simple_key_allowed := False\<rparr>"
  let ?b = "advance_by 3 (?a\<lparr>sc_mark := sc_pos ?a\<rparr>)"
  let ?c = "emit (if b then TDocumentStart else TDocumentEnd) ?b"
  have "effect 0 s (unroll_indent (- 1) s)" by (rule effect_unroll) simp
  also have "effect 0 \<dots> u" using u by (rule effect_remove)
  also have "effect 0 u ?a" by (rule effect_frame) (simp_all add: frame_of_def)
  also have "effect 0 ?a (?a\<lparr>sc_mark := sc_pos ?a\<rparr>)" by (rule effect_mark)
  also have "effect 0 \<dots> ?b" by (rule effect_advance_by)
  also have "effect 1 ?b ?c" by (rule effect_emit) simp_all
  finally have "effect 1 s ?c" by simp
  then have "effect 1 s t"
    by (rule effect_then_frame)
      (use assms u in \<open>auto simp: fetch_document_indicator_def Let_def frame_of_def split: if_splits\<close>)
  then show ?thesis by (rule effect_up_to) simp
qed

lemma roll_here: "opens_block k \<Longrightarrow> effect 2 s (roll_indent (int (sc_col s)) None k (sc_pos s) s)"
  by (rule effect_roll) simp_all

lemma block_entry_effect [reader_effects]:
  assumes "fetch_block_entry s = Inr t" shows "\<exists>n \<le> 4. effect n s t"
  using assms
proof (rule fetch_block_entry_parts)
  fix u v
  assume u: "u = s \<or> u = roll_indent (int (sc_col s)) None TBlockSequenceStart (sc_pos s) s"
    and v: "remove_simple_key u = Inr v"
    and t: "t = (emit TBlockEntry (advance (v\<lparr>sc_simple_key_allowed := True, sc_mark := sc_pos v\<rparr>)))
      \<lparr>sc_last_token_opens_block := True\<rparr>"
  let ?a = "v\<lparr>sc_simple_key_allowed := True\<rparr>"
  let ?b = "emit TBlockEntry (advance (?a\<lparr>sc_mark := sc_pos ?a\<rparr>))"
  obtain n where "n \<le> 2" "effect n s u" using u roll_here[of TBlockSequenceStart s] effect_frame[of s s] by auto
  note this(2)
  also have "effect 0 u v" using v by (rule effect_remove)
  also have "effect 0 v ?a" by (rule effect_frame) (simp_all add: frame_of_def)
  also have "effect 1 ?a ?b" by (rule effect_token) simp_all
  also have "effect 0 ?b t" by (rule effect_frame) (simp_all add: t frame_of_def)
  finally show ?thesis using \<open>n \<le> 2\<close> by (intro effect_up_to) auto
qed

lemma key_effect [reader_effects]:
  assumes "fetch_key s = Inr t" shows "\<exists>n \<le> 4. effect n s t"
  using assms
proof (rule fetch_key_parts)
  fix u v p
  assume u: "u = s \<or> u = roll_indent (int (sc_col s)) None TBlockMappingStart (sc_pos s) s"
    and v: "remove_simple_key u = Inr v"
    and p: "p = (if sc_flow_level v = 0 then v\<lparr>sc_simple_key_allowed := True, sc_explicit_key_pending := True\<rparr>
              else v\<lparr>sc_simple_key_allowed := False\<rparr>)"
    and t: "t = (emit TKey (advance (p\<lparr>sc_mark := sc_pos p\<rparr>)))\<lparr>sc_last_token_opens_block := True\<rparr>"
  let ?b = "emit TKey (advance (p\<lparr>sc_mark := sc_pos p\<rparr>))"
  obtain n where "n \<le> 2" "effect n s u" using u roll_here[of TBlockMappingStart s] effect_frame[of s s] by auto
  note this(2)
  also have "effect 0 u v" using v by (rule effect_remove)
  also have "effect 0 v p" by (rule effect_frame) (simp_all add: p frame_of_def)
  also have "effect 1 p ?b" by (rule effect_token) simp_all
  also have "effect 0 ?b t" unfolding t by (rule effect_frame) (simp_all add: frame_of_def)
  finally show ?thesis using \<open>n \<le> 2\<close> by (intro effect_up_to) auto
qed

text \<open>Values.\<close>

lemma value_token_effect: "emit_value s = Inr t \<Longrightarrow> effect 1 s t"
proof -
  assume e: "emit_value s = Inr t"
  let ?a = "s\<lparr>sc_explicit_key_pending := False\<rparr>"
  let ?b = "?a\<lparr>sc_mark := sc_pos ?a\<rparr>"
  let ?c = "skip_blank (advance ?b)"
  have t: "t = (emit TValue ?c)\<lparr>sc_last_token_opens_block := True\<rparr>"
    using e by (auto simp: emit_value_def Let_def res_simps split: if_splits)
  have "effect 0 s ?a" by (rule effect_frame) (simp_all add: frame_of_def)
  also have "effect 0 ?a ?b" by (rule effect_mark)
  also have "effect 0 ?b (advance ?b)" by (rule effect_advance)
  also have "effect 0 (advance ?b) ?c" by (rule effect_quiet, rule forward_skip_blank)
  also have "effect 1 ?c (emit TValue ?c)" by (rule effect_emit) simp_all
  also have "effect 0 (emit TValue ?c) t" unfolding t by (rule effect_frame) (simp_all add: frame_of_def)
  finally show "effect 1 s t" by simp
qed

lemma promote_effect:
  assumes "promote_simple_key sk s = Inr t" and "sk \<in> set (sc_simple_keys s)" shows "\<exists>n \<le> 3. effect n s t"
proof -
  let ?a = "insert_token (sk_token_number sk - sc_produced s) TKey \<lparr>span_start = sk_index sk, span_end = sk_index sk\<rparr> s"
  obtain u where u: "(if sc_flow_level ?a = 0 then roll_indent_for_simple_key sk ?a else Inr ?a) = Inr u"
    and t: "t = (forget_simple_key u)\<lparr>sc_simple_key_allowed := False\<rparr>"
    using assms(1) by (auto simp: promote_simple_key_def Let_def and_then_Inr)
  have k: "sk \<in> set (sc_simple_keys ?a)" using assms(2) by (simp add: insert_token_def)
  have roll: "effect 2 ?a (roll_indent c n TBlockMappingStart (sk_index sk) ?a)" for c n
    by (rule effect_roll) (use k in auto)
  have "u = ?a \<or> (\<exists>c n. u = roll_indent c n TBlockMappingStart (sk_index sk) ?a)"
    using u by (auto simp: roll_indent_for_simple_key_def Let_def and_then_Inr split: if_splits)
  then obtain n where "n \<le> 2" "effect n ?a u" using roll effect_frame[of ?a ?a] by force
  have "effect 1 s ?a" using assms(2) by (rule effect_insert)
  also note \<open>effect n ?a u\<close>
  also have "effect 0 u (forget_simple_key u)" by (rule effect_forget)
  also have "effect 0 (forget_simple_key u) t" unfolding t by (rule effect_frame) (simp_all add: frame_of_def)
  finally show ?thesis using \<open>n \<le> 2\<close> by (elim effect_le) simp
qed

lemma complex_effect:
  assumes "complex_value s = Inr t" shows "\<exists>n \<le> 3. effect n s t"
proof -
  obtain u where u: "u = s \<or> u = roll_indent (int (sc_col s)) None TBlockMappingStart (sc_pos s) s"
    and t: "\<exists>b. t = u\<lparr>sc_simple_key_allowed := b\<rparr>"
    using assms by (auto simp: complex_value_def Let_def split: if_splits)
  obtain n where n: "n \<le> 2" "effect n s u" using u roll_here[of TBlockMappingStart s] effect_frame[of s s] by auto
  have "effect n s t" by (rule effect_then_frame[OF n(2)]) (use t in \<open>auto simp: frame_of_def\<close>)
  then show ?thesis using n(1) by (elim effect_le) simp
qed

lemma check_lines_effect:
  "check_implicit_key_lines sk s = Inr (b, t) \<Longrightarrow> effect 0 s t"
  using effect_forget[of s] effect_frame[of s s]
  by (auto simp: check_implicit_key_lines_def Let_def split: if_splits)

lemma check_lines_keys:
  "check_implicit_key_lines sk s = Inr (False, t) \<Longrightarrow> t = s"
  by (auto simp: check_implicit_key_lines_def Let_def split: if_splits)

lemma value_effect [reader_effects]:
  assumes "fetch_value s = Inr t" shows "\<exists>n \<le> 4. effect n s t"
proof (cases "sc_simple_keys s \<noteq> [] \<and> sk_possible (last (sc_simple_keys s))")
  case True
  let ?sk = "last (sc_simple_keys s)"
  obtain b u where u: "check_implicit_key_lines ?sk s = Inr (b, u)"
    and t: "if b then t = u else \<exists>v. promote_simple_key ?sk u = Inr v \<and> emit_value v = Inr t"
    using assms True by (auto simp: fetch_value_def Let_def and_then_Inr split: if_splits)
  show ?thesis
  proof (cases b)
    case True
    then show ?thesis using effect_up_to[OF check_lines_effect[OF u]] t by simp
  next
    case False
    then have "u = s" using u check_lines_keys by (cases b) auto
    then obtain v where v: "promote_simple_key ?sk s = Inr v" "emit_value v = Inr t" using t False by auto
    obtain n where n: "n \<le> 3" "effect n s v" using promote_effect[OF v(1)] True by auto
    show ?thesis using effect_trans[OF n(2) value_token_effect[OF v(2)]] n(1) by (intro effect_up_to) auto
  qed
next
  case False
  then obtain v where v: "complex_value s = Inr v" "emit_value v = Inr t"
    using assms by (auto simp: fetch_value_def Let_def and_then_Inr split: if_splits)
  obtain n where n: "n \<le> 3" "effect n s v" using complex_effect[OF v(1)] by auto
  show ?thesis using effect_trans[OF n(2) value_token_effect[OF v(2)]] n(1) by (intro effect_up_to) auto
qed

text \<open>Anchors, aliases, tags.\<close>

lemma begin_node_effect: "effect 0 s (begin_node s)"
proof -
  let ?a = "(save_simple_key s)\<lparr>sc_simple_key_allowed := False\<rparr>"
  have "effect 0 s (save_simple_key s)" unfolding save_simple_key_def by (rule effect_save)
  also have "effect 0 (save_simple_key s) ?a" by (rule effect_frame) (simp_all add: frame_of_def)
  also have "effect 0 ?a (?a\<lparr>sc_mark := sc_pos ?a\<rparr>)" by (rule effect_mark)
  also have "effect 0 (?a\<lparr>sc_mark := sc_pos ?a\<rparr>) (begin_node s)"
    unfolding begin_node_def Let_def by (rule effect_advance)
  finally show ?thesis by simp
qed

lemma node_effect:
  assumes "forward (begin_node s) u" and "t = emit k u \<or> t = (emit k u)\<lparr>sc_last_token_opens_block := False\<rparr>"
    and "\<not> opens_block k" and "\<not> closes_block k"
  shows "\<exists>n \<le> 4. effect n s t"
proof -
  have "effect 0 s (begin_node s)" by (rule begin_node_effect)
  also have "effect 0 (begin_node s) u" using assms(1) by (rule effect_quiet)
  also have "effect 1 u (emit k u)" using assms(3,4) by (rule effect_emit)
  also have "effect 0 (emit k u) t" by (rule effect_frame) (use assms(2) in \<open>auto simp: frame_of_def\<close>)
  finally show ?thesis by (rule effect_up_to) simp
qed

lemma anchor_effect [reader_effects]:
  assumes "fetch_anchor s = Inr t" shows "\<exists>n \<le> 4. effect n s t"
proof -
  obtain n u where u: "scan_anchor_name (begin_node s) = Inr (n, u)" and t: "t = emit (TAnchor n) u"
    using assms by (auto simp: fetch_anchor_def res_simps)
  show ?thesis by (rule node_effect[OF scan_anchor_name_moves[OF u] disjI1[OF t]]) simp_all
qed

lemma alias_effect [reader_effects]:
  assumes "fetch_alias s = Inr t" shows "\<exists>n \<le> 4. effect n s t"
proof -
  obtain n u where u: "scan_anchor_name (begin_node s) = Inr (n, u)"
    and t: "t = (emit (TAlias n) u)\<lparr>sc_last_token_opens_block := False\<rparr>"
    using assms by (auto simp: fetch_alias_def res_simps split: if_splits)
  show ?thesis by (rule node_effect[OF scan_anchor_name_moves[OF u] disjI2[OF t]]) simp_all
qed

lemma tag_effect [reader_effects]:
  assumes "fetch_tag s = Inr t" shows "\<exists>n \<le> 4. effect n s t"
proof -
  obtain u h x where u: "forward (begin_node s) u" "t = emit (TTag h x) u" using assms by (rule fetch_tag_parts)
  show ?thesis by (rule node_effect[OF u(1) disjI1[OF u(2)]]) simp_all
qed

text \<open>Scalars.\<close>

lemma scalar_effect:
  assumes "effect 0 s (v\<lparr>sc_mark := sc_pos v\<rparr>)" and "forward (advance (v\<lparr>sc_mark := sc_pos v\<rparr>)) u"
    and "t = emit (TScalar st x) u\<lparr>sc_last_token_opens_block := False\<rparr>
      \<or> t = emit (TScalar st x) u\<lparr>sc_last_token_opens_block := False, sc_adjacent_value_allowed := True\<rparr>"
  shows "\<exists>n \<le> 4. effect n s t"
proof -
  note assms(1)
  also have "effect 0 (v\<lparr>sc_mark := sc_pos v\<rparr>) (advance (v\<lparr>sc_mark := sc_pos v\<rparr>))" by (rule effect_advance)
  also have "effect 0 (advance (v\<lparr>sc_mark := sc_pos v\<rparr>)) u" using assms(2) by (rule effect_quiet)
  also have "effect 1 u (emit (TScalar st x) u)" by (rule effect_emit) simp_all
  also have "effect 0 (emit (TScalar st x) u) t" by (rule effect_frame) (use assms(3) in \<open>auto simp: frame_of_def\<close>)
  finally show ?thesis by (rule effect_up_to) simp
qed

lemma effect_save_mark:
  "effect 0 s (((save_simple_key_ext j s)\<lparr>sc_simple_key_allowed := b\<rparr>)
      \<lparr>sc_mark := sc_pos ((save_simple_key_ext j s)\<lparr>sc_simple_key_allowed := b\<rparr>)\<rparr>)"
proof -
  let ?a = "(save_simple_key_ext j s)\<lparr>sc_simple_key_allowed := b\<rparr>"
  have "effect 0 s (save_simple_key_ext j s)" by (rule effect_save)
  also have "effect 0 (save_simple_key_ext j s) ?a" by (rule effect_frame) (simp_all add: frame_of_def)
  also have "effect 0 ?a (?a\<lparr>sc_mark := sc_pos ?a\<rparr>)" by (rule effect_mark)
  finally show ?thesis by simp
qed

lemma quoted_effect [reader_effects]:
  assumes "fetch_quoted_scalar d s = Inr t" shows "\<exists>n \<le> 4. effect n s t"
proof -
  let ?k = "(save_simple_key_ext True s)\<lparr>sc_simple_key_allowed := False\<rparr>"
  let ?s = "?k\<lparr>sc_mark := sc_pos ?k\<rparr>"
  obtain p where p: "(if d then scan_double_quoted_scalar ?s
                   else and_then (scan_single_quoted_scalar ?s) (\<lambda>(v, s).
                          and_then (check_scalar_printable v s) (\<lambda>_. Inr (v, s)))) = Inr p"
      and t: "(case p of (v, s) \<Rightarrow>
           let s = (emit (TScalar (if d then DoubleQuoted else SingleQuoted) v) s)\<lparr>sc_last_token_opens_block := False\<rparr>
           in Inr (if sc_flow_level s > 0 then s\<lparr>sc_adjacent_value_allowed := True\<rparr> else s)) = (Inr t :: scanner scan)"
    using assms unfolding fetch_quoted_scalar_def Let_def and_then_Inr by blast
  obtain v u where vu: "p = (v, u)" by fastforce
  have "double_loop [] quoted_fold_new (advance ?s) = Inr (v, u) \<or> single_loop [] [] False (advance ?s) = Inr (v, u)"
    using p by (auto simp: vu and_then_Inr scan_double_quoted_scalar_def scan_single_quoted_scalar_def split: if_splits)
  then have u: "forward (advance ?s) u" using double_loop_forward single_loop_forward by blast
  have "t = (emit (TScalar (if d then DoubleQuoted else SingleQuoted) v) u)\<lparr>sc_last_token_opens_block := False\<rparr>
    \<or> t = (emit (TScalar (if d then DoubleQuoted else SingleQuoted) v) u)
      \<lparr>sc_last_token_opens_block := False, sc_adjacent_value_allowed := True\<rparr>"
    using t unfolding vu Let_def prod.case by (cases "sc_flow_level u = 0") (simp_all add: emit_def)
  then show ?thesis by (rule scalar_effect[OF effect_save_mark u])
qed

lemma block_scalar_effect [reader_effects]:
  assumes "fetch_block_scalar l s = Inr t" shows "\<exists>n \<le> 4. effect n s t"
proof -
  obtain k where k: "remove_simple_key s = Inr k" using assms by (auto simp: fetch_block_scalar_def res_simps)
  let ?k = "k\<lparr>sc_simple_key_allowed := True\<rparr>"
  let ?s = "?k\<lparr>sc_mark := sc_pos ?k\<rparr>"
  obtain p u bi inc b w v where h: "scan_block_header (advance ?s) = Inr (p, u)"
      "block_lines l bi inc block_body_new u = Inr (b, w)"
      and t: "t = (emit (TScalar (if l then Literal else Folded) v) w)\<lparr>sc_last_token_opens_block := False\<rparr>"
    using assms k
    by (auto simp: fetch_block_scalar_def scan_block_scalar_def Let_def res_simps split: prod.splits)
  have f: "forward (advance ?s) w" using scan_block_header_moves[OF h(1)] block_lines_forward[OF h(2)] forward_trans by blast
  have "effect 0 s k" using k by (rule effect_remove)
  also have "effect 0 k ?k" by (rule effect_frame) (simp_all add: frame_of_def)
  also have "effect 0 ?k ?s" by (rule effect_mark)
  finally have "effect 0 s ?s" by simp
  then show ?thesis by (rule scalar_effect[OF _ f disjI1[OF t]])
qed

lemma plain_effect [reader_effects]:
  assumes "fetch_plain_scalar s = Inr t" shows "\<exists>n \<le> 4. effect n s t"
proof -
  let ?k = "(save_simple_key s)\<lparr>sc_simple_key_allowed := False\<rparr>"
  let ?s = "?k\<lparr>sc_mark := sc_pos ?k\<rparr>"
  obtain b u where bu: "try_plain_single_line ?s = Inr (b, u)" and t: "if b then t = u else scan_plain_multiline u = Inr t"
    using assms by (auto simp: fetch_plain_scalar_def Let_def res_simps split: if_splits)
  obtain r w where w: "plain_line_end ?s = (r, w)" by fastforce
  have "effect 0 s ?s" unfolding save_simple_key_def by (rule effect_save_mark)
  also have "effect 0 ?s w" using w by (rule effect_memo)
  finally have sw: "effect 0 s w" by simp
  have "\<exists>x st v. forward w x \<and> (t = (emit (TScalar st v) x)\<lparr>sc_last_token_opens_block := False\<rparr>)"
  proof (cases b)
    case True
    then obtain n v where "u = (emit (TScalar Plain v) (advance_by n w))\<lparr>sc_last_token_opens_block := False\<rparr>"
      using bu w by (auto simp: try_plain_single_line_def Let_def res_simps split: prod.splits if_splits)
    then show ?thesis using t True forward_advance_by by auto
  next
    case False
    then have u: "u = w" using bu w
      by (auto simp: try_plain_single_line_def Let_def res_simps split: prod.splits if_splits)
    obtain f ce v where l: "plain_loop (sc_indent w + 1) (sc_flow_level w > 0) plain_fold_new (sc_pos w) w = (f, ce, v)"
      by (metis prod_cases3)
    have f: "forward w v" "forward w (v\<lparr>sc_simple_key_allowed := True\<rparr>)"
      using plain_loop_forward[OF l] by (simp_all add: forward_def frame_updates)
    have m: "scan_plain_multiline w = Inr t" using t False u by simp
    show ?thesis using m l f
      by (auto simp: scan_plain_multiline_def Let_def res_simps split: if_splits)
  qed
  then obtain x st v where x: "forward w x" "t = (emit (TScalar st v) x)\<lparr>sc_last_token_opens_block := False\<rparr>" by blast
  note sw
  also have "effect 0 w x" using x(1) by (rule effect_quiet)
  also have "effect 1 x (emit (TScalar st v) x)" by (rule effect_emit) simp_all
  also have "effect 0 (emit (TScalar st v) x) t" unfolding x(2) by (rule effect_frame) (simp_all add: frame_of_def)
  finally show ?thesis by (rule effect_up_to) simp
qed

text \<open>Directives, the ends of the stream, and a whole fetch.\<close>

lemma effect_started: "effect 0 s (s\<lparr>sc_stream_started := b\<rparr>)"
  using effect_flags[where s = s and a = b and b = "sc_stream_ended s"] by simp

lemma effect_ended: "effect 0 s (s\<lparr>sc_stream_ended := b\<rparr>)"
  using effect_flags[where s = s and a = "sc_stream_started s" and b = b] by simp

lemma directive_effect [reader_effects]:
  assumes "fetch_directive s = Inr t" shows "\<exists>n \<le> 4. effect n s t"
proof -
  obtain k where k: "remove_simple_key (unroll_indent (- 1) s) = Inr k"
    using assms by (auto simp: fetch_directive_def res_simps split: if_splits)
  let ?k = "k\<lparr>sc_simple_key_allowed := False, sc_pending_directive := True\<rparr>"
  let ?a = "advance_while directive_char (advance ?k)"
  obtain u where u: "u = tag_directive ?a \<or> yaml_directive ?a = Inr u \<or> u = ?a"
    and f: "finish_directive_line (sc_pos k) u = Inr t"
    using assms k by (auto simp: fetch_directive_def Let_def res_simps split: if_splits)
  have at: "forward ?a t"
    using u tag_directive_moves yaml_directive_moves finish_directive_moves[OF f] forward_trans by blast
  have "effect 0 s (unroll_indent (- 1) s)" by (rule effect_unroll) simp
  also have "effect 0 \<dots> k" using k by (rule effect_remove)
  also have "effect 0 k ?k" by (rule effect_frame) (simp_all add: frame_of_def)
  also have "effect 0 ?k (advance ?k)" by (rule effect_advance)
  also have "effect 0 (advance ?k) ?a" by (rule effect_quiet, rule forward_advance_while)
  also have "effect 0 ?a t" using at by (rule effect_quiet)
  finally show ?thesis by (rule effect_up_to) simp
qed

lemma stream_start_effect:
  assumes "fetch_stream_start s = Inr t" shows "effect 1 s t"
proof -
  let ?a = "s\<lparr>sc_stream_started := True\<rparr>"
  let ?b = "?a\<lparr>sc_simple_key_allowed := True\<rparr>"
  let ?c = "?b\<lparr>sc_simple_keys := sc_simple_keys ?b @ [no_simple_key]\<rparr>"
  let ?d = "if take 3 (rest ?c) = bom then record_trivia (sc_pos ?c) Bom ((advance_by 3 ?c)\<lparr>sc_col := 0\<rparr>) else ?c"
  have d: "forward ?c ?d" using forward_advance_by[of ?c 3] by (simp add: forward_def frame_updates)
  have t: "t = emit TStreamStart (?d\<lparr>sc_mark := sc_pos ?d\<rparr>)"
    using assms by (auto simp: fetch_stream_start_def Let_def)
  have "effect 0 s ?a" by (rule effect_started)
  also have "effect 0 ?a ?b" by (rule effect_frame) (simp_all add: frame_of_def)
  also have "effect 0 ?b ?c" by (rule effect_no_key)
  also have "effect 0 ?c ?d" using d by (rule effect_quiet)
  also have "effect 0 ?d (?d\<lparr>sc_mark := sc_pos ?d\<rparr>)" by (rule effect_mark)
  also have "effect 1 (?d\<lparr>sc_mark := sc_pos ?d\<rparr>) t" unfolding t by (rule effect_emit) simp_all
  finally show ?thesis by simp
qed

lemma stream_end_effect:
  assumes "fetch_stream_end s = Inr t" shows "effect 1 s t"
proof -
  obtain u where u: "remove_simple_key (unroll_indent (- 1) s) = Inr u"
    and t: "t = emit TStreamEnd (u\<lparr>sc_simple_key_allowed := False, sc_stream_ended := True\<rparr>)"
    using assms by (auto simp: fetch_stream_end_def and_then_Inr split: if_splits)
  let ?a = "u\<lparr>sc_simple_key_allowed := False\<rparr>"
  have "effect 0 s (unroll_indent (- 1) s)" by (rule effect_unroll) simp
  also have "effect 0 \<dots> u" using u by (rule effect_remove)
  also have "effect 0 u ?a" by (rule effect_frame) (simp_all add: frame_of_def)
  also have "effect 0 ?a (?a\<lparr>sc_stream_ended := True\<rparr>)" by (rule effect_ended)
  also have "effect 1 (?a\<lparr>sc_stream_ended := True\<rparr>) t" unfolding t by (rule effect_emit) simp_all
  finally show ?thesis by simp
qed

lemma dispatch_effect: "dispatch adj s = Inr t \<Longrightarrow> \<exists>n \<le> 4. effect n s t"
  unfolding dispatch_def Let_def
  by (elim if_elim) (use effect_up_to[OF effect_advance_by[of s 3]] in \<open>auto dest: reader_effects\<close>)

lemma at_token_effect: "effect 0 u (at_token u)"
proof -
  let ?s = "stale_simple_keys u"
  let ?w = "unroll_indent (int (sc_col ?s)) ?s"
  have "effect 0 u ?s" by (rule effect_stale)
  also have "effect 0 ?s ?w" by (rule effect_unroll) simp
  also have "effect 0 ?w (?w\<lparr>sc_mark := sc_pos ?w\<rparr>)" by (rule effect_mark)
  finally show ?thesis by (simp add: at_token_def Let_def)
qed

text \<open>What a fetch adds: nothing unless it reads on, starts the stream or ends it.\<close>

lemma fetch_effect:
  assumes "fetch_next_token s = Inr t" and "sc_stream_started s"
  obtains v n where "effect 0 s v" and "ahead s v" and "effect n v t"
    and "is_eof v \<and> n \<le> 1 \<and> sc_stream_ended t \<and> sc_stream_started t \<and> sc_pos t = sc_pos v
      \<or> n \<le> 4 \<and> progress v t \<or> n = 0 \<and> ahead v t"
proof -
  obtain u adj where u: "skip_to_next_token (s\<lparr>sc_adjacent_value_allowed := False\<rparr>) = Inr u"
    and t: "(if is_eof (at_token u) then fetch_stream_end (at_token u) else dispatch adj (at_token u)) = Inr t"
    using assms by (rule fetch_next_token_parts)
  have f: "forward (s\<lparr>sc_adjacent_value_allowed := False\<rparr>) u" using u by (rule skip_to_next_token_forward)
  then have a: "ahead s (at_token u)"
    using forward_ahead[OF f] stays_at_token[of u] by (simp add: ahead_def stays_def)
  have "effect 0 s (s\<lparr>sc_adjacent_value_allowed := False\<rparr>)" by (rule effect_frame) (simp_all add: frame_updates)
  also have "effect 0 \<dots> u" using f by (rule effect_quiet)
  also have "effect 0 u (at_token u)" by (rule at_token_effect)
  finally have e: "effect 0 s (at_token u)" by simp
  show thesis
  proof (cases "is_eof (at_token u)")
    case True
    then have "fetch_stream_end (at_token u) = Inr t" using t by simp
    then show thesis
      using that[OF e a stream_end_effect] fetch_stream_end_ends[of "at_token u" t] a assms(2) True
      by (auto simp: ahead_def)
  next
    case False
    then have d: "dispatch adj (at_token u) = Inr t" using t by simp
    consider "progress (at_token u) t" | "gives_up_key (at_token u) t" using dispatch_moves[OF d False] by blast
    then show thesis
    proof cases
      case 1
      obtain n where "n \<le> 4" "effect n (at_token u) t" using dispatch_effect[OF d] by blast
      then show thesis using that[OF e a] 1 by blast
    next
      case 2
      then have "t = forget_simple_key (at_token u)" by (simp add: gives_up_key_def)
      then have "effect 0 (at_token u) t" "ahead (at_token u) t"
        using effect_forget stays_ahead[OF stays_forget_simple_key] by simp_all
      then show thesis using that[OF e a] by blast
    qed
  qed
qed

end
