(* ===== verification/Scan_Invariant.thy ===== *)
theory Scan_Invariant
  imports Scan_Effect
begin

text \<open>
  Invariants of the scanner, each by rule induction over its effects: the spans of the tokens lie in
  the text, the stack of indentations is strictly increasing, every \<open>BlockEnd\<close> closes a block that
  is open, and the memo of the line end is the line end.  What follows for the tokens of a text.
\<close>

section \<open>Spans\<close>

definition span_ok :: "nat \<Rightarrow> token \<Rightarrow> bool" where
  "span_ok len t \<longleftrightarrow> span_start (tok_span t) \<le> span_end (tok_span t) \<and> span_end (tok_span t) \<le> len"

definition spans_ok :: "scanner \<Rightarrow> bool" where
  "spans_ok s \<longleftrightarrow> sc_pos s \<le> length (sc_input s) \<and> sc_mark s \<le> sc_pos s
     \<and> (\<forall>k \<in> set (sc_simple_keys s). sk_index k \<le> sc_pos s)
     \<and> (\<forall>t \<in> set (sc_tokens s). span_ok (length (sc_input s)) t)"

lemma emits_fields:
  "sc_input ((emit k ^^ n) s) = sc_input s" "sc_pos ((emit k ^^ n) s) = sc_pos s"
  "sc_mark ((emit k ^^ n) s) = sc_mark s" "sc_simple_keys ((emit k ^^ n) s) = sc_simple_keys s"
  "sc_produced ((emit k ^^ n) s) = sc_produced s" "sc_line_end_memo ((emit k ^^ n) s) = sc_line_end_memo s"
  "sc_indent ((emit k ^^ n) s) = sc_indent s" "sc_indents ((emit k ^^ n) s) = sc_indents s"
  by (induction n) (simp_all add: emit_def)

lemma emits_tokens:
  "sc_tokens ((emit k ^^ n) s) = sc_tokens s
     @ replicate n \<lparr>tok_kind = k, tok_span = \<lparr>span_start = sc_mark s, span_end = sc_pos s\<rparr>\<rparr>"
proof (induction n)
  case (Suc n)
  have "sc_tokens ((emit k ^^ Suc n) s) = sc_tokens ((emit k ^^ n) s)
      @ [\<lparr>tok_kind = k, tok_span = \<lparr>span_start = sc_mark s, span_end = sc_pos s\<rparr>\<rparr>]"
    by (simp add: emit_def[of k "(emit k ^^ n) s"] emits_fields)
  then show ?case using Suc by (simp add: replicate_append_same)
qed simp

lemma insert_fields:
  "set (sc_tokens (insert_token i k sp s)) = insert \<lparr>tok_kind = k, tok_span = sp\<rparr> (set (sc_tokens s))"
  "sc_mark (insert_token i k sp s) = sc_mark s" "sc_simple_keys (insert_token i k sp s) = sc_simple_keys s"
proof -
  have "set (take i (sc_tokens s)) \<union> set (drop i (sc_tokens s)) = set (sc_tokens s)"
    by (metis append_take_drop_id set_append)
  then show "set (sc_tokens (insert_token i k sp s)) = insert \<lparr>tok_kind = k, tok_span = sp\<rparr> (set (sc_tokens s))"
    by (auto simp: insert_token_def)
qed (simp_all add: insert_token_def)

lemma roll_cases:
  obtains (same) "roll_indent c n k m s = s"
  | (inserted) i where "sc_indent s < c"
      "roll_indent c n k m s = insert_token i k \<lparr>span_start = m, span_end = m\<rparr>
        (s\<lparr>sc_indents := sc_indent s # sc_indents s, sc_indent := c\<rparr>)"
  | (added) "sc_indent s < c"
      "roll_indent c n k m s = s\<lparr>sc_indents := sc_indent s # sc_indents s, sc_indent := c, sc_last_token_end := m,
        sc_tokens := sc_tokens s @ [\<lparr>tok_kind = k, tok_span = \<lparr>span_start = m, span_end = m\<rparr>\<rparr>]\<rparr>"
proof (cases "sc_flow_level s > 0 \<or> \<not> sc_indent s < c")
  case True
  then show thesis using same by (simp add: roll_indent_def)
next
  case False
  then show thesis using inserted added by (cases n) (auto simp: roll_indent_def Let_def)
qed

lemma unroll_cases:
  obtains (same) "unroll_indent c s = s"
  | (popped) n i is' where "pop_indents c (sc_indent s) (sc_indents s) = (n, i, is')"
      "unroll_indent c s = (emit TBlockEnd ^^ n) (s\<lparr>sc_indent := i, sc_indents := is'\<rparr>)"
  by (cases "sc_flow_level s > 0"; cases "pop_indents c (sc_indent s) (sc_indents s)") (auto simp: unroll_indent_def)

lemma effect_spans:
  assumes "effect n s t" and "spans_ok s" shows "spans_ok t \<and> sc_input t = sc_input s"
  using assms
proof (induction rule: effect.induct)
  case (effect_quiet s t)
  then show ?case by (auto simp: spans_ok_def forward_def frame_of_def)
next
  case (effect_insert sk s i)
  then show ?case by (auto simp: spans_ok_def insert_fields span_ok_def)
next
  case (effect_roll k m s c n)
  then have m: "m \<le> length (sc_input s)" by (auto simp: spans_ok_def)
  show ?case
    by (cases rule: roll_cases[of c n k m s])
      (use effect_roll.prems m in \<open>auto simp: spans_ok_def insert_fields span_ok_def\<close>)
next
  case (effect_unroll c s)
  show ?case
    by (cases rule: unroll_cases[of c s])
      (use effect_unroll.prems in \<open>auto simp: spans_ok_def emits_fields emits_tokens span_ok_def\<close>)
next
  case (effect_keys ks s f)
  then show ?case by (fastforce simp: spans_ok_def)
next
  case (effect_memo s r t)
  then show ?case by (auto simp: plain_line_end_def spans_ok_def split: prod.splits if_splits)
next
  case (effect_trans m s t n u)
  then show ?case by simp
qed (auto simp: spans_ok_def emit_def span_ok_def)

section \<open>Indentation\<close>

text \<open>The columns of the open blocks, the innermost first, above the \<open>-1\<close> of the stream.\<close>

definition indents_ok :: "scanner \<Rightarrow> bool" where
  "indents_ok s \<longleftrightarrow> sorted_wrt (>) (sc_indent s # sc_indents s) \<and> last (sc_indent s # sc_indents s) = - 1"

lemma pop_indents_ok:
  assumes "pop_indents c i is' = (n, j, js)" and "- 1 \<le> c"
    and "sorted_wrt (>) (i # is')" and "last (i # is') = (- 1 :: int)"
  shows "n + length js = length is' \<and> sorted_wrt (>) (j # js) \<and> last (j # js) = - 1"
  using assms
proof (induction c i is' arbitrary: n rule: pop_indents.induct)
  case (1 c i is')
  show ?case
  proof (cases "i > c")
    case True
    then obtain k ks where ks: "is' = k # ks" using "1.prems" by (cases is') auto
    obtain m where m: "pop_indents c k ks = (m, j, js)" "n = Suc m"
      using "1.prems"(1) True ks by (subst (asm) pop_indents.simps) (auto split: prod.splits)
    show ?thesis using "1.IH"[OF True ks m(1) "1.prems"(2)] "1.prems"(3,4) ks m(2) by auto
  next
    case False
    then show ?thesis using "1.prems" by (subst (asm) pop_indents.simps) auto
  qed
qed

lemma effect_indents:
  assumes "effect n s t" and "indents_ok s" shows "indents_ok t"
  using assms
proof (induction rule: effect.induct)
  case (effect_roll k m s c n)
  show ?case
    by (cases rule: roll_cases[of c n k m s])
      (use effect_roll.prems in \<open>auto simp: indents_ok_def insert_token_def\<close>)
next
  case (effect_unroll c s)
  show ?case
    by (cases rule: unroll_cases[of c s])
      (use effect_unroll pop_indents_ok in \<open>auto simp: indents_ok_def emits_fields\<close>)
next
  case (effect_memo s r t)
  then show ?case by (auto simp: plain_line_end_def indents_ok_def split: prod.splits if_splits)
qed (auto simp: indents_ok_def forward_def frame_of_def emit_def insert_token_def)

section \<open>Blocks\<close>

text \<open>How many blocks are open after a list of tokens, unless a \<open>BlockEnd\<close> closes none.\<close>

fun open_blocks :: "nat \<Rightarrow> token list \<Rightarrow> nat option" where
  "open_blocks d [] = Some d"
| "open_blocks d (t # ts) =
     (if opens_block (tok_kind t) then open_blocks (Suc d) ts
      else if closes_block (tok_kind t) then (if d = 0 then None else open_blocks (d - 1) ts)
      else open_blocks d ts)"

lemma open_blocks_append: "open_blocks d (xs @ ys) = Option.bind (open_blocks d xs) (\<lambda>e. open_blocks e ys)"
  by (induction d xs rule: open_blocks.induct) auto

lemma open_blocks_more: "open_blocks d ts = Some e \<Longrightarrow> open_blocks (Suc d) ts = Some (Suc e)"
proof (induction d ts arbitrary: e rule: open_blocks.induct)
  case (2 d t ts)
  then show ?case by (cases d) (auto split: if_splits)
qed simp

lemma open_blocks_ends:
  "n \<le> d \<Longrightarrow> open_blocks d (replicate n \<lparr>tok_kind = TBlockEnd, tok_span = sp\<rparr>) = Some (d - n)"
  by (induction n arbitrary: d) auto

lemma open_blocks_insert:
  assumes "open_blocks d (xs @ ys) = Some e"
  shows "\<not> opens_block (tok_kind t) \<Longrightarrow> \<not> closes_block (tok_kind t) \<Longrightarrow> open_blocks d (xs @ t # ys) = Some e"
    and "opens_block (tok_kind t) \<Longrightarrow> open_blocks d (xs @ t # ys) = Some (Suc e)"
  using assms by (auto simp: open_blocks_append open_blocks_more bind_eq_Some_conv)

definition blocks_ok :: "nat \<Rightarrow> scanner \<Rightarrow> bool" where
  "blocks_ok d s \<longleftrightarrow> open_blocks d (sc_tokens s) = Some (length (sc_indents s))"

lemma insert_open_blocks:
  assumes "open_blocks d (sc_tokens s) = Some e"
  shows "\<not> opens_block k \<Longrightarrow> \<not> closes_block k \<Longrightarrow> open_blocks d (sc_tokens (insert_token i k sp s)) = Some e"
    and "opens_block k \<Longrightarrow> open_blocks d (sc_tokens (insert_token i k sp s)) = Some (Suc e)"
  using open_blocks_insert[of d "take i (sc_tokens s)" "drop i (sc_tokens s)" e "\<lparr>tok_kind = k, tok_span = sp\<rparr>"] assms
  by (simp_all add: insert_token_def)

lemma effect_blocks:
  assumes "effect n s t" and "indents_ok s" and "blocks_ok d s" shows "blocks_ok d t"
  using assms
proof (induction rule: effect.induct)
  case (effect_insert sk s i)
  then show ?case using insert_open_blocks(1)[of d s _ TKey] by (simp add: blocks_ok_def) (simp add: insert_token_def)
next
  case (effect_roll k m s c n)
  let ?s = "s\<lparr>sc_indents := sc_indent s # sc_indents s, sc_indent := c\<rparr>"
  have b: "open_blocks d (sc_tokens ?s) = Some (length (sc_indents s))" using effect_roll.prems by (simp add: blocks_ok_def)
  have i: "sc_indents (insert_token j k sp ?s) = sc_indents ?s" for j sp by (simp add: insert_token_def)
  show ?case
    by (cases rule: roll_cases[of c n k m s])
      (use effect_roll insert_open_blocks(2)[OF b] b i in \<open>auto simp: blocks_ok_def open_blocks_append\<close>)
next
  case (effect_unroll c s)
  show ?case
  proof (cases rule: unroll_cases[of c s])
    case same
    then show ?thesis using effect_unroll.prems by simp
  next
    case (popped n i is')
    then have "n + length is' = length (sc_indents s)"
      using pop_indents_ok effect_unroll by (auto simp: indents_ok_def)
    then show ?thesis using effect_unroll.prems popped(2) open_blocks_ends[of n "length (sc_indents s)"]
      by (simp add: blocks_ok_def emits_fields emits_tokens open_blocks_append)
  qed
next
  case (effect_memo s r t)
  then show ?case by (auto simp: plain_line_end_def blocks_ok_def split: prod.splits if_splits)
next
  case (effect_trans m s t n u)
  then show ?case using effect_indents by blast
qed (auto simp: blocks_ok_def forward_def frame_of_def emit_def open_blocks_append)

section \<open>The number of tokens\<close>

text \<open>A block that is open counts for the token that will close it.\<close>

definition token_weight :: "scanner \<Rightarrow> nat" where
  "token_weight s = sc_produced s + length (sc_tokens s) + length (sc_indents s)"

lemma effect_weight:
  assumes "effect n s t" and "indents_ok s" shows "token_weight t \<le> token_weight s + n"
  using assms
proof (induction rule: effect.induct)
  case (effect_roll k m s c n)
  show ?case
    by (cases rule: roll_cases[of c n k m s]) (auto simp: token_weight_def insert_token_def)
next
  case (effect_unroll c s)
  show ?case
  proof (cases rule: unroll_cases[of c s])
    case (popped n i is')
    then have "n + length is' = length (sc_indents s)"
      using pop_indents_ok effect_unroll by (auto simp: indents_ok_def)
    then show ?thesis using popped(2) by (simp add: token_weight_def emits_fields emits_tokens)
  qed simp
next
  case (effect_memo s r t)
  then show ?case by (auto simp: plain_line_end_def token_weight_def split: prod.splits if_splits)
next
  case (effect_trans m s t n u)
  then show ?case using effect_indents by fastforce
qed (auto simp: token_weight_def forward_def frame_of_def emit_def insert_token_def)

lemma effect_keeps: "effect n s t \<Longrightarrow> sc_produced t = sc_produced s \<and> sc_input t = sc_input s"
proof (induction rule: effect.induct)
  case (effect_roll k m s c n)
  show ?case by (cases rule: roll_cases[of c n k m s]) (simp_all add: insert_token_def)
next
  case (effect_unroll c s)
  show ?case by (cases rule: unroll_cases[of c s]) (simp_all add: emits_fields)
next
  case (effect_memo s r t)
  then show ?case by (auto simp: plain_line_end_def split: prod.splits if_splits)
qed (auto simp: forward_def frame_of_def emit_def insert_token_def)

section \<open>The memo of the line end\<close>

definition memo_ok :: "scanner \<Rightarrow> bool" where
  "memo_ok s \<longleftrightarrow> (case sc_line_end_memo s of (start, stop, brk) \<Rightarrow>
     start \<le> length (sc_input s) \<longrightarrow> start \<le> stop \<and> scan_line_end (drop start (sc_input s)) = (stop - start, brk))"

lemma line_end_shift:
  "line_end_from (n + m) p cs = (case line_end_from m p cs of (e, b) \<Rightarrow> (n + e, b))"
proof (induction cs arbitrary: m p)
  case (Cons c cs)
  show ?case using Cons.IH[of "m + 1" "Some c"] by simp
qed simp

lemma line_end_later:
  assumes "line_end_from n p cs = (e, b)"
    and "n + j < e \<or> (n + j = e \<and> (b \<or> e = n + length cs))"
  shows "line_end_from 0 None (drop j cs) = (e - (n + j), b)"
  using assms
proof (induction cs arbitrary: n p j)
  case (Cons c cs)
  show ?case
  proof (cases "is_break c \<or> c = CHR ''#'' \<and> (case p of Some q \<Rightarrow> is_blank q | None \<Rightarrow> False)")
    case True
    then show ?thesis using Cons.prems by (auto split: if_splits)
  next
    case False
    then have l: "line_end_from (Suc n) (Some c) cs = (e, b)" using Cons.prems(1) by auto
    show ?thesis
    proof (cases j)
      case 0
      have "line_end_from (Suc n) (Some c) cs = (case line_end_from 1 (Some c) cs of (e, b) \<Rightarrow> (n + e, b))"
        using line_end_shift[of n 1 "Some c" cs] by simp
      then show ?thesis using 0 False l by (auto split: prod.splits)
    next
      case (Suc i)
      then show ?thesis using Cons.IH[OF l, of i] Cons.prems(2) by auto
    qed
  qed
qed auto

lemma line_end_bounds: "line_end_from n p cs = (e, b) \<Longrightarrow> n \<le> e \<and> e \<le> n + length cs"
  by (induction cs arbitrary: n p) (fastforce split: if_splits)+

lemma plain_line_end_fresh:
  assumes "memo_ok s" and "sc_pos s \<le> length (sc_input s)"
  shows "fst (plain_line_end s) = scan_line_end (rest s)"
proof -
  obtain start stop brk where m: "sc_line_end_memo s = (start, stop, brk)" by (metis prod_cases3)
  show ?thesis
  proof (cases "start \<le> sc_pos s \<and> (sc_pos s < stop \<or> (sc_pos s = stop \<and> (brk \<or> stop = length (sc_input s))))")
    case True
    then have l: "line_end_from 0 None (drop start (sc_input s)) = (stop - start, brk)" and "start \<le> stop"
      using assms m by (auto simp: memo_ok_def scan_line_end_def)
    let ?j = "sc_pos s - start"
    have "0 + ?j < stop - start \<or> (0 + ?j = stop - start \<and> (brk \<or> stop - start = 0 + length (drop start (sc_input s))))"
      using True by auto
    then have "line_end_from 0 None (drop ?j (drop start (sc_input s))) = (stop - start - (0 + ?j), brk)"
      by (rule line_end_later[OF l])
    then show ?thesis using True m by (simp add: plain_line_end_def scan_line_end_def rest_def)
  next
    case False
    then show ?thesis by (auto simp: plain_line_end_def m split: prod.splits)
  qed
qed

lemma plain_line_end_memo: "plain_line_end s = (r, t) \<Longrightarrow> memo_ok s \<Longrightarrow> memo_ok t"
  by (auto simp: plain_line_end_def memo_ok_def rest_def split: prod.splits if_splits)

lemma effect_memo_ok:
  assumes "effect n s t" and "memo_ok s" shows "memo_ok t"
  using assms
proof (induction rule: effect.induct)
  case (effect_roll k m s c n)
  show ?case
    by (cases rule: roll_cases[of c n k m s]) (use effect_roll.prems in \<open>auto simp: memo_ok_def insert_token_def\<close>)
next
  case (effect_unroll c s)
  show ?case
    by (cases rule: unroll_cases[of c s]) (use effect_unroll.prems in \<open>auto simp: memo_ok_def emits_fields\<close>)
next
  case (effect_memo s r t)
  then show ?case using plain_line_end_memo by blast
qed (auto simp: memo_ok_def forward_def frame_of_def emit_def insert_token_def)

section \<open>Every fetch keeps the invariants\<close>

definition scanner_ok :: "nat \<Rightarrow> scanner \<Rightarrow> bool" where
  "scanner_ok d s \<longleftrightarrow> spans_ok s \<and> indents_ok s \<and> blocks_ok d s
     \<and> token_weight s \<le> 4 * sc_pos s + of_bool (sc_stream_started s) + of_bool (sc_stream_ended s)"

lemma scanner_okI:
  assumes "effect n s t" and "scanner_ok d s"
    and "4 * sc_pos s + of_bool (sc_stream_started s) + of_bool (sc_stream_ended s) + n
      \<le> 4 * sc_pos t + of_bool (sc_stream_started t) + of_bool (sc_stream_ended t)"
  shows "scanner_ok d t \<and> sc_input t = sc_input s \<and> sc_produced t = sc_produced s"
  using effect_keeps[OF assms(1)] effect_spans[OF assms(1)] effect_indents[OF assms(1)] effect_blocks[OF assms(1)]
    effect_weight[OF assms(1)] assms(2,3)
  by (auto simp: scanner_ok_def)

lemma fetch_keeps_ok:
  assumes "fetch_next_token s = Inr t" and "\<not> sc_stream_ended s" and "scanner_ok d s"
  shows "scanner_ok d t \<and> sc_input t = sc_input s \<and> sc_produced t = sc_produced s"
proof (cases "sc_stream_started s")
  case False
  then have "fetch_stream_start s = Inr t" using assms(1) by (simp add: fetch_next_token_def)
  moreover have "sc_pos s \<le> length (sc_input s)" using assms(3) by (simp add: scanner_ok_def spans_ok_def)
  ultimately show ?thesis
    using stream_start_effect fetch_stream_start_starts[of s t] False assms(2)
    by (intro scanner_okI[OF _ assms(3), of 1]) auto
next
  case True
  obtain v n where v: "effect 0 s v" "ahead s v" "effect n v t"
    and n: "is_eof v \<and> n \<le> 1 \<and> sc_stream_ended t \<and> sc_stream_started t \<and> sc_pos t = sc_pos v
      \<or> n \<le> 4 \<and> progress v t \<or> n = 0 \<and> ahead v t"
    using assms(1) True by (rule fetch_effect)
  have p: "sc_pos s \<le> sc_pos v" using v(2) assms(3) by (auto simp: ahead_def scanner_ok_def spans_ok_def)
  have ok: "scanner_ok d v" and i: "sc_input v = sc_input s \<and> sc_produced v = sc_produced s"
    using scanner_okI[OF v(1) assms(3)] v(2) p by (auto simp: ahead_def)
  have le: "sc_pos v \<le> length (sc_input v)" using ok by (simp add: scanner_ok_def spans_ok_def)
  have "scanner_ok d t \<and> sc_input t = sc_input v \<and> sc_produced t = sc_produced v"
    by (rule scanner_okI[OF v(3) ok]) (use n v(2) True assms(2) le in \<open>auto simp: ahead_def progress_def\<close>)
  then show ?thesis using i by simp
qed

lemma fetch_more_keeps:
  assumes "fetch_more s = Inr t" and "P s"
    and "\<And>s t. fetch_next_token s = Inr t \<Longrightarrow> \<not> sc_stream_ended s \<Longrightarrow> P s \<Longrightarrow> P t"
  shows "P t"
  using assms(1,2)
proof (induction s rule: fetch_more.induct)
  case (1 s)
  show ?case
  proof (cases "needs_more_tokens s")
    case True
    then obtain u where u: "fetch_next_token s = Inr u" "\<not> queue_over_budget u" "fetch_more u = Inr t"
      using "1.prems" by (subst (asm) fetch_more.simps) (auto split: sum.splits if_splits)
    have "P u" using assms(3)[OF u(1)] True "1.prems"(2) by (simp add: needs_more_tokens_def)
    then show ?thesis using "1.IH"[OF True u(1,2,3)] by blast
  next
    case False
    then show ?thesis using "1.prems" by (subst (asm) fetch_more.simps) simp
  qed
qed

lemma next_token_keeps_ok:
  assumes "next_token s = Inr (t, u)" and "scanner_ok d s"
  obtains e where "open_blocks d [t] = Some e" and "scanner_ok e u" and "span_ok (length (sc_input s)) t"
    and "sc_input u = sc_input s" and "sc_produced u = sc_produced s + 1"
proof -
  obtain v ts where v: "fetch_more s = Inr v" and q: "sc_tokens v = t # ts"
    and u: "u = (record_token t v)\<lparr>sc_tokens := ts, sc_produced := sc_produced v + 1\<rparr>"
  proof -
    obtain v where v: "fetch_more s = Inr v" and n: "(case sc_tokens v of
         [] \<Rightarrow> Inl (scan_err ''unexpected end of token stream'' v)
       | t # ts \<Rightarrow> Inr (t, (record_token t v)\<lparr>sc_tokens := ts, sc_produced := sc_produced v + 1\<rparr>)) = Inr (t, u)"
      using assms(1) unfolding next_token_def and_then_Inr by blast
    show thesis using that[OF v] n by (cases "sc_tokens v") simp_all
  qed
  have ok: "scanner_ok d v \<and> sc_input v = sc_input s \<and> sc_produced v = sc_produced s"
  proof (rule fetch_more_keeps[OF v, where P = "\<lambda>v. scanner_ok d v \<and> sc_input v = sc_input s \<and> sc_produced v = sc_produced s"])
    show "scanner_ok d s \<and> sc_input s = sc_input s \<and> sc_produced s = sc_produced s" using assms(2) by simp
  next
    fix a b assume "fetch_next_token a = Inr b" "\<not> sc_stream_ended a"
      "scanner_ok d a \<and> sc_input a = sc_input s \<and> sc_produced a = sc_produced s"
    then show "scanner_ok d b \<and> sc_input b = sc_input s \<and> sc_produced b = sc_produced s"
      using fetch_keeps_ok by auto
  qed
  have r: "sc_input u = sc_input v" "sc_pos u = sc_pos v" "sc_mark u = sc_mark v" "sc_simple_keys u = sc_simple_keys v"
    "sc_indent u = sc_indent v" "sc_indents u = sc_indents v" "sc_tokens u = ts" "sc_produced u = sc_produced v + 1"
    "sc_stream_started u = sc_stream_started v" "sc_stream_ended u = sc_stream_ended v"
    by (simp_all add: u record_token_def Let_def split: option.splits)
  have "open_blocks d (t # ts) = Some (length (sc_indents v))" using ok q by (simp add: scanner_ok_def blocks_ok_def)
  then obtain e where e: "open_blocks d [t] = Some e" "open_blocks e ts = Some (length (sc_indents v))"
    using open_blocks_append[of d "[t]" ts] unfolding append.simps by (auto simp del: open_blocks.simps simp: bind_eq_Some_conv)
  have "scanner_ok e u"
    using ok q e(2) by (auto simp: scanner_ok_def spans_ok_def indents_ok_def blocks_ok_def token_weight_def r)
  moreover have "span_ok (length (sc_input s)) t" using ok q by (auto simp: scanner_ok_def spans_ok_def)
  ultimately show thesis using that e(1) ok r by simp
qed

section \<open>The tokens of a text\<close>

lemma scanner_ok_new: "scanner_ok 0 (set_max_events m (scanner_new input))"
  by (simp add: scanner_ok_def set_max_events_def scanner_new_def spans_ok_def indents_ok_def blocks_ok_def token_weight_def)

lemma scan_all_tokens:
  assumes "scanner_ok d s"
  shows "(\<forall>t \<in> set (fst (scan_all s)). span_ok (length (sc_input s)) t)
    \<and> open_blocks d (fst (scan_all s)) \<noteq> None
    \<and> sc_produced s + length (fst (scan_all s)) \<le> 4 * length (sc_input s) + 2"
  using assms
proof (induction s arbitrary: d rule: scan_all.induct)
  case (1 s)
  show ?case
  proof (cases "next_token s")
    case (Inl e)
    have "sc_produced s \<le> 4 * length (sc_input s) + 2"
    proof -
      have "token_weight s \<le> 4 * sc_pos s + 2" "sc_pos s \<le> length (sc_input s)"
        using "1.prems" by (auto simp: scanner_ok_def spans_ok_def of_bool_def split: if_splits)
      then show ?thesis by (simp add: token_weight_def)
    qed
    then show ?thesis by (subst (1 2 3) scan_all.simps) (simp add: Inl)
  next
    case (Inr p)
    obtain t u where p: "p = (t, u)" by fastforce
    obtain e where e: "open_blocks d [t] = Some e" "scanner_ok e u" "span_ok (length (sc_input s)) t"
        "sc_input u = sc_input s" "sc_produced u = sc_produced s + 1"
      using next_token_keeps_ok[OF Inr[unfolded p] "1.prems"] by blast
    have f: "fst (scan_all s) = t # fst (scan_all u)"
      by (subst scan_all.simps) (simp add: Inr p split: prod.splits)
    have "open_blocks d (t # fst (scan_all u)) = open_blocks e (fst (scan_all u))"
      using open_blocks_append[of d "[t]" "fst (scan_all u)"] e(1) by simp
    then show ?thesis using "1.IH"[OF Inr p[symmetric] e(2)] e(3,4,5) f by simp
  qed
qed

text \<open>C16. The span of every token of a text lies inside the text and runs forward.\<close>

theorem token_spans_in_text:
  "list_all (\<lambda>t. span_start (tok_span t) \<le> span_end (tok_span t) \<and> span_end (tok_span t) \<le> length input)
     (fst (scan_text m input))"
  using scan_all_tokens[OF scanner_ok_new, of m input]
  by (auto simp: scan_text_def list_all_iff span_ok_def set_max_events_def scanner_new_def)

text \<open>A text of \<open>n\<close> bytes has at most \<open>4 n + 2\<close> tokens: each byte read pays for four, block ends included.\<close>

theorem token_count_bounded: "length (fst (scan_text m input)) \<le> 4 * length input + 2"
  using scan_all_tokens[OF scanner_ok_new, of m input] by (simp add: scan_text_def set_max_events_def scanner_new_def)

text \<open>C17. Every \<open>BlockEnd\<close> the scanner produces closes a block that an earlier token opened.\<close>

theorem block_ends_matched: "open_blocks 0 (fst (scan_text m input)) \<noteq> None"
  using scan_all_tokens[OF scanner_ok_new, of m input] by (simp add: scan_text_def)

text \<open>The scanners that a parser meets.\<close>

inductive scanner_reached :: "string \<Rightarrow> scanner \<Rightarrow> bool" for input where
  reached_new: "scanner_reached input (set_max_events m (scanner_new input))"
| reached_next: "scanner_reached input s \<Longrightarrow> next_token s = Inr (t, u) \<Longrightarrow> scanner_reached input u"

definition memo_of :: "string \<Rightarrow> scanner \<Rightarrow> bool" where
  "memo_of input s \<longleftrightarrow> memo_ok s \<and> sc_input s = input"

lemma fetch_keeps_memo:
  assumes "fetch_next_token s = Inr t" and "memo_of input s" shows "memo_of input t"
proof -
  have e: "memo_of input u \<Longrightarrow> effect n u v \<Longrightarrow> memo_of input v" for n u v
    using effect_memo_ok effect_keeps by (auto simp: memo_of_def)
  show ?thesis
  proof (cases "sc_stream_started s")
    case False
    then have "fetch_stream_start s = Inr t" using assms(1) by (simp add: fetch_next_token_def)
    then show ?thesis using stream_start_effect e assms(2) by blast
  next
    case True
    then show ?thesis using fetch_effect[OF assms(1) True] e assms(2) by metis
  qed
qed

lemma next_token_fields:
  assumes "next_token s = Inr (t, u)"
  obtains v where "fetch_more s = Inr v" and "sc_input u = sc_input v" and "sc_line_end_memo u = sc_line_end_memo v"
proof -
  obtain v where v: "fetch_more s = Inr v" and n: "(case sc_tokens v of
         [] \<Rightarrow> Inl (scan_err ''unexpected end of token stream'' v)
       | t # ts \<Rightarrow> Inr (t, (record_token t v)\<lparr>sc_tokens := ts, sc_produced := sc_produced v + 1\<rparr>)) = Inr (t, u)"
    using assms unfolding next_token_def and_then_Inr by blast
  obtain ts where u: "u = (record_token t v)\<lparr>sc_tokens := ts, sc_produced := sc_produced v + 1\<rparr>"
    using n by (cases "sc_tokens v") auto
  show thesis by (rule that[OF v]) (simp_all add: u record_token_def Let_def split: option.splits)
qed

lemma reached_memo:
  assumes "scanner_reached input s" and "length input < usize_max" shows "memo_of input s"
  using assms
proof (induction rule: scanner_reached.induct)
  case (reached_next s t u)
  obtain v where v: "fetch_more s = Inr v" "sc_input u = sc_input v" "sc_line_end_memo u = sc_line_end_memo v"
    using reached_next.hyps(2) by (rule next_token_fields)
  have "memo_of input v" by (rule fetch_more_keeps[OF v(1)]) (use reached_next fetch_keeps_memo in blast)+
  then show ?case using v(2,3) by (auto simp: memo_of_def memo_ok_def split: prod.splits)
qed (simp add: memo_of_def memo_ok_def set_max_events_def scanner_new_def)

text \<open>
  The memo of the line end is only a cache: in every scanner a parser meets, at every position,
  the end of the line it gives is the one a scan of the rest of the text finds.
\<close>

theorem line_end_memo_fresh:
  assumes "length input < usize_max" and "scanner_reached input s" and "p \<le> length input"
  shows "fst (plain_line_end (s\<lparr>sc_pos := p\<rparr>)) = scan_line_end (drop p input)"
proof -
  have "memo_of input s" using assms(2,1) by (rule reached_memo)
  then have "memo_ok (s\<lparr>sc_pos := p\<rparr>)" "sc_input s = input" by (auto simp: memo_of_def memo_ok_def split: prod.splits)
  then show ?thesis using plain_line_end_fresh[of "s\<lparr>sc_pos := p\<rparr>"] assms(3) by (simp add: rest_def)
qed

end
