(* ===== verification/Path.thy ===== *)
theory Path
  imports Prelude
begin

text \<open>
  Model of \<open>crates/noyalib/src/path.rs\<close>: the error-location \<open>Path\<close> with its \<open>Display\<close>, and
  the query-path grammar (\<open>QueryPath::parse\<close>, its \<open>Display\<close>, \<open>quote_key\<close>, \<open>push_key\<close>,
  \<open>join_keys\<close>).  The character loop of \<open>parse_query_path_checked\<close> is a recursion over the
  remaining characters that carries the loop's three variables \<open>current\<close>, \<open>segments\<close> and
  \<open>separator_pending\<close>.  The lemmas show that printing any segment list and parsing it back
  gives the same list, and what the parser does on malformed input.
\<close>

section \<open>Location paths\<close>

datatype path =
    Root
  | SeqPath path nat
  | MapPath path string
  | AliasPath path
  | UnknownPath path

fun path_is_root :: "path \<Rightarrow> bool" where
  "path_is_root Root = True"
| "path_is_root _ = False"

fun path_parent :: "path \<Rightarrow> path option" where
  "path_parent Root = None"
| "path_parent (SeqPath p _) = Some p"
| "path_parent (MapPath p _) = Some p"
| "path_parent (AliasPath p) = Some p"
| "path_parent (UnknownPath p) = Some p"

fun path_depth :: "path \<Rightarrow> nat" where
  "path_depth Root = 0"
| "path_depth (SeqPath p _) = 1 + path_depth p"
| "path_depth (MapPath p _) = 1 + path_depth p"
| "path_depth (AliasPath p) = 1 + path_depth p"
| "path_depth (UnknownPath p) = 1 + path_depth p"

text \<open>
  \<open>Display for Path\<close>; the two helper structs \<open>Parent\<close> and \<open>ParentNoDot\<close> print nothing for
  the root.
\<close>

fun path_display :: "path \<Rightarrow> string" where
  "path_display Root = ''.''"
| "path_display (SeqPath p i) = (if p = Root then [] else path_display p) @ ''['' @ show_nat i @ '']''"
| "path_display (MapPath p k) = (if p = Root then [] else path_display p @ ''.'') @ k"
| "path_display (AliasPath p) = (if p = Root then [] else path_display p @ ''.'')"
| "path_display (UnknownPath p) = (if p = Root then [] else path_display p @ ''.'') @ ''?''"

section \<open>Query paths\<close>

datatype query_segment =
    Key string
  | Index nat
  | Wildcard
  | RecursiveDescent

datatype path_error_kind =
    EmptySegment
  | SeparatorBeforeBracket
  | UnterminatedBracket
  | UnterminatedQuotedKey
  | DanglingEscape
  | ExpectedClosingBracket
  | InvalidBracketSegment
  | IndexOverflow
  | StrayClosingBracket
  | DanglingSeparator

text \<open>\<open>PathError\<close>'s \<open>Display\<close>: one stable message per kind.\<close>

fun path_error_message :: "path_error_kind \<Rightarrow> string" where
  "path_error_message EmptySegment = ''query path contains an empty segment''"
| "path_error_message SeparatorBeforeBracket = ''query path has a separator before a bracket segment''"
| "path_error_message UnterminatedBracket = ''query path has an unterminated bracket''"
| "path_error_message UnterminatedQuotedKey = ''query path has an unterminated quoted key''"
| "path_error_message DanglingEscape = ''query path has a dangling quoted-key escape''"
| "path_error_message ExpectedClosingBracket =
     ''a quoted query-path key must be followed by a closing bracket''"
| "path_error_message InvalidBracketSegment =
     ''query-path bracket content must be an index or wildcard''"
| "path_error_message IndexOverflow = ''query-path sequence index overflows usize''"
| "path_error_message StrayClosingBracket = ''query path contains a stray closing bracket''"
| "path_error_message DanglingSeparator = ''query path ends with a separator''"

definition quote_char :: char where "quote_char = CHR 0x22"
definition apostrophe_char :: char where "apostrophe_char = CHR 0x27"
definition backslash_char :: char where "backslash_char = CHR 0x5C"

text \<open>
  \<open>read_quoted_key\<close>: the key's text up to the closing quote, and the characters after it.
\<close>

fun read_quoted_key :: "string \<Rightarrow> char \<Rightarrow> string \<Rightarrow> (path_error_kind, string \<times> string) res" where
  "read_quoted_key [] quote key = Inl UnterminatedQuotedKey"
| "read_quoted_key (c # cs) quote key =
     (if c = backslash_char then
        (case cs of
           [] \<Rightarrow> Inl DanglingEscape
         | escaped # cs' \<Rightarrow> read_quoted_key cs' quote (key @ [escaped]))
      else if c = quote then Inr (key, cs)
      else read_quoted_key cs quote (key @ [c]))"

text \<open>The bracket loop: everything up to \<open>]\<close>, and the rest, or nothing if it never closes.\<close>

fun read_bracket :: "string \<Rightarrow> string \<Rightarrow> (string \<times> string) option" where
  "read_bracket [] index_str = None"
| "read_bracket (c # cs) index_str =
     (if c = CHR '']'' then Some (index_str, cs) else read_bracket cs (index_str @ [c]))"

definition bracket_segment :: "string \<Rightarrow> (path_error_kind, query_segment) res" where
  "bracket_segment index_str =
     (if index_str = ''*'' then Inr Wildcard
      else if (\<forall>c \<in> set index_str. is_ascii_digit c) \<and> index_str \<noteq> [] then
        (case parse_usize index_str of
           None \<Rightarrow> Inl IndexOverflow
         | Some idx \<Rightarrow> Inr (Index idx))
      else Inl InvalidBracketSegment)"

lemma read_quoted_key_shorter:
  "read_quoted_key cs q acc = Inr (key, rest) \<Longrightarrow> length rest < length cs"
  by (induction cs q acc rule: read_quoted_key.induct)
     (auto split: if_splits list.splits)

lemma read_bracket_shorter:
  "read_bracket cs acc = Some (key, rest) \<Longrightarrow> length rest < length cs"
  by (induction cs acc rule: read_bracket.induct) (fastforce split: if_splits)+

definition flush :: "query_segment list \<Rightarrow> string \<Rightarrow> query_segment list" where
  "flush segments current = (if current = [] then segments else segments @ [Key current])"

text \<open>\<open>parse_query_path_checked\<close>.\<close>

function parse_segments ::
  "string \<Rightarrow> string \<Rightarrow> query_segment list \<Rightarrow> bool \<Rightarrow> (path_error_kind, query_segment list) res" where
  "parse_segments [] current segments separator_pending =
     (if separator_pending then Inl DanglingSeparator else Inr (flush segments current))"
| "parse_segments (c # chars) current segments separator_pending =
     (if c = CHR ''.'' then
        (if chars \<noteq> [] \<and> hd chars = CHR ''.'' then
           (if separator_pending then Inl EmptySegment
            else parse_segments (tl chars) [] (flush segments current @ [RecursiveDescent]) False)
         else if (current = [] \<and> segments = []) \<or> separator_pending then Inl EmptySegment
         else parse_segments chars [] (flush segments current) True)
      else if c = CHR ''['' then
        (if separator_pending then Inl SeparatorBeforeBracket
         else if chars \<noteq> [] \<and> (hd chars = quote_char \<or> hd chars = apostrophe_char) then
           (case read_quoted_key (tl chars) (hd chars) [] of
              Inl e \<Rightarrow> Inl e
            | Inr (key, rest) \<Rightarrow>
                (case rest of
                   [] \<Rightarrow> Inl ExpectedClosingBracket
                 | d # rest' \<Rightarrow>
                     if d \<noteq> CHR '']'' then Inl ExpectedClosingBracket
                     else parse_segments rest' [] (flush segments current @ [Key key]) False))
         else
           (case read_bracket chars [] of
              None \<Rightarrow> Inl UnterminatedBracket
            | Some (index_str, rest) \<Rightarrow>
                (case bracket_segment index_str of
                   Inl e \<Rightarrow> Inl e
                 | Inr seg \<Rightarrow> parse_segments rest [] (flush segments current @ [seg]) False)))
      else if c = CHR '']'' then Inl StrayClosingBracket
      else if c = CHR ''*'' then parse_segments chars [] (flush segments current @ [Wildcard]) False
      else parse_segments chars (current @ [c]) segments False)"
  by pat_completeness auto
termination
  by (relation "measure (\<lambda>(cs, _, _, _). length cs)")
     (auto dest!: read_quoted_key_shorter read_bracket_shorter simp: neq_Nil_conv)

declare parse_segments.simps(2) [simp del]

definition parse_query_path_checked :: "string \<Rightarrow> (path_error_kind, query_segment list) res" where
  "parse_query_path_checked path = parse_segments path [] [] False"

text \<open>
  \<open>parse_query_path\<close>: malformed input becomes one key that no document contains, since NUL is
  forbidden in YAML content.
\<close>

definition invalid_query_key :: string where
  "invalid_query_key = CHR 0x00 # ''noyalib::invalid-query-path'' @ [CHR 0x00]"

definition parse_query_path :: "string \<Rightarrow> query_segment list" where
  "parse_query_path path =
     (case parse_query_path_checked path of
        Inl _ \<Rightarrow> [Key invalid_query_key]
      | Inr segments \<Rightarrow> segments)"

section \<open>Printing query paths\<close>

definition is_plain_key :: "string \<Rightarrow> bool" where
  "is_plain_key key \<longleftrightarrow>
     key \<noteq> [] \<and> \<not> (\<exists>c \<in> set key. c = CHR ''.'' \<or> c = CHR ''['' \<or> c = CHR '']'' \<or> c = CHR ''*'')"

fun escape_key :: "string \<Rightarrow> string" where
  "escape_key [] = []"
| "escape_key (c # cs) =
     (if c = quote_char \<or> c = backslash_char then backslash_char # c # escape_key cs
      else c # escape_key cs)"

definition quote_key :: "string \<Rightarrow> string" where
  "quote_key key = CHR ''['' # quote_char # escape_key key @ [quote_char, CHR '']'']"

definition push_key :: "string \<Rightarrow> string \<Rightarrow> string" where
  "push_key path key =
     (if is_plain_key key then (if path = [] then key else path @ ''.'' @ key)
      else path @ quote_key key)"

fun join_keys_from :: "string \<Rightarrow> string list \<Rightarrow> string" where
  "join_keys_from path [] = path"
| "join_keys_from path (key # keys) = join_keys_from (push_key path key) keys"

definition join_keys :: "string list \<Rightarrow> string" where
  "join_keys keys = join_keys_from [] keys"

text \<open>
  \<open>Display for QueryPath\<close>: the loop with its two variables \<open>rendered\<close> and \<open>after_descent\<close>.
\<close>

fun render_segment :: "string \<Rightarrow> bool \<Rightarrow> query_segment \<Rightarrow> string" where
  "render_segment rendered after_descent (Key key) =
     (if is_plain_key key then
        (if rendered \<noteq> [] \<and> \<not> after_descent then rendered @ ''.'' else rendered) @ key
      else rendered @ quote_key key)"
| "render_segment rendered after_descent (Index i) = rendered @ ''['' @ show_nat i @ '']''"
| "render_segment rendered after_descent Wildcard = rendered @ ''[*]''"
| "render_segment rendered after_descent RecursiveDescent = rendered @ ''..''"

fun render_segments :: "string \<Rightarrow> bool \<Rightarrow> query_segment list \<Rightarrow> string" where
  "render_segments rendered after_descent [] = rendered"
| "render_segments rendered after_descent (s # ss) =
     render_segments (render_segment rendered after_descent s) (s = RecursiveDescent) ss"

definition query_path_display :: "query_segment list \<Rightarrow> string" where
  "query_path_display segments = render_segments [] False segments"

section \<open>Lemmas on the parser\<close>

lemma parse_plain_chars:
  assumes "\<not> (\<exists>c \<in> set key. c = CHR ''.'' \<or> c = CHR ''['' \<or> c = CHR '']'' \<or> c = CHR ''*'')"
    and "key \<noteq> []"
  shows "parse_segments (key @ rest) cur segs sep = parse_segments rest (cur @ key) segs False"
  using assms
proof (induction key arbitrary: cur sep)
  case Nil
  then show ?case by simp
next
  case (Cons c key)
  then have "parse_segments ((c # key) @ rest) cur segs sep
      = parse_segments (key @ rest) (cur @ [c]) segs False"
    by (simp add: parse_segments.simps(2))
  with Cons show ?case by (cases "key = []") auto
qed

lemma read_quoted_escape:
  "read_quoted_key (escape_key key @ quote_char # rest) quote_char acc = Inr (acc @ key, rest)"
  by (induction key arbitrary: acc) (auto simp: quote_char_def backslash_char_def)

lemma parse_quoted_key:
  "parse_segments (quote_key key @ rest) cur segs False
     = parse_segments rest [] (flush segs cur @ [Key key]) False"
  by (simp add: quote_key_def parse_segments.simps(2) read_quoted_escape)

lemma read_bracket_text:
  "CHR '']'' \<notin> set s \<Longrightarrow> read_bracket (s @ CHR '']'' # rest) acc = Some (acc @ s, rest)"
  by (induction s arbitrary: acc) auto

lemma digit_chars_plain:
  assumes "is_ascii_digit c"
  shows "c \<noteq> CHR '']''" "c \<noteq> quote_char" "c \<noteq> apostrophe_char" "c \<noteq> CHR ''*''"
  using assms by (auto simp: is_ascii_digit_def byte_def quote_char_def apostrophe_char_def)

lemma parse_index:
  assumes "i \<le> usize_max"
  shows "parse_segments (CHR ''['' # show_nat i @ CHR '']'' # rest) cur segs False
     = parse_segments rest [] (flush segs cur @ [Index i]) False"
proof -
  obtain c cs where s: "show_nat i = c # cs" by (meson neq_Nil_conv show_nat_nonempty)
  have dig: "\<forall>d \<in> set (show_nat i). is_ascii_digit d" by (rule show_nat_digits)
  then have c: "c \<noteq> quote_char" "c \<noteq> apostrophe_char" using s digit_chars_plain by auto
  have "CHR '']'' \<notin> set (show_nat i)" using dig digit_chars_plain(1) by blast
  then have rb: "read_bracket (show_nat i @ CHR '']'' # rest) [] = Some (show_nat i, rest)"
    by (simp add: read_bracket_text)
  have "show_nat i \<noteq> ''*''" using dig digit_chars_plain(4) by (cases "show_nat i") auto
  then have "bracket_segment (show_nat i) = Inr (Index i)"
    using dig assms by (simp add: bracket_segment_def parse_usize_show_nat)
  with rb c s show ?thesis by (simp add: parse_segments.simps(2))
qed

lemma parse_wildcard:
  "parse_segments (CHR ''['' # CHR ''*'' # CHR '']'' # rest) cur segs False
     = parse_segments rest [] (flush segs cur @ [Wildcard]) False"
  by (simp add: parse_segments.simps(2) bracket_segment_def quote_char_def apostrophe_char_def)

lemma parse_descent:
  "parse_segments (CHR ''.'' # CHR ''.'' # rest) cur segs False
     = parse_segments rest [] (flush segs cur @ [RecursiveDescent]) False"
  by (simp add: parse_segments.simps(2))

lemma parse_separator:
  assumes "chars \<noteq> [] \<longrightarrow> hd chars \<noteq> CHR ''.''" and "flush segs cur \<noteq> []"
  shows "parse_segments (CHR ''.'' # chars) cur segs False
     = parse_segments chars [] (flush segs cur) True"
  using assms by (auto simp: parse_segments.simps(2) flush_def)

section \<open>Round trip\<close>

fun segment_in_range :: "query_segment \<Rightarrow> bool" where
  "segment_in_range (Index i) = (i \<le> usize_max)"
| "segment_in_range _ = True"

text \<open>
  The printer only appends: \<open>segment_text\<close> is what one step adds, given whether the text is
  still empty and whether the last segment was a descent.
\<close>

fun segment_text :: "bool \<Rightarrow> bool \<Rightarrow> query_segment \<Rightarrow> string" where
  "segment_text fresh after_descent (Key key) =
     (if is_plain_key key then (if fresh \<or> after_descent then key else CHR ''.'' # key)
      else quote_key key)"
| "segment_text fresh after_descent (Index i) = CHR ''['' # show_nat i @ [CHR '']'']"
| "segment_text fresh after_descent Wildcard = ''[*]''"
| "segment_text fresh after_descent RecursiveDescent = ''..''"

fun segments_text :: "bool \<Rightarrow> bool \<Rightarrow> query_segment list \<Rightarrow> string" where
  "segments_text fresh after_descent [] = []"
| "segments_text fresh after_descent (s # ss) =
     segment_text fresh after_descent s @ segments_text False (s = RecursiveDescent) ss"

lemma render_segment_text: "render_segment r a s = r @ segment_text (r = []) a s"
  by (cases s) auto

lemma segment_text_nonempty: "segment_text e a s \<noteq> []"
  by (cases s) (auto simp: quote_key_def is_plain_key_def)

lemma render_segments_text: "render_segments r a ss = r @ segments_text (r = []) a ss"
proof (induction ss arbitrary: r a)
  case Nil
  then show ?case by simp
next
  case (Cons s ss)
  then show ?case by (simp add: render_segment_text segment_text_nonempty)
qed

lemma plain_key_head:
  "is_plain_key key \<Longrightarrow> \<exists>c cs. key = c # cs \<and> c \<noteq> CHR ''.''"
  by (cases key) (auto simp: is_plain_key_def)

text \<open>
  Parsing printed segments: the segments read so far are \<open>flush segs cur\<close>, since a plain key
  stays in \<open>current\<close> until the next separator.
\<close>

lemma parse_plain_key_text:
  assumes key: "is_plain_key key" and first: "e \<longrightarrow> flush segs cur = []"
    and more: "\<not> e \<longrightarrow> flush segs cur \<noteq> []" and desc: "a \<longrightarrow> cur = []"
  shows "parse_segments (segment_text e a (Key key) @ rest) cur segs False
     = parse_segments rest key (flush segs cur) False"
proof -
  have plain: "\<not> (\<exists>c \<in> set key. c = CHR ''.'' \<or> c = CHR ''['' \<or> c = CHR '']'' \<or> c = CHR ''*'')"
    and ne: "key \<noteq> []" using key by (auto simp: is_plain_key_def)
  show ?thesis
  proof (cases "e \<or> a")
    case True
    then have "cur = []" using first desc by (auto simp: flush_def split: if_splits)
    then show ?thesis
      using True key by (simp add: parse_plain_chars[OF plain ne] flush_def)
  next
    case False
    obtain c cs where "key = c # cs" "c \<noteq> CHR ''.''" using plain_key_head[OF key] by blast
    then show ?thesis
      using False key more parse_separator[of "key @ rest" segs cur]
        parse_plain_chars[OF plain ne, of rest "[]" "flush segs cur" True]
      by simp
  qed
qed

lemma parse_segments_text:
  assumes "\<forall>s \<in> set ss. segment_in_range s"
    and "e \<longleftrightarrow> flush segs cur = []" and "a \<longrightarrow> cur = []"
  shows "parse_segments (segments_text e a ss) cur segs False = Inr (flush segs cur @ ss)"
  using assms
proof (induction ss arbitrary: e a cur segs)
  case Nil
  then show ?case by simp
next
  case (Cons s ss)
  let ?rest = "segments_text False (s = RecursiveDescent) ss"
  have fin: "parse_segments ?rest [] (flush segs cur @ [s]) False = Inr (flush segs cur @ s # ss)"
    using Cons.IH[of False "flush segs cur @ [s]" "[]" "s = RecursiveDescent"] Cons.prems
    by (simp add: flush_def)
  show ?case
  proof (cases s)
    case (Key key)
    show ?thesis
    proof (cases "is_plain_key key")
      case True
      have step: "parse_segments (segment_text e a (Key key) @ ?rest) cur segs False
          = parse_segments ?rest key (flush segs cur) False"
        using parse_plain_key_text[OF True] Cons.prems by blast
      have "flush (flush segs cur) key = flush segs cur @ [Key key]"
        using True by (simp add: is_plain_key_def flush_def)
      then show ?thesis
        using Cons.IH[of False "flush segs cur" key False] Cons.prems step Key by simp
    next
      case False
      then show ?thesis using Key fin by (simp add: parse_quoted_key)
    qed
  next
    case (Index i)
    then show ?thesis using fin parse_index Cons.prems by simp
  next
    case Wildcard
    then show ?thesis using fin by (simp add: parse_wildcard)
  next
    case RecursiveDescent
    then show ?thesis using fin by (simp add: parse_descent)
  qed
qed

text \<open>The parser only produces indices that fit \<open>usize\<close>.\<close>

lemma bracket_segment_in_range: "bracket_segment s = Inr seg \<Longrightarrow> segment_in_range seg"
  by (auto simp: bracket_segment_def dest: parse_usize_bound split: if_splits option.splits)

lemma flush_in_range:
  "\<forall>s \<in> set segs. segment_in_range s \<Longrightarrow> \<forall>s \<in> set (flush segs cur). segment_in_range s"
  by (auto simp: flush_def)

text \<open>
  One turn of the loop either fails or goes on with fewer characters, having appended at most
  the pending key and one segment in range.
\<close>

definition loop_goes_on :: "string \<Rightarrow> string \<Rightarrow> query_segment list \<Rightarrow> query_segment list \<Rightarrow> bool" where
  "loop_goes_on chars cur segs out \<longleftrightarrow>
     (\<exists>chars' cur' segs' sep'. length chars' \<le> length chars
        \<and> parse_segments chars' cur' segs' sep' = Inr out
        \<and> (segs' = segs \<or> segs' = flush segs cur
           \<or> (\<exists>s. segment_in_range s \<and> segs' = flush segs cur @ [s])))"

lemma loop_goes_onI:
  "\<lbrakk>parse_segments chars' cur' segs' sep' = Inr out; length chars' \<le> length chars;
    segs' = segs \<or> segs' = flush segs cur \<or> (\<exists>s. segment_in_range s \<and> segs' = flush segs cur @ [s])\<rbrakk>
   \<Longrightarrow> loop_goes_on chars cur segs out"
  unfolding loop_goes_on_def by blast

lemma parse_segments_goes_on:
  assumes "parse_segments (c # chars) cur segs sep = Inr out"
  shows "loop_goes_on chars cur segs out"
proof -
  note eq = assms[unfolded parse_segments.simps(2)]
  consider (dot) "c = CHR ''.''" | (open_bracket) "c = CHR ''[''"
    | (other) "c \<noteq> CHR ''.''" "c \<noteq> CHR ''[''" by blast
  then show ?thesis
  proof cases
    case dot
    then show ?thesis using eq by (auto split: if_splits intro: loop_goes_onI)
  next
    case open_bracket
    show ?thesis
    proof (cases "chars \<noteq> [] \<and> (hd chars = quote_char \<or> hd chars = apostrophe_char)")
      case True
      with eq open_bracket obtain key rest where
        q: "read_quoted_key (tl chars) (hd chars) [] = Inr (key, CHR '']'' # rest)"
        and p: "parse_segments rest [] (flush segs cur @ [Key key]) False = Inr out"
        by (auto split: if_splits sum.splits list.splits prod.splits)
      from q have "length rest \<le> length chars" by (auto dest!: read_quoted_key_shorter)
      with p show ?thesis by (auto intro: loop_goes_onI)
    next
      case False
      with eq open_bracket obtain index_str rest seg where
        q: "read_bracket chars [] = Some (index_str, rest)" "bracket_segment index_str = Inr seg"
        and p: "parse_segments rest [] (flush segs cur @ [seg]) False = Inr out"
        by (auto split: if_splits sum.splits option.splits prod.splits)
      from q have "length rest \<le> length chars" "segment_in_range seg"
        by (auto dest!: read_bracket_shorter dest: bracket_segment_in_range)
      with p show ?thesis by (auto intro: loop_goes_onI)
    qed
  next
    case other
    then show ?thesis using eq by (auto split: if_splits intro: loop_goes_onI)
  qed
qed

lemma parse_segments_in_range:
  assumes "parse_segments cs cur segs sep = Inr out" and "\<forall>s \<in> set segs. segment_in_range s"
  shows "\<forall>s \<in> set out. segment_in_range s"
  using assms
proof (induction cs arbitrary: cur segs sep rule: length_induct)
  case (1 cs)
  show ?case
  proof (cases cs)
    case Nil
    then show ?thesis using "1.prems" flush_in_range by (auto split: if_splits)
  next
    case (Cons c chars)
    with "1.prems"(1) have "loop_goes_on chars cur segs out"
      by (simp add: parse_segments_goes_on)
    then obtain chars' cur' segs' sep' where
      step: "length chars' \<le> length chars" "parse_segments chars' cur' segs' sep' = Inr out"
      and segs': "segs' = segs \<or> segs' = flush segs cur
           \<or> (\<exists>s. segment_in_range s \<and> segs' = flush segs cur @ [s])"
      unfolding loop_goes_on_def by blast
    from segs' have "\<forall>s \<in> set segs'. segment_in_range s"
      using flush_in_range[OF "1.prems"(2)] "1.prems"(2) by auto
    with "1.IH" step Cons show ?thesis by (metis length_Cons less_Suc_eq_le)
  qed
qed

text \<open>
  C1.  \<open>Display for QueryPath\<close> followed by \<open>QueryPath::parse\<close> is the identity on every segment
  list whose indices fit \<open>usize\<close>: keys with dots, brackets, stars, quotes, backslashes or no
  characters at all come back unchanged.
\<close>

theorem query_path_display_parses_back:
  assumes "\<forall>s \<in> set segments. segment_in_range s"
  shows "parse_query_path_checked (query_path_display segments) = Inr segments"
  using parse_segments_text[of segments True "[]" "[]" False] assms
  by (simp add: parse_query_path_checked_def query_path_display_def render_segments_text flush_def)

theorem query_path_display_parses_back_witness:
  "parse_query_path_checked
     (query_path_display [Key ''a.b'', Index 3, RecursiveDescent, Key ''x'', Key [], Wildcard])
   = Inr [Key ''a.b'', Index 3, RecursiveDescent, Key ''x'', Key [], Wildcard]"
  by (rule query_path_display_parses_back) (simp add: usize_max_def)

text \<open>
  What \<open>QueryPath::parse\<close> accepts has a canonical spelling: printing the result and
  parsing again gives the same segments, for every input string the parser accepts.
\<close>

theorem query_path_canonical:
  assumes "parse_query_path_checked path = Inr segments"
  shows "parse_query_path_checked (query_path_display segments) = Inr segments"
proof -
  have "\<forall>s \<in> set segments. segment_in_range s"
    using assms parse_segments_in_range[of path "[]" "[]" False]
    by (simp add: parse_query_path_checked_def)
  then show ?thesis
    using parse_segments_text[of segments True "[]" "[]" False]
    by (simp add: parse_query_path_checked_def query_path_display_def render_segments_text flush_def)
qed

lemma parse_example: "parse_query_path_checked ''a*'' = Inr [Key ''a'', Wildcard]"
  by (simp add: parse_query_path_checked_def parse_segments.simps flush_def)

theorem query_path_canonical_witness:
  "parse_query_path_checked ''a*'' = Inr [Key ''a'', Wildcard]
   \<and> parse_query_path_checked (query_path_display [Key ''a'', Wildcard]) = Inr [Key ''a'', Wildcard]"
  using parse_example query_path_canonical[OF parse_example] by blast

section \<open>Joined keys and location paths are query paths\<close>

lemma push_key_render: "push_key r key = render_segment r False (Key key)"
  by (auto simp: push_key_def)

lemma join_keys_render: "join_keys_from r keys = render_segments r False (map Key keys)"
  by (induction keys arbitrary: r) (auto simp: push_key_render)

lemma join_keys_checked: "parse_query_path_checked (join_keys keys) = Inr (map Key keys)"
  using parse_segments_text[of "map Key keys" True "[]" "[]" False]
  by (simp add: parse_query_path_checked_def join_keys_def join_keys_render render_segments_text
      flush_def)

text \<open>
   \<open>join_keys\<close> quotes exactly what the grammar would misread: the path it builds parses to
  one key segment per given key, with the key's own text, and is the text that the displayed query
  path of those keys has.
\<close>

theorem join_keys_parses_to_keys:
  "parse_query_path (join_keys keys) = map Key keys
   \<and> query_path_display (map Key keys) = join_keys keys"
  using join_keys_checked[of keys]
  by (simp add: parse_query_path_def query_path_display_def join_keys_def join_keys_render)

text \<open>
  A location path of mapping and sequence steps only, whose keys need no quoting, is the query
  path of its segments.
\<close>

fun location_segments :: "path \<Rightarrow> query_segment list" where
  "location_segments Root = []"
| "location_segments (SeqPath p i) = location_segments p @ [Index i]"
| "location_segments (MapPath p k) = location_segments p @ [Key k]"
| "location_segments (AliasPath p) = location_segments p"
| "location_segments (UnknownPath p) = location_segments p"

fun plain_location :: "path \<Rightarrow> bool" where
  "plain_location Root = True"
| "plain_location (SeqPath p i) = (i \<le> usize_max \<and> plain_location p)"
| "plain_location (MapPath p k) = (is_plain_key k \<and> plain_location p)"
| "plain_location (AliasPath p) = False"
| "plain_location (UnknownPath p) = False"

lemma render_segments_snoc:
  "RecursiveDescent \<notin> set ss \<Longrightarrow>
     render_segments r False (ss @ [s]) = render_segment (render_segments r False ss) False s"
  by (induction ss arbitrary: r) auto

lemma location_segments_no_descent: "RecursiveDescent \<notin> set (location_segments p)"
  by (induction p) auto

lemma plain_location_nonempty:
  "plain_location p \<Longrightarrow> p \<noteq> Root \<Longrightarrow> query_path_display (location_segments p) \<noteq> []"
  by (cases p) (auto simp: query_path_display_def render_segments_snoc location_segments_no_descent
      is_plain_key_def)

lemma plain_location_display:
  assumes "plain_location p" and "p \<noteq> Root"
  shows "path_display p = query_path_display (location_segments p)"
  using assms
proof (induction p)
  case (SeqPath p i)
  then show ?case
    by (cases "p = Root")
       (auto simp: query_path_display_def render_segments_snoc location_segments_no_descent)
next
  case (MapPath p k)
  then show ?case
    using plain_location_nonempty[of p]
    by (cases "p = Root")
       (auto simp: query_path_display_def render_segments_snoc location_segments_no_descent)
qed auto

lemma plain_location_in_range:
  "plain_location p \<Longrightarrow> \<forall>s \<in> set (location_segments p). segment_in_range s"
  by (induction p) auto

text \<open>
   The path printed in an error message can be pasted into \<open>get_path\<close>: a location built of
  plain keys and indices prints to a query path that parses to exactly those steps.
\<close>

theorem location_display_is_query_path:
  assumes "plain_location p" and "p \<noteq> Root"
  shows "parse_query_path_checked (path_display p) = Inr (location_segments p)"
  using plain_location_display[OF assms] plain_location_in_range[OF assms(1)]
    parse_segments_text[of "location_segments p" True "[]" "[]" False]
  by (simp add: parse_query_path_checked_def query_path_display_def render_segments_text flush_def)

theorem location_display_is_query_path_witness:
  "parse_query_path_checked (path_display (MapPath (SeqPath (MapPath Root ''items'') 0) ''name''))
     = Inr [Key ''items'', Index 0, Key ''name'']"
proof -
  have "plain_location (MapPath (SeqPath (MapPath Root ''items'') 0) ''name'')"
    by (simp add: is_plain_key_def usize_max_def)
  from location_display_is_query_path[OF this] show ?thesis by simp
qed

section \<open>Malformed paths\<close>

lemma parse_query_path_malformed:
  "parse_query_path_checked path = Inl e \<Longrightarrow> parse_query_path path = [Key invalid_query_key]"
  by (simp add: parse_query_path_def)

lemma parse_query_path_well_formed:
  "parse_query_path_checked path = Inr ss \<Longrightarrow> parse_query_path path = ss"
  by (simp add: parse_query_path_def)

end
