(* ===== verification/F64.thy ===== *)
theory F64
  imports Prelude
begin

text \<open>
  The part of IEEE 754 double precision that the program uses of Rust's \<open>f64\<close>.  A value is its
  64 bits (\<open>f64::to_bits\<close>).  Every finite double is an integral multiple of \<open>2^-1074\<close>, so the
  comparisons read the bits as an integer in that unit (\<open>f64_scaled\<close>); an infinity reads as an
  integer beyond every finite one.  Operations that round (the \<open>i64 as f64\<close> cast, the product,
  the fused multiply-add, decimal parsing) compute the exact ratio and round once to the nearest
  double, ties to even (\<open>f64_round\<close>).
\<close>

type_synonym f64 = "64 word"

definition f64_negative :: "f64 \<Rightarrow> bool" where
  "f64_negative x \<longleftrightarrow> 2 ^ 63 \<le> unat x"

definition f64_exponent :: "f64 \<Rightarrow> nat" where
  "f64_exponent x = (unat x div 2 ^ 52) mod 2048"

definition f64_fraction :: "f64 \<Rightarrow> nat" where
  "f64_fraction x = unat x mod 2 ^ 52"

definition f64_is_nan :: "f64 \<Rightarrow> bool" where
  "f64_is_nan x \<longleftrightarrow> f64_exponent x = 2047 \<and> f64_fraction x \<noteq> 0"

definition f64_is_infinite :: "f64 \<Rightarrow> bool" where
  "f64_is_infinite x \<longleftrightarrow> f64_exponent x = 2047 \<and> f64_fraction x = 0"

definition f64_is_finite :: "f64 \<Rightarrow> bool" where
  "f64_is_finite x \<longleftrightarrow> f64_exponent x \<noteq> 2047"

definition f64_magnitude :: "f64 \<Rightarrow> nat" where
  "f64_magnitude x =
     (if f64_exponent x = 0 then f64_fraction x
      else (2 ^ 52 + f64_fraction x) * 2 ^ (f64_exponent x - 1))"

definition f64_scaled :: "f64 \<Rightarrow> int" where
  "f64_scaled x = (if f64_negative x then - int (f64_magnitude x) else int (f64_magnitude x))"

definition f64_nan :: f64 where "f64_nan = 0x7FF8000000000000"
definition f64_infinity :: f64 where "f64_infinity = 0x7FF0000000000000"
definition f64_neg_infinity :: f64 where "f64_neg_infinity = 0xFFF0000000000000"

text \<open>\<open>==\<close>, \<open><\<close>, \<open>>\<close> and \<open>>=\<close> of \<open>f64\<close>: all false when an operand is NaN.\<close>

definition f64_eq :: "f64 \<Rightarrow> f64 \<Rightarrow> bool" where
  "f64_eq a b \<longleftrightarrow> \<not> f64_is_nan a \<and> \<not> f64_is_nan b \<and> f64_scaled a = f64_scaled b"

definition f64_lt :: "f64 \<Rightarrow> f64 \<Rightarrow> bool" where
  "f64_lt a b \<longleftrightarrow> \<not> f64_is_nan a \<and> \<not> f64_is_nan b \<and> f64_scaled a < f64_scaled b"

datatype ordering = Less | Equal | Greater

fun ordering_reverse :: "ordering \<Rightarrow> ordering" where
  "ordering_reverse Less = Greater"
| "ordering_reverse Equal = Equal"
| "ordering_reverse Greater = Less"

text \<open>\<open>Ord::cmp\<close> of a built-in ordered type.\<close>

definition cmp :: "'a::linorder \<Rightarrow> 'a \<Rightarrow> ordering" where
  "cmp a b = (if a < b then Less else if a = b then Equal else Greater)"

definition ordering_then :: "ordering \<Rightarrow> ordering \<Rightarrow> ordering" where
  "ordering_then a b = (if a = Equal then b else a)"

definition f64_partial_cmp :: "f64 \<Rightarrow> f64 \<Rightarrow> ordering option" where
  "f64_partial_cmp a b =
     (if f64_is_nan a \<or> f64_is_nan b then None else Some (cmp (f64_scaled a) (f64_scaled b)))"

section \<open>Rounding\<close>

fun bit_length :: "nat \<Rightarrow> nat" where
  "bit_length n = (if n = 0 then 0 else Suc (bit_length (n div 2)))"

declare bit_length.simps [simp del]

lemma bit_length_eval: "bit_length 0 = 0" "0 < n \<Longrightarrow> bit_length n = Suc (bit_length (n div 2))"
  by (simp_all add: bit_length.simps)

text \<open>
  The double nearest to \<open>num / den * 2^-1074\<close>.  With \<open>e\<close> the excess of the integer part over
  53 bits and \<open>q\<close> the rounded quotient by \<open>den * 2^e\<close>, the bit pattern is \<open>e * 2^52 + q\<close>: the
  implicit bit of \<open>q\<close> carries into the exponent field, and a \<open>q\<close> rounded up to \<open>2^53\<close> carries once
  more.
\<close>

definition f64_round :: "bool \<Rightarrow> nat \<Rightarrow> nat \<Rightarrow> f64" where
  "f64_round neg num den =
     (let e = bit_length (num div den) - 53;
          d = den * 2 ^ e;
          q = num div d;
          r = num mod d;
          q' = (if 2 * r > d \<or> (2 * r = d \<and> odd q) then Suc q else q);
          bits = e * 2 ^ 52 + q'
      in word_of_nat ((if neg then 2 ^ 63 else 0) + min bits (2047 * 2 ^ 52)))"

text \<open>
  \<open>i as f64\<close>: the integer is scaled to 53 bits, rounding ties to even when it has more.  Only
  magnitudes below \<open>2^64\<close> occur, so no overflow case is needed.
\<close>

definition f64_of_int :: "int \<Rightarrow> f64" where
  "f64_of_int i =
     (let n = nat \<bar>i\<bar>; l = bit_length n;
          d = 2 ^ (l - 53); q = n div d; r = n mod d;
          m = (if l \<le> 53 then n * 2 ^ (53 - l)
               else if 2 * r > d \<or> (2 * r = d \<and> odd q) then Suc q else q)
      in if n = 0 then 0
         else word_of_nat ((if i < 0 then 2 ^ 63 else 0) + (l + 1021) * 2 ^ 52 + m))"

text \<open>\<open>x as i64\<close>: truncation toward zero, saturating, NaN to zero.\<close>

definition i64_min :: int where "i64_min = - (2 ^ 63)"
definition i64_max :: int where "i64_max = 2 ^ 63 - 1"

definition f64_to_i64 :: "f64 \<Rightarrow> int" where
  "f64_to_i64 x =
     (if f64_is_nan x then 0
      else let t = int (f64_magnitude x div 2 ^ 1074)
           in max i64_min (min i64_max (if f64_negative x then - t else t)))"

definition f64_mul :: "f64 \<Rightarrow> f64 \<Rightarrow> f64" where
  "f64_mul a b =
     (let neg = (f64_negative a \<noteq> f64_negative b)
      in if f64_is_nan a \<or> f64_is_nan b then f64_nan
         else if f64_is_infinite a \<or> f64_is_infinite b then
           (if f64_magnitude a = 0 \<or> f64_magnitude b = 0 then f64_nan
            else if neg then f64_neg_infinity else f64_infinity)
         else f64_round neg (f64_magnitude a * f64_magnitude b) (2 ^ 1074))"

text \<open>\<open>f64::mul_add\<close>: one rounding of \<open>a * b + c\<close>; an exact zero result is \<open>+0\<close> unless both summands
  are negative zeros.\<close>

definition f64_mul_add :: "f64 \<Rightarrow> f64 \<Rightarrow> f64 \<Rightarrow> f64" where
  "f64_mul_add a b c =
     (if f64_is_nan a \<or> f64_is_nan b \<or> f64_is_nan c then f64_nan
      else if f64_is_infinite a \<or> f64_is_infinite b then
        (let p = f64_mul a b
         in if f64_is_nan p \<or> (f64_is_infinite c \<and> f64_negative c \<noteq> f64_negative p) then f64_nan else p)
      else if f64_is_infinite c then c
      else let v = f64_scaled a * f64_scaled b + f64_scaled c * 2 ^ 1074;
               neg = (if v = 0 then f64_negative a \<noteq> f64_negative b \<and> f64_negative c else v < 0)
           in f64_round neg (nat \<bar>v\<bar>) (2 ^ 1074))"

definition f64_neg :: "f64 \<Rightarrow> f64" where
  "f64_neg x = word_of_nat (if f64_negative x then unat x - 2 ^ 63 else unat x + 2 ^ 63)"

section \<open>Decimal parsing: \<open>str::parse::<f64>\<close>\<close>

definition to_lower :: "char \<Rightarrow> char" where
  "to_lower c = (if is_ascii_upper c then char_of (byte c + 32) else c)"

definition eq_ignore_ascii_case :: "string \<Rightarrow> string \<Rightarrow> bool" where
  "eq_ignore_ascii_case s t \<longleftrightarrow> map to_lower s = map to_lower t"

definition strip_sign :: "string \<Rightarrow> bool \<times> string" where
  "strip_sign s =
     (case s of
        [] \<Rightarrow> (False, [])
      | c # cs \<Rightarrow> if c = CHR ''-'' then (True, cs) else if c = CHR ''+'' then (False, cs) else (False, s))"

text \<open>
  \<open>Digit+ | Digit+ . Digit* | Digit* . Digit+\<close>, then an optional exponent: the digits of the
  mantissa with the number of them after the point, and the exponent.
\<close>

definition parse_exponent :: "string \<Rightarrow> int option" where
  "parse_exponent s =
     (case s of
        [] \<Rightarrow> Some 0
      | c # cs \<Rightarrow>
          if c \<noteq> CHR ''e'' \<and> c \<noteq> CHR ''E'' then None
          else (case strip_sign cs of (neg, ds) \<Rightarrow>
            if all_digits ds then Some (if neg then - int (digits_value ds) else int (digits_value ds))
            else None))"

definition parse_decimal :: "string \<Rightarrow> (nat \<times> int) option" where
  "parse_decimal s =
     (let whole = takeWhile is_ascii_digit s;
          rest = dropWhile is_ascii_digit s;
          has_point = (rest \<noteq> [] \<and> hd rest = CHR ''.'');
          frac = (if has_point then takeWhile is_ascii_digit (tl rest) else []);
          tail = (if has_point then dropWhile is_ascii_digit (tl rest) else rest)
      in if whole = [] \<and> frac = [] then None
         else map_option (\<lambda>e. (digits_value (whole @ frac), e - int (length frac)))
                (parse_exponent tail))"

definition f64_of_decimal :: "bool \<Rightarrow> nat \<Rightarrow> int \<Rightarrow> f64" where
  "f64_of_decimal neg m e =
     (if 0 \<le> e then f64_round neg (m * 10 ^ nat e * 2 ^ 1074) 1
      else f64_round neg (m * 2 ^ 1074) (10 ^ nat (- e)))"

definition f64_parse :: "string \<Rightarrow> f64 option" where
  "f64_parse s =
     (case strip_sign s of (neg, t) \<Rightarrow>
        if eq_ignore_ascii_case t ''inf'' \<or> eq_ignore_ascii_case t ''infinity'' then
          Some (if neg then f64_neg_infinity else f64_infinity)
        else if eq_ignore_ascii_case t ''nan'' then Some (if neg then f64_neg f64_nan else f64_nan)
        else map_option (\<lambda>(m, e). f64_of_decimal neg m e) (parse_decimal t))"

section \<open>Facts\<close>

lemma f64_specials:
  "f64_is_nan f64_nan" "\<not> f64_is_nan f64_infinity" "\<not> f64_is_nan f64_neg_infinity"
  "f64_is_infinite f64_infinity" "f64_is_infinite f64_neg_infinity" "\<not> f64_is_infinite f64_nan"
  by (simp_all add: f64_is_nan_def f64_is_infinite_def f64_exponent_def f64_fraction_def
      f64_nan_def f64_infinity_def f64_neg_infinity_def)

lemma f64_eq_refl: "\<not> f64_is_nan a \<Longrightarrow> f64_eq a a"
  by (simp add: f64_eq_def)

lemma cmp_simps [simp]: "cmp a b = Equal \<longleftrightarrow> a = b" "cmp a b = Less \<longleftrightarrow> a < b"
  "cmp a b = Greater \<longleftrightarrow> b < a"
  by (auto simp: cmp_def)

lemma cmp_reverse: "cmp a b = ordering_reverse (cmp b a)"
  by (auto simp: cmp_def)

lemma cmp_refl [simp]: "cmp a a = Equal"
  by (simp add: cmp_def)

lemma ordering_reverse_reverse [simp]: "ordering_reverse (ordering_reverse x) = x"
  by (cases x) auto

section \<open>Equal values have equal bits, zeros apart\<close>

definition mag :: "nat \<Rightarrow> nat \<Rightarrow> nat" where
  "mag e f = (if e = 0 then f else (2 ^ 52 + f) * 2 ^ (e - 1))"

lemma mag_less:
  assumes "e < e'" and "f < 2 ^ 52"
  shows "mag e f < mag e' f'"
proof (cases "e = 0")
  case True
  have "2 ^ 52 * 1 \<le> (2 ^ 52 + f') * 2 ^ (e' - 1)" by (rule mult_le_mono) simp_all
  with assms(2) have "f < (2 ^ 52 + f') * 2 ^ (e' - 1)" by simp
  with True assms(1) show ?thesis by (simp add: mag_def)
next
  case False
  have "(2 ^ 52 + f) * 2 ^ (e - 1) < 2 ^ 53 * 2 ^ (e - 1)"
    using assms(2) by (intro mult_strict_right_mono) auto
  also have "\<dots> = 2 ^ 52 * 2 ^ e"
    using False by (cases e) auto
  also have "\<dots> \<le> (2 ^ 52 + f') * 2 ^ (e' - 1)"
    using assms(1) by (intro mult_le_mono power_increasing) auto
  finally show ?thesis using False assms(1) by (simp add: mag_def)
qed

lemma mag_inj:
  assumes "mag e f = mag e' f'" and "f < 2 ^ 52" and "f' < 2 ^ 52"
  shows "e = e' \<and> f = f'"
proof -
  have "e = e'"
    using mag_less[of e e' f f'] mag_less[of e' e f' f] assms by (cases e e' rule: linorder_cases) auto
  with assms(1) show ?thesis by (auto simp: mag_def split: if_splits)
qed

lemma f64_magnitude_mag: "f64_magnitude x = mag (f64_exponent x) (f64_fraction x)"
  by (simp add: f64_magnitude_def mag_def)

lemma f64_fraction_bound: "f64_fraction x < 2 ^ 52"
  unfolding f64_fraction_def by (rule mod_less_divisor) simp

lemma f64_fields:
  "unat x = (if f64_negative x then 2 ^ 63 else 0) + f64_exponent x * 2 ^ 52 + f64_fraction x"
proof -
  have b: "unat x < 2 ^ 64" using unsigned_less[of x] by simp
  let ?h = "unat x div 2 ^ 52"
  have h: "?h < 4096" using b by (simp add: less_mult_imp_div_less)
  have split: "unat x = ?h * 2 ^ 52 + unat x mod 2 ^ 52" by (simp add: div_mult_mod_eq)
  have neg: "f64_negative x \<longleftrightarrow> 2048 \<le> ?h"
  proof -
    have "(2048 \<le> ?h) = (2048 * 2 ^ 52 \<le> unat x)"
      using less_eq_div_iff_mult_less_eq[of "2 ^ 52" 2048 "unat x"] by simp
    then show ?thesis by (simp add: f64_negative_def)
  qed
  have "?h = (if f64_negative x then 2048 else 0) + ?h mod 2048"
    using h neg by (auto simp: mod_if)
  then have "?h * 2 ^ 52 = (if f64_negative x then 2 ^ 63 else 0) + (?h mod 2048) * 2 ^ 52"
    by (cases "f64_negative x") simp_all
  then show ?thesis
    using split unfolding f64_exponent_def f64_fraction_def by linarith
qed

lemma f64_scaled_inj:
  assumes "f64_scaled a = f64_scaled b"
  shows "a = b \<or> (f64_scaled a = 0 \<and> f64_scaled b = 0)"
proof (cases "f64_magnitude a = 0")
  case True
  then show ?thesis using assms by (auto simp: f64_scaled_def split: if_splits)
next
  case False
  with assms have "f64_magnitude a = f64_magnitude b" "f64_negative a = f64_negative b"
    by (auto simp: f64_scaled_def split: if_splits)
  then have "f64_exponent a = f64_exponent b" "f64_fraction a = f64_fraction b"
    "f64_negative a = f64_negative b"
    using mag_inj[OF _ f64_fraction_bound f64_fraction_bound] unfolding f64_magnitude_mag by blast+
  then have "unat a = unat b" using f64_fields[of a] f64_fields[of b] by simp
  then show ?thesis by (simp add: word_unat_eq_iff)
qed

end
