(* ===== verification/Errors.thy ===== *)
theory Errors
  imports Path Text F64
begin

text \<open>
  Model of \<open>crates/noyalib/src/error.rs\<close> and of \<open>DiagnosticCode\<close> in \<open>diagnostic.rs\<close>: source
  locations, the error values with their text, classification, help and location, the move of an
  error from a slice of the input to the whole of it, the renderers that quote the source, and
  the "did you mean" search.  A \<open>char\<close> of the code starts at a byte that is not a UTF-8
  continuation byte.  The formatting of an \<open>f64\<close> is the parameter \<open>fmt\<close>; an \<open>io::Error\<close> is
  the text it displays; \<open>Arc\<close> sharing has no content of its own.
\<close>

section \<open>Characters of a UTF-8 text\<close>

definition char_count :: "string \<Rightarrow> nat" where
  "char_count s = length (filter (\<lambda>c. \<not> is_continuation c) s)"

text \<open>\<open>take_chars n s\<close>: the bytes before the start of character \<open>n\<close> (\<open>char_indices().nth(n)\<close>).\<close>

fun take_chars :: "nat \<Rightarrow> string \<Rightarrow> string" where
  "take_chars n [] = []"
| "take_chars n (c # cs) =
     (if is_continuation c then c # take_chars n cs
      else (case n of 0 \<Rightarrow> [] | Suc m \<Rightarrow> c # take_chars m cs))"

section \<open>Locations\<close>

record location =
  loc_index :: nat
  loc_line :: nat
  loc_column :: nat

definition location_new :: "nat \<Rightarrow> nat \<Rightarrow> nat \<Rightarrow> location" where
  "location_new line col index = \<lparr>loc_index = index, loc_line = line, loc_column = col\<rparr>"

definition newline :: char where "newline = CHR 0x0A"

fun location_walk :: "nat \<Rightarrow> nat \<Rightarrow> nat \<Rightarrow> nat \<Rightarrow> string \<Rightarrow> nat \<times> nat" where
  "location_walk index i line column [] = (line, column)"
| "location_walk index i line column (c # cs) =
     (if is_continuation c then location_walk index (Suc i) line column cs
      else if index \<le> i then (line, column)
      else if c = newline then location_walk index (Suc i) (Suc line) 1 cs
      else location_walk index (Suc i) line (Suc column) cs)"

definition location_from_index :: "string \<Rightarrow> nat \<Rightarrow> location" where
  "location_from_index input index =
     (case location_walk index 0 1 1 input of
        (line, column) \<Rightarrow> \<lparr>loc_index = index, loc_line = line, loc_column = column\<rparr>)"

definition location_display :: "location \<Rightarrow> string" where
  "location_display l = ''line '' @ show_nat (loc_line l) @ '', column '' @ show_nat (loc_column l)"

section \<open>Errors\<close>

datatype budget_breach =
    MaxEvents nat nat
  | MaxNodes nat nat
  | MaxTotalScalarBytes nat nat
  | MaxDocuments nat nat
  | MaxIncludeSources nat nat
  | MaxIncludeBytes nat nat
  | MaxMergeKeys nat nat
  | AliasAnchorRatio f64 nat nat
  | MaxSequenceLength nat nat
  | MaxMappingKeys nat nat

text \<open>The two numbers are \<open>limit\<close> and \<open>observed\<close>; the ratio comes with anchors and aliases.\<close>

definition breach_text :: "string \<Rightarrow> nat \<Rightarrow> nat \<Rightarrow> string" where
  "breach_text name limit observed =
     name @ '' budget exceeded: observed '' @ show_nat observed @ '' > limit '' @ show_nat limit"

fun breach_display :: "(f64 \<Rightarrow> string) \<Rightarrow> budget_breach \<Rightarrow> string" where
  "breach_display fmt (MaxEvents l n) = breach_text ''max_events'' l n"
| "breach_display fmt (MaxNodes l n) = breach_text ''max_nodes'' l n"
| "breach_display fmt (MaxTotalScalarBytes l n) = breach_text ''max_total_scalar_bytes'' l n"
| "breach_display fmt (MaxDocuments l n) = breach_text ''max_documents'' l n"
| "breach_display fmt (MaxIncludeSources l n) = breach_text ''max_include_sources'' l n"
| "breach_display fmt (MaxIncludeBytes l n) = breach_text ''max_total_include_bytes'' l n"
| "breach_display fmt (MaxMergeKeys l n) = breach_text ''max_merge_keys'' l n"
| "breach_display fmt (AliasAnchorRatio r anchors aliases) =
     ''alias_anchor_ratio heuristic tripped: '' @ show_nat aliases @ '' aliases / ''
     @ show_nat anchors @ '' anchors > '' @ fmt r"
| "breach_display fmt (MaxSequenceLength l n) =
     ''max_sequence_length budget exceeded: sequence length limit '' @ show_nat l
     @ '', observed '' @ show_nat n"
| "breach_display fmt (MaxMappingKeys l n) =
     ''max_mapping_keys budget exceeded: mapping key limit '' @ show_nat l
     @ '', observed '' @ show_nat n"

datatype error =
    Parse string
  | ParseWithLocation string location
  | Serialize string
  | Deserialize string
  | DeserializeWithLocation string location
  | Io string
  | Custom string
  | RecursionLimitExceeded nat
  | DuplicateKey string
  | DuplicateKeyAt string string location
  | KeyCollision string
  | KeyCollisionAt string string location
  | RepetitionLimitExceeded
  | IntegerOverflow "location option" "string option"
  | NonScalarKey string "location option"
  | Budget budget_breach
  | UnknownAnchor string
  | UnknownAnchorAt string location "(string \<times> location) option"
  | MissingField string
  | UnknownField string
  | ScalarInMergeElement
  | SequenceInMergeElement
  | TaggedInMerge
  | Invalid string
  | TypeMismatch string string
  | Shared error
  | EndOfStream
  | MoreThanOneDocument
  | ScalarInMerge
  | EmptyTag
  | FailedToParseNumber string
  | Message string "nat option"

type_synonym 'a result = "(error, 'a) res"

definition backtick :: char where "backtick = CHR 0x60"

definition collision_note :: string where
  "collision_note =
     '' (e.g. '' @ [backtick] @ ''1'' @ [backtick] @ '' and '' @ [backtick, quote_char] @ ''1''
     @ [quote_char, backtick] @ '', or '' @ [backtick] @ ''true'' @ [backtick] @ '' and ''
     @ [backtick, quote_char] @ ''true'' @ [quote_char, backtick] @ '')''"

fun error_display :: "(f64 \<Rightarrow> string) \<Rightarrow> error \<Rightarrow> string" where
  "error_display fmt (Parse msg) = ''YAML parse error: '' @ msg"
| "error_display fmt (ParseWithLocation msg l) =
     ''YAML parse error at '' @ location_display l @ '': '' @ msg"
| "error_display fmt (Serialize msg) = ''serialization error: '' @ msg"
| "error_display fmt (Deserialize msg) = ''deserialization error: '' @ msg"
| "error_display fmt (DeserializeWithLocation msg l) =
     ''deserialization error at '' @ location_display l @ '': '' @ msg"
| "error_display fmt (Io e) = ''I/O error: '' @ e"
| "error_display fmt (Custom msg) = msg"
| "error_display fmt (RecursionLimitExceeded depth) =
     ''recursion depth limit exceeded: '' @ show_nat depth"
| "error_display fmt (DuplicateKey name) = ''duplicate key: '' @ name"
| "error_display fmt (DuplicateKeyAt key path l) =
     path @ '': duplicate key '' @ [quote_char] @ key @ [quote_char] @ '' at '' @ location_display l"
| "error_display fmt (KeyCollision name) =
     ''distinct mapping keys collide after string conversion: '' @ name @ collision_note"
| "error_display fmt (KeyCollisionAt key path l) =
     path @ '': distinct mapping keys collide after string conversion: '' @ key @ collision_note
     @ '' at '' @ location_display l"
| "error_display fmt RepetitionLimitExceeded = ''alias expansion limit exceeded''"
| "error_display fmt (IntegerOverflow _ _) =
     ''integer does not fit in 64 bits (JSON number out of range)''"
| "error_display fmt (NonScalarKey kind _) = ''invalid type: '' @ kind @ '', expected a string key''"
| "error_display fmt (Budget breach) = breach_display fmt breach"
| "error_display fmt (UnknownAnchor name) = ''unknown anchor: '' @ name"
| "error_display fmt (UnknownAnchorAt name l suggestion) =
     ''unknown anchor: '' @ name @ '' at '' @ location_display l
     @ (case suggestion of
          None \<Rightarrow> []
        | Some (s, at) \<Rightarrow>
            if s = name
            then '' ('' @ [backtick] @ ''&'' @ name @ [backtick] @ '' is defined at '' @ location_display at
                 @ '', in an earlier document; anchors do not cross '' @ [backtick] @ ''---'' @ [backtick]
                 @ '')''
            else '' (did you mean '' @ [backtick] @ s @ [backtick] @ ''?)'')"
| "error_display fmt (MissingField name) = ''missing field: '' @ name"
| "error_display fmt (UnknownField name) = ''unknown field: '' @ name"
| "error_display fmt ScalarInMergeElement = ''scalar in merge element''"
| "error_display fmt SequenceInMergeElement = ''sequence in merge element''"
| "error_display fmt TaggedInMerge = ''tagged value in merge''"
| "error_display fmt (Invalid msg) = ''invalid YAML: '' @ msg"
| "error_display fmt (TypeMismatch expected found) =
     ''type mismatch: expected '' @ expected @ '', found '' @ found"
| "error_display fmt (Shared e) = error_display fmt e"
| "error_display fmt EndOfStream = ''unexpected end of stream''"
| "error_display fmt MoreThanOneDocument =
     ''deserializing from YAML containing more than one document is not supported''"
| "error_display fmt ScalarInMerge = ''scalar in merge''"
| "error_display fmt EmptyTag = ''empty tag''"
| "error_display fmt (FailedToParseNumber msg) = ''failed to parse number: '' @ msg"
| "error_display fmt (Message msg _) = ''serde error: '' @ msg"

fun error_location :: "error \<Rightarrow> location option" where
  "error_location (ParseWithLocation _ l) = Some l"
| "error_location (DeserializeWithLocation _ l) = Some l"
| "error_location (UnknownAnchorAt _ l _) = Some l"
| "error_location (DuplicateKeyAt _ _ l) = Some l"
| "error_location (KeyCollisionAt _ _ l) = Some l"
| "error_location (IntegerOverflow l _) = l"
| "error_location (NonScalarKey _ l) = l"
| "error_location (Shared e) = error_location e"
| "error_location _ = None"

text \<open>\<open>base + loc.index()\<close> is a plain addition: it is within \<open>source\<close>, so it does not wrap.\<close>

definition shift_location :: "string \<Rightarrow> nat \<Rightarrow> location \<Rightarrow> location" where
  "shift_location source base l = location_from_index source (base + loc_index l)"

fun shift_error :: "(location \<Rightarrow> location) \<Rightarrow> error \<Rightarrow> error" where
  "shift_error shift (ParseWithLocation msg l) = ParseWithLocation msg (shift l)"
| "shift_error shift (DeserializeWithLocation msg l) = DeserializeWithLocation msg (shift l)"
| "shift_error shift (UnknownAnchorAt name l suggestion) =
     UnknownAnchorAt name (shift l) (map_option (\<lambda>(s, at). (s, shift at)) suggestion)"
| "shift_error shift (DuplicateKeyAt key path l) = DuplicateKeyAt key path (shift l)"
| "shift_error shift (KeyCollisionAt key path l) = KeyCollisionAt key path (shift l)"
| "shift_error shift (IntegerOverflow l path) = IntegerOverflow (map_option shift l) path"
| "shift_error shift (NonScalarKey kind l) = NonScalarKey kind (map_option shift l)"
| "shift_error shift e = e"

definition relocate :: "error \<Rightarrow> string \<Rightarrow> nat \<Rightarrow> error" where
  "relocate e source base = (if base = 0 then e else shift_error (shift_location source base) e)"

section \<open>Classification\<close>

datatype error_class =
    KindSyntax | KindIo | KindBudget | KindPolicy | KindKeyCollision | KindIntegerOverflow
  | KindNonScalarKey | KindDuplicateKey | KindEndOfStream | KindData | KindOther

fun error_kind :: "error \<Rightarrow> error_class" where
  "error_kind (Parse _) = KindSyntax"
| "error_kind (ParseWithLocation _ _) = KindSyntax"
| "error_kind (Serialize _) = KindData"
| "error_kind (Deserialize _) = KindData"
| "error_kind (DeserializeWithLocation _ _) = KindData"
| "error_kind (Io _) = KindIo"
| "error_kind (Custom _) = KindOther"
| "error_kind (RecursionLimitExceeded _) = KindBudget"
| "error_kind (DuplicateKey _) = KindDuplicateKey"
| "error_kind (DuplicateKeyAt _ _ _) = KindDuplicateKey"
| "error_kind (KeyCollision _) = KindKeyCollision"
| "error_kind (KeyCollisionAt _ _ _) = KindKeyCollision"
| "error_kind RepetitionLimitExceeded = KindBudget"
| "error_kind (IntegerOverflow _ _) = KindIntegerOverflow"
| "error_kind (NonScalarKey _ _) = KindNonScalarKey"
| "error_kind (Budget _) = KindBudget"
| "error_kind (UnknownAnchor _) = KindData"
| "error_kind (UnknownAnchorAt _ _ _) = KindData"
| "error_kind (MissingField _) = KindData"
| "error_kind (UnknownField _) = KindData"
| "error_kind ScalarInMergeElement = KindPolicy"
| "error_kind SequenceInMergeElement = KindPolicy"
| "error_kind TaggedInMerge = KindPolicy"
| "error_kind ScalarInMerge = KindPolicy"
| "error_kind (Invalid _) = KindData"
| "error_kind (TypeMismatch _ _) = KindData"
| "error_kind (Shared e) = error_kind e"
| "error_kind EndOfStream = KindEndOfStream"
| "error_kind MoreThanOneDocument = KindData"
| "error_kind EmptyTag = KindSyntax"
| "error_kind (FailedToParseNumber _) = KindSyntax"
| "error_kind (Message _ _) = KindOther"

datatype diagnostic_code =
    CodeParse | CodeSerialize | CodeDeserialize | CodeTypeMismatch | CodeMissingField
  | CodeUnknownField | CodeRecursionLimit | CodeRepetitionLimit | CodeBudget | CodeUnknownAnchor
  | CodeDuplicateKey | CodeKeyCollision | CodeIntegerOverflow | CodeNonScalarKey | CodeEndOfStream
  | CodeMoreThanOneDocument | CodeIo | CodeOther

fun code_as_str :: "diagnostic_code \<Rightarrow> string" where
  "code_as_str CodeParse = ''noyalib::parse''"
| "code_as_str CodeSerialize = ''noyalib::serialize''"
| "code_as_str CodeDeserialize = ''noyalib::deserialize''"
| "code_as_str CodeTypeMismatch = ''noyalib::type_mismatch''"
| "code_as_str CodeMissingField = ''noyalib::missing_field''"
| "code_as_str CodeUnknownField = ''noyalib::unknown_field''"
| "code_as_str CodeRecursionLimit = ''noyalib::recursion_limit''"
| "code_as_str CodeRepetitionLimit = ''noyalib::repetition_limit''"
| "code_as_str CodeBudget = ''noyalib::budget''"
| "code_as_str CodeUnknownAnchor = ''noyalib::unknown_anchor''"
| "code_as_str CodeDuplicateKey = ''noyalib::duplicate_key''"
| "code_as_str CodeKeyCollision = ''noyalib::key_collision''"
| "code_as_str CodeIntegerOverflow = ''noyalib::integer_overflow''"
| "code_as_str CodeNonScalarKey = ''noyalib::non_scalar_key''"
| "code_as_str CodeEndOfStream = ''noyalib::eof''"
| "code_as_str CodeMoreThanOneDocument = ''noyalib::multi_document''"
| "code_as_str CodeIo = ''noyalib::io''"
| "code_as_str CodeOther = ''noyalib::error''"

fun error_code :: "error \<Rightarrow> diagnostic_code" where
  "error_code (Parse _) = CodeParse"
| "error_code (ParseWithLocation _ _) = CodeParse"
| "error_code (Serialize _) = CodeSerialize"
| "error_code (Deserialize _) = CodeDeserialize"
| "error_code (DeserializeWithLocation _ _) = CodeDeserialize"
| "error_code (TypeMismatch _ _) = CodeTypeMismatch"
| "error_code (MissingField _) = CodeMissingField"
| "error_code (UnknownField _) = CodeUnknownField"
| "error_code (RecursionLimitExceeded _) = CodeRecursionLimit"
| "error_code RepetitionLimitExceeded = CodeRepetitionLimit"
| "error_code (Budget _) = CodeBudget"
| "error_code (UnknownAnchor _) = CodeUnknownAnchor"
| "error_code (UnknownAnchorAt _ _ _) = CodeUnknownAnchor"
| "error_code (DuplicateKey _) = CodeDuplicateKey"
| "error_code (DuplicateKeyAt _ _ _) = CodeDuplicateKey"
| "error_code (KeyCollision _) = CodeKeyCollision"
| "error_code (KeyCollisionAt _ _ _) = CodeKeyCollision"
| "error_code (IntegerOverflow _ _) = CodeIntegerOverflow"
| "error_code (NonScalarKey _ _) = CodeNonScalarKey"
| "error_code EndOfStream = CodeEndOfStream"
| "error_code MoreThanOneDocument = CodeMoreThanOneDocument"
| "error_code (Io _) = CodeIo"
| "error_code (Shared e) = error_code e"
| "error_code _ = CodeOther"

fun error_help :: "error \<Rightarrow> string option" where
  "error_help (UnknownAnchorAt _ _ (Some (name, _))) =
     Some (''did you mean '' @ [apostrophe_char] @ ''&'' @ name @ [apostrophe_char] @ ''?'')"
| "error_help (UnknownAnchor _) = Some ''define the anchor (&name) before referencing it''"
| "error_help (RecursionLimitExceeded _) =
     Some ''increase ParserConfig::max_depth or simplify nesting''"
| "error_help RepetitionLimitExceeded =
     Some ''increase ParserConfig::max_alias_expansions or reduce alias usage''"
| "error_help (Budget _) =
     Some ''raise the matching ParserConfig::max_* limit or simplify the input''"
| "error_help (DuplicateKey _) =
     Some ''use DuplicateKeyPolicy::Last or ::Error to control behaviour''"
| "error_help (DuplicateKeyAt _ _ _) =
     Some ''use DuplicateKeyPolicy::Last or ::Error to control behaviour''"
| "error_help (KeyCollision _) =
     Some ''give the colliding keys distinct spellings, or quote them consistently''"
| "error_help (KeyCollisionAt _ _ _) =
     Some ''give the colliding keys distinct spellings, or quote them consistently''"
| "error_help MoreThanOneDocument =
     Some ''use noyalib::load_all() to parse multi-document streams''"
| "error_help (Shared e) = error_help e"
| "error_help _ = None"

section \<open>Diagnostics\<close>

record label =
  label_offset :: nat
  label_length :: nat
  label_message :: string
  label_primary :: bool

record diagnostic =
  diag_code :: diagnostic_code
  diag_message :: string
  diag_help :: "string option"
  diag_labels :: "label list"

definition primary_label :: "location \<Rightarrow> string \<Rightarrow> label" where
  "primary_label l msg =
     \<lparr>label_offset = loc_index l, label_length = 1, label_message = msg, label_primary = True\<rparr>"

definition secondary_label :: "location \<Rightarrow> string \<Rightarrow> label" where
  "secondary_label l msg =
     \<lparr>label_offset = loc_index l, label_length = 1, label_message = msg, label_primary = False\<rparr>"

definition quoted :: "string \<Rightarrow> string" where
  "quoted s = [apostrophe_char] @ s @ [apostrophe_char]"

fun error_labels :: "error \<Rightarrow> label list" where
  "error_labels (ParseWithLocation msg l) = [primary_label l msg]"
| "error_labels (DeserializeWithLocation msg l) = [primary_label l msg]"
| "error_labels (UnknownAnchorAt name l suggestion) =
     primary_label l (''unknown anchor '' @ quoted name)
     # (case suggestion of
          None \<Rightarrow> []
        | Some (s, at) \<Rightarrow> [secondary_label at (''did you mean '' @ quoted (''&'' @ s) @ ''?'')])"
| "error_labels (DuplicateKeyAt key _ l) = [primary_label l (''duplicate key '' @ quoted key)]"
| "error_labels (KeyCollisionAt key _ l) = [primary_label l (''key collision for '' @ quoted key)]"
| "error_labels (IntegerOverflow (Some l) _) = [primary_label l ''integer is out of range'']"
| "error_labels (NonScalarKey kind (Some l)) = [primary_label l (kind @ '' key is not scalar'')]"
| "error_labels (Message msg (Some offset)) =
     [\<lparr>label_offset = offset, label_length = 1, label_message = msg, label_primary = True\<rparr>]"
| "error_labels _ = []"

fun error_diagnostic :: "(f64 \<Rightarrow> string) \<Rightarrow> error \<Rightarrow> diagnostic" where
  "error_diagnostic fmt (Shared e) = error_diagnostic fmt e"
| "error_diagnostic fmt e =
     \<lparr>diag_code = error_code e, diag_message = error_display fmt e, diag_help = error_help e,
      diag_labels = error_labels e\<rparr>"

section \<open>Rendering with the source\<close>

definition format_with_source :: "(f64 \<Rightarrow> string) \<Rightarrow> error \<Rightarrow> string \<Rightarrow> string" where
  "format_with_source fmt e source =
     (case error_location e of
        None \<Rightarrow> error_display fmt e
      | Some loc \<Rightarrow>
          let line_no = loc_line loc; col = loc_column loc; ls = lines source; i = line_no - 1;
              render = (\<lambda>line. ''error: '' @ error_display fmt e @ [newline] @ ''  --> line ''
                @ show_nat line_no @ '':'' @ show_nat col @ [newline] @ ''  '' @ line @ [newline] @ ''  ''
                @ replicate (col - 1) CHR '' '' @ ''^'')
          in if i < length ls then render (ls ! i)
             else if line_no = 0 then render (case ls of [] \<Rightarrow> [] | l # _ \<Rightarrow> l)
             else error_display fmt e)"

definition pad_left :: "nat \<Rightarrow> string \<Rightarrow> string" where
  "pad_left w s = replicate (w - length s) CHR '' '' @ s"

text \<open>The window of lines around \<open>target\<close>; \<open>None\<close> is the overflow panic of \<open>target + radius\<close>.\<close>

definition line_window :: "nat \<Rightarrow> nat \<Rightarrow> nat \<Rightarrow> (nat \<times> nat) option" where
  "line_window target radius n =
     (if target + radius > usize_max then None
      else Some (target - radius, min (target + radius) (n - 1)))"

definition snippet_line :: "nat \<Rightarrow> nat \<Rightarrow> nat \<Rightarrow> string list \<Rightarrow> nat \<Rightarrow> string" where
  "snippet_line w target caret ls i =
     pad_left w (show_nat (i + 1)) @ '' | '' @ ls ! i @ [newline]
     @ (if i = target
        then pad_left w [] @ '' | '' @ replicate caret CHR '' '' @ ''^'' @ [newline] else [])"

definition format_with_source_radius ::
  "(f64 \<Rightarrow> string) \<Rightarrow> error \<Rightarrow> string \<Rightarrow> nat \<Rightarrow> string option" where
  "format_with_source_radius fmt e source radius =
     (case error_location e of
        None \<Rightarrow> Some (error_display fmt e)
      | Some loc \<Rightarrow>
          let line_no = loc_line loc; col = loc_column loc; ls = lines source; i = line_no - 1
          in if ls = [] then Some (error_display fmt e)
             else if \<not> i < length ls then Some (error_display fmt e)
             else case line_window i radius (length ls) of
                    None \<Rightarrow> None
                  | Some (lo, hi) \<Rightarrow>
                      let w = length (show_nat (hi + 1)); spacer = pad_left w [] @ '' |'' @ [newline]
                      in Some (''error: '' @ error_display fmt e @ [newline] @ ''  --> line ''
                           @ show_nat line_no @ '':'' @ show_nat col @ [newline] @ spacer
                           @ concat (map (snippet_line w i (col - 1) ls) [lo..<hi + 1]) @ spacer))"

record cropped_region =
  crop_lines :: "string list"
  crop_focus_index :: nat
  crop_low_line :: nat
  crop_focus_line :: nat

definition cropped_extract :: "string \<Rightarrow> nat \<Rightarrow> nat \<Rightarrow> cropped_region option" where
  "cropped_extract source target_line radius =
     (let ls = lines source in
      if ls = []
      then Some \<lparr>crop_lines = [], crop_focus_index = 0, crop_low_line = 0, crop_focus_line = 0\<rparr>
      else let target = min (target_line - 1) (length ls - 1)
           in case line_window target radius (length ls) of
                None \<Rightarrow> None
              | Some (lo, hi) \<Rightarrow>
                  Some \<lparr>crop_lines = take (hi + 1 - lo) (drop lo ls), crop_focus_index = target - lo,
                        crop_low_line = lo + 1, crop_focus_line = target + 1\<rparr>)"

definition truncate_with_ellipsis :: "string \<Rightarrow> nat \<Rightarrow> string" where
  "truncate_with_ellipsis s max_chars =
     (if char_count s \<le> max_chars then s
      else if max_chars < 3 then take_chars max_chars s
      else take_chars (max_chars - 3) s @ ''...'')"

section \<open>Suggestions\<close>

definition max_suggestion_name_chars :: nat where "max_suggestion_name_chars = 64"
definition max_suggestion_candidates :: nat where "max_suggestion_candidates = 4096"
definition max_suggestion_distance :: nat where "max_suggestion_distance = 2"

text \<open>The characters of a text, each as its bytes.\<close>

lemma length_dropWhile_less [termination_simp]: "length (dropWhile P xs) < Suc (length xs)"
  by (simp add: le_imp_less_Suc length_dropWhile_le)

fun chars :: "string \<Rightarrow> string list" where
  "chars [] = []"
| "chars (c # cs) = (c # takeWhile is_continuation cs) # chars (dropWhile is_continuation cs)"

definition bounded_char_count :: "string \<Rightarrow> nat option" where
  "bounded_char_count s =
     (if char_count s > max_suggestion_name_chars then None else Some (char_count s))"

text \<open>
  One inner loop of \<open>edit_distance\<close>: \<open>row\<close> from column \<open>j\<close> on is consumed, the updated cells
  are returned, the last of them being \<open>row[b_len] = prev\<close>.
\<close>

fun edit_row :: "nat \<Rightarrow> string \<Rightarrow> nat \<Rightarrow> nat list \<Rightarrow> string list \<Rightarrow> nat list" where
  "edit_row i ca prev (d # u # row) (cb # bs) =
     (let next = d + (if ca \<noteq> cb then 1 else 0);
          next = (if i + 1 < u + 1 \<and> i + 1 < next then i + 1 else next);
          next = (if prev + 1 < next then prev + 1 else next)
      in prev # edit_row i ca next (u # row) bs)"
| "edit_row i ca prev row bs = [prev]"

fun edit_rows :: "nat \<Rightarrow> string list \<Rightarrow> string list \<Rightarrow> nat list \<Rightarrow> nat list" where
  "edit_rows i [] bs row = row"
| "edit_rows i (ca # as) bs row = edit_rows (Suc i) as bs (edit_row i ca (i + 1) row bs)"

definition edit_distance :: "string \<Rightarrow> string \<Rightarrow> nat" where
  "edit_distance a b =
     (let as = chars a; bs = chars b
      in if as = [] then length bs
         else if bs = [] then length as
         else last (edit_rows 0 as bs [0..<length bs + 1]))"

text \<open>The running best: \<open>best_dist\<close> starts at \<open>usize::MAX\<close>.\<close>

definition closest_step :: "string \<Rightarrow> nat \<Rightarrow> nat \<times> string option \<Rightarrow> string \<Rightarrow> nat \<times> string option" where
  "closest_step name target_len best n =
     (case bounded_char_count n of
        None \<Rightarrow> best
      | Some len \<Rightarrow>
          if (len - target_len) + (target_len - len) > max_suggestion_distance then best
          else let dist = edit_distance name n
               in if dist < fst best \<and> dist \<le> max_suggestion_distance then (dist, Some n) else best)"

definition closest_name :: "string \<Rightarrow> string list \<Rightarrow> string option" where
  "closest_name name names =
     (case bounded_char_count name of
        None \<Rightarrow> None
      | Some target_len \<Rightarrow>
          snd (foldl (closest_step name target_len) (usize_max, None)
                 (take max_suggestion_candidates names)))"

section \<open>Locations count lines and characters\<close>

text \<open>The text after the last newline.\<close>

definition last_line :: "string \<Rightarrow> string" where
  "last_line s = rev (takeWhile (\<lambda>c. c \<noteq> newline) (rev s))"

text \<open>\<open>index\<close> is at the start of a character of \<open>s\<close>, or at its end.\<close>

definition char_boundary :: "string \<Rightarrow> nat \<Rightarrow> bool" where
  "char_boundary s index \<longleftrightarrow>
     index = length s \<or> (index < length s \<and> \<not> is_continuation (s ! index))"

lemma newline_not_continuation [simp]: "\<not> is_continuation newline"
  by (simp add: is_continuation_def newline_def byte_def)

lemma last_line_snoc: "last_line (s @ [c]) = (if c = newline then [] else last_line s @ [c])"
  by (simp add: last_line_def)

lemma char_count_snoc: "char_count (s @ [c]) = char_count s + (if is_continuation c then 0 else 1)"
  by (simp add: char_count_def)

lemma location_walk_counts:
  "\<lbrakk>length p \<le> index; char_boundary (p @ s) index\<rbrakk> \<Longrightarrow>
   location_walk index (length p) (Suc (count_list p newline)) (Suc (char_count (last_line p))) s
     = (Suc (count_list (take index (p @ s)) newline),
        Suc (char_count (last_line (take index (p @ s)))))"
proof (induction s arbitrary: p)
  case Nil
  then show ?case by (simp add: char_boundary_def)
next
  case (Cons c s)
  show ?case
  proof (cases "length p = index")
    case True
    then have "\<not> is_continuation c" using Cons.prems(2) by (auto simp: char_boundary_def True[symmetric])
    with True show ?thesis by simp
  next
    case False
    then have le: "length (p @ [c]) \<le> index" using Cons.prems(1) by simp
    have eq: "(p @ [c]) @ s = p @ c # s" by simp
    have "\<not> index \<le> length p" using False Cons.prems(1) by simp
    moreover have "location_walk index (length (p @ [c])) (Suc (count_list (p @ [c]) newline))
        (Suc (char_count (last_line (p @ [c])))) s
      = (Suc (count_list (take index (p @ c # s)) newline),
         Suc (char_count (last_line (take index (p @ c # s)))))"
      using Cons.IH[OF le] Cons.prems(2) unfolding eq by blast
    moreover have "char_count [] = 0" by (simp add: char_count_def)
    moreover have "is_continuation c \<Longrightarrow> c \<noteq> newline" using newline_not_continuation by blast
    ultimately show ?thesis
      by (auto simp: last_line_snoc char_count_snoc count_list_append split: if_splits)
  qed
qed

text \<open>
  C6.  \<open>Location::from_index\<close> at a character boundary: the line is one more than the newlines
  before the index, the column one more than the characters between the last of them and the
  index, so both are 1-based and the index is kept.
\<close>

theorem location_from_index_counts:
  assumes "char_boundary input index"
  shows "location_from_index input index =
    \<lparr>loc_index = index, loc_line = Suc (count_list (take index input) newline),
     loc_column = Suc (char_count (last_line (take index input)))\<rparr>"
  using location_walk_counts[of "[]" index input] assms
  by (simp add: location_from_index_def last_line_def char_count_def)

theorem location_from_index_counts_witness:
  "location_from_index [CHR ''a'', newline, CHR 0xC3, CHR 0xA9, CHR ''b''] 4
     = \<lparr>loc_index = 4, loc_line = 2, loc_column = 2\<rparr>"
proof -
  have "char_boundary [CHR ''a'', newline, CHR 0xC3, CHR 0xA9, CHR ''b''] 4"
    by (simp add: char_boundary_def is_continuation_def byte_def)
  from location_from_index_counts[OF this] show ?thesis
    by (simp add: last_line_def char_count_def is_continuation_def byte_def newline_def)
qed

section \<open>Relocation\<close>

lemma shift_error_location: "\<nexists>x. e = Shared x \<Longrightarrow> error_location (shift_error f e) = map_option f (error_location e)"
  by (cases e) auto

lemma shift_error_class: "error_kind (shift_error f e) = error_kind e \<and> error_code (shift_error f e) = error_code e"
  by (cases e) auto

text \<open>
  \<open>relocate\<close>: moving an error found in the slice of the input that starts at \<open>base\<close> keeps
  its kind and its diagnostic code, and an error that was located at byte \<open>i\<close> of the slice is
  located where \<open>from_index\<close> puts byte \<open>base + i\<close> of the whole input.
\<close>

theorem relocate_moves_location:
  assumes "error_location e = Some (location_from_index part i)" and "\<nexists>x. e = Shared x"
    and "part = drop base source"
  shows "error_location (relocate e source base) = Some (location_from_index source (base + i))
    \<and> error_kind (relocate e source base) = error_kind e
    \<and> error_code (relocate e source base) = error_code e"
proof -
  have "loc_index (location_from_index t i) = i" for t
    by (simp add: location_from_index_def split: prod.splits)
  then show ?thesis
    using assms shift_error_location[OF assms(2)] shift_error_class
    by (simp add: relocate_def shift_location_def)
qed

theorem relocate_moves_location_witness:
  "error_location (relocate (ParseWithLocation ''bad'' (location_from_index ''b: x'' 3)) ''a; b: x'' 3)
     = Some (location_from_index ''a; b: x'' 6)"
proof -
  have "error_location (ParseWithLocation ''bad'' (location_from_index ''b: x'' 3))
      = Some (location_from_index ''b: x'' 3)"
    and "\<nexists>x. ParseWithLocation ''bad'' (location_from_index ''b: x'' 3) = Shared x"
    and "''b: x'' = drop 3 ''a; b: x''" by simp_all
  from relocate_moves_location[OF this] show ?thesis by simp
qed

section \<open>Truncation\<close>

lemma char_count_take_chars: "char_count (take_chars n s) = min n (char_count s)"
  by (induction n s rule: take_chars.induct) (auto simp: char_count_def split: nat.splits)

lemma take_chars_prefix: "\<exists>t. s = take_chars n s @ t \<and> (t = [] \<or> \<not> is_continuation (hd t))"
proof (induction n s rule: take_chars.induct)
  case (2 n c cs)
  then show ?case by (cases "is_continuation c"; cases n) auto
qed simp

text \<open>
  Truncation honours its budget: the text has at most \<open>max_chars\<close> characters, a text that
  fits is untouched, and otherwise it is cut in front of a character, never inside one.
\<close>

theorem truncate_respects_limit:
  "char_count (truncate_with_ellipsis s n) \<le> n
   \<and> (char_count s \<le> n \<longrightarrow> truncate_with_ellipsis s n = s)
   \<and> (\<exists>p t. s = p @ t \<and> (t = [] \<or> \<not> is_continuation (hd t))
        \<and> truncate_with_ellipsis s n \<in> {s, p, p @ ''...''})"
proof -
  have dots: "char_count (xs @ ''...'') = char_count xs + 3" for xs
    by (simp add: char_count_def is_continuation_def byte_def)
  have "char_count (truncate_with_ellipsis s n) \<le> n"
    by (simp add: truncate_with_ellipsis_def char_count_take_chars dots)
  moreover have "\<exists>p t. s = p @ t \<and> (t = [] \<or> \<not> is_continuation (hd t))
      \<and> truncate_with_ellipsis s n \<in> {s, p, p @ ''...''}"
  proof -
    define m where "m = (if n < 3 then n else n - 3)"
    have "truncate_with_ellipsis s n \<in> {s, take_chars m s, take_chars m s @ ''...''}"
      by (simp add: truncate_with_ellipsis_def m_def)
    with take_chars_prefix[of s m] show ?thesis by metis
  qed
  ultimately show ?thesis by (simp add: truncate_with_ellipsis_def)
qed

theorem truncate_respects_limit_witness:
  "truncate_with_ellipsis ''ab'' 2 = ''ab'' \<and> char_count (truncate_with_ellipsis ''abcdef'' 4) \<le> 4"
proof -
  have "char_count ''ab'' \<le> 2" by (simp add: char_count_def)
  then show ?thesis
    using truncate_respects_limit[of "''ab''" 2] truncate_respects_limit[of "''abcdef''" 4] by blast
qed

section \<open>The cropped window\<close>

text \<open>
  \<open>CroppedRegion::extract\<close>: for a radius that does not overflow, the region is a window of
  the source's lines, the focus index is inside it and holds the target line (the nearest one when
  the target is out of range), and at most \<open>radius\<close> lines stand on either side of it.
\<close>

theorem cropped_extract_window:
  assumes "lines source \<noteq> []" and "length (lines source) + radius \<le> usize_max"
  shows "\<exists>r. cropped_extract source target radius = Some r
    \<and> crop_focus_line r = max 1 (min target (length (lines source)))
    \<and> crop_focus_index r < length (crop_lines r)
    \<and> crop_lines r ! crop_focus_index r = lines source ! (crop_focus_line r - 1)
    \<and> crop_lines r = take (length (crop_lines r)) (drop (crop_low_line r - 1) (lines source))
    \<and> crop_low_line r + crop_focus_index r = crop_focus_line r
    \<and> crop_focus_index r \<le> radius \<and> length (crop_lines r) \<le> crop_focus_index r + radius + 1"
proof -
  define ls t where "ls = lines source" and "t = min (target - 1) (length ls - 1)"
  define hi where "hi = min (t + radius) (length ls - 1)"
  have n: "0 < length ls" using assms(1) by (simp add: ls_def)
  have t: "t < length ls" using n by (cases ls) (auto simp: t_def)
  have hi: "t \<le> hi" "hi < length ls" "hi \<le> t + radius" using n t by (auto simp: hi_def)
  have "line_window t radius (length ls) = Some (t - radius, hi)"
    using assms(2) t by (simp add: line_window_def hi_def ls_def)
  then have r: "cropped_extract source target radius =
      Some \<lparr>crop_lines = take (hi + 1 - (t - radius)) (drop (t - radius) ls),
            crop_focus_index = t - (t - radius), crop_low_line = t - radius + 1,
            crop_focus_line = t + 1\<rparr>"
    using assms(1) by (simp add: cropped_extract_def Let_def ls_def t_def)
  have m: "max 1 (min target (length ls)) = t + 1" using n by (simp add: t_def)
  show ?thesis
    unfolding ls_def[symmetric] m using r hi t by (intro exI conjI) auto
qed

theorem cropped_extract_window_witness:
  "\<exists>r. cropped_extract [CHR ''a'', newline, CHR ''b'', newline, CHR ''c''] 2 1 = Some r
    \<and> crop_focus_line r = 2"
proof -
  have ls: "lines [CHR ''a'', newline, CHR ''b'', newline, CHR ''c''] = [''a'', ''b'', ''c'']"
    by (simp add: lines_def newline_def strip_cr_def)
  have "lines [CHR ''a'', newline, CHR ''b'', newline, CHR ''c''] \<noteq> []"
    and "length (lines [CHR ''a'', newline, CHR ''b'', newline, CHR ''c'']) + 1 \<le> usize_max"
    by (simp_all add: ls usize_max_def)
  from cropped_extract_window[OF this, of 2] show ?thesis unfolding ls by auto
qed

section \<open>Limits, on concrete inputs\<close>

lemma cropped_extract_overflow: "cropped_extract [CHR ''a'', newline, CHR ''b''] 2 usize_max = None"
  by (simp add: cropped_extract_def lines_def newline_def strip_cr_def line_window_def)

text \<open>
  \<open>edit_distance\<close> compares with \<open>i + 1\<close> where the recurrence takes \<open>row[j + 1] + 1\<close>: deleting
  one character costs two, and any four characters are two edits away from any two, so an
  unrelated name is suggested.
\<close>

lemmas edit_eval = edit_distance_def is_continuation_def byte_def Let_def

lemma edit_distance_misses_deletion: "edit_distance ''ab'' ''a'' = 2"
  by (simp add: edit_eval)

lemma edit_distance_underestimates: "edit_distance ''ab'' ''wxyz'' = 2"
  by (simp add: edit_eval upt_rec)

lemma closest_name_suggests_unrelated: "closest_name ''ab'' [''wxyz''] = Some ''wxyz''"
  using edit_distance_underestimates
  by (simp add: closest_name_def closest_step_def bounded_char_count_def char_count_def
      is_continuation_def byte_def max_suggestion_name_chars_def max_suggestion_candidates_def
      max_suggestion_distance_def usize_max_def)

end
