(* ===== verification/Number.thy ===== *)
theory Number
  imports F64 Text
begin

text \<open>
  Model of \<open>crates/noyalib/src/value/number.rs\<close>, in the default feature set (no
  \<open>lossless-u64\<close>): the \<open>Number\<close> enum, its accessors, \<open>FromStr\<close> (with the panic of
  \<open>str::split_at\<close> as an outcome), \<open>PartialEq\<close>, the bytes \<open>Hash\<close> feeds, and \<open>Ord\<close>.  An \<open>i64\<close> is
  an \<open>int\<close> in range, a float its bits.  Printing a finite float is \<open>ryu\<close>'s job: the parameter
  \<open>fmt\<close>.
\<close>

datatype number =
    Integer int
  | Float f64

fun number_as_i64 :: "number \<Rightarrow> int option" where
  "number_as_i64 (Integer n) = Some n"
| "number_as_i64 (Float _) = None"

fun number_as_u64 :: "number \<Rightarrow> int option" where
  "number_as_u64 (Integer n) = (if n \<ge> 0 then Some n else None)"
| "number_as_u64 (Float _) = None"

fun number_as_f64 :: "number \<Rightarrow> f64" where
  "number_as_f64 (Integer n) = f64_of_int n"
| "number_as_f64 (Float x) = x"

fun number_is_integer :: "number \<Rightarrow> bool" where
  "number_is_integer (Integer _) = True"
| "number_is_integer (Float _) = False"

fun number_is_float :: "number \<Rightarrow> bool" where
  "number_is_float (Float _) = True"
| "number_is_float (Integer _) = False"

fun number_is_i64 :: "number \<Rightarrow> bool" where
  "number_is_i64 (Integer _) = True"
| "number_is_i64 (Float _) = False"

fun number_is_u64 :: "number \<Rightarrow> bool" where
  "number_is_u64 (Integer n) = (n \<ge> 0)"
| "number_is_u64 (Float _) = False"

fun number_is_nan :: "number \<Rightarrow> bool" where
  "number_is_nan (Float x) = f64_is_nan x"
| "number_is_nan (Integer _) = False"

fun number_is_infinite :: "number \<Rightarrow> bool" where
  "number_is_infinite (Float x) = f64_is_infinite x"
| "number_is_infinite (Integer _) = False"

fun number_is_finite :: "number \<Rightarrow> bool" where
  "number_is_finite (Float x) = f64_is_finite x"
| "number_is_finite (Integer _) = True"

section \<open>Printing\<close>

definition write_float :: "(f64 \<Rightarrow> string) \<Rightarrow> f64 \<Rightarrow> string" where
  "write_float fmt n =
     (if f64_is_nan n then ''.nan''
      else if f64_is_infinite n then (if f64_lt 0 n then ''.inf'' else ''-.inf'')
      else fmt n)"

fun number_display :: "(f64 \<Rightarrow> string) \<Rightarrow> number \<Rightarrow> string" where
  "number_display fmt (Integer n) = show_int n"
| "number_display fmt (Float n) = write_float fmt n"

section \<open>Parsing\<close>

text \<open>\<open>from_str\<close> returns, refuses, or panics (\<open>split_at(2)\<close> off a character boundary).\<close>

datatype number_parse = Parsed number | ParseNumberError | SplitPanic

definition radix_prefixed :: "string \<Rightarrow> nat option" where
  "radix_prefixed prefix =
     (if prefix = ''0x'' \<or> prefix = ''0X'' then Some 16
      else if prefix = ''0o'' \<or> prefix = ''0O'' then Some 8
      else if prefix = ''0b'' \<or> prefix = ''0B'' then Some 2
      else None)"

definition parse_as_float :: "string \<Rightarrow> number_parse" where
  "parse_as_float s = (case f64_parse s of Some n \<Rightarrow> Parsed (Float n) | None \<Rightarrow> ParseNumberError)"

definition number_from_str :: "string \<Rightarrow> number_parse" where
  "number_from_str input =
     (let s = trim input in
      if s \<in> {''.nan'', ''.NaN'', ''.NAN''} then Parsed (Float f64_nan)
      else if s \<in> {''.inf'', ''.Inf'', ''.INF''} then Parsed (Float f64_infinity)
      else if s \<in> {''+.inf'', ''+.Inf'', ''+.INF''} then Parsed (Float f64_infinity)
      else if s \<in> {''-.inf'', ''-.Inf'', ''-.INF''} then Parsed (Float f64_neg_infinity)
      else (case i64_from_str_radix 10 s of
              Some n \<Rightarrow> Parsed (Integer n)
            | None \<Rightarrow>
                if length s > 2 then
                  (if is_continuation (s ! 2) then SplitPanic
                   else (case radix_prefixed (take 2 s) of
                           Some radix \<Rightarrow>
                             (case i64_from_str_radix radix (drop 2 s) of
                                Some n \<Rightarrow> Parsed (Integer n)
                              | None \<Rightarrow> parse_as_float s)
                         | None \<Rightarrow> parse_as_float s))
                else parse_as_float s))"

text \<open>\<open>From\<close> for the integer types that always fit, and for \<open>u64\<close>/\<open>usize\<close>.\<close>

definition number_from_signed :: "int \<Rightarrow> number" where
  "number_from_signed v = Integer v"

definition number_from_u64 :: "nat \<Rightarrow> number" where
  "number_from_u64 v = (if int v \<le> i64_max then Integer (int v) else Float (f64_of_int (int v)))"

section \<open>Equality and hashing\<close>

fun number_eq :: "number \<Rightarrow> number \<Rightarrow> bool" where
  "number_eq (Integer a) (Integer b) = (a = b)"
| "number_eq (Float a) (Float b) = ((f64_is_nan a \<and> f64_is_nan b) \<or> f64_eq a b)"
| "number_eq _ _ = False"

text \<open>What \<open>Hash\<close> writes: the discriminating byte and the payload.\<close>

definition float_hash_bits :: "f64 \<Rightarrow> f64" where
  "float_hash_bits n =
     (if f64_is_nan n then 0x7FF8000000000001 else if f64_eq n 0 then 0 else n)"

fun number_hash :: "number \<Rightarrow> nat \<times> int" where
  "number_hash (Integer n) = (0, n)"
| "number_hash (Float n) = (1, int (unat (float_hash_bits n)))"

section \<open>Order\<close>

definition cmp_or_equal :: "f64 \<Rightarrow> f64 \<Rightarrow> ordering" where
  "cmp_or_equal a b = (case f64_partial_cmp a b of None \<Rightarrow> Equal | Some r \<Rightarrow> r)"

definition float_cmp :: "f64 \<Rightarrow> f64 \<Rightarrow> ordering" where
  "float_cmp a b =
     (case (f64_is_nan a, f64_is_nan b) of
        (True, True) \<Rightarrow> Equal
      | (True, False) \<Rightarrow> Greater
      | (False, True) \<Rightarrow> Less
      | (False, False) \<Rightarrow> cmp_or_equal a b)"

definition int_float_cmp :: "int \<Rightarrow> f64 \<Rightarrow> ordering" where
  "int_float_cmp a b =
     (if f64_is_nan b then Less
      else if a > 2 ^ 53 \<or> a < - (2 ^ 53) then
        (let a_f = f64_of_int a in
         if f64_to_i64 a_f = a then cmp_or_equal a_f b
         else if a > 0 then
           (if f64_lt b (f64_of_int (2 ^ 53)) then Greater else cmp_or_equal (f64_of_int a) b)
         else (if f64_lt (f64_of_int (- (2 ^ 53))) b then Less else cmp_or_equal (f64_of_int a) b))
      else cmp_or_equal (f64_of_int a) b)"

fun number_cmp :: "number \<Rightarrow> number \<Rightarrow> ordering" where
  "number_cmp (Integer a) (Integer b) = cmp a b"
| "number_cmp (Float a) (Float b) = float_cmp a b"
| "number_cmp (Integer a) (Float b) = int_float_cmp a b"
| "number_cmp (Float a) (Integer b) = ordering_reverse (int_float_cmp b a)"

section \<open>Properties\<close>

lemma number_eq_refl [simp]: "number_eq a a"
  by (cases a) (auto simp: f64_eq_def)

lemma number_eq_sym: "number_eq a b = number_eq b a"
  by (cases a; cases b) (auto simp: f64_eq_def)

lemma number_eq_trans: "number_eq a b \<Longrightarrow> number_eq b c \<Longrightarrow> number_eq a c"
  by (cases a; cases b; cases c) (auto simp: f64_eq_def)

lemma f64_zero: "f64_scaled 0 = 0" "\<not> f64_is_nan 0"
  by (simp_all add: f64_scaled_def f64_magnitude_def f64_exponent_def f64_fraction_def f64_is_nan_def)

text \<open>
  C2.  The \<open>Eq\<close>/\<open>Hash\<close> contract of \<open>Number\<close>: equality is an equivalence (NaN equals NaN,
  \<open>+0.0\<close> equals \<open>-0.0\<close>, an integer never equals a float), and equal numbers feed the hasher the
  same bytes.
\<close>

theorem number_eq_hash_contract:
  "number_eq a a \<and> (number_eq a b \<longleftrightarrow> number_eq b a)
   \<and> (number_eq a b \<and> number_eq b c \<longrightarrow> number_eq a c)
   \<and> (number_eq a b \<longrightarrow> number_hash a = number_hash b)"
proof -
  have "number_hash a = number_hash b" if "number_eq a b"
  proof (cases "\<exists>x y. a = Float x \<and> b = Float y")
    case True
    then obtain x y where xy: "a = Float x" "b = Float y" by blast
    show ?thesis
    proof (cases "f64_is_nan x \<and> f64_is_nan y")
      case True
      with xy show ?thesis by (simp add: float_hash_bits_def)
    next
      case False
      with that xy have "f64_eq x y" by auto
      then have nan: "\<not> f64_is_nan x" "\<not> f64_is_nan y"
        and "x = y \<or> (f64_scaled x = 0 \<and> f64_scaled y = 0)"
        using f64_scaled_inj by (auto simp: f64_eq_def)
      with xy show ?thesis by (auto simp: float_hash_bits_def f64_eq_def f64_zero)
    qed
  next
    case False
    with that show ?thesis by (cases a; cases b) auto
  qed
  then show ?thesis using number_eq_sym number_eq_trans by auto
qed

theorem number_eq_hash_contract_witness:
  "number_hash (Float 0) = number_hash (Float 0x8000000000000000)"
proof -
  have "number_eq (Float 0) (Float 0x8000000000000000)"
    by (simp add: f64_eq_def f64_is_nan_def f64_exponent_def f64_fraction_def f64_scaled_def
        f64_magnitude_def)
  with number_eq_hash_contract show ?thesis by blast
qed

lemma cmp_or_equal_swap: "cmp_or_equal a b = ordering_reverse (cmp_or_equal b a)"
  by (simp add: cmp_or_equal_def f64_partial_cmp_def cmp_reverse[of "f64_scaled a"])

lemma float_cmp_swap: "float_cmp a b = ordering_reverse (float_cmp b a)"
  using cmp_or_equal_swap[of a b] by (simp add: float_cmp_def split: bool.split)

text \<open>
  \<open>Number::cmp\<close> is antisymmetric on every pair of kinds: swapping the operands reverses the
  answer, so a comparison never reports \<open>Less\<close> both ways round, and equal numbers compare
  \<open>Equal\<close>.
\<close>

theorem number_cmp_antisymmetric:
  "number_cmp b a = ordering_reverse (number_cmp a b)
   \<and> (number_eq a b \<longrightarrow> number_cmp a b = Equal)"
proof -
  have "number_cmp b a = ordering_reverse (number_cmp a b)"
  proof (cases a; cases b)
    fix m n assume "a = Integer m" "b = Integer n"
    then show ?thesis using cmp_reverse[of n m] by simp
  next
    fix x y assume "a = Float x" "b = Float y"
    then show ?thesis using float_cmp_swap[of y x] by simp
  qed simp_all
  moreover have "number_cmp a b = Equal" if "number_eq a b"
    using that
    by (cases a; cases b)
       (auto simp: float_cmp_def cmp_or_equal_def f64_partial_cmp_def f64_eq_def split: bool.splits)
  ultimately show ?thesis by blast
qed

theorem number_cmp_antisymmetric_witness:
  "number_eq (Float 0) (Float 0x8000000000000000)
   \<and> number_cmp (Float 0) (Float 0x8000000000000000) = Equal"
proof -
  have "number_eq (Float 0) (Float 0x8000000000000000)"
    by (simp add: f64_eq_def f64_is_nan_def f64_exponent_def f64_fraction_def f64_scaled_def
        f64_magnitude_def f64_negative_def)
  with number_cmp_antisymmetric[of "Float 0x8000000000000000" "Float 0"] show ?thesis by blast
qed

text \<open>
  Two limits of the order, on concrete numbers.  It does not agree with equality (\<open>1\<close> and \<open>1.0\<close>
  compare \<open>Equal\<close> and are not equal), and \<open>Equal\<close> is not transitive past \<open>2^53\<close>: both integers
  below compare \<open>Equal\<close> to the same float and \<open>Less\<close> to each other.
\<close>

lemmas f64_eval =
  f64_of_int_def Let_def bit_length_eval f64_to_i64_def f64_lt_def f64_is_nan_def f64_exponent_def
  f64_fraction_def f64_scaled_def f64_magnitude_def f64_negative_def f64_partial_cmp_def
  cmp_or_equal_def cmp_def i64_min_def i64_max_def

lemma number_cmp_ignores_kind:
  "number_cmp (Integer 1) (Float 0x3FF0000000000000) = Equal
   \<and> \<not> number_eq (Integer 1) (Float 0x3FF0000000000000)"
  by (simp add: int_float_cmp_def f64_eval)

lemma number_cmp_not_transitive:
  "number_cmp (Integer (2 ^ 53)) (Float 0x4340000000000000) = Equal
   \<and> number_cmp (Integer (2 ^ 53 + 1)) (Float 0x4340000000000000) = Equal
   \<and> number_cmp (Integer (2 ^ 53)) (Integer (2 ^ 53 + 1)) = Less"
  by (simp add: int_float_cmp_def f64_eval)

text \<open>\<open>from_str\<close> panics on a string whose byte 2 is inside a character, here the euro sign.\<close>

lemma number_from_str_panics:
  "number_from_str [CHR 0xE2, CHR 0x82, CHR 0xAC] = SplitPanic"
  by (simp add: number_from_str_def trim_def trim_end_def ascii_ws_def ws2_def ws3_def byte_def
      i64_from_str_radix_def all_radix_digits_def is_radix_digit_def hex_digit_def
      is_continuation_def Let_def)

end
