(* ===== verification/Value.thy ===== *)
theory Value
  imports Ordered_Map Number
begin

text \<open>
  Model of \<open>crates/noyalib/src/value.rs\<close>, \<open>value/tag.rs\<close> and \<open>value/mapping.rs\<close>: the \<open>Value\<close>
  tree, \<open>Tag\<close> and \<open>Mapping\<close>, their accessors and updates, \<open>PartialEq\<close>, \<open>Hash\<close>, \<open>Ord\<close> and
  \<open>Display\<close>.  A \<open>Mapping\<close> is an insertion-ordered map (theory \<open>Ordered_Map\<close>).  A method with a
  \<open>&mut self\<close> receiver returns the new value; one that also returns something returns both.
  The lemmas give the equivalence-relation laws of \<open>Eq\<close>, the antisymmetry of \<open>Ord\<close>, and the
  well-formedness (distinct keys at every level) that every operation keeps.
\<close>

section \<open>Tags\<close>

datatype tag = Tag (tag_text: string) (tag_is_directive: bool)

definition nobang :: "string \<Rightarrow> string" where
  "nobang s = (case strip_prefix ''!'' s of Some t \<Rightarrow> t | None \<Rightarrow> s)"

datatype 'a maybe_tag = IsTag string | NotTag 'a

definition check_for_tag :: "string \<Rightarrow> string maybe_tag" where
  "check_for_tag s = (if starts_with ''!'' s then IsTag s else NotTag s)"

definition tag_new :: "string \<Rightarrow> tag" where
  "tag_new s = Tag s False"

definition tag_directive :: "string \<Rightarrow> tag" where
  "tag_directive name = Tag name True"

text \<open>\<open>directive_name\<close>: the registered name (\<open>directives\<close> is \<open>fmt::DIRECTIVES\<close>).\<close>

definition tag_directive_name :: "string list \<Rightarrow> tag \<Rightarrow> string option" where
  "tag_directive_name directives t =
     (if \<not> tag_is_directive t then None else find (\<lambda>name. name = tag_text t) directives)"

definition tag_nobang :: "tag \<Rightarrow> string" where
  "tag_nobang t = nobang (tag_text t)"

definition tag_eq :: "tag \<Rightarrow> tag \<Rightarrow> bool" where
  "tag_eq a b \<longleftrightarrow>
     tag_is_directive a = tag_is_directive b \<and> nobang (tag_text a) = nobang (tag_text b)"

definition tag_cmp :: "tag \<Rightarrow> tag \<Rightarrow> ordering" where
  "tag_cmp a b =
     ordering_then (cmp (nobang (tag_text a)) (nobang (tag_text b)))
       (cmp (tag_is_directive a) (tag_is_directive b))"

section \<open>Values\<close>

datatype "value" =
    VNull
  | VBool bool
  | VNumber number
  | VString string
  | VSequence "value list"
  | VMapping "(string \<times> value) list"
  | VTagged tag "value"

type_synonym mapping = "(string, value) imap"

lemma value_size_entry [termination_simp]:
  "(k, v) \<in> set m \<Longrightarrow> size v < Suc (size_list (size_prod (\<lambda>x. 0) size) m)"
  by (induction m) auto

lemma value_size_item [termination_simp]: "v \<in> set xs \<Longrightarrow> size v < Suc (size_list size xs)"
  by (induction xs) auto

section \<open>Accessors\<close>

fun is_null :: "value \<Rightarrow> bool" where "is_null VNull = True" | "is_null _ = False"
fun is_bool :: "value \<Rightarrow> bool" where "is_bool (VBool _) = True" | "is_bool _ = False"
fun is_number :: "value \<Rightarrow> bool" where "is_number (VNumber _) = True" | "is_number _ = False"
fun is_string :: "value \<Rightarrow> bool" where "is_string (VString _) = True" | "is_string _ = False"
fun is_sequence :: "value \<Rightarrow> bool" where "is_sequence (VSequence _) = True" | "is_sequence _ = False"
fun is_mapping :: "value \<Rightarrow> bool" where "is_mapping (VMapping _) = True" | "is_mapping _ = False"
fun is_tagged :: "value \<Rightarrow> bool" where "is_tagged (VTagged _ _) = True" | "is_tagged _ = False"

fun as_bool :: "value \<Rightarrow> bool option" where
  "as_bool (VBool b) = Some b"
| "as_bool _ = None"

fun as_null :: "value \<Rightarrow> unit option" where
  "as_null VNull = Some ()"
| "as_null _ = None"

fun as_i64 :: "value \<Rightarrow> int option" where
  "as_i64 (VNumber n) = number_as_i64 n"
| "as_i64 _ = None"

fun as_u64 :: "value \<Rightarrow> int option" where
  "as_u64 (VNumber n) = number_as_u64 n"
| "as_u64 _ = None"

fun as_f64 :: "value \<Rightarrow> f64 option" where
  "as_f64 (VNumber n) = Some (number_as_f64 n)"
| "as_f64 _ = None"

fun as_str :: "value \<Rightarrow> string option" where
  "as_str (VString s) = Some s"
| "as_str _ = None"

fun as_sequence :: "value \<Rightarrow> value list option" where
  "as_sequence (VSequence s) = Some s"
| "as_sequence _ = None"

fun as_mapping :: "value \<Rightarrow> mapping option" where
  "as_mapping (VMapping m) = Some m"
| "as_mapping _ = None"

fun as_tagged :: "value \<Rightarrow> (tag \<times> value) option" where
  "as_tagged (VTagged t v) = Some (t, v)"
| "as_tagged _ = None"

fun value_type_name :: "value \<Rightarrow> string" where
  "value_type_name VNull = ''null''"
| "value_type_name (VBool _) = ''boolean''"
| "value_type_name (VNumber _) = ''number''"
| "value_type_name (VString _) = ''string''"
| "value_type_name (VSequence _) = ''sequence''"
| "value_type_name (VMapping _) = ''mapping''"
| "value_type_name (VTagged _ _) = ''tagged value''"

section \<open>Mappings\<close>

definition mapping_insert :: "mapping \<Rightarrow> string \<Rightarrow> value \<Rightarrow> value option \<times> mapping" where
  "mapping_insert m key v = (imap_get m key, imap_insert key v m)"

definition mapping_remove :: "mapping \<Rightarrow> string \<Rightarrow> value option \<times> mapping" where
  "mapping_remove m key = (imap_get m key, imap_shift_remove key m)"

definition mapping_remove_entry :: "mapping \<Rightarrow> string \<Rightarrow> (string \<times> value) option \<times> mapping" where
  "mapping_remove_entry m key =
     (map_option (\<lambda>v. (key, v)) (imap_get m key), imap_shift_remove key m)"

definition mapping_swap_remove :: "mapping \<Rightarrow> string \<Rightarrow> value option \<times> mapping" where
  "mapping_swap_remove m key = (imap_get m key, imap_swap_remove key m)"

definition mapping_get_index :: "mapping \<Rightarrow> nat \<Rightarrow> (string \<times> value) option" where
  "mapping_get_index m i = (if i < length m then Some (m ! i) else None)"

definition mapping_retain :: "(string \<Rightarrow> value \<Rightarrow> value \<times> bool) \<Rightarrow> mapping \<Rightarrow> mapping" where
  "mapping_retain f m =
     concat (map (\<lambda>(k, v). case f k v of (v', keep) \<Rightarrow> if keep then [(k, v')] else []) m)"

definition mapping_first :: "mapping \<Rightarrow> (string \<times> value) option" where
  "mapping_first m = (case m of [] \<Rightarrow> None | kv # _ \<Rightarrow> Some kv)"

definition mapping_last :: "mapping \<Rightarrow> (string \<times> value) option" where
  "mapping_last m = (if m = [] then None else Some (last m))"

definition mapping_pop_first :: "mapping \<Rightarrow> (string \<times> value) option \<times> mapping" where
  "mapping_pop_first m = (mapping_first m, tl m)"

definition mapping_pop_last :: "mapping \<Rightarrow> (string \<times> value) option \<times> mapping" where
  "mapping_pop_last m = (mapping_last m, butlast m)"

definition mapping_sort_keys :: "mapping \<Rightarrow> mapping" where
  "mapping_sort_keys m = sort_key fst m"

definition mapping_extend :: "mapping \<Rightarrow> (string \<times> value) list \<Rightarrow> mapping" where
  "mapping_extend m kvs = imap_extend m kvs"

definition mapping_from_iter :: "(string \<times> value) list \<Rightarrow> mapping" where
  "mapping_from_iter kvs = imap_extend [] kvs"

section \<open>Well-formed values\<close>

fun wf_value :: "value \<Rightarrow> bool" where
  "wf_value (VSequence xs) = list_all wf_value xs"
| "wf_value (VMapping m) = (imap_valid m \<and> list_all (\<lambda>(k, v). wf_value v) m)"
| "wf_value (VTagged t v) = wf_value v"
| "wf_value _ = True"

definition wf_mapping :: "mapping \<Rightarrow> bool" where
  "wf_mapping m \<longleftrightarrow> imap_valid m \<and> (\<forall>(k, v) \<in> set m. wf_value v)"

lemma wf_value_VMapping: "wf_value (VMapping m) = wf_mapping m"
  by (simp add: wf_mapping_def list_all_iff)

lemma wf_mapping_Nil [simp]: "wf_mapping []"
  by (simp add: wf_mapping_def)

lemma wf_mapping_get: "wf_mapping m \<Longrightarrow> imap_get m k = Some v \<Longrightarrow> wf_value v"
  by (auto simp: wf_mapping_def dest: imap_get_in_set)

lemma wf_mapping_insert: "wf_mapping m \<Longrightarrow> wf_value v \<Longrightarrow> wf_mapping (imap_insert k v m)"
  using imap_insert_set[of k v m] by (fastforce simp: wf_mapping_def imap_insert_valid)

lemma wf_mapping_remove: "wf_mapping m \<Longrightarrow> wf_mapping (imap_shift_remove k m)"
  using imap_shift_remove_set[of k m] by (fastforce simp: wf_mapping_def imap_remove_valid)

lemma wf_mapping_fill:
  "wf_mapping m \<Longrightarrow> \<forall>(k, v) \<in> set kvs. wf_value v \<Longrightarrow> wf_mapping (imap_fill m kvs)"
  using imap_fill_set[of m kvs] by (fastforce simp: wf_mapping_def imap_fill_valid)

lemma wf_mapping_extend:
  "wf_mapping m \<Longrightarrow> \<forall>(k, v) \<in> set kvs. wf_value v \<Longrightarrow> wf_mapping (imap_extend m kvs)"
  using imap_extend_set[of m kvs] by (fastforce simp: wf_mapping_def imap_extend_valid)

section \<open>Equality\<close>

text \<open>
  Derived \<open>PartialEq\<close> over \<open>Number\<close>'s, \<open>Tag\<close>'s and \<open>IndexMap\<close>'s: two maps are equal when they
  have as many entries and every entry of one is found in the other, in any order.
\<close>

fun value_eq :: "value \<Rightarrow> value \<Rightarrow> bool" where
  "value_eq VNull VNull = True"
| "value_eq (VBool a) (VBool b) = (a = b)"
| "value_eq (VNumber a) (VNumber b) = number_eq a b"
| "value_eq (VString a) (VString b) = (a = b)"
| "value_eq (VSequence a) (VSequence b) = list_all2 value_eq a b"
| "value_eq (VMapping a) (VMapping b) =
     (length a = length b
      \<and> list_all (\<lambda>(k, v). case imap_get b k of None \<Rightarrow> False | Some w \<Rightarrow> value_eq v w) a)"
| "value_eq (VTagged s a) (VTagged t b) = (tag_eq s t \<and> value_eq a b)"
| "value_eq _ _ = False"

section \<open>Hashing\<close>

datatype hash_write = HashInt int | HashText string

fun value_hash :: "value \<Rightarrow> hash_write list" where
  "value_hash VNull = [HashInt 0]"
| "value_hash (VBool b) = [HashInt 1, HashInt (if b then 1 else 0)]"
| "value_hash (VNumber n) = [HashInt 2, HashInt (int (fst (number_hash n))), HashInt (snd (number_hash n))]"
| "value_hash (VString s) = [HashInt 3, HashText s]"
| "value_hash (VSequence xs) = [HashInt 4, HashInt (int (length xs))] @ concat (map value_hash xs)"
| "value_hash (VMapping m) =
     [HashInt 5, HashInt (int (length m))] @ concat (map (\<lambda>(k, v). HashText k # value_hash v) m)"
| "value_hash (VTagged t v) =
     [HashInt 6, HashText (nobang (tag_text t)), HashInt (if tag_is_directive t then 1 else 0)]
     @ value_hash v"

section \<open>Order\<close>

fun type_order :: "value \<Rightarrow> nat" where
  "type_order VNull = 0"
| "type_order (VBool _) = 1"
| "type_order (VNumber _) = 2"
| "type_order (VString _) = 3"
| "type_order (VSequence _) = 4"
| "type_order (VMapping _) = 5"
| "type_order (VTagged _ _) = 6"

fun value_cmp :: "value \<Rightarrow> value \<Rightarrow> ordering"
  and items_cmp :: "value list \<Rightarrow> value list \<Rightarrow> ordering"
  and entries_cmp :: "(string \<times> value) list \<Rightarrow> (string \<times> value) list \<Rightarrow> ordering" where
  "value_cmp VNull VNull = Equal"
| "value_cmp (VBool a) (VBool b) = cmp a b"
| "value_cmp (VNumber a) (VNumber b) = number_cmp a b"
| "value_cmp (VString a) (VString b) = cmp a b"
| "value_cmp (VSequence a) (VSequence b) =
     ordering_then (cmp (length a) (length b)) (items_cmp a b)"
| "value_cmp (VMapping a) (VMapping b) =
     ordering_then (cmp (length a) (length b)) (entries_cmp a b)"
| "value_cmp (VTagged s a) (VTagged t b) =
     ordering_then (cmp (tag_text s) (tag_text t)) (value_cmp a b)"
| "value_cmp a b = cmp (type_order a) (type_order b)"
| "items_cmp (a # as) (b # bs) = ordering_then (value_cmp a b) (items_cmp as bs)"
| "items_cmp _ _ = Equal"
| "entries_cmp ((k, a) # as) ((l, b) # bs) =
     ordering_then (cmp k l) (ordering_then (value_cmp a b) (entries_cmp as bs))"
| "entries_cmp _ _ = Equal"

section \<open>Display\<close>

definition comma_separated :: "string list \<Rightarrow> string" where
  "comma_separated parts =
     (case parts of [] \<Rightarrow> [] | p # ps \<Rightarrow> p @ concat (map (\<lambda>q. '', '' @ q) ps))"

fun value_display :: "(f64 \<Rightarrow> string) \<Rightarrow> value \<Rightarrow> string" where
  "value_display fmt VNull = ''null''"
| "value_display fmt (VBool b) = (if b then ''true'' else ''false'')"
| "value_display fmt (VNumber n) = number_display fmt n"
| "value_display fmt (VString s) = s"
| "value_display fmt (VSequence xs) = ''['' @ comma_separated (map (value_display fmt) xs) @ '']''"
| "value_display fmt (VMapping m) =
     ''{'' @ comma_separated (map (\<lambda>(k, v). k @ '': '' @ value_display fmt v) m) @ ''}''"
| "value_display fmt (VTagged t v) = tag_text t @ '' '' @ value_display fmt v"

section \<open>Laws of equality and order\<close>

lemma tag_eq_laws:
  "tag_eq a a" "tag_eq a b \<Longrightarrow> tag_eq b a" "tag_eq a b \<Longrightarrow> tag_eq b c \<Longrightarrow> tag_eq a c"
  by (auto simp: tag_eq_def)

lemma value_eq_refl: "wf_value v \<Longrightarrow> value_eq v v"
proof (induction v)
  case (VSequence xs)
  then show ?case by (auto simp: list_all_iff intro!: list.rel_refl_strong)
next
  case (VMapping m)
  then have "imap_get m k = Some v \<and> value_eq v v" if "(k, v) \<in> set m" for k v
    using that by (auto simp: list_all_iff imap_get_iff)
  then show ?case by (auto simp: list_all_iff)
qed (simp_all add: tag_eq_laws)

lemma same_keys:
  assumes "imap_valid a" "imap_valid b" "length a = length b"
    and "\<forall>(k, v) \<in> set a. imap_get b k \<noteq> None"
  shows "set (map fst a) = set (map fst b)"
proof (rule card_subset_eq)
  show "set (map fst a) \<subseteq> set (map fst b)"
    using assms(4) by (auto simp: imap_get_None_iff)
  show "card (set (map fst a)) = card (set (map fst b))"
    using assms(1-3) unfolding imap_valid_def by (metis distinct_card length_map)
qed simp

lemma mapping_eq_lookup:
  assumes "value_eq (VMapping a) (VMapping b)" and "imap_valid a" "imap_valid b"
  shows "rel_option value_eq (imap_get a k) (imap_get b k)"
proof -
  have len: "length a = length b"
    and all: "\<And>k v. (k, v) \<in> set a \<Longrightarrow> \<exists>w. imap_get b k = Some w \<and> value_eq v w"
    using assms(1) by (auto simp: list_all_iff split: option.splits)
  have keys: "set (map fst a) = set (map fst b)"
    using same_keys[OF assms(2,3) len] all by fastforce
  show ?thesis
  proof (cases "imap_get a k")
    case None
    then show ?thesis using keys by (metis imap_get_None_iff option.rel_inject(1))
  next
    case (Some v)
    then obtain w where "imap_get b k = Some w" "value_eq v w"
      using all imap_get_in_set[OF Some] by blast
    with Some show ?thesis by simp
  qed
qed

lemma mapping_eqI:
  assumes "imap_valid a" "imap_valid b" and "\<And>k. rel_option value_eq (imap_get a k) (imap_get b k)"
  shows "value_eq (VMapping a) (VMapping b)"
proof -
  have keys: "set (map fst a) = set (map fst b)"
    using assms(3) imap_get_None_iff[of a] imap_get_None_iff[of b]
    by (metis equalityI option.rel_distinct(1,2) option.exhaust_sel subsetI)
  have "length a = length b"
    using keys assms(1,2) unfolding imap_valid_def by (metis distinct_card length_map)
  moreover have "case imap_get b k of None \<Rightarrow> False | Some w \<Rightarrow> value_eq v w" if "(k, v) \<in> set a" for k v
    using assms(3)[of k] imap_get_iff[OF assms(1)] that
    by (metis option.case(2) option.rel_cases option.inject option.distinct(1))
  ultimately show ?thesis by (auto simp: list_all_iff)
qed

lemma value_eq_sym: "wf_value a \<Longrightarrow> wf_value b \<Longrightarrow> value_eq a b \<Longrightarrow> value_eq b a"
proof (induction a b rule: value_eq.induct)
  case (3 a b)
  then show ?case using number_eq_sym by simp
next
  case (5 a b)
  then show ?case by (auto simp: list_all2_conv_all_nth list_all_length)
next
  case (6 a b)
  have va: "imap_valid a" and vb: "imap_valid b" using "6.prems" by auto
  have "rel_option value_eq (imap_get b k) (imap_get a k)" for k
  proof -
    have r: "rel_option value_eq (imap_get a k) (imap_get b k)"
      by (rule mapping_eq_lookup[OF "6.prems"(3) va vb])
    show ?thesis
    proof (cases "imap_get a k")
      case None
      with r show ?thesis by simp
    next
      case (Some v)
      with r obtain w where w: "imap_get b k = Some w" "value_eq v w" by (auto simp: option_rel_Some1)
      have "wf_mapping a" "wf_mapping b" using "6.prems"(1,2) by (simp_all only: wf_value_VMapping)
      then have "wf_value v" "wf_value w" using wf_mapping_get Some w(1) by blast+
      with "6.IH"[of "(k, v)" k v w] imap_get_in_set[OF Some] w "6.prems" Some
      show ?thesis by auto
    qed
  qed
  then show ?case by (rule mapping_eqI[OF vb va])
qed (simp_all add: tag_eq_def)

lemma value_eq_left:
  "value_eq VNull c = (c = VNull)" "value_eq (VBool b) c = (c = VBool b)"
  "value_eq (VString s) c = (c = VString s)"
  by (cases c; auto)+

lemma value_eq_trans:
  "\<lbrakk>wf_value a; wf_value b; wf_value c; value_eq a b; value_eq b c\<rbrakk> \<Longrightarrow> value_eq a c"
proof (induction a b arbitrary: c rule: value_eq.induct)
  case (3 a b)
  then show ?case by (cases c) (simp_all, blast intro: number_eq_trans)
next
  case (5 a b)
  then obtain d where c: "c = VSequence d" by (cases c) auto
  have "value_eq (a ! i) (d ! i)" if "i < length a" for i
    using "5.IH"[of "a ! i" "b ! i" "d ! i"] "5.prems" that
    by (auto simp: c list_all2_conv_all_nth list_all_length)
  then show ?case using "5.prems" by (auto simp: c list_all2_conv_all_nth)
next
  case (6 a b)
  then obtain m where c: "c = VMapping m" by (cases c) auto
  have va: "imap_valid a" and vb: "imap_valid b" and vm: "imap_valid m" using "6.prems" c by auto
  have "rel_option value_eq (imap_get a k) (imap_get m k)" for k
  proof -
    have r: "rel_option value_eq (imap_get a k) (imap_get b k)"
      "rel_option value_eq (imap_get b k) (imap_get m k)"
      using mapping_eq_lookup "6.prems" c va vb vm by auto
    show ?thesis
    proof (cases "imap_get a k")
      case None
      with r show ?thesis by simp
    next
      case (Some v)
      with r obtain w u where w: "imap_get b k = Some w" "value_eq v w"
        and u: "imap_get m k = Some u" "value_eq w u" by (auto simp: option_rel_Some1)
      have "wf_mapping a" "wf_mapping b" "wf_mapping m"
        using "6.prems"(1-3) c by (simp_all only: wf_value_VMapping)
      then have "wf_value v" "wf_value w" "wf_value u" using wf_mapping_get Some w(1) u(1) by blast+
      with "6.IH"[of "(k, v)" k v w u] imap_get_in_set[OF Some] w u "6.prems" Some
      show ?thesis by auto
    qed
  qed
  then show ?case unfolding c by (rule mapping_eqI[OF va vm])
next
  case (7 s a t b)
  obtain u w where c: "c = VTagged u w" using "7.prems"(5) by (cases c) simp_all
  have eqs: "tag_eq s t" "value_eq a b" "tag_eq t u" "value_eq b w"
    and wf: "wf_value a" "wf_value b" "wf_value w" using "7.prems" c by simp_all
  have "value_eq a w" by (rule "7.IH"[OF wf eqs(2,4)])
  moreover have "tag_eq s u" by (rule tag_eq_laws(3)[OF eqs(1,3)])
  ultimately show ?case by (simp add: c)
qed (simp_all add: value_eq_left)

text \<open>
  \<open>Value\<close>'s \<open>PartialEq\<close> is the equivalence that \<open>Eq\<close> announces, on every value whose
  mappings have distinct keys (what \<open>IndexMap\<close> guarantees): reflexive with NaN inside, symmetric
  and transitive although mappings are compared without regard to order.
\<close>

theorem value_eq_equivalence:
  assumes "wf_value a" "wf_value b" "wf_value c"
  shows "value_eq a a \<and> (value_eq a b \<longrightarrow> value_eq b a)
    \<and> (value_eq a b \<and> value_eq b c \<longrightarrow> value_eq a c)"
  using value_eq_refl value_eq_sym value_eq_trans assms by blast

theorem value_eq_equivalence_witness:
  "value_eq (VMapping [(''x'', VNull), (''y'', VSequence [])])
            (VMapping [(''x'', VNull), (''y'', VSequence [])])"
proof -
  have "wf_value (VMapping [(''x'', VNull), (''y'', VSequence [])])"
    by (simp add: imap_valid_def)
  from value_eq_equivalence[OF this this this] show ?thesis by blast
qed

lemma ordering_then_reverse:
  "ordering_reverse (ordering_then a b) = ordering_then (ordering_reverse a) (ordering_reverse b)"
  by (cases a) (auto simp: ordering_then_def)

lemma number_cmp_swap: "number_cmp b a = ordering_reverse (number_cmp a b)"
proof (cases a; cases b)
  fix m n assume "a = Integer m" "b = Integer n"
  then show ?thesis using cmp_reverse[of n m] by simp
next
  fix x y assume "a = Float x" "b = Float y"
  then show ?thesis using float_cmp_swap[of y x] by simp
qed simp_all

lemma cmp_swap_type_order:
  "type_order a \<noteq> type_order b \<Longrightarrow> value_cmp a b = cmp (type_order a) (type_order b)"
  by (cases a; cases b) auto

lemma items_cmp_swap:
  "(\<And>a b. a \<in> set xs \<Longrightarrow> value_cmp b a = ordering_reverse (value_cmp a b)) \<Longrightarrow>
    items_cmp ys xs = ordering_reverse (items_cmp xs ys)"
proof (induction xs arbitrary: ys)
  case Nil
  then show ?case by (cases ys) auto
next
  case (Cons a xs)
  then show ?case by (cases ys) (auto simp: ordering_then_reverse)
qed

lemma entries_cmp_swap:
  "(\<And>k a b. (k, a) \<in> set xs \<Longrightarrow> value_cmp b a = ordering_reverse (value_cmp a b)) \<Longrightarrow>
    entries_cmp ys xs = ordering_reverse (entries_cmp xs ys)"
proof (induction xs arbitrary: ys)
  case Nil
  then show ?case by (cases ys) auto
next
  case (Cons e xs)
  obtain k a where e: "e = (k, a)" by fastforce
  show ?case
  proof (cases ys)
    case Nil
    then show ?thesis by (simp add: e)
  next
    case (Cons f zs)
    obtain l b where f: "f = (l, b)" by fastforce
    have "entries_cmp zs xs = ordering_reverse (entries_cmp xs zs)"
      using Cons.IH Cons.prems by auto
    moreover have "value_cmp b a = ordering_reverse (value_cmp a b)"
      using Cons.prems e by auto
    ultimately show ?thesis
      by (simp add: Cons e f ordering_then_reverse cmp_reverse[of l k])
  qed
qed

lemma value_cmp_swap: "value_cmp b a = ordering_reverse (value_cmp a b)"
proof (induction a arbitrary: b)
  case VNull
  then show ?case by (cases b) (simp_all add: cmp_def)
next
  case (VBool x)
  show ?case
  proof (cases b)
    case (VBool y)
    then show ?thesis using cmp_reverse[of y x] by simp
  qed (simp_all add: cmp_def)
next
  case (VNumber x)
  show ?case
  proof (cases b)
    case (VNumber y)
    then show ?thesis using number_cmp_swap[of y x] by simp
  qed (simp_all add: cmp_def)
next
  case (VString x)
  show ?case
  proof (cases b)
    case (VString y)
    then show ?thesis using cmp_reverse[of y x] by simp
  qed (simp_all add: cmp_def)
next
  case (VSequence xs)
  show ?case
  proof (cases b)
    case (VSequence ys)
    have "items_cmp ys xs = ordering_reverse (items_cmp xs ys)"
      by (rule items_cmp_swap) (rule VSequence.IH)
    then show ?thesis
      by (simp add: VSequence ordering_then_reverse cmp_reverse[of "length ys" "length xs"])
  qed (simp_all add: cmp_def)
next
  case (VMapping xs)
  show ?case
  proof (cases b)
    case (VMapping ys)
    have "entries_cmp ys xs = ordering_reverse (entries_cmp xs ys)"
      by (rule entries_cmp_swap) (use VMapping.IH in auto)
    then show ?thesis
      by (simp add: VMapping ordering_then_reverse cmp_reverse[of "length ys" "length xs"])
  qed (simp_all add: cmp_def)
next
  case (VTagged t v)
  show ?case
  proof (cases b)
    case (VTagged u w)
    then show ?thesis
      using VTagged.IH[of w] cmp_reverse[of "tag_text u" "tag_text t"]
      by (simp add: ordering_then_reverse)
  qed (simp_all add: cmp_def)
qed

text \<open>
  Concrete limits.  Equal mappings in different orders feed the hasher different bytes, and two
  tags that are equal up to the leading bang do not compare \<open>Equal\<close>.
\<close>

lemma value_eq_not_hash_compatible:
  "value_eq (VMapping [(''x'', VNull), (''y'', VBool True)]) (VMapping [(''y'', VBool True), (''x'', VNull)])
   \<and> value_hash (VMapping [(''x'', VNull), (''y'', VBool True)])
     \<noteq> value_hash (VMapping [(''y'', VBool True), (''x'', VNull)])"
  by simp

lemma value_cmp_disagrees_with_eq:
  "value_eq (VTagged (tag_new ''!a'') VNull) (VTagged (tag_new ''a'') VNull)
   \<and> value_cmp (VTagged (tag_new ''!a'') VNull) (VTagged (tag_new ''a'') VNull) \<noteq> Equal"
  by (simp add: tag_eq_def tag_new_def nobang_def ordering_then_def)

end
