(* ===== verification/Config.thy ===== *)
theory Config
  imports Events Errors Value
begin

text \<open>
  Model of the parse configuration (\<open>ParseConfig\<close> of \<open>parser/loader.rs\<close> with the policy enums of
  \<open>de/config.rs\<close>), of the "Safe YAML" policies of \<open>policy.rs\<close> and of \<open>TagRegistry\<close>.  A policy is
  its two methods, two functions; the built-in ones are defined.  \<open>lossless_u64_integers\<close> is off
  in the default features and left out.
\<close>

section \<open>Policies\<close>

datatype policy_event_kind = PScalar | PSequenceStart | PMappingStart | PAlias

record policy_event =
  pe_kind :: policy_event_kind
  pe_anchor :: "string option"
  pe_tag :: "string option"
  pe_scalar :: "string option"

record policy =
  check_event :: "policy_event \<Rightarrow> unit result"
  check_value :: "value \<Rightarrow> unit result"

definition core_tag_names :: "string list" where
  "core_tag_names =
     [''str'', ''int'', ''bool'', ''float'', ''null'', ''seq'', ''map'', ''binary'']"

definition is_core_tag :: "string \<Rightarrow> bool" where
  "is_core_tag tag \<longleftrightarrow>
     tag \<in> set (map (\<lambda>n. ''!!'' @ n) core_tag_names)
     \<or> tag \<in> set (map (\<lambda>n. ''tag:yaml.org,2002:'' @ n) core_tag_names)"

definition deny_anchors :: policy where
  "deny_anchors =
     \<lparr>check_event = (\<lambda>ev.
        case pe_anchor ev of
          Some name \<Rightarrow>
            Inl (Deserialize (''policy DenyAnchors: anchor '' @ [backtick] @ ''&'' @ name @ [backtick]
              @ '' is not allowed''))
        | None \<Rightarrow>
            if pe_kind ev = PAlias
            then Inl (Deserialize ''policy DenyAnchors: alias dereference is not allowed'')
            else Inr ()),
      check_value = (\<lambda>_. Inr ())\<rparr>"

definition deny_tags :: policy where
  "deny_tags =
     \<lparr>check_event = (\<lambda>ev.
        case pe_tag ev of
          Some tag \<Rightarrow>
            if \<not> is_core_tag tag
            then Inl (Deserialize (''policy DenyTags: tag '' @ [backtick] @ tag @ [backtick]
                   @ '' is not allowed''))
            else Inr ()
        | None \<Rightarrow> Inr ()),
      check_value = (\<lambda>_. Inr ())\<rparr>"

definition max_scalar_length :: "nat \<Rightarrow> policy" where
  "max_scalar_length limit =
     \<lparr>check_event = (\<lambda>ev.
        case pe_scalar ev of
          Some s \<Rightarrow>
            if length s > limit
            then Inl (Deserialize (''policy MaxScalarLength: scalar of '' @ show_nat (length s)
                   @ '' bytes exceeds limit of '' @ show_nat limit))
            else Inr ()
        | None \<Rightarrow> Inr ()),
      check_value = (\<lambda>_. Inr ())\<rparr>"

fun check_all :: "('a \<Rightarrow> 'b \<Rightarrow> unit result) \<Rightarrow> 'a list \<Rightarrow> 'b \<Rightarrow> unit result" where
  "check_all f [] x = Inr ()"
| "check_all f (p # ps) x = and_then (f p x) (\<lambda>_. check_all f ps x)"

definition check_document :: "policy list \<Rightarrow> value \<Rightarrow> unit result" where
  "check_document policies v = check_all check_value policies v"

lemma check_all_ok: "check_all f ps x = Inr () \<longleftrightarrow> (\<forall>p \<in> set ps. f p x = Inr ())"
  by (induction ps) (auto simp: res_simps)

section \<open>Tag registry\<close>

record tag_registry = known :: "string set"

definition registry_new :: tag_registry where "registry_new = \<lparr>known = {}\<rparr>"

definition registry_register :: "string \<Rightarrow> tag_registry \<Rightarrow> tag_registry" where
  "registry_register t r = r\<lparr>known := insert t (known r)\<rparr>"

definition registry_contains :: "tag_registry \<Rightarrow> string \<Rightarrow> bool" where
  "registry_contains r t \<longleftrightarrow> t \<in> known r"

definition registry_clear :: "tag_registry \<Rightarrow> tag_registry" where
  "registry_clear r = r\<lparr>known := {}\<rparr>"

definition tag_is_registry_stripped :: "string \<Rightarrow> string \<Rightarrow> tag_registry \<Rightarrow> bool" where
  "tag_is_registry_stripped handle suffix registry \<longleftrightarrow>
     (if handle = ''!!''
         \<and> suffix \<in> {''int'', ''float'', ''str'', ''bool'', ''null'', ''seq'', ''map''}
      then False else registry_contains registry (handle @ suffix))"

section \<open>Configuration\<close>

datatype merge_key_policy = MergeAuto | MergeAsOrdinary | MergeError
datatype duplicate_key_policy = DuplicateFirst | DuplicateLast | DuplicateError
datatype non_scalar_key_policy = Stringify | NonScalarError
datatype require_indent = Unchecked | Even | Divisible nat | Uniform "nat option"

text \<open>The stream-wide counters another document's parse may share.\<close>

record stream_tally =
  st_events :: nat
  st_nodes :: nat
  st_scalar_bytes :: nat
  st_merge_keys :: nat
  st_documents :: nat

text \<open>
  \<open>node_bytes\<close> is the constant \<open>NODE_BYTES\<close>, the size of a \<open>Value\<close> in memory, which the compiler
  fixes; it travels with the configuration so that every budget function has it.
\<close>

record parse_config =
  max_depth :: nat
  max_document_length :: nat
  max_alias_expansions :: nat
  max_mapping_keys :: nat
  max_sequence_length :: nat
  max_events :: nat
  max_nodes :: nat
  max_total_scalar_bytes :: nat
  max_documents :: nat
  max_merge_keys :: nat
  alias_anchor_ratio :: "f64 option"
  cfg_require_indent :: require_indent
  dup_key_policy :: duplicate_key_policy
  strict_booleans :: bool
  legacy_booleans :: bool
  merge_policy :: merge_key_policy
  no_schema :: bool
  legacy_octal_numbers :: bool
  legacy_sexagesimal :: bool
  leading_zero_integer_strings :: bool
  legacy_binary_numbers :: bool
  float_overflow_strings :: bool
  integer_overflow_errors :: bool
  non_scalar_policy :: non_scalar_key_policy
  alias_jump_event_factor :: "nat option"
  plain_scalar_strings :: bool
  policies :: "policy list"
  cfg_tag_registry :: "tag_registry option"
  cfg_stream_tally :: "stream_tally option"
  node_bytes :: nat

definition default_config :: "nat \<Rightarrow> parse_config" where
  "default_config size_of_value =
     \<lparr>max_depth = 128, max_document_length = 1024 * 1024 * 64, max_alias_expansions = 1024,
      max_mapping_keys = 1024 * 64, max_sequence_length = 1024 * 64, max_events = 1000000,
      max_nodes = 250000, max_total_scalar_bytes = 1024 * 1024 * 64, max_documents = 1000,
      max_merge_keys = 10000, alias_anchor_ratio = Some 0x4024000000000000,
      cfg_require_indent = Unchecked, dup_key_policy = DuplicateLast, strict_booleans = False,
      legacy_booleans = False, merge_policy = MergeAuto, no_schema = False,
      legacy_octal_numbers = False, legacy_sexagesimal = False,
      leading_zero_integer_strings = False, legacy_binary_numbers = False,
      float_overflow_strings = False, integer_overflow_errors = False,
      non_scalar_policy = Stringify, alias_jump_event_factor = None, plain_scalar_strings = False,
      policies = [], cfg_tag_registry = None, cfg_stream_tally = None, node_bytes = size_of_value\<rparr>"

end
