(* ===== verification/Swar.thy ===== *)
theory Swar
  imports Text
begin

text \<open>
  Model of the decimal parsers of \<open>simd.rs\<close>: eight digits at a time inside one 64-bit register
  (SWAR), the checked accumulation into a \<open>u64\<close>, and the signed form.  The register operations
  are those of \<open>64 word\<close>.  The lemmas show that the parsers agree with the digit-by-digit
  reading, and with \<open>str::parse::<i64>\<close>, on every input.
\<close>

unbundle bit_operations_syntax

section \<open>Definitions\<close>

text \<open>\<open>u64::from_be_bytes\<close>.\<close>

definition from_be_bytes :: "string \<Rightarrow> 64 word" where
  "from_be_bytes bs = word_of_nat (foldl (\<lambda>acc c. acc * 256 + byte c) 0 bs)"

definition parse_8_digits :: "string \<Rightarrow> 64 word option" where
  "parse_8_digits arr =
     (let chunk = from_be_bytes arr in
      if chunk AND 0xF0F0F0F0F0F0F0F0 \<noteq> 0x3030303030303030 then None
      else if (chunk + 0x0606060606060606) AND 0xF0F0F0F0F0F0F0F0 \<noteq> 0x3030303030303030 then None
      else
        let sub = chunk AND 0x0F0F0F0F0F0F0F0F;
            high = drop_bit 8 (sub AND 0xFF00FF00FF00FF00);
            low = sub AND 0x00FF00FF00FF00FF;
            chunk = high * 10 + low;
            high = drop_bit 16 (chunk AND 0xFFFF0000FFFF0000);
            low = chunk AND 0x0000FFFF0000FFFF;
            chunk = high * 100 + low;
            high = drop_bit 32 chunk;
            low = chunk AND 0xFFFFFFFF
        in Some (high * 10000 + low))"

definition u64_max :: nat where "u64_max = 2 ^ 64 - 1"

definition checked_mul_add :: "nat \<Rightarrow> nat \<Rightarrow> nat \<Rightarrow> nat option" where
  "checked_mul_add a m b =
     (if a * m > u64_max then None else if a * m + b > u64_max then None else Some (a * m + b))"

fun scalar_tail :: "nat \<Rightarrow> string \<Rightarrow> nat option" where
  "scalar_tail result [] = Some result"
| "scalar_tail result (b # bs) =
     (if \<not> is_ascii_digit b then None
      else case checked_mul_add result 10 (digit_val b) of
             None \<Rightarrow> None
           | Some r \<Rightarrow> scalar_tail r bs)"

function swar_loop :: "nat \<Rightarrow> string \<Rightarrow> nat option" where
  "swar_loop result bs =
     (if 8 \<le> length bs then
        (case parse_8_digits (take 8 bs) of
           None \<Rightarrow> None
         | Some eight \<Rightarrow>
             (case checked_mul_add result 100000000 (unat eight) of
                None \<Rightarrow> None
              | Some r \<Rightarrow> swar_loop r (drop 8 bs)))
      else scalar_tail result bs)"
  by pat_completeness auto

termination by (relation "measure (\<lambda>(_, bs). length bs)") auto

declare swar_loop.simps [simp del]

definition parse_decimal_u64 :: "string \<Rightarrow> nat option" where
  "parse_decimal_u64 bytes = (if bytes = [] then None else swar_loop 0 bytes)"

definition parse_decimal_i64 :: "string \<Rightarrow> int option" where
  "parse_decimal_i64 bytes =
     (case bytes of
        [] \<Rightarrow> None
      | b # rest \<Rightarrow>
          let negative = (b = CHR ''-'');
              digits = (if b = CHR ''-'' \<or> b = CHR ''+'' then rest else bytes)
          in case parse_decimal_u64 digits of
               None \<Rightarrow> None
             | Some a \<Rightarrow>
                 if negative then
                   (if a = 2 ^ 63 then Some (- (2 ^ 63))
                    else if a \<le> 2 ^ 63 - 1 then Some (- int a) else None)
                 else if a \<le> 2 ^ 63 - 1 then Some (int a) else None)"

section \<open>Registers as lanes\<close>

text \<open>The number whose lanes of \<open>k\<close> bits are \<open>xs\<close>, most significant first.\<close>

definition lanes :: "nat \<Rightarrow> nat list \<Rightarrow> nat" where
  "lanes k xs = foldl (\<lambda>acc x. acc * 2 ^ k + x) 0 xs"

lemma lanes_Nil [simp]: "lanes k [] = 0"
  by (simp add: lanes_def)

lemma lanes_snoc: "lanes k (xs @ [x]) = lanes k xs * 2 ^ k + x"
  by (simp add: lanes_def)

lemma and_lane:
  fixes a b c d :: nat
  assumes "b < 2 ^ k" "d < 2 ^ k"
  shows "(a * 2 ^ k + b) AND (c * 2 ^ k + d) = (a AND c) * 2 ^ k + (b AND d)"
proof -
  let ?x = "a * 2 ^ k + b" and ?y = "c * 2 ^ k + d"
  have x: "drop_bit k ?x = a" "take_bit k ?x = b" and y: "drop_bit k ?y = c" "take_bit k ?y = d"
    using assms by (simp_all add: drop_bit_eq_div take_bit_eq_mod)
  have "?x AND ?y = push_bit k (drop_bit k (?x AND ?y)) + take_bit k (?x AND ?y)"
    by (simp only: bits_ident)
  also have "\<dots> = (a AND c) * 2 ^ k + (b AND d)"
    by (simp add: x y drop_bit_and take_bit_and push_bit_eq_mult del: take_bit_and[symmetric])
  finally show ?thesis .
qed

lemma lanes_and:
  "\<lbrakk>length xs = length ys; \<forall>x \<in> set xs. x < 2 ^ k; \<forall>y \<in> set ys. y < 2 ^ k\<rbrakk> \<Longrightarrow>
   lanes k xs AND lanes k ys = lanes k (map2 (AND) xs ys)"
proof (induction xs arbitrary: ys rule: rev_induct)
  case (snoc x xs)
  then obtain zs y where "ys = zs @ [y]" "length xs = length zs" by (cases ys rule: rev_cases) auto
  with snoc show ?case by (simp add: lanes_snoc and_lane)
qed simp

lemma lanes_eq:
  "\<lbrakk>length xs = length ys; \<forall>x \<in> set xs. x < 2 ^ k; \<forall>y \<in> set ys. y < 2 ^ k\<rbrakk> \<Longrightarrow>
   lanes k xs = lanes k ys \<longleftrightarrow> xs = ys"
proof (induction xs arbitrary: ys rule: rev_induct)
  case (snoc x xs)
  then obtain zs y where ys: "ys = zs @ [y]" "length xs = length zs" by (cases ys rule: rev_cases) auto
  have "lanes k xs * 2 ^ k + x = lanes k zs * 2 ^ k + y \<longleftrightarrow> lanes k xs = lanes k zs \<and> x = y"
  proof
    assume eq: "lanes k xs * 2 ^ k + x = lanes k zs * 2 ^ k + y"
    have "x < 2 ^ k" "y < 2 ^ k" using snoc.prems ys by simp_all
    then show "lanes k xs = lanes k zs \<and> x = y"
      using arg_cong[OF eq, of "\<lambda>n. n div 2 ^ k"] arg_cong[OF eq, of "\<lambda>n. n mod 2 ^ k"] by simp
  qed simp
  with snoc ys show ?case by (simp add: lanes_snoc)
qed simp

lemma nibble_and:
  fixes b :: nat
  assumes "b < 256"
  shows "b AND 240 = 16 * (b div 16)" "b AND 15 = b mod 16"
proof -
  have 15: "x AND 15 = x mod 16" for x :: nat
    using take_bit_eq_mask[of 4 x] by (simp add: take_bit_eq_mod mask_eq_exp_minus_1)
  then show "b AND 15 = b mod 16" .
  have "((b div 16) * 2 ^ 4 + b mod 16) AND (15 * 2 ^ 4 + 0) = ((b div 16) AND 15) * 2 ^ 4 + (b mod 16 AND 0)"
    by (rule and_lane) simp_all
  then show "b AND 240 = 16 * (b div 16)" using assms by (simp add: 15)
qed

lemma full_lane: "x < 2 ^ k \<Longrightarrow> x AND (2 ^ k - 1) = (x :: nat)"
  using take_bit_eq_mask[of k x] by (simp add: take_bit_eq_mod mask_eq_exp_minus_1)

lemma lanes_bound: "\<forall>x \<in> set xs. x < 2 ^ k \<Longrightarrow> lanes k xs < 2 ^ (k * length xs)"
proof (induction xs rule: rev_induct)
  case (snoc x xs)
  then have "lanes k xs + 1 \<le> 2 ^ (k * length xs)" "x + 1 \<le> 2 ^ k" by (auto simp: Suc_le_eq)
  then have "(lanes k xs + 1) * 2 ^ k \<le> 2 ^ (k * length xs) * 2 ^ k"
    by (intro mult_right_mono) auto
  then have "lanes k xs * 2 ^ k + x + 1 \<le> 2 ^ (k * length xs) * 2 ^ k"
    using \<open>x + 1 \<le> 2 ^ k\<close> by (simp add: algebra_simps)
  then show ?case by (simp add: lanes_snoc power_add algebra_simps)
qed simp

text \<open>Masks and constants as lanes.\<close>

lemma replicate_8: "replicate 8 x = [x, x, x, x, x, x, x, x]"
  by (simp add: numeral_eq_Suc)

lemma mask_lanes:
  "unat (0xF0F0F0F0F0F0F0F0 :: 64 word) = lanes 8 (replicate 8 240)"
  "unat (0x3030303030303030 :: 64 word) = lanes 8 (replicate 8 48)"
  "unat (0x0606060606060606 :: 64 word) = lanes 8 (replicate 8 6)"
  "unat (0x0F0F0F0F0F0F0F0F :: 64 word) = lanes 8 (replicate 8 15)"
  "unat (0xFF00FF00FF00FF00 :: 64 word) = lanes 8 [255, 0, 255, 0, 255, 0, 255, 0]"
  "unat (0x00FF00FF00FF00FF :: 64 word) = lanes 8 [0, 255, 0, 255, 0, 255, 0, 255]"
  "unat (0xFFFF0000FFFF0000 :: 64 word) = lanes 16 [65535, 0, 65535, 0]"
  "unat (0x0000FFFF0000FFFF :: 64 word) = lanes 16 [0, 65535, 0, 65535]"
  "unat (0xFFFFFFFF :: 64 word) = lanes 32 [0, 4294967295]"
  by (simp_all add: lanes_def replicate_8)

lemma foldl_bytes_lanes: "foldl (\<lambda>acc c. acc * 256 + byte c) 0 bs = lanes 8 (map byte bs)"
  by (simp add: lanes_def foldl_map)

lemma byte_less: "byte c < 256"
  by (simp add: byte_def)

lemma unat_from_be_bytes:
  assumes "length bs = 8"
  shows "unat (from_be_bytes bs) = lanes 8 (map byte bs)"
proof -
  have "lanes 8 (map byte bs) < 2 ^ (8 * 8)"
    using lanes_bound[of "map byte bs" 8] assms byte_less by simp
  then show ?thesis by (simp add: from_be_bytes_def foldl_bytes_lanes unat_of_nat)
qed

lemma all_nibbles_3:
  assumes "length xs = 8" "\<forall>x \<in> set xs. x < 256"
  shows "lanes 8 xs AND lanes 8 (replicate 8 240) = lanes 8 (replicate 8 48)
    \<longleftrightarrow> (\<forall>x \<in> set xs. 48 \<le> x \<and> x < 64)"
proof -
  have map2: "map2 (AND) xs (replicate 8 (240::nat)) = map (\<lambda>x. 16 * (x div 16)) xs"
    using assms by (intro nth_equalityI) (auto simp: nibble_and)
  have "lanes 8 xs AND lanes 8 (replicate 8 240) = lanes 8 (map2 (AND) xs (replicate 8 240))"
    using assms by (intro lanes_and) auto
  also have "\<dots> = lanes 8 (replicate 8 48) \<longleftrightarrow> map (\<lambda>x. 16 * (x div 16)) xs = replicate 8 48"
    unfolding map2 using assms by (intro lanes_eq) (auto simp: less_mult_imp_div_less)
  also have "\<dots> \<longleftrightarrow> (\<forall>x \<in> set xs. 16 * (x div 16) = 48)"
    using assms(1) by (simp add: list_eq_iff_nth_eq all_set_conv_all_nth)
  also have "\<dots> \<longleftrightarrow> (\<forall>x \<in> set xs. 48 \<le> x \<and> x < 64)"
    by (intro ball_cong refl) presburger
  finally show ?thesis by simp
qed

text \<open>The three folding phases, on eight digit lanes.\<close>

definition fold_lanes :: "64 word \<Rightarrow> 64 word" where
  "fold_lanes sub =
     (let high = drop_bit 8 (sub AND 0xFF00FF00FF00FF00);
          low = sub AND 0x00FF00FF00FF00FF;
          chunk = high * 10 + low;
          high = drop_bit 16 (chunk AND 0xFFFF0000FFFF0000);
          low = chunk AND 0x0000FFFF0000FFFF;
          chunk = high * 100 + low;
          high = drop_bit 32 chunk;
          low = chunk AND 0xFFFFFFFF
      in high * 10000 + low)"

lemma list8: "length xs = 8 \<Longrightarrow> \<exists>a b c d e f g h. xs = [a, b, c, d, e, f, g, h]"
  by (auto simp: numeral_eq_Suc length_Suc_conv)

lemma unat_mul_add:
  fixes x y m :: "64 word"
  assumes "unat x * unat m + unat y < 2 ^ 64"
  shows "unat (x * m + y) = unat x * unat m + unat y"
proof -
  have "unat (x * m) = unat x * unat m" using assms by (simp add: unat_mult_lem[symmetric])
  then show ?thesis using assms by (subst unat_add_lem[THEN iffD1]) simp_all
qed

lemma and_255: "x < 256 \<Longrightarrow> x AND 255 = (x::nat)" and and_65535: "y < 65536 \<Longrightarrow> y AND 65535 = (y::nat)"
  and and_32: "z < 4294967296 \<Longrightarrow> z AND 4294967295 = (z::nat)"
  using full_lane[of x 8] full_lane[of y 16] full_lane[of z 32] by simp_all

lemma unat_fold_lanes:
  fixes sub :: "64 word"
  assumes "unat sub = lanes 8 [a, b, c, d, e, f, g, h]"
    and "a < 10" "b < 10" "c < 10" "d < 10" "e < 10" "f < 10" "g < 10" "h < 10"
  shows "unat (fold_lanes sub)
    = ((((((a * 10 + b) * 10 + c) * 10 + d) * 10 + e) * 10 + f) * 10 + g) * 10 + h"
proof -
  have hi: "unat (drop_bit 8 (sub AND 0xFF00FF00FF00FF00)) = lanes 16 [a, c, e, g]"
  proof -
    have "unat (sub AND 0xFF00FF00FF00FF00) = lanes 8 [a, 0, c, 0, e, 0, g, 0]"
      unfolding unsigned_and_eq mask_lanes(5) assms(1)
      by (subst lanes_and) (use assms(2-) in \<open>simp_all add: and_255\<close>)
    then show ?thesis unfolding unat_drop_bit_eq by (simp add: drop_bit_eq_div lanes_def)
  qed
  have lo: "unat (sub AND 0x00FF00FF00FF00FF) = lanes 16 [b, d, f, h]"
  proof -
    have "unat (sub AND 0x00FF00FF00FF00FF) = lanes 8 [0, b, 0, d, 0, f, 0, h]"
      unfolding unsigned_and_eq mask_lanes(6) assms(1)
      by (subst lanes_and) (use assms(2-) in \<open>simp_all add: and_255\<close>)
    then show ?thesis by (simp add: lanes_def)
  qed
  define chunk where "chunk = drop_bit 8 (sub AND 0xFF00FF00FF00FF00) * 10 + (sub AND 0x00FF00FF00FF00FF)"
  have chunk: "unat chunk = lanes 16 [a * 10 + b, c * 10 + d, e * 10 + f, g * 10 + h]"
    unfolding chunk_def
    by (subst unat_mul_add) (use hi lo assms(2-) in \<open>simp_all add: lanes_def\<close>)
  have hi2: "unat (drop_bit 16 (chunk AND 0xFFFF0000FFFF0000)) = lanes 32 [a * 10 + b, e * 10 + f]"
  proof -
    have "unat (chunk AND 0xFFFF0000FFFF0000) = lanes 16 [a * 10 + b, 0, e * 10 + f, 0]"
      unfolding unsigned_and_eq mask_lanes(7) chunk
      by (subst lanes_and) (use assms(2-) in \<open>simp_all add: and_65535\<close>)
    then show ?thesis unfolding unat_drop_bit_eq by (simp add: drop_bit_eq_div lanes_def)
  qed
  have lo2: "unat (chunk AND 0x0000FFFF0000FFFF) = lanes 32 [c * 10 + d, g * 10 + h]"
  proof -
    have "unat (chunk AND 0x0000FFFF0000FFFF) = lanes 16 [0, c * 10 + d, 0, g * 10 + h]"
      unfolding unsigned_and_eq mask_lanes(8) chunk
      by (subst lanes_and) (use assms(2-) in \<open>simp_all add: and_65535\<close>)
    then show ?thesis by (simp add: lanes_def)
  qed
  define chunk2 where "chunk2 = drop_bit 16 (chunk AND 0xFFFF0000FFFF0000) * 100 + (chunk AND 0x0000FFFF0000FFFF)"
  let ?p = "(a * 10 + b) * 100 + (c * 10 + d)" and ?q = "(e * 10 + f) * 100 + (g * 10 + h)"
  have chunk2: "unat chunk2 = lanes 32 [?p, ?q]"
    unfolding chunk2_def
    by (subst unat_mul_add) (use hi2 lo2 assms(2-) in \<open>simp_all add: lanes_def\<close>)
  have hi3: "unat (drop_bit 32 chunk2) = ?p"
    unfolding unat_drop_bit_eq chunk2 using assms(2-) by (simp add: drop_bit_eq_div lanes_def)
  have lo3: "unat (chunk2 AND 0xFFFFFFFF) = ?q"
  proof -
    have "unat (chunk2 AND 0xFFFFFFFF) = lanes 32 [0, ?q]"
      unfolding unsigned_and_eq mask_lanes(9) chunk2
      by (subst lanes_and) (use assms(2-) in \<open>simp_all add: and_32\<close>)
    then show ?thesis by (simp add: lanes_def)
  qed
  have "fold_lanes sub = drop_bit 32 chunk2 * 10000 + (chunk2 AND 0xFFFFFFFF)"
    by (simp add: fold_lanes_def Let_def chunk_def chunk2_def)
  moreover have "unat (drop_bit 32 chunk2 * 10000 + (chunk2 AND 0xFFFFFFFF)) = ?p * 10000 + ?q"
    by (subst unat_mul_add) (use hi3 lo3 assms(2-) in simp_all)
  ultimately show ?thesis by simp
qed

section \<open>Eight digits\<close>

lemma digits_value_Cons8:
  "digits_value [a, b, c, d, e, f, g, h] =
     ((((((digit_val a * 10 + digit_val b) * 10 + digit_val c) * 10 + digit_val d) * 10 + digit_val e)
       * 10 + digit_val f) * 10 + digit_val g) * 10 + digit_val h"
  by (simp add: digits_value_def)

lemma parse_8_digits_fold:
  "parse_8_digits arr =
     (let chunk = from_be_bytes arr in
      if chunk AND 0xF0F0F0F0F0F0F0F0 \<noteq> 0x3030303030303030 then None
      else if (chunk + 0x0606060606060606) AND 0xF0F0F0F0F0F0F0F0 \<noteq> 0x3030303030303030 then None
      else Some (fold_lanes (chunk AND 0x0F0F0F0F0F0F0F0F)))"
  by (simp add: parse_8_digits_def fold_lanes_def Let_def)

lemma lanes_add_const:
  "lanes k xs + lanes k (replicate (length xs) c) = lanes k (map (\<lambda>x. x + c) xs)"
proof (induction xs rule: rev_induct)
  case (snoc x xs)
  have "replicate (length (xs @ [x])) c = replicate (length xs) c @ [c]"
    by (simp add: replicate_append_same)
  then have "lanes k (xs @ [x]) + lanes k (replicate (length (xs @ [x])) c)
      = (lanes k xs + lanes k (replicate (length xs) c)) * 2 ^ k + (x + c)"
    by (simp add: lanes_snoc algebra_simps del: replicate.simps)
  also have "\<dots> = lanes k (map (\<lambda>x. x + c) (xs @ [x]))"
    unfolding snoc.IH by (simp add: lanes_snoc)
  finally show ?case .
qed simp

lemma word_lanes_eq: "(w :: 64 word) = v \<longleftrightarrow> unat w = unat v"
  by (rule word_unat_eq_iff)

lemma parse_8_digits_value:
  assumes "length bs = 8"
  shows "parse_8_digits bs =
    (if \<forall>c \<in> set bs. is_ascii_digit c then Some (word_of_nat (digits_value bs)) else None)"
proof -
  define xs where "xs = map byte bs"
  define chunk where "chunk = from_be_bytes bs"
  have len: "length xs = 8" and small: "\<forall>x \<in> set xs. x < 256"
    using assms byte_less by (auto simp: xs_def)
  have u: "unat chunk = lanes 8 xs" using unat_from_be_bytes[OF assms] by (simp add: chunk_def xs_def)
  have first: "chunk AND 0xF0F0F0F0F0F0F0F0 = 0x3030303030303030 \<longleftrightarrow> (\<forall>x \<in> set xs. 48 \<le> x \<and> x < 64)"
    using all_nibbles_3[OF len small] unfolding word_lanes_eq unsigned_and_eq mask_lanes u .
  have second: "(chunk + 0x0606060606060606) AND 0xF0F0F0F0F0F0F0F0 = 0x3030303030303030
      \<longleftrightarrow> (\<forall>x \<in> set xs. x < 58)" if nib: "\<forall>x \<in> set xs. 48 \<le> x \<and> x < 64"
  proof -
    have add: "lanes 8 xs + lanes 8 (replicate 8 6) = lanes 8 (map (\<lambda>x. x + 6) xs)"
      using lanes_add_const[of 8 xs 6] len by simp
    have "lanes 8 (map (\<lambda>x. x + 6) xs) < 2 ^ (8 * length (map (\<lambda>x. x + 6) xs))"
      by (rule lanes_bound) (use nib in fastforce)
    then have "unat (chunk + 0x0606060606060606) = lanes 8 (map (\<lambda>x. x + 6) xs)"
      using add len by (subst unat_add_lem[THEN iffD1]) (simp_all only: u mask_lanes, simp_all)
    moreover have "lanes 8 (map (\<lambda>x. x + 6) xs) AND lanes 8 (replicate 8 240) = lanes 8 (replicate 8 48)
        \<longleftrightarrow> (\<forall>x \<in> set (map (\<lambda>x. x + 6) xs). 48 \<le> x \<and> x < 64)"
      by (rule all_nibbles_3) (use nib len in fastforce)+
    ultimately show ?thesis
      using nib unfolding word_lanes_eq unsigned_and_eq mask_lanes by fastforce
  qed
  have digits: "(\<forall>c \<in> set bs. is_ascii_digit c) \<longleftrightarrow> (\<forall>x \<in> set xs. 48 \<le> x \<and> x < 64) \<and> (\<forall>x \<in> set xs. x < 58)"
    by (auto simp: xs_def is_ascii_digit_def)
  show ?thesis
  proof (cases "\<forall>c \<in> set bs. is_ascii_digit c")
    case True
    obtain a b c d e f g h where bs: "bs = [a, b, c, d, e, f, g, h]" using list8[OF assms] by blast
    have dv: "byte x AND 15 = digit_val x" "digit_val x < 10" if "x \<in> set bs" for x
    proof -
      have x: "48 \<le> byte x" "byte x \<le> 57" using True that by (auto simp: is_ascii_digit_def)
      then show "digit_val x < 10" by (simp add: digit_val_def)
      have "byte x mod 16 = byte x - 48"
        using x by (subst le_mod_geq; simp)+
      then show "byte x AND 15 = digit_val x"
        using nibble_and(2)[OF byte_less[of x]] by (simp add: digit_val_def)
    qed
    have "unat (chunk AND 0x0F0F0F0F0F0F0F0F) = lanes 8 (map2 (AND) xs (replicate 8 15))"
      unfolding unsigned_and_eq mask_lanes u by (rule lanes_and) (use len small in auto)
    also have "map2 (AND) xs (replicate 8 15) = map digit_val bs"
      using dv by (simp add: xs_def bs replicate_8)
    finally have sub: "unat (chunk AND 0x0F0F0F0F0F0F0F0F) = lanes 8 (map digit_val bs)" .
    have "unat (fold_lanes (chunk AND 0x0F0F0F0F0F0F0F0F)) = digits_value bs"
      unfolding bs digits_value_Cons8
      by (rule unat_fold_lanes) (use sub dv in \<open>simp_all add: bs\<close>)
    then have "fold_lanes (chunk AND 0x0F0F0F0F0F0F0F0F) = word_of_nat (digits_value bs)"
      by (metis of_nat_unat ucast_id)
    with True digits first second show ?thesis
      by (simp add: parse_8_digits_fold chunk_def[symmetric] Let_def)
  next
    case False
    then show ?thesis
      using digits first second by (auto simp: parse_8_digits_fold chunk_def[symmetric] Let_def)
  qed
qed

section \<open>Whole numbers\<close>

text \<open>The digit-by-digit reading that the fast path has to agree with.\<close>

definition decimal_u64 :: "string \<Rightarrow> nat option" where
  "decimal_u64 s = (if all_digits s \<and> digits_value s \<le> u64_max then Some (digits_value s) else None)"

definition extend_value :: "nat \<Rightarrow> string \<Rightarrow> nat" where
  "extend_value r s = foldl (\<lambda>acc c. acc * 10 + digit_val c) r s"

lemma extend_value_simps:
  "extend_value r [] = r" "extend_value r (c # s) = extend_value (r * 10 + digit_val c) s"
  by (simp_all add: extend_value_def)

lemma extend_value_append: "extend_value r (s @ t) = extend_value (extend_value r s) t"
  by (simp add: extend_value_def)

lemma extend_value_shift: "extend_value r s = r * 10 ^ length s + digits_value s"
proof (induction s rule: rev_induct)
  case Nil
  then show ?case by (simp add: extend_value_def digits_value_def)
next
  case (snoc c s)
  then show ?case
    by (simp add: extend_value_append extend_value_simps digits_value_snoc algebra_simps)
qed

lemma extend_value_ge: "r \<le> extend_value r s"
  using mult_le_mono2[of 1 "10 ^ length s" r] by (simp add: extend_value_shift trans_le_add1)

lemma scalar_tail_value:
  "r \<le> u64_max \<Longrightarrow> scalar_tail r s =
     (if (\<forall>c \<in> set s. is_ascii_digit c) \<and> extend_value r s \<le> u64_max then Some (extend_value r s) else None)"
proof (induction r s rule: scalar_tail.induct)
  case (2 r b bs)
  show ?case
  proof (cases "is_ascii_digit b \<and> r * 10 + digit_val b \<le> u64_max")
    case True
    then have "checked_mul_add r 10 (digit_val b) = Some (r * 10 + digit_val b)"
      by (simp add: checked_mul_add_def)
    with True "2.IH" show ?thesis by (simp add: extend_value_simps)
  next
    case False
    then have "is_ascii_digit b \<Longrightarrow> checked_mul_add r 10 (digit_val b) = None"
      by (simp add: checked_mul_add_def)
    with False show ?thesis
      using extend_value_ge[of "r * 10 + digit_val b" bs] by (auto simp: extend_value_simps)
  qed
qed (simp add: extend_value_simps)

lemma digits_value_less: "\<forall>c \<in> set s. is_ascii_digit c \<Longrightarrow> digits_value s < 10 ^ length s"
proof (induction s rule: rev_induct)
  case (snoc c s)
  then have "digit_val c \<le> 9" "digits_value s + 1 \<le> 10 ^ length s"
    by (auto simp: is_ascii_digit_def digit_val_def)
  then show ?case by (simp add: digits_value_snoc)
qed (simp add: digits_value_def)

lemma swar_loop_value:
  "r \<le> u64_max \<Longrightarrow> swar_loop r s =
     (if (\<forall>c \<in> set s. is_ascii_digit c) \<and> extend_value r s \<le> u64_max then Some (extend_value r s) else None)"
proof (induction r s rule: swar_loop.induct)
  case (1 r s)
  show ?case
  proof (cases "8 \<le> length s")
    case False
    then show ?thesis
      using scalar_tail_value[OF "1.prems"] by (simp add: swar_loop.simps)
  next
    case True
    let ?t = "take 8 s" and ?d = "drop 8 s"
    have len: "length ?t = 8" using True by simp
    have all: "(\<forall>c \<in> set s. is_ascii_digit c) \<longleftrightarrow> (\<forall>c \<in> set ?t. is_ascii_digit c) \<and> (\<forall>c \<in> set ?d. is_ascii_digit c)"
      by (metis Un_iff append_take_drop_id set_append)
    have ext: "extend_value r s = extend_value (r * 100000000 + digits_value ?t) ?d"
      using extend_value_append[of r ?t ?d] extend_value_shift[of r ?t] len by simp
    show ?thesis
    proof (cases "\<forall>c \<in> set ?t. is_ascii_digit c")
      case False
      then have "parse_8_digits ?t = None" and "\<not> (\<forall>c \<in> set s. is_ascii_digit c)"
        using parse_8_digits_value[OF len] all by (simp_all only: if_False) blast+
      then show ?thesis
        using True by (subst swar_loop.simps) (simp only: if_True option.case if_False simp_thms)
    next
      case digits: True
      have "digits_value ?t < 10 ^ 8" using digits_value_less[OF digits] len by simp
      then have small: "unat (word_of_nat (digits_value ?t) :: 64 word) = digits_value ?t"
        by (simp add: unat_of_nat)
      have p: "parse_8_digits ?t = Some (word_of_nat (digits_value ?t))"
        using parse_8_digits_value[OF len] digits by simp
      show ?thesis
      proof (cases "r * 100000000 + digits_value ?t \<le> u64_max")
        case fits: True
        then have c: "checked_mul_add r 100000000 (digits_value ?t) = Some (r * 100000000 + digits_value ?t)"
          by (simp add: checked_mul_add_def)
        have "swar_loop r s = swar_loop (r * 100000000 + digits_value ?t) ?d"
          using True p small c by (subst swar_loop.simps) simp
        also have "\<dots> = (if (\<forall>c \<in> set ?d. is_ascii_digit c) \<and> extend_value r s \<le> u64_max
            then Some (extend_value r s) else None)"
          unfolding ext using "1.IH"[OF True p _ fits] c small by simp
        finally show ?thesis using all digits by simp
      next
        case False
        then have "checked_mul_add r 100000000 (digits_value ?t) = None"
          by (simp add: checked_mul_add_def)
        moreover have "\<not> extend_value r s \<le> u64_max"
          using False extend_value_ge[of "r * 100000000 + digits_value ?t" ?d] ext by simp
        ultimately show ?thesis using True p small by (subst swar_loop.simps) simp
      qed
    qed
  qed
qed

lemma parse_decimal_u64_value: "parse_decimal_u64 s = decimal_u64 s"
proof (cases "s = []")
  case False
  then show ?thesis
    using swar_loop_value[of 0 s] extend_value_shift[of 0 s]
    by (simp add: parse_decimal_u64_def decimal_u64_def all_digits_def)
qed (simp add: parse_decimal_u64_def decimal_u64_def all_digits_def)

lemma is_radix_digit_10: "is_radix_digit 10 c \<longleftrightarrow> is_ascii_digit c"
  by (auto simp: is_radix_digit_def hex_digit_def Let_def is_ascii_digit_def)

lemma hex_digit_decimal: "is_ascii_digit c \<Longrightarrow> hex_digit c = Some (digit_val c)"
  by (simp add: hex_digit_def Let_def is_ascii_digit_def digit_val_def)

lemma radix_value_10: "\<forall>c \<in> set s. is_ascii_digit c \<Longrightarrow> radix_value 10 s = digits_value s"
proof (induction s rule: rev_induct)
  case (snoc c s)
  then show ?case
    by (simp add: radix_value_def digits_value_def hex_digit_decimal)
qed (simp add: radix_value_def digits_value_def)

lemma parse_decimal_i64_value: "parse_decimal_i64 s = i64_from_str_radix 10 s"
proof -
  have v: "all_radix_digits 10 t \<longleftrightarrow> all_digits t" "all_digits t \<Longrightarrow> radix_value 10 t = digits_value t" for t
    using radix_value_10 by (auto simp: all_radix_digits_def all_digits_def is_radix_digit_10)
  show ?thesis
  proof (cases s)
    case Nil
    then show ?thesis
      by (simp add: parse_decimal_i64_def i64_from_str_radix_def all_radix_digits_def)
  next
    case (Cons c t)
    show ?thesis
      unfolding Cons parse_decimal_i64_def i64_from_str_radix_def
      by (auto simp: parse_decimal_u64_value decimal_u64_def u64_max_def v Let_def)
  qed
qed

text \<open>
  C10.  The SWAR parsers are exact on every byte sequence: \<open>parse_decimal_u64\<close> accepts exactly the
  non-empty digit strings whose value fits 64 bits and returns that value, and
  \<open>parse_decimal_i64\<close> is \<open>str::parse::<i64>\<close>, from \<open>i64::MIN\<close> to \<open>i64::MAX\<close>.
\<close>

theorem swar_parsers_exact:
  "parse_decimal_u64 s =
     (if all_digits s \<and> digits_value s \<le> 2 ^ 64 - 1 then Some (digits_value s) else None)
   \<and> parse_decimal_i64 s = i64_from_str_radix 10 s"
  by (simp add: parse_decimal_u64_value parse_decimal_i64_value decimal_u64_def u64_max_def)

end
