(* ===== verification/Resolve.thy ===== *)
theory Resolve
  imports Config Swar
begin

text \<open>
  Model of the scalar resolution: \<open>resolve_plain_ext\<close> and its number parsers (\<open>streaming.rs\<close>),
  the serde_yaml-profile quirks, \<open>resolve_untagged_scalar\<close> and \<open>resolve_tagged_scalar\<close>
  (\<open>parser/loader.rs\<close>), and the coercion of mapping keys.  The feature \<open>lossless-u64\<close> is off, as
  by default; its parameter stays where it still decides a branch.
\<close>

section \<open>Plain scalars\<close>

datatype scalar = RNull | RBool bool | RInt int | RFloat f64 | RStr string

definition parse_plain_float :: "string \<Rightarrow> f64 option" where
  "parse_plain_float s =
     (let unsigned = snd (strip_sign s) in
      if eq_ignore_ascii_case unsigned ''nan'' \<or> eq_ignore_ascii_case unsigned ''inf''
         \<or> eq_ignore_ascii_case unsigned ''infinity''
      then None else f64_parse s)"

definition octal_digit :: "char \<Rightarrow> bool" where
  "octal_digit c \<longleftrightarrow> is_ascii_digit c \<and> byte c \<le> 55"

definition radix_digits :: "string \<Rightarrow> nat \<Rightarrow> bool" where
  "radix_digits s radix \<longleftrightarrow> s \<noteq> [] \<and> list_all (is_radix_digit radix) s"

definition parse_radix_integer :: "string \<Rightarrow> nat \<Rightarrow> int option" where
  "parse_radix_integer s radix = i64_from_str_radix radix s"

definition looks_like_integer_literal :: "string \<Rightarrow> bool \<Rightarrow> bool" where
  "looks_like_integer_literal s legacy_octal =
     (if s = [] then False
      else case strip_prefix ''0x'' s of
             Some digits \<Rightarrow> radix_digits digits 16
           | None \<Rightarrow>
               (case strip_prefix ''0o'' s of
                  Some digits \<Rightarrow> radix_digits digits 8
                | None \<Rightarrow>
                    if legacy_octal \<and> 2 \<le> length s \<and> hd s = CHR ''0'' then list_all octal_digit (tl s)
                    else let digits = (if hd s = CHR ''+'' \<or> hd s = CHR ''-'' then tl s else s)
                         in digits \<noteq> [] \<and> list_all is_ascii_digit digits))"

definition parse_integer :: "string \<Rightarrow> bool \<Rightarrow> int option" where
  "parse_integer s legacy_octal =
     (if s = [] then None
      else case strip_prefix ''0x'' s of
             Some digits \<Rightarrow> if radix_digits digits 16 then parse_radix_integer digits 16 else None
           | None \<Rightarrow>
               (case strip_prefix ''0o'' s of
                  Some digits \<Rightarrow> if radix_digits digits 8 then parse_radix_integer digits 8 else None
                | None \<Rightarrow>
                    if legacy_octal \<and> 2 \<le> length s \<and> hd s = CHR ''0'' \<and> list_all octal_digit (tl s)
                    then parse_radix_integer (tl s) 8
                    else let digits = (if hd s = CHR ''+'' \<or> hd s = CHR ''-'' then tl s else s)
                         in if digits \<noteq> [] \<and> list_all is_ascii_digit digits
                            then parse_decimal_i64 s else None))"

definition checked_i64 :: "int \<Rightarrow> int option" where
  "checked_i64 n = (if i64_min \<le> n \<and> n \<le> i64_max then Some n else None)"

text \<open>The loop over the parts; \<open>is_first\<close> is \<open>idx = 0\<close>.\<close>

fun sexagesimal_int_parts :: "bool \<Rightarrow> int \<Rightarrow> string list \<Rightarrow> int option" where
  "sexagesimal_int_parts is_first acc [] = Some acc"
| "sexagesimal_int_parts is_first acc (part # parts) =
     (if part = [] \<or> \<not> list_all is_ascii_digit part then None
      else case i64_from_str_radix 10 part of
             None \<Rightarrow> None
           | Some n \<Rightarrow>
               if \<not> is_first \<and> n \<ge> 60 then None
               else (case checked_i64 (acc * 60) of
                       None \<Rightarrow> None
                     | Some t \<Rightarrow>
                         (case checked_i64 (t + n) of
                            None \<Rightarrow> None
                          | Some t \<Rightarrow> sexagesimal_int_parts False t parts)))"

definition parse_sexagesimal_int :: "string \<Rightarrow> int option" where
  "parse_sexagesimal_int s =
     (case strip_sign s of (neg, rest) \<Rightarrow>
        if CHR '':'' \<notin> set rest then None
        else let parts = split_at_char CHR '':'' rest in
          if length parts < 2 then None
          else case sexagesimal_int_parts True 0 parts of
                 None \<Rightarrow> None
               | Some acc \<Rightarrow> checked_i64 (if neg then - acc else acc))"

definition f64_sixty :: f64 where "f64_sixty = 0x404E000000000000"
definition f64_one :: f64 where "f64_one = 0x3FF0000000000000"
definition f64_minus_one :: f64 where "f64_minus_one = 0xBFF0000000000000"

fun sexagesimal_float_parts :: "bool \<Rightarrow> f64 \<Rightarrow> string list \<Rightarrow> f64 option" where
  "sexagesimal_float_parts is_first acc [] = Some acc"
| "sexagesimal_float_parts is_first acc (part # parts) =
     (if part = [] then None
      else if \<not> (parts = [] \<and> CHR ''.'' \<in> set part) \<and> \<not> list_all is_ascii_digit part then None
      else case f64_parse part of
             None \<Rightarrow> None
           | Some n \<Rightarrow>
               if \<not> is_first \<and> (f64_lt f64_sixty n \<or> f64_eq f64_sixty n) then None
               else sexagesimal_float_parts False (f64_mul_add acc f64_sixty n) parts)"

definition parse_sexagesimal_float :: "string \<Rightarrow> f64 option" where
  "parse_sexagesimal_float s =
     (case strip_sign s of (neg, rest) \<Rightarrow>
        if CHR '':'' \<notin> set rest then None
        else let parts = split_at_char CHR '':'' rest in
          if length parts < 2 then None
          else map_option (f64_mul (if neg then f64_minus_one else f64_one))
                 (sexagesimal_float_parts True 0 parts))"

definition resolve_plain_ext ::
  "string \<Rightarrow> bool \<Rightarrow> bool \<Rightarrow> bool \<Rightarrow> bool \<Rightarrow> bool \<Rightarrow> bool \<Rightarrow> scalar" where
  "resolve_plain_ext s strict legacy raw legacy_octal sexagesimal lossless_u64 =
     (if raw then RStr s
      else if s \<in> {[], ''~'', ''null'', ''Null'', ''NULL''} then RNull
      else if s = ''true'' then RBool True
      else if s = ''false'' then RBool False
      else if s \<in> {''True'', ''TRUE''} \<and> \<not> strict then RBool True
      else if s \<in> {''False'', ''FALSE''} \<and> \<not> strict then RBool False
      else if s \<in> {''.inf'', ''.Inf'', ''.INF'', ''+.inf'', ''+.Inf'', ''+.INF''} then RFloat f64_infinity
      else if s \<in> {''-.inf'', ''-.Inf'', ''-.INF''} then RFloat f64_neg_infinity
      else if s \<in> {''.nan'', ''.NaN'', ''.NAN''} then RFloat f64_nan
      else if s \<in> {''yes'', ''Yes'', ''YES'', ''y'', ''Y''} \<and> legacy then RBool True
      else if s \<in> {''no'', ''No'', ''NO'', ''n'', ''N''} \<and> legacy then RBool False
      else if s \<in> {''on'', ''On'', ''ON''} \<and> \<not> strict \<and> legacy then RBool True
      else if s \<in> {''off'', ''Off'', ''OFF''} \<and> \<not> strict \<and> legacy then RBool False
      else case parse_integer s legacy_octal of
             Some n \<Rightarrow> RInt n
           | None \<Rightarrow>
               if lossless_u64 \<and> looks_like_integer_literal s legacy_octal then RStr s
               else if sexagesimal then
                 (case parse_sexagesimal_int s of
                    Some n \<Rightarrow> RInt n
                  | None \<Rightarrow>
                      (case parse_sexagesimal_float s of
                         Some f \<Rightarrow> RFloat f
                       | None \<Rightarrow>
                           (case parse_plain_float s of Some f \<Rightarrow> RFloat f | None \<Rightarrow> RStr s)))
               else (case parse_plain_float s of Some f \<Rightarrow> RFloat f | None \<Rightarrow> RStr s))"

section \<open>The loader's quirks\<close>

definition is_leading_zero_decimal :: "string \<Rightarrow> bool" where
  "is_leading_zero_decimal s =
     (let d = snd (strip_sign s)
      in 2 \<le> length d \<and> starts_with ''0'' d \<and> list_all is_ascii_digit d)"

fun binary_digits :: "int \<Rightarrow> string \<Rightarrow> int option" where
  "binary_digits n [] = Some n"
| "binary_digits n (b # bs) =
     (if b = CHR ''_'' then binary_digits n bs
      else if b = CHR ''0'' \<or> b = CHR ''1'' then
        (case checked_i64 (n * 2) of
           None \<Rightarrow> None
         | Some m \<Rightarrow>
             (case checked_i64 (m + int (digit_val b)) of
                None \<Rightarrow> None
              | Some m \<Rightarrow> binary_digits m bs))
      else None)"

definition parse_legacy_binary :: "string \<Rightarrow> int option" where
  "parse_legacy_binary s =
     (case strip_sign s of (negative, rest) \<Rightarrow>
        (case (case strip_prefix ''0b'' rest of Some d \<Rightarrow> Some d | None \<Rightarrow> strip_prefix ''0B'' rest) of
           None \<Rightarrow> None
         | Some digits \<Rightarrow>
             if digits = [] \<or> list_all (\<lambda>b. b = CHR ''_'') digits then None
             else map_option (\<lambda>n. if negative then - n else n) (binary_digits 0 digits)))"

definition is_inf_spelling :: "string \<Rightarrow> bool" where
  "is_inf_spelling s \<longleftrightarrow>
     s \<in> {''.inf'', ''.Inf'', ''.INF'', ''+.inf'', ''+.Inf'', ''+.INF'', ''-.inf'', ''-.Inf'', ''-.INF''}"

definition overflows_u64_decimal :: "string \<Rightarrow> bool" where
  "overflows_u64_decimal s =
     (let d = (case strip_prefix ''+'' s of Some t \<Rightarrow> t | None \<Rightarrow> s)
      in d \<noteq> [] \<and> list_all is_ascii_digit d \<and> u64_from_str_radix 10 d = None)"

definition resolve_untagged_scalar :: "string \<Rightarrow> scalar_style \<Rightarrow> parse_config \<Rightarrow> value" where
  "resolve_untagged_scalar v style config =
     (if style \<noteq> Plain then VString v
      else if leading_zero_integer_strings config \<and> is_leading_zero_decimal v then VString v
      else case (if legacy_binary_numbers config then parse_legacy_binary v else None) of
             Some n \<Rightarrow> VNumber (Integer n)
           | None \<Rightarrow>
               (case resolve_plain_ext v (strict_booleans config) (legacy_booleans config)
                       (no_schema config) (legacy_octal_numbers config) (legacy_sexagesimal config) False of
                  RNull \<Rightarrow> VNull
                | RBool b \<Rightarrow> VBool b
                | RInt i \<Rightarrow> VNumber (Integer i)
                | RFloat f \<Rightarrow>
                    if float_overflow_strings config \<and> f64_is_infinite f \<and> \<not> is_inf_spelling v
                    then VString v else VNumber (Float f)
                | RStr s \<Rightarrow> VString s))"

section \<open>Tagged scalars\<close>

definition int_hint :: "string \<Rightarrow> string" where
  "int_hint v =
     (let trimmed = trim v;
          negative = starts_with ''-'' trimmed;
          unsigned = snd (strip_sign trimmed);
          digits = drop 2 unsigned;
          stripped = filter (\<lambda>c. c \<noteq> CHR ''_'') trimmed
      in case (if (starts_with ''0b'' unsigned \<or> starts_with ''0B'' unsigned) \<and> digits \<noteq> []
                  \<and> list_all (\<lambda>b. b = CHR ''0'' \<or> b = CHR ''1'') digits
               then i64_from_str_radix 2 digits else None) of
           Some n \<Rightarrow>
             ''!!int '' @ trimmed @ '': YAML 1.2 has no binary literal, '' @ [backtick] @ ''0b'' @ [backtick]
             @ '' was YAML 1.1; write '' @ show_int (if negative then - n else n)
         | None \<Rightarrow>
             if CHR ''_'' \<in> set unsigned \<and> i64_from_str_radix 10 stripped \<noteq> None
             then ''!!int '' @ trimmed @ '': YAML 1.2 has no digit separators, '' @ [backtick] @ ''_''
               @ [backtick] @ '' was YAML 1.1; write '' @ stripped
             else ''!!int '' @ trimmed)"

definition parse_tagged_integer :: "string \<Rightarrow> nat \<Rightarrow> value option" where
  "parse_tagged_integer rest radix = map_option (\<lambda>n. VNumber (Integer n)) (i64_from_str_radix radix rest)"

definition parse_tagged_decimal_integer :: "string \<Rightarrow> value option" where
  "parse_tagged_decimal_integer trimmed =
     map_option (\<lambda>n. VNumber (Integer n)) (i64_from_str_radix 10 trimmed)"

definition strip_either :: "string \<Rightarrow> string \<Rightarrow> string \<Rightarrow> string option" where
  "strip_either p q s = (case strip_prefix p s of Some t \<Rightarrow> Some t | None \<Rightarrow> strip_prefix q s)"

definition resolve_tagged_int :: "string \<Rightarrow> value result" where
  "resolve_tagged_int v =
     (let trimmed = trim v;
          parsed = (case strip_either ''0x'' ''0X'' trimmed of
                      Some rest \<Rightarrow> parse_tagged_integer rest 16
                    | None \<Rightarrow>
                        (case strip_either ''0o'' ''0O'' trimmed of
                           Some rest \<Rightarrow> parse_tagged_integer rest 8
                         | None \<Rightarrow> parse_tagged_decimal_integer trimmed))
      in case parsed of Some n \<Rightarrow> Inr n | None \<Rightarrow> Inl (FailedToParseNumber (int_hint v)))"

definition resolve_tagged_float :: "string \<Rightarrow> value result" where
  "resolve_tagged_float v =
     (let trimmed = trim v in
      if trimmed \<in> {''.inf'', ''.Inf'', ''.INF'', ''+.inf'', ''+.Inf'', ''+.INF''}
      then Inr (VNumber (Float f64_infinity))
      else if trimmed \<in> {''-.inf'', ''-.Inf'', ''-.INF''} then Inr (VNumber (Float f64_neg_infinity))
      else if trimmed \<in> {''.nan'', ''.NaN'', ''.NAN''} then Inr (VNumber (Float f64_nan))
      else case f64_parse trimmed of
             Some f \<Rightarrow> Inr (VNumber (Float f))
           | None \<Rightarrow> Inl (FailedToParseNumber (''!!float '' @ v)))"

definition resolve_tagged_scalar :: "string \<Rightarrow> string \<Rightarrow> string \<Rightarrow> value result" where
  "resolve_tagged_scalar handle suffix v =
     (let is_core = handle = ''!!'' \<or> handle = ''tag:yaml.org,2002:''
            \<or> (handle = ''!'' \<and> suffix \<in> {''int'', ''float'', ''bool'', ''null'', ''str''});
          custom = VTagged (tag_new (handle @ suffix)) (VString v)
      in if \<not> is_core then Inr custom
         else if suffix = ''int'' then resolve_tagged_int v
         else if suffix = ''float'' then resolve_tagged_float v
         else if suffix = ''bool'' then
           (if trim v \<in> {''true'', ''True'', ''TRUE''} then Inr (VBool True)
            else if trim v \<in> {''false'', ''False'', ''FALSE''} then Inr (VBool False)
            else Inl (FailedToParseNumber (''!!bool '' @ v)))
         else if suffix = ''null'' then
           (if trim v \<in> {[], ''~'', ''null'', ''Null'', ''NULL''} then Inr VNull
            else Inl (FailedToParseNumber (''!!null '' @ v)))
         else if suffix = ''str'' then Inr (VString v)
         else Inr custom)"

definition wrap_with_tag :: "value \<Rightarrow> (string \<times> string) option \<Rightarrow> tag_registry option \<Rightarrow> value" where
  "wrap_with_tag inner tag registry =
     (case tag of
        None \<Rightarrow> inner
      | Some (handle, suffix) \<Rightarrow>
          if (case registry of None \<Rightarrow> False | Some r \<Rightarrow> tag_is_registry_stripped handle suffix r) then inner
          else if (handle = ''!!'' \<or> handle = ''tag:yaml.org,2002:'') \<and> (suffix = ''seq'' \<or> suffix = ''map'')
          then inner
          else VTagged (tag_new (handle @ suffix)) inner)"

section \<open>Keys\<close>

text \<open>\<open>value_to_key_string\<close>; it never refuses, so the option of the code is always \<open>Some\<close>.\<close>

fun value_to_key_string :: "(f64 \<Rightarrow> string) \<Rightarrow> value \<Rightarrow> string" where
  "value_to_key_string fmt (VString s) = s"
| "value_to_key_string fmt (VBool b) = (if b then ''true'' else ''false'')"
| "value_to_key_string fmt VNull = ''null''"
| "value_to_key_string fmt (VNumber (Integer n)) = show_int n"
| "value_to_key_string fmt (VNumber (Float n)) =
     (if f64_is_nan n then ''nan''
      else if f64_is_infinite n then (if f64_negative n then ''-inf'' else ''inf'')
      else fmt n)"
| "value_to_key_string fmt (VTagged t v) = value_to_key_string fmt v"
| "value_to_key_string fmt (VSequence vs) =
     ''['' @ comma_separated (map (value_to_key_string fmt) vs) @ '']''"
| "value_to_key_string fmt (VMapping m) =
     ''{'' @ comma_separated (map (\<lambda>(k, v). k @ '': '' @ value_to_key_string fmt v) m) @ ''}''"

section \<open>The integers of the core schema\<close>

text \<open>
  The three spellings of an integer: decimal digits with an optional sign, \<open>0x\<close> and hexadecimal
  digits, \<open>0o\<close> and octal digits.
\<close>

definition core_integer :: "string \<Rightarrow> int \<Rightarrow> bool" where
  "core_integer s n \<longleftrightarrow>
     (\<exists>d. all_digits d \<and> (s = d \<or> s = ''+'' @ d) \<and> n = int (digits_value d))
     \<or> (\<exists>d. all_digits d \<and> s = ''-'' @ d \<and> n = - int (digits_value d))
     \<or> (\<exists>d. all_radix_digits 16 d \<and> s = ''0x'' @ d \<and> n = int (radix_value 16 d))
     \<or> (\<exists>d. all_radix_digits 8 d \<and> s = ''0o'' @ d \<and> n = int (radix_value 8 d))"

definition fits_i64 :: "int \<Rightarrow> bool" where
  "fits_i64 n \<longleftrightarrow> i64_min \<le> n \<and> n \<le> i64_max"

lemma fits_i64_iff: "fits_i64 n \<longleftrightarrow> - (2 ^ 63) \<le> n \<and> n < 2 ^ 63"
  by (auto simp: fits_i64_def i64_min_def i64_max_def)

lemma radix_digits_all: "radix_digits s r \<longleftrightarrow> all_radix_digits r s"
  by (simp add: radix_digits_def all_radix_digits_def list_all_iff)

lemma radix_digit_no_sign: "is_radix_digit r c \<Longrightarrow> c \<noteq> CHR ''-'' \<and> c \<noteq> CHR ''+''"
  by (auto simp: is_radix_digit_def hex_digit_def byte_def)

lemma i64_unsigned:
  "all_radix_digits r d \<Longrightarrow>
   i64_from_str_radix r d = (if fits_i64 (int (radix_value r d)) then Some (int (radix_value r d)) else None)"
  by (cases d) (auto simp: i64_from_str_radix_def all_radix_digits_def fits_i64_iff Let_def
      dest: radix_digit_no_sign)

lemma decimal_digits:
  "all_radix_digits 10 t \<longleftrightarrow> all_digits t" "all_digits t \<Longrightarrow> radix_value 10 t = digits_value t"
  using radix_value_10 by (auto simp: all_radix_digits_def all_digits_def is_radix_digit_10)

lemma i64_decimal:
  "i64_from_str_radix 10 s = Some n \<longleftrightarrow>
   ((\<exists>d. all_digits d \<and> (s = d \<or> s = ''+'' @ d) \<and> n = int (digits_value d))
     \<or> (\<exists>d. all_digits d \<and> s = ''-'' @ d \<and> n = - int (digits_value d))) \<and> fits_i64 n"
proof (cases s)
  case Nil
  then show ?thesis by (auto simp: i64_from_str_radix_def all_radix_digits_def all_digits_def)
next
  case (Cons c t)
  have "\<not> all_digits s" if "c = CHR ''-'' \<or> c = CHR ''+''"
    using that by (auto simp: Cons all_digits_def is_ascii_digit_def byte_def)
  then show ?thesis
    by (auto simp: i64_from_str_radix_def Cons fits_i64_iff decimal_digits Let_def)
qed

lemma no_digit:
  "\<not> is_ascii_digit CHR ''x''" "\<not> is_ascii_digit CHR ''o''"
  "\<not> is_ascii_digit CHR ''+''" "\<not> is_ascii_digit CHR ''-''"
  by (simp_all add: is_ascii_digit_def byte_def)

lemma digits_not_prefixed: "\<not> all_digits (''0x'' @ t)" "\<not> all_digits (''0o'' @ t)"
  using no_digit by (simp_all add: all_digits_def)

lemma strip_prefix_self: "strip_prefix p (p @ t) = Some t"
  by (simp add: strip_prefix_Some)

lemma parse_integer_core: "parse_integer s False = Some n \<longleftrightarrow> core_integer s n \<and> fits_i64 n"
proof (cases "strip_prefix ''0x'' s")
  case (Some d)
  then have s: "s = ''0x'' @ d" by (simp add: strip_prefix_Some)
  have "core_integer s n \<longleftrightarrow> all_radix_digits 16 d \<and> n = int (radix_value 16 d)"
    using digits_not_prefixed by (auto simp: core_integer_def s)
  then show ?thesis
    using Some by (auto simp: parse_integer_def s radix_digits_all parse_radix_integer_def i64_unsigned)
next
  case no_hex: None
  show ?thesis
  proof (cases "strip_prefix ''0o'' s")
    case (Some d)
    then have s: "s = ''0o'' @ d" by (simp add: strip_prefix_Some)
    have "core_integer s n \<longleftrightarrow> all_radix_digits 8 d \<and> n = int (radix_value 8 d)"
      using digits_not_prefixed by (auto simp: core_integer_def s)
    then show ?thesis
      using Some by (auto simp: parse_integer_def s radix_digits_all parse_radix_integer_def i64_unsigned)
  next
    case None
    have "s \<noteq> ''0x'' @ d" "s \<noteq> ''0o'' @ d" for d
      using no_hex None strip_prefix_self by fastforce+
    then have "core_integer s n \<longleftrightarrow> i64_from_str_radix 10 s = Some n \<or> core_integer s n \<and> \<not> fits_i64 n"
      by (auto simp: core_integer_def i64_decimal)
    moreover have "i64_from_str_radix 10 s = Some n \<longleftrightarrow> parse_integer s False = Some n"
      using no_hex None
      by (cases s) (auto simp: parse_integer_def parse_decimal_i64_value list_all_iff i64_decimal all_digits_def no_digit)
    ultimately show ?thesis by (auto simp: i64_decimal)
  qed
qed

lemma not_core_integer:
  "\<not> core_integer [] n"
  "\<not> is_ascii_digit c \<Longrightarrow> c \<noteq> CHR ''+'' \<Longrightarrow> c \<noteq> CHR ''-'' \<Longrightarrow> \<not> core_integer (c # s) n"
  by (auto simp: core_integer_def all_digits_def is_ascii_digit_def byte_def)

lemma dotted_not_core_integer:
  "\<not> core_integer (''+.'' @ s) n" "\<not> core_integer (''-.'' @ s) n"
  by (auto simp: core_integer_def all_digits_def is_ascii_digit_def byte_def)

lemma show_int_core_integer: "core_integer (show_int n) n"
proof (cases "n < 0")
  case True
  have "show_int n = ''-'' @ show_nat (nat (- n))" "n = - int (digits_value (show_nat (nat (- n))))"
    using True by (simp_all add: show_int_def)
  then show ?thesis unfolding core_integer_def by (metis all_digits_show_nat)
next
  case False
  have "show_int n = show_nat (nat n)" "n = int (digits_value (show_nat (nat n)))"
    using False by (simp_all add: show_int_def)
  then show ?thesis unfolding core_integer_def by (metis all_digits_show_nat)
qed

definition core_words :: "string set" where
  "core_words =
     {[], ''~'', ''null'', ''Null'', ''NULL'', ''true'', ''True'', ''TRUE'', ''false'', ''False'', ''FALSE'',
      ''.inf'', ''.Inf'', ''.INF'', ''+.inf'', ''+.Inf'', ''+.INF'', ''-.inf'', ''-.Inf'', ''-.INF'',
      ''.nan'', ''.NaN'', ''.NAN''}"

lemma core_words_not_integer: "s \<in> core_words \<Longrightarrow> \<not> core_integer s n"
  using dotted_not_core_integer[of "''inf''" n] dotted_not_core_integer[of "''Inf''" n]
    dotted_not_core_integer[of "''INF''" n]
  by (auto simp: core_words_def not_core_integer is_ascii_digit_def byte_def)

lemma resolve_core_word:
  "s \<notin> core_words \<Longrightarrow> resolve_plain_ext s strict False False False False False =
     (case parse_integer s False of
        Some n \<Rightarrow> RInt n
      | None \<Rightarrow> (case parse_plain_float s of Some f \<Rightarrow> RFloat f | None \<Rightarrow> RStr s))"
  by (simp add: resolve_plain_ext_def core_words_def)

lemma resolve_word:
  "s \<in> core_words \<Longrightarrow> resolve_plain_ext s strict False False False False False \<noteq> RInt n"
  using core_words_not_integer[of s] parse_integer_core[of s]
  by (auto simp: resolve_plain_ext_def split: option.splits)

text \<open>
  C11.  Under the default configuration the resolution of a plain scalar is the tag resolution of
  the YAML 1.2 core schema: null and booleans are their listed spellings and nothing else
  (\<open>yes\<close>, \<open>on\<close> and the rest stay strings), an integer is exactly one of the three integer
  spellings whose value fits 64 bits, with that value, and a string keeps its text.
\<close>

theorem core_schema_resolution:
  "let r = resolve_plain_ext s False False False False False False in
     (r = RNull \<longleftrightarrow> s \<in> {[], ''~'', ''null'', ''Null'', ''NULL''})
   \<and> (r = RBool b \<longleftrightarrow>
        s \<in> (if b then {''true'', ''True'', ''TRUE''} else {''false'', ''False'', ''FALSE''}))
   \<and> (r = RInt n \<longleftrightarrow> core_integer s n \<and> fits_i64 n)
   \<and> (case r of RStr t \<Rightarrow> t = s | _ \<Rightarrow> True)"
proof (cases "s \<in> core_words")
  case True
  then have "resolve_plain_ext s False False False False False False \<noteq> RInt n" "\<not> core_integer s n"
    using resolve_word core_words_not_integer by blast+
  then show ?thesis
    using True by (auto simp: core_words_def resolve_plain_ext_def)
next
  case False
  have "resolve_plain_ext s False False False False False False = RInt n \<longleftrightarrow> parse_integer s False = Some n"
    using False by (auto simp: resolve_core_word split: option.splits)
  then show ?thesis
    using False unfolding parse_integer_core
    by (auto simp: resolve_core_word core_words_def split: option.splits)
qed

lemma show_int_head: "\<exists>c t. show_int n = c # t \<and> (c = CHR ''-'' \<or> is_ascii_digit c)"
proof (cases "n < 0")
  case True
  then show ?thesis by (simp add: show_int_def)
next
  case False
  obtain c t where "show_nat (nat n) = c # t" by (meson neq_Nil_conv show_nat_nonempty)
  then show ?thesis using False show_nat_digits[of "nat n"] by (auto simp: show_int_def)
qed

text \<open>\<open>show_nat\<close> writes no leading zero.\<close>

lemma show_nat_leading: "show_nat n = CHR ''0'' # t \<Longrightarrow> t = []"
proof (induction n arbitrary: t rule: show_nat.induct)
  case (1 n)
  show ?case
  proof (cases "n < 10")
    case True
    then show ?thesis using "1.prems" by (subst (asm) show_nat.simps) simp
  next
    case False
    obtain c u where cu: "show_nat (n div 10) = c # u" by (meson neq_Nil_conv show_nat_nonempty)
    with False "1.prems" have "c = CHR ''0''" by (subst (asm) show_nat.simps) simp
    then have "u = []" using "1.IH"[OF False, of u] cu by simp
    then have "digits_value (show_nat (n div 10)) = 0"
      using cu \<open>c = CHR ''0''\<close> by (simp add: digits_value_def digit_val_def byte_def)
    then show ?thesis using False by simp
  qed
qed

lemma is_leading_zero_show_int: "\<not> is_leading_zero_decimal (show_int n)"
proof
  assume a: "is_leading_zero_decimal (show_int n)"
  let ?d = "show_nat (nat (abs n))"
  obtain c t where c: "?d = c # t" "is_ascii_digit c"
    using show_nat_digits[of "nat (abs n)"] by (metis list.set_intros(1) neq_Nil_conv show_nat_nonempty)
  then have "snd (strip_sign (show_int n)) = ?d"
    by (auto simp: show_int_def strip_sign_def is_ascii_digit_def byte_def split: if_splits)
  then have "2 \<le> length ?d" "starts_with ''0'' ?d"
    using a by (simp_all add: is_leading_zero_decimal_def Let_def)
  then show False
    using c show_nat_leading[of "nat (abs n)"] by (auto simp: starts_with_def split: if_splits)
qed

lemma show_int_unsigned:
  obtains c t where "snd (strip_sign (show_int n)) = c # t" "all_digits (c # t)"
    "c = CHR ''0'' \<Longrightarrow> t = []"
proof -
  let ?d = "show_nat (nat (abs n))"
  obtain c t where c: "?d = c # t" by (meson neq_Nil_conv show_nat_nonempty)
  then have d: "is_ascii_digit c" using show_nat_digits[of "nat (abs n)"] by simp
  have "snd (strip_sign (show_int n)) = c # t"
    using c d by (auto simp: show_int_def strip_sign_def is_ascii_digit_def byte_def split: if_splits)
  moreover have "all_digits (c # t)" using all_digits_show_nat[of "nat (abs n)"] c by simp
  moreover have "c = CHR ''0'' \<Longrightarrow> t = []" using show_nat_leading[of "nat (abs n)" t] c by simp
  ultimately show ?thesis by (rule that)
qed

lemma legacy_binary_show_int: "parse_legacy_binary (show_int n) = None"
proof (rule show_int_unsigned[of n])
  fix c t assume u: "snd (strip_sign (show_int n)) = c # t" "c = CHR ''0'' \<Longrightarrow> t = []"
  obtain neg where "strip_sign (show_int n) = (neg, c # t)" using u(1) by (cases "strip_sign (show_int n)") simp
  then show ?thesis using u(2) by (auto simp: parse_legacy_binary_def split: option.splits)
qed

lemma parse_integer_show_int:
  assumes "fits_i64 n" shows "parse_integer (show_int n) octal = Some n"
proof -
  have "\<not> (2 \<le> length (show_int n) \<and> hd (show_int n) = CHR ''0'' \<and> list_all octal_digit (tl (show_int n)))"
  proof (cases "n < 0")
    case False
    then show ?thesis
      using show_nat_leading[of "nat n"] by (cases "show_nat (nat n)") (auto simp: show_int_def)
  qed (simp add: show_int_def)
  then have no: "(octal \<and> 2 \<le> length (show_int n) \<and> hd (show_int n) = CHR ''0''
      \<and> list_all octal_digit (tl (show_int n))) = False"
    by blast
  have "parse_integer (show_int n) octal = parse_integer (show_int n) False"
    unfolding parse_integer_def no by (simp only: simp_thms)
  then show ?thesis using assms show_int_core_integer by (simp add: parse_integer_core)
qed

text \<open>The spellings the resolver compares with, other than the negative infinities.\<close>

definition resolver_words :: "string list" where
  "resolver_words =
     [''~'', ''null'', ''Null'', ''NULL'', ''true'', ''True'', ''TRUE'', ''false'', ''False'', ''FALSE'',
      ''.inf'', ''.Inf'', ''.INF'', ''+.inf'', ''+.Inf'', ''+.INF'', ''.nan'', ''.NaN'', ''.NAN'',
      ''yes'', ''Yes'', ''YES'', ''y'', ''Y'', ''no'', ''No'', ''NO'', ''n'', ''N'',
      ''on'', ''On'', ''ON'', ''off'', ''Off'', ''OFF'']"

lemma resolver_words_head: "list_all (\<lambda>w. \<not> is_ascii_digit (hd w) \<and> hd w \<noteq> CHR ''-'') resolver_words"
  by (simp add: resolver_words_def is_ascii_digit_def byte_def)

lemma resolve_show_int:
  assumes "fits_i64 n"
  shows "resolve_plain_ext (show_int n) strict legacy False octal sexagesimal lossless = RInt n"
proof -
  have head: "show_int n \<noteq> []" "hd (show_int n) = CHR ''-'' \<or> is_ascii_digit (hd (show_int n))"
    using show_int_head[of n] by auto
  then have "show_int n \<notin> set resolver_words"
    using resolver_words_head by (auto simp: list_all_iff)
  moreover have "show_int n \<notin> {''-.inf'', ''-.Inf'', ''-.INF''}"
    using show_int_core_integer[of n] core_words_not_integer[of "show_int n" n]
    by (auto simp: core_words_def)
  ultimately show ?thesis
    using head(1) parse_integer_show_int[OF assms, of octal]
    by (simp add: resolve_plain_ext_def resolver_words_def)
qed

text \<open>
   The text of an untyped scalar key reads back as the key: whatever the legacy flags say,
  the key string of null, a boolean or an \<open>i64\<close> resolves, as a plain scalar, to the value it
  was made from, and a string key read in any quoted style is itself.
\<close>

theorem key_string_resolves_back:
  assumes "\<not> no_schema config" and "fits_i64 n" and "style \<noteq> Plain"
  shows "resolve_untagged_scalar (value_to_key_string fmt VNull) Plain config = VNull
    \<and> resolve_untagged_scalar (value_to_key_string fmt (VBool b)) Plain config = VBool b
    \<and> resolve_untagged_scalar (value_to_key_string fmt (VNumber (Integer n))) Plain config = VNumber (Integer n)
    \<and> resolve_untagged_scalar (value_to_key_string fmt (VString s)) style config = VString s"
proof (intro conjI)
  show "resolve_untagged_scalar (value_to_key_string fmt VNull) Plain config = VNull"
    using assms by (simp add: resolve_untagged_scalar_def resolve_plain_ext_def is_leading_zero_decimal_def
        strip_sign_def starts_with_def parse_legacy_binary_def)
  show "resolve_untagged_scalar (value_to_key_string fmt (VBool b)) Plain config = VBool b"
    using assms by (cases b) (simp_all add: resolve_untagged_scalar_def resolve_plain_ext_def
        is_leading_zero_decimal_def strip_sign_def starts_with_def parse_legacy_binary_def)
  show "resolve_untagged_scalar (value_to_key_string fmt (VNumber (Integer n))) Plain config = VNumber (Integer n)"
    using assms by (simp add: resolve_untagged_scalar_def resolve_show_int legacy_binary_show_int
        is_leading_zero_show_int)
  show "resolve_untagged_scalar (value_to_key_string fmt (VString s)) style config = VString s"
    using assms by (simp add: resolve_untagged_scalar_def)
qed

theorem key_string_resolves_back_witness:
  "resolve_untagged_scalar ''-42'' Plain (default_config 40) = VNumber (Integer (- 42))"
proof -
  have "show_int (- 42) = ''-42''" by code_simp
  then show ?thesis
    using key_string_resolves_back[of "default_config 40" "- 42" Literal "\<lambda>_. []"]
    by (simp add: default_config_def fits_i64_def i64_min_def i64_max_def)
qed

section \<open>Resolved integers\<close>

lemma i64_radix_fits: "i64_from_str_radix r s = Some n \<Longrightarrow> fits_i64 n"
  using i64_from_str_radix_range by (simp add: fits_i64_iff)

lemma checked_fits: "checked_i64 n = Some m \<Longrightarrow> m = n \<and> fits_i64 m"
  by (simp add: checked_i64_def fits_i64_def split: if_splits)

lemma parse_integer_fits: "parse_integer s octal = Some n \<Longrightarrow> fits_i64 n"
  by (auto simp: parse_integer_def parse_radix_integer_def parse_decimal_i64_value Let_def
      split: if_splits option.splits dest: i64_radix_fits)

lemma sexagesimal_fits: "parse_sexagesimal_int s = Some n \<Longrightarrow> fits_i64 n"
  by (auto simp: parse_sexagesimal_int_def Let_def split: if_splits option.splits prod.splits dest: checked_fits)

lemma binary_digits_fits:
  "fits_i64 n \<Longrightarrow> 0 \<le> n \<Longrightarrow> binary_digits n bs = Some m \<Longrightarrow> fits_i64 m \<and> 0 \<le> m"
proof (induction bs arbitrary: n)
  case (Cons b bs)
  have "\<exists>k. binary_digits k bs = Some m
      \<and> (k = n \<or> (\<exists>j d. checked_i64 (n * 2) = Some j \<and> checked_i64 (j + int d) = Some k))"
    using Cons.prems(3) by (auto split: if_splits option.splits)
  then obtain k where k: "binary_digits k bs = Some m" "fits_i64 k" "0 \<le> k"
    using Cons.prems(1,2) by (auto dest!: checked_fits)
  then show ?case using Cons.IH by blast
qed simp

lemma legacy_binary_fits: "parse_legacy_binary s = Some n \<Longrightarrow> fits_i64 n"
proof -
  assume a: "parse_legacy_binary s = Some n"
  then obtain digits m where "binary_digits 0 digits = Some m" "n = m \<or> n = - m"
    by (auto simp: parse_legacy_binary_def split: prod.splits option.splits if_splits)
  then show ?thesis
    using binary_digits_fits[of 0 digits m] by (auto simp: fits_i64_def i64_min_def i64_max_def)
qed

lemma if_either: "(if c then x else z) = y \<Longrightarrow> x = y \<or> z = y"
  by (cases c) auto

lemma resolve_plain_int:
  "resolve_plain_ext s strict legacy raw octal sexagesimal lossless = RInt n \<Longrightarrow>
   parse_integer s octal = Some n \<or> parse_sexagesimal_int s = Some n"
  unfolding resolve_plain_ext_def by (auto dest!: if_either split: option.splits)

lemma resolve_plain_fits:
  "resolve_plain_ext s strict legacy raw octal sexagesimal lossless = RInt n \<Longrightarrow> fits_i64 n"
  using resolve_plain_int parse_integer_fits sexagesimal_fits by blast

lemma tagged_int_fits: "resolve_tagged_int v = Inr (VNumber (Integer n)) \<Longrightarrow> fits_i64 n"
  by (auto simp: resolve_tagged_int_def parse_tagged_integer_def parse_tagged_decimal_integer_def Let_def
      split: option.splits dest: i64_radix_fits)

lemma tagged_float_no_int: "resolve_tagged_float v \<noteq> Inr (VNumber (Integer n))"
  unfolding resolve_tagged_float_def Let_def by (auto dest!: if_either split: option.splits)

lemma tagged_fits: "resolve_tagged_scalar handle suffix v = Inr (VNumber (Integer n)) \<Longrightarrow> fits_i64 n"
  unfolding resolve_tagged_scalar_def Let_def
  by (auto dest!: if_either simp: tagged_float_no_int dest: tagged_int_fits)

lemma untagged_fits: "resolve_untagged_scalar v style config = VNumber (Integer n) \<Longrightarrow> fits_i64 n"
  unfolding resolve_untagged_scalar_def
  by (auto dest!: if_either split: option.splits scalar.splits dest: legacy_binary_fits resolve_plain_fits)

text \<open>
   Every integer the scalar resolution builds fits an \<open>i64\<close>, whatever the text, the tag and
  the legacy flags: radix, binary and base-60 literals out of range are never wrapped.
\<close>

theorem resolved_integers_fit:
  "(case resolve_untagged_scalar v style config of VNumber (Integer n) \<Rightarrow> fits_i64 n | _ \<Rightarrow> True)
   \<and> (case resolve_tagged_scalar handle suffix v of Inr (VNumber (Integer n)) \<Rightarrow> fits_i64 n | _ \<Rightarrow> True)"
proof
  show "case resolve_untagged_scalar v style config of VNumber (Integer n) \<Rightarrow> fits_i64 n | _ \<Rightarrow> True"
  proof (cases "resolve_untagged_scalar v style config")
    case (VNumber n)
    then show ?thesis using untagged_fits[of v style config] by (cases n) simp_all
  qed simp_all
  show "case resolve_tagged_scalar handle suffix v of Inr (VNumber (Integer n)) \<Rightarrow> fits_i64 n | _ \<Rightarrow> True"
  proof (cases "resolve_tagged_scalar handle suffix v")
    case (Inr w)
    show ?thesis
    proof (cases w)
      case (VNumber n)
      then show ?thesis using tagged_fits[of handle suffix v] Inr by (cases n) simp_all
    qed (simp_all add: Inr)
  qed simp
qed

text \<open>
  A sign is accepted after the radix prefix of a tagged integer and refused before it.
\<close>

lemma tagged_hex_sign:
  "resolve_tagged_scalar ''!!'' ''int'' ''0x-10'' = Inr (VNumber (Integer (- 16)))
   \<and> (\<exists>m. resolve_tagged_scalar ''!!'' ''int'' ''-0x10'' = Inl (FailedToParseNumber m))"
proof
  have t: "trim ''0x-10'' = ''0x-10''" "trim ''-0x10'' = ''-0x10''"
    by (simp_all add: trim_def trim_end_def ascii_ws_def ws2_def ws3_def byte_def)
  show "resolve_tagged_scalar ''!!'' ''int'' ''0x-10'' = Inr (VNumber (Integer (- 16)))"
    by (simp add: resolve_tagged_scalar_def resolve_tagged_int_def t strip_either_def parse_tagged_integer_def
        i64_from_str_radix_def all_radix_digits_def is_radix_digit_def hex_digit_def byte_def radix_value_def)
  show "\<exists>m. resolve_tagged_scalar ''!!'' ''int'' ''-0x10'' = Inl (FailedToParseNumber m)"
    by (simp add: resolve_tagged_scalar_def resolve_tagged_int_def t strip_either_def
        parse_tagged_decimal_integer_def i64_from_str_radix_def all_radix_digits_def is_radix_digit_def
        hex_digit_def byte_def)
qed

end
