(* ===== verification/Query.thy ===== *)
theory Query
  imports Path Value
begin

text \<open>
  Model of the lookups of \<open>value.rs\<close>: \<open>ValueIndex\<close> for \<open>usize\<close>, \<open>&str\<close> and \<open>&Value\<close>,
  \<open>get_path\<close>, \<open>query\<close> and their prevalidated forms, \<open>query_recursive\<close>, \<open>untag\<close>, and the
  mutable accesses.  A method that returns \<open>&mut Value\<close> is modelled by what a caller does with the
  reference: \<open>f\<close> is applied to the value it points to, and the updated tree is the result;
  \<open>None\<close> is the absent reference.  A panic of \<open>index_or_insert\<close> is \<open>None\<close> too.
\<close>

section \<open>Indexing\<close>

fun index_into_usize :: "nat \<Rightarrow> value \<Rightarrow> value option" where
  "index_into_usize i (VSequence s) = (if i < length s then Some (s ! i) else None)"
| "index_into_usize i (VTagged t v) = index_into_usize i v"
| "index_into_usize i _ = None"

fun index_into_str :: "string \<Rightarrow> value \<Rightarrow> value option" where
  "index_into_str key (VMapping m) = imap_get m key"
| "index_into_str key (VTagged t v) = index_into_str key v"
| "index_into_str key _ = None"

fun index_into_value :: "value \<Rightarrow> value \<Rightarrow> value option" where
  "index_into_value (VString s) v = index_into_str s v"
| "index_into_value (VNumber (Integer n)) v =
     (if n \<ge> 0 then (if nat n \<le> usize_max then index_into_usize (nat n) v else None) else None)"
| "index_into_value _ v = None"

fun index_update_usize :: "nat \<Rightarrow> (value \<Rightarrow> value) \<Rightarrow> value \<Rightarrow> value option" where
  "index_update_usize i f (VSequence s) =
     (if i < length s then Some (VSequence (s[i := f (s ! i)])) else None)"
| "index_update_usize i f (VTagged t v) = map_option (VTagged t) (index_update_usize i f v)"
| "index_update_usize i f _ = None"

fun index_update_str :: "string \<Rightarrow> (value \<Rightarrow> value) \<Rightarrow> value \<Rightarrow> value option" where
  "index_update_str key f (VMapping m) =
     (case imap_get m key of None \<Rightarrow> None | Some v \<Rightarrow> Some (VMapping (imap_insert key (f v) m)))"
| "index_update_str key f (VTagged t v) = map_option (VTagged t) (index_update_str key f v)"
| "index_update_str key f _ = None"

fun index_update_value :: "value \<Rightarrow> (value \<Rightarrow> value) \<Rightarrow> value \<Rightarrow> value option" where
  "index_update_value (VString s) f v = index_update_str s f v"
| "index_update_value (VNumber (Integer n)) f v =
     (if n \<ge> 0 then (if nat n \<le> usize_max then index_update_usize (nat n) f v else None) else None)"
| "index_update_value _ f v = None"

fun index_or_insert_usize :: "nat \<Rightarrow> (value \<Rightarrow> value) \<Rightarrow> value \<Rightarrow> value option" where
  "index_or_insert_usize i f (VSequence s) =
     (if i < length s then Some (VSequence (s[i := f (s ! i)])) else None)"
| "index_or_insert_usize i f (VTagged t v) = map_option (VTagged t) (index_or_insert_usize i f v)"
| "index_or_insert_usize i f _ = None"

fun index_or_insert_str :: "string \<Rightarrow> (value \<Rightarrow> value) \<Rightarrow> value \<Rightarrow> value option" where
  "index_or_insert_str key f VNull = Some (VMapping [(key, f VNull)])"
| "index_or_insert_str key f (VMapping m) =
     (let m' = imap_or_insert key VNull m in
      case imap_get m' key of None \<Rightarrow> None | Some v \<Rightarrow> Some (VMapping (imap_insert key (f v) m')))"
| "index_or_insert_str key f (VTagged t v) = map_option (VTagged t) (index_or_insert_str key f v)"
| "index_or_insert_str key f _ = None"

fun index_or_insert_value :: "value \<Rightarrow> (value \<Rightarrow> value) \<Rightarrow> value \<Rightarrow> value option" where
  "index_or_insert_value (VString s) f v = index_or_insert_str s f v"
| "index_or_insert_value (VNumber (Integer n)) f v =
     (if n \<ge> 0 then (if nat n \<le> usize_max then index_or_insert_usize (nat n) f v else None) else None)"
| "index_or_insert_value _ f v = None"

section \<open>Queries\<close>

function query_recursive :: "value \<Rightarrow> query_segment list \<Rightarrow> value list" where
  "query_recursive v [] = [v]"
| "query_recursive v (Key k # rest) =
     (case index_into_str k v of None \<Rightarrow> [] | Some c \<Rightarrow> query_recursive c rest)"
| "query_recursive v (Index i # rest) =
     (case index_into_usize i v of None \<Rightarrow> [] | Some c \<Rightarrow> query_recursive c rest)"
| "query_recursive v (Wildcard # rest) =
     (case v of
        VSequence s \<Rightarrow> concat (map (\<lambda>c. query_recursive c rest) s)
      | VMapping m \<Rightarrow> concat (map (\<lambda>(k, c). query_recursive c rest) m)
      | _ \<Rightarrow> [])"
| "query_recursive v (RecursiveDescent # rest) =
     (if rest = [] then []
      else query_recursive v rest
        @ (case v of
             VSequence s \<Rightarrow> concat (map (\<lambda>c. query_recursive c (RecursiveDescent # rest)) s)
           | VMapping m \<Rightarrow> concat (map (\<lambda>(k, c). query_recursive c (RecursiveDescent # rest)) m)
           | VTagged t c \<Rightarrow> query_recursive c (RecursiveDescent # rest)
           | _ \<Rightarrow> []))"
  by pat_completeness auto

termination
  by (relation "measures [\<lambda>(v, ss). length ss, \<lambda>(v, ss). size v]")
     (auto dest: value_size_item value_size_entry)

definition query :: "value \<Rightarrow> string \<Rightarrow> value list" where
  "query v path = query_recursive v (parse_query_path path)"

definition query_path :: "value \<Rightarrow> query_segment list \<Rightarrow> value list" where
  "query_path v segments = query_recursive v segments"

definition first :: "value list \<Rightarrow> value option" where
  "first vs = (case vs of [] \<Rightarrow> None | v # _ \<Rightarrow> Some v)"

text \<open>
  The loop of \<open>get_path\<close> and \<open>get_query_path\<close>: \<open>current\<close> moves along the segments; a wildcard or
  a descent gives the loop up for the first result of the whole query, started at the root again.
\<close>

fun walk_path :: "value option \<Rightarrow> value \<Rightarrow> query_segment list \<Rightarrow> value option" where
  "walk_path fallback current [] = Some current"
| "walk_path fallback current (Key k # rest) =
     (case index_into_str k current of None \<Rightarrow> None | Some c \<Rightarrow> walk_path fallback c rest)"
| "walk_path fallback current (Index i # rest) =
     (case index_into_usize i current of None \<Rightarrow> None | Some c \<Rightarrow> walk_path fallback c rest)"
| "walk_path fallback current (Wildcard # rest) = fallback"
| "walk_path fallback current (RecursiveDescent # rest) = fallback"

definition get_path :: "value \<Rightarrow> string \<Rightarrow> value option" where
  "get_path v path = walk_path (first (query v path)) v (parse_query_path path)"

definition get_query_path :: "value \<Rightarrow> query_segment list \<Rightarrow> value option" where
  "get_query_path v segments = walk_path (first (query_path v segments)) v segments"

text \<open>The mutable walk, with the write through the reference at its end.\<close>

fun update_path :: "query_segment list \<Rightarrow> (value \<Rightarrow> value) \<Rightarrow> value \<Rightarrow> value option" where
  "update_path [] f v = Some (f v)"
| "update_path (Key k # rest) f v =
     (case index_into_str k v of
        None \<Rightarrow> None
      | Some c \<Rightarrow>
          (case update_path rest f c of
             None \<Rightarrow> None | Some c' \<Rightarrow> index_update_str k (\<lambda>_. c') v))"
| "update_path (Index i # rest) f v =
     (case index_into_usize i v of
        None \<Rightarrow> None
      | Some c \<Rightarrow>
          (case update_path rest f c of
             None \<Rightarrow> None | Some c' \<Rightarrow> index_update_usize i (\<lambda>_. c') v))"
| "update_path (Wildcard # rest) f v = None"
| "update_path (RecursiveDescent # rest) f v = None"

definition get_path_mut :: "string \<Rightarrow> (value \<Rightarrow> value) \<Rightarrow> value \<Rightarrow> value option" where
  "get_path_mut path f v = update_path (parse_query_path path) f v"

definition get_query_path_mut :: "query_segment list \<Rightarrow> (value \<Rightarrow> value) \<Rightarrow> value \<Rightarrow> value option" where
  "get_query_path_mut segments f v = update_path segments f v"

section \<open>Tags\<close>

fun untag :: "value \<Rightarrow> value" where
  "untag (VTagged t v) = untag v"
| "untag (VSequence s) = VSequence (map untag s)"
| "untag (VMapping m) = VMapping (mapping_from_iter (map (\<lambda>(k, v). (k, untag v)) m))"
| "untag v = v"

fun untag_ref :: "value \<Rightarrow> value" where
  "untag_ref (VTagged t v) = untag_ref v"
| "untag_ref v = v"

fun untag_mut :: "(value \<Rightarrow> value) \<Rightarrow> value \<Rightarrow> value" where
  "untag_mut f (VTagged t v) = VTagged t (untag_mut f v)"
| "untag_mut f v = f v"

section \<open>Lookups are the first result of the query\<close>

lemma first_simps [simp]: "first [] = None" "first (v # vs) = Some v"
  by (simp_all add: first_def)

lemma walk_path_first:
  "(\<exists>s \<in> set ss. s = Wildcard \<or> s = RecursiveDescent) \<longrightarrow> fallback = first (query_recursive v ss)
   \<Longrightarrow> walk_path fallback v ss = first (query_recursive v ss)"
  by (induction fallback v ss rule: walk_path.induct) (auto split: option.splits)

text \<open>
  C3.  \<open>get_path\<close> is the first result of \<open>query\<close> on the same text, and \<open>get_query_path\<close> the
  first result of \<open>query_path\<close>, on every path: plain steps, wildcards, recursive descent and
  malformed text alike.
\<close>

theorem get_path_is_first_of_query:
  "get_path v path = first (query v path)
   \<and> get_query_path v segments = first (query_path v segments)"
  using walk_path_first by (simp add: get_path_def query_def get_query_path_def query_path_def)

section \<open>Recursive descent\<close>

text \<open>A value and every value inside it, parents first.\<close>

fun descendants :: "value \<Rightarrow> value list" where
  "descendants (VSequence s) = VSequence s # concat (map descendants s)"
| "descendants (VMapping m) = VMapping m # concat (map (\<lambda>(k, v). descendants v) m)"
| "descendants (VTagged t v) = VTagged t v # descendants v"
| "descendants v = [v]"

lemma concat_map_concat: "concat (map f (concat xss)) = concat (map (\<lambda>xs. concat (map f xs)) xss)"
  by (induction xss) auto

lemma query_descent:
  "rest \<noteq> [] \<Longrightarrow> query_recursive v (RecursiveDescent # rest)
     = concat (map (\<lambda>d. query_recursive d rest) (descendants v))"
proof (induction v)
  case (VSequence s)
  then show ?case by (simp add: concat_map_concat comp_def cong: map_cong)
next
  case (VMapping m)
  have m: "map (\<lambda>(k, c). query_recursive c (RecursiveDescent # rest)) m
      = map (\<lambda>(k, c). concat (map (\<lambda>d. query_recursive d rest) (descendants c))) m"
    using VMapping by (intro map_cong) (auto simp del: query_recursive.simps)
  have "query_recursive (VMapping m) (RecursiveDescent # rest)
      = query_recursive (VMapping m) rest
        @ concat (map (\<lambda>(k, c). query_recursive c (RecursiveDescent # rest)) m)"
    using VMapping.prems by simp
  then show ?case unfolding m by (simp add: concat_map_concat comp_def case_prod_unfold)
qed simp_all

text \<open>
   Recursive descent: \<open>..rest\<close> runs the rest of the path at the value itself and at every
  value below it, through sequences, mappings and tags, in document order with parents first.
\<close>

theorem recursive_descent_visits_descendants:
  assumes "parse_query_path path = RecursiveDescent # rest" and "rest \<noteq> []"
  shows "query v path = concat (map (\<lambda>d. query_recursive d rest) (descendants v))"
  using query_descent[OF assms(2)] assms(1) by (simp add: query_def)

theorem recursive_descent_visits_descendants_witness:
  "query (VMapping [(''a'', VMapping [(''n'', VNull)]), (''n'', VBool True)]) ''..n''
     = [VBool True, VNull]"
proof -
  have p: "parse_query_path ''..n'' = RecursiveDescent # [Key ''n'']"
    by code_simp
  from recursive_descent_visits_descendants[OF p] show ?thesis by simp
qed

text \<open>
  The descent passes the tag node, whose own lookup looks through the tag, and then the tagged
  mapping: a match below a tag is reported twice.
\<close>

lemma recursive_descent_repeats_under_tag:
  "query (VTagged (tag_new ''!t'') (VMapping [(''n'', VNull)])) ''..n'' = [VNull, VNull]"
proof -
  have p: "parse_query_path ''..n'' = RecursiveDescent # [Key ''n'']"
    by code_simp
  show ?thesis by (simp add: query_def p)
qed

section \<open>Literal keys\<close>

fun lookup_keys :: "value \<Rightarrow> string list \<Rightarrow> value option" where
  "lookup_keys v [] = Some v"
| "lookup_keys v (k # ks) = Option.bind (index_into_str k v) (\<lambda>c. lookup_keys c ks)"

lemma walk_path_keys: "walk_path fallback v (map Key ks) = lookup_keys v ks"
  by (induction ks arbitrary: v) (auto split: option.splits)

lemma get_path_join_keys: "get_path v (join_keys ks) = lookup_keys v ks"
  by (simp add: get_path_def parse_query_path_well_formed[OF join_keys_checked] walk_path_keys)

lemma query_single_key: "query_recursive v [Key k] = (case index_into_str k v of None \<Rightarrow> [] | Some c \<Rightarrow> [c])"
  by (simp split: option.splits)

text \<open>
  A path spelled by \<open>join_keys\<close> looks up exactly the given keys, one mapping level each and
  through tags, whatever characters the keys contain; and a malformed path finds nothing in a
  value that does not have the reserved key, so it never reaches another key by accident.
\<close>

theorem get_path_literal_keys:
  "get_path v (join_keys ks) = lookup_keys v ks
   \<and> (parse_query_path_checked path = Inl e \<and> index_into_str invalid_query_key v = None
        \<longrightarrow> query v path = [] \<and> get_path v path = None)"
proof -
  have "query v path = [] \<and> get_path v path = None"
    if "parse_query_path_checked path = Inl e" "index_into_str invalid_query_key v = None"
    using that parse_query_path_malformed[OF that(1)] by (simp add: query_def get_path_def)
  then show ?thesis using get_path_join_keys by blast
qed

theorem get_path_literal_keys_witness:
  "get_path (VMapping [(''a.b'', VNull)]) (join_keys [''a.b'']) = Some VNull
   \<and> query (VMapping [(''a'', VNull)]) ''a['' = []"
proof -
  have "case parse_query_path_checked ''a['' of Inl _ \<Rightarrow> True | Inr _ \<Rightarrow> False"
    by code_simp
  then obtain e where e: "parse_query_path_checked ''a['' = Inl e" by (auto split: sum.splits)
  have n: "index_into_str invalid_query_key (VMapping [(''a'', VNull)]) = None"
    by (simp add: invalid_query_key_def)
  show ?thesis
    using get_path_literal_keys[of "VMapping [(''a.b'', VNull)]" "[''a.b'']" "''a[''" e]
      get_path_literal_keys[of "VMapping [(''a'', VNull)]" "[]" "''a[''" e] e n by simp
qed

section \<open>Writing through a path\<close>

lemma index_update_str_lookup:
  "index_update_str k f v = Some v' \<Longrightarrow>
   index_into_str k v' = map_option f (index_into_str k v)
   \<and> (\<forall>l. l \<noteq> k \<longrightarrow> index_into_str l v' = index_into_str l v)"
  by (induction k f v arbitrary: v' rule: index_update_str.induct)
     (auto simp: imap_get_insert split: option.splits)

lemma index_update_usize_lookup:
  "index_update_usize i f v = Some v' \<Longrightarrow>
   index_into_usize i v' = map_option f (index_into_usize i v)
   \<and> (\<forall>j. j \<noteq> i \<longrightarrow> index_into_usize j v' = index_into_usize j v)"
  by (induction i f v arbitrary: v' rule: index_update_usize.induct) (auto split: if_splits)

lemma index_update_str_None: "index_update_str k f v = None \<longleftrightarrow> index_into_str k v = None"
  by (induction k f v rule: index_update_str.induct) (auto split: option.splits)

lemma index_update_usize_None: "index_update_usize i f v = None \<longleftrightarrow> index_into_usize i v = None"
  by (induction i f v rule: index_update_usize.induct) auto

lemma update_path_walk:
  "update_path ss f v = Some v' \<Longrightarrow>
   walk_path fb' v' ss = map_option f (walk_path fb v ss) \<and> walk_path fb v ss \<noteq> None"
proof (induction ss f v arbitrary: v' rule: update_path.induct)
  case (2 k rest f v)
  then obtain c c' where c: "index_into_str k v = Some c" "update_path rest f c = Some c'"
    "index_update_str k (\<lambda>_. c') v = Some v'" by (auto split: option.splits)
  show ?case using "2.IH"[OF c(1,2)] index_update_str_lookup[OF c(3)] c(1) by simp
next
  case (3 i rest f v)
  then obtain c c' where c: "index_into_usize i v = Some c" "update_path rest f c = Some c'"
    "index_update_usize i (\<lambda>_. c') v = Some v'" by (auto split: option.splits)
  show ?case using "3.IH"[OF c(1,2)] index_update_usize_lookup[OF c(3)] c(1) by simp
qed simp_all

lemma update_path_None:
  "update_path ss f v = None \<longleftrightarrow>
   (\<exists>s \<in> set ss. s = Wildcard \<or> s = RecursiveDescent) \<or> walk_path fb v ss = None"
proof (induction ss f v rule: update_path.induct)
  case (2 k rest f v)
  show ?case
  proof (cases "index_into_str k v")
    case (Some c)
    then show ?thesis using "2.IH"[OF Some]
      by (auto simp: index_update_str_None split: option.splits)
  qed simp
next
  case (3 i rest f v)
  show ?case
  proof (cases "index_into_usize i v")
    case (Some c)
    then show ?thesis using "3.IH"[OF Some]
      by (auto simp: index_update_usize_None split: option.splits)
  qed simp
qed simp_all

text \<open>
  Writing through \<open>get_path_mut\<close> is seen by \<open>get_path\<close> on the same path, and the reference
  exists exactly when the path has no wildcard or descent and \<open>get_path\<close> finds a value.
\<close>

theorem get_path_mut_writes:
  "(get_path_mut path f v = Some v' \<longrightarrow>
      get_path v' path = map_option f (get_path v path) \<and> get_path v path \<noteq> None)
   \<and> (get_path_mut path f v = None \<longleftrightarrow>
        (\<exists>s \<in> set (parse_query_path path). s = Wildcard \<or> s = RecursiveDescent)
        \<or> get_path v path = None)"
  using update_path_walk[of "parse_query_path path" f v v'] update_path_None[of "parse_query_path path" f v]
  by (simp add: get_path_mut_def get_path_def)

theorem get_path_mut_writes_witness:
  "get_path (VMapping [(''a'', VMapping [(''b'', VString ''x'')])]) ''a.b'' = Some (VString ''x'')"
proof -
  let ?v = "VMapping [(''a'', VMapping [(''b'', VNull)])]"
  let ?w = "VMapping [(''a'', VMapping [(''b'', VString ''x'')])]"
  have p: "parse_query_path ''a.b'' = [Key ''a'', Key ''b'']"
    by code_simp
  have "get_path_mut ''a.b'' (\<lambda>_. VString ''x'') ?v = Some ?w"
    by (simp add: get_path_mut_def p)
  with get_path_mut_writes[of "''a.b''" "\<lambda>_. VString ''x''" ?v ?w] show ?thesis by auto
qed

section \<open>Untagging\<close>

fun tag_free :: "value \<Rightarrow> bool" where
  "tag_free (VTagged t v) = False"
| "tag_free (VSequence s) = list_all tag_free s"
| "tag_free (VMapping m) = list_all (\<lambda>(k, v). tag_free v) m"
| "tag_free _ = True"

lemma imap_extend_distinct:
  "distinct (map fst (acc @ m)) \<Longrightarrow> imap_extend acc m = acc @ m"
proof (induction m arbitrary: acc)
  case Nil
  then show ?case by (simp add: imap_extend_def)
next
  case (Cons kv m)
  obtain k v where kv: "kv = (k, v)" by fastforce
  have "imap_get acc k = None" using Cons.prems kv by (auto simp: imap_get_None_iff)
  then have "imap_extend acc (kv # m) = imap_extend (acc @ [(k, v)]) m"
    by (simp add: imap_extend_def kv imap_insert_absent)
  also have "\<dots> = acc @ kv # m" using Cons.IH[of "acc @ [(k, v)]"] Cons.prems kv by simp
  finally show ?case .
qed

lemma map_snd_fst: "map fst (map (\<lambda>(k, v). (k, f v)) m) = map fst m"
  by (induction m) auto

lemma untag_mapping:
  "imap_valid m \<Longrightarrow> untag (VMapping m) = VMapping (map (\<lambda>(k, v). (k, untag v)) m)"
  using imap_extend_distinct[of "[]" "map (\<lambda>(k, v). (k, untag v)) m"]
  by (simp add: mapping_from_iter_def imap_valid_def map_snd_fst del: map_map)

lemma imap_get_map_snd: "imap_get (map (\<lambda>(k, v). (k, f v)) m) k = map_option f (imap_get m k)"
  by (induction m k rule: imap_get.induct) auto

lemma untag_tag_free: "wf_value v \<Longrightarrow> tag_free (untag v)"
proof (induction v)
  case (VMapping m)
  then show ?case using untag_mapping[of m] by (auto simp del: untag.simps simp: list_all_iff)
qed (simp_all add: list_all_iff)

lemma untag_index: "wf_value v \<Longrightarrow> index_into_str k (untag v) = map_option untag (index_into_str k v)"
proof (induction v)
  case (VMapping m)
  then have "imap_valid m" by simp
  then show ?case using untag_mapping[of m] by (simp del: untag.simps add: imap_get_map_snd)
qed simp_all

lemma wf_index: "wf_value v \<Longrightarrow> index_into_str k v = Some c \<Longrightarrow> wf_value c"
proof (induction v)
  case (VMapping m)
  then show ?case by (metis index_into_str.simps(1) wf_mapping_get wf_value_VMapping)
qed simp_all

lemma untag_lookup_keys: "wf_value v \<Longrightarrow> lookup_keys (untag v) ks = map_option untag (lookup_keys v ks)"
proof (induction ks arbitrary: v)
  case (Cons k ks)
  then show ?case
    using untag_index[OF Cons.prems, of k] wf_index[OF Cons.prems, of k]
    by (cases "index_into_str k v") auto
qed simp

text \<open>
  \<open>untag\<close> removes every tag and nothing else: the result has no tag at any level, and a
  lookup of any keys in it is the lookup in the original, untagged.
\<close>

theorem untag_strips_tags:
  assumes "wf_value v"
  shows "tag_free (untag v)
    \<and> get_path (untag v) (join_keys ks) = map_option untag (get_path v (join_keys ks))"
  using untag_tag_free[OF assms] untag_lookup_keys[OF assms] by (simp add: get_path_join_keys)

theorem untag_strips_tags_witness:
  "tag_free (untag (VMapping [(''a'', VTagged (tag_new ''!t'') (VMapping [(''b'', VNull)]))]))"
proof -
  have "wf_value (VMapping [(''a'', VTagged (tag_new ''!t'') (VMapping [(''b'', VNull)]))])"
    by (simp add: imap_valid_def)
  from untag_strips_tags[OF this, of "[]"] show ?thesis by blast
qed

end
