(* ===== verification/Meter.thy ===== *)
theory Meter
  imports Resolve Query
begin

text \<open>
  Model of the resource budgets: the predicates of \<open>parser/budget.rs\<close> and the counters of
  \<open>parser/meter.rs\<close> they are applied to.  A charge returns the meter it leaves with its outcome,
  because the stream-wide tally stays charged when a document is refused.  \<open>NODE_BYTES\<close> is the
  \<open>node_bytes\<close> field of the configuration.

  The lemmas show that the estimators measure the tree they are given, that the budgets accept a
  sequence of events exactly when its counts are within the limits, that the expansions accepted
  in one document stay within the byte and depth ceilings, and that documents sharing a tally
  stay within one limit together.
\<close>

section \<open>The predicates\<close>

definition max_alias_bytes :: nat where "max_alias_bytes = 1024 * 1024 * 32"
definition max_depth_ceiling :: nat where "max_depth_ceiling = 256"

definition effective_max_depth :: "nat \<Rightarrow> nat" where
  "effective_max_depth m = (if m < max_depth_ceiling then m else max_depth_ceiling)"

definition depth_exceeded :: "nat \<Rightarrow> nat \<Rightarrow> bool" where
  "depth_exceeded d m \<longleftrightarrow> d > effective_max_depth m"

definition alias_count_exceeded :: "nat \<Rightarrow> nat \<Rightarrow> bool" where
  "alias_count_exceeded count m \<longleftrightarrow> count > m"

definition alias_ratio_exceeded :: "nat \<Rightarrow> nat \<Rightarrow> f64 option \<Rightarrow> bool" where
  "alias_ratio_exceeded aliases anchors ratio =
     (case ratio of
        None \<Rightarrow> False
      | Some r \<Rightarrow>
          f64_lt (f64_mul r (f64_of_int (int (max anchors 1)))) (f64_of_int (int aliases)))"

definition jump_charge_exceeded :: "nat \<Rightarrow> nat \<Rightarrow> nat \<Rightarrow> nat \<Rightarrow> nat \<times> bool" where
  "jump_charge_exceeded charge expanded_nodes event_count factor =
     (let c = sat_add charge expanded_nodes in (c, c > sat_mul event_count factor))"

definition alias_bytes_exceeded :: "nat \<Rightarrow> nat \<Rightarrow> nat \<Rightarrow> nat \<times> bool" where
  "alias_bytes_exceeded bytes expanded m =
     (let total_bytes = sat_add bytes expanded
      in (total_bytes, total_bytes > m \<or> total_bytes > max_alias_bytes))"

definition nodes_exceeded :: "nat \<Rightarrow> nat \<Rightarrow> bool" where
  "nodes_exceeded count m \<longleftrightarrow> count > m"

section \<open>The cost of an alias\<close>

record alias_cost =
  cost_nodes :: nat
  cost_text :: nat
  cost_height :: nat
  cost_jump :: nat

definition cost_zero :: alias_cost where
  "cost_zero = \<lparr>cost_nodes = 0, cost_text = 0, cost_height = 0, cost_jump = 0\<rparr>"

definition cost_bytes :: "nat \<Rightarrow> alias_cost \<Rightarrow> nat" where
  "cost_bytes node_size c = sat_add (sat_mul (cost_nodes c) node_size) (cost_text c)"

text \<open>Nodes without the keys: the number of turns of the loop below.\<close>

fun value_jumps :: "value \<Rightarrow> nat" where
  "value_jumps (VSequence xs) = Suc (sum_list (map value_jumps xs))"
| "value_jumps (VMapping m) = Suc (sum_list (map (\<lambda>(k, v). value_jumps v) m))"
| "value_jumps (VTagged t v) = Suc (value_jumps v)"
| "value_jumps _ = 1"

definition count_node :: "alias_cost \<Rightarrow> alias_cost" where
  "count_node c = c\<lparr>cost_nodes := sat_add (cost_nodes c) 1, cost_jump := sat_add (cost_jump c) 1\<rparr>"

definition count_text :: "nat \<Rightarrow> alias_cost \<Rightarrow> alias_cost" where
  "count_text n c = c\<lparr>cost_text := sat_add (cost_text c) n\<rparr>"

definition count_key :: "alias_cost \<Rightarrow> string \<times> value \<Rightarrow> alias_cost" where
  "count_key c e = count_text (length (fst e)) (c\<lparr>cost_nodes := sat_add (cost_nodes c) 1\<rparr>)"

definition reach_level :: "nat \<Rightarrow> alias_cost \<Rightarrow> alias_cost" where
  "reach_level l c = c\<lparr>cost_height := max (cost_height c) l\<rparr>"

lemma sum_rev_map: "sum_list (map f (rev xs)) = (sum_list (map f xs) :: nat)"
  by (induction xs) auto

text \<open>\<open>while let Some((value, level)) = pending.pop()\<close>; the head of the list is the top of the stack.\<close>

function of_value_loop :: "alias_cost \<Rightarrow> (value \<times> nat) list \<Rightarrow> alias_cost" where
  "of_value_loop c [] = c"
| "of_value_loop c ((v, level) # pending) =
     (let c = count_node c in
      case v of
        VString s \<Rightarrow> of_value_loop (count_text (length s) c) pending
      | VSequence items \<Rightarrow>
          of_value_loop (reach_level (level + 1) c) (rev (map (\<lambda>i. (i, level + 1)) items) @ pending)
      | VMapping m \<Rightarrow>
          of_value_loop (foldl count_key (reach_level (level + 1) c) m)
            (rev (map (\<lambda>(k, i). (i, level + 1)) m) @ pending)
      | VTagged t inner \<Rightarrow> of_value_loop c ((inner, level) # pending)
      | _ \<Rightarrow> of_value_loop c pending)"
  by pat_completeness auto

termination
  by (relation "measure (\<lambda>(c, p). sum_list (map (\<lambda>(v, l). value_jumps v) p))")
     (auto simp: sum_rev_map rev_map comp_def case_prod_unfold)

definition of_value :: "value \<Rightarrow> alias_cost" where
  "of_value root = of_value_loop cost_zero [(root, 0)]"

text \<open>The same measurement on a recorded event buffer.\<close>

record cost_tally =
  tally_cost :: alias_cost
  tally_level :: nat

definition tally_new :: cost_tally where
  "tally_new = \<lparr>tally_cost = cost_zero, tally_level = 0\<rparr>"

definition tally_scalar :: "nat \<Rightarrow> cost_tally \<Rightarrow> cost_tally" where
  "tally_scalar len t = t\<lparr>tally_cost := count_text len (count_node (tally_cost t))\<rparr>"

definition tally_open :: "cost_tally \<Rightarrow> cost_tally" where
  "tally_open t =
     t\<lparr>tally_cost := reach_level (tally_level t + 1) (count_node (tally_cost t)),
       tally_level := tally_level t + 1\<rparr>"

definition tally_close :: "cost_tally \<Rightarrow> cost_tally" where
  "tally_close t = t\<lparr>tally_level := tally_level t - 1\<rparr>"

definition tally_finish :: "cost_tally \<Rightarrow> alias_cost" where
  "tally_finish t = tally_cost t"

text \<open>The streaming deserializer's recorded anchor buffer (\<open>streaming.rs\<close>).\<close>

datatype buffered_event =
    BScalar string scalar_style
  | BSeqStart
  | BSeqEnd
  | BMapStart
  | BMapEnd
  | BAlias string

fun buffer_step :: "buffered_event \<Rightarrow> cost_tally \<Rightarrow> cost_tally" where
  "buffer_step (BScalar v _) t = tally_scalar (length v) t"
| "buffer_step BSeqStart t = tally_open t"
| "buffer_step BMapStart t = tally_open t"
| "buffer_step BSeqEnd t = tally_close t"
| "buffer_step BMapEnd t = tally_close t"
| "buffer_step (BAlias _) t = t"

definition buffer_cost :: "buffered_event list \<Rightarrow> alias_cost" where
  "buffer_cost events = tally_finish (fold buffer_step events tally_new)"

section \<open>The meter\<close>

text \<open>
  \<open>fetch_add\<close> on the shared counter wraps at the width; the total compared with the limit is the
  old value plus the charge, saturating.
\<close>

definition tally_charge :: "nat \<Rightarrow> nat option \<Rightarrow> nat \<Rightarrow> nat \<times> nat option \<times> nat" where
  "tally_charge local shared by_amount =
     (let local = sat_add local by_amount
      in case shared of
           None \<Rightarrow> (local, None, local)
         | Some s \<Rightarrow> (local, Some ((s + by_amount) mod (usize_max + 1)), sat_add s by_amount))"

record meter =
  m_events :: nat
  m_nodes :: nat
  m_scalar_bytes :: nat
  m_anchors :: nat
  m_documents :: nat
  m_aliases :: nat
  m_alias_bytes :: nat
  m_jump_charge :: nat
  m_merge_keys :: nat
  m_shared :: "stream_tally option"

definition meter_new :: "parse_config \<Rightarrow> meter" where
  "meter_new config =
     \<lparr>m_events = 0, m_nodes = 0, m_scalar_bytes = 0, m_anchors = 0, m_documents = 0, m_aliases = 0,
      m_alias_bytes = 0, m_jump_charge = 0, m_merge_keys = 0, m_shared = cfg_stream_tally config\<rparr>"

type_synonym charge = "meter \<times> unit result"

fun then_charge :: "charge \<Rightarrow> (meter \<Rightarrow> charge) \<Rightarrow> charge" where
  "then_charge (m, Inl e) f = (m, Inl e)"
| "then_charge (m, Inr _) f = f m"

definition check_limit :: "(nat \<Rightarrow> nat \<Rightarrow> budget_breach) \<Rightarrow> nat \<Rightarrow> nat \<Rightarrow> unit result" where
  "check_limit breach limit observed =
     (if observed > limit then Inl (Budget (breach limit observed)) else Inr ())"

definition policy_projection :: "event \<Rightarrow> policy_event option" where
  "policy_projection e =
     (let project = (\<lambda>kind anchor tag scalar.
        Some \<lparr>pe_kind = kind, pe_anchor = anchor,
              pe_tag = map_option (\<lambda>(h, s). h @ s) tag, pe_scalar = scalar\<rparr>)
      in case e of
           Scalar v _ anchor tag _ \<Rightarrow> project PScalar anchor tag (Some v)
         | SequenceStart anchor tag _ \<Rightarrow> project PSequenceStart anchor tag None
         | MappingStart anchor tag _ \<Rightarrow> project PMappingStart anchor tag None
         | Alias _ _ \<Rightarrow> project PAlias None None None
         | _ \<Rightarrow> None)"

definition run_event_policies :: "event \<Rightarrow> policy list \<Rightarrow> unit result" where
  "run_event_policies e ps =
     (case policy_projection e of None \<Rightarrow> Inr () | Some pe \<Rightarrow> check_all check_event ps pe)"

definition charge_counted_event :: "parse_config \<Rightarrow> meter \<Rightarrow> charge" where
  "charge_counted_event config m =
     (case tally_charge (m_events m) (map_option st_events (m_shared m)) 1 of
        (local, shared, observed) \<Rightarrow>
          (m\<lparr>m_events := local,
             m_shared := map_option (\<lambda>t. t\<lparr>st_events := the shared\<rparr>) (m_shared m)\<rparr>,
           check_limit MaxEvents (max_events config) observed))"

definition charge_node :: "bool \<Rightarrow> parse_config \<Rightarrow> meter \<Rightarrow> charge" where
  "charge_node anchored config m =
     (case tally_charge (m_nodes m) (map_option st_nodes (m_shared m)) 1 of
        (local, shared, observed) \<Rightarrow>
          then_charge
            (m\<lparr>m_nodes := local,
               m_shared := map_option (\<lambda>t. t\<lparr>st_nodes := the shared\<rparr>) (m_shared m)\<rparr>,
             if nodes_exceeded observed (max_nodes config)
             then Inl (Budget (MaxNodes (max_nodes config) observed)) else Inr ())
            (\<lambda>m. (if anchored then m\<lparr>m_anchors := sat_add (m_anchors m) 1\<rparr> else m, Inr ())))"

definition charge_scalar_bytes :: "nat \<Rightarrow> parse_config \<Rightarrow> meter \<Rightarrow> charge" where
  "charge_scalar_bytes len config m =
     (case tally_charge (m_scalar_bytes m) (map_option st_scalar_bytes (m_shared m)) len of
        (local, shared, observed) \<Rightarrow>
          (m\<lparr>m_scalar_bytes := local,
             m_shared := map_option (\<lambda>t. t\<lparr>st_scalar_bytes := the shared\<rparr>) (m_shared m)\<rparr>,
           check_limit MaxTotalScalarBytes (max_total_scalar_bytes config) observed))"

definition start_document :: "parse_config \<Rightarrow> meter \<Rightarrow> charge" where
  "start_document config m =
     (let m = m\<lparr>m_aliases := 0, m_alias_bytes := 0\<rparr>
      in case tally_charge (m_documents m) (map_option st_documents (m_shared m)) 1 of
           (local, shared, observed) \<Rightarrow>
             (m\<lparr>m_documents := local,
                m_shared := map_option (\<lambda>t. t\<lparr>st_documents := the shared\<rparr>) (m_shared m)\<rparr>,
              check_limit MaxDocuments (max_documents config) observed))"

definition charge_event :: "event \<Rightarrow> parse_config \<Rightarrow> meter \<Rightarrow> charge" where
  "charge_event e config m =
     then_charge (m, if policies config = [] then Inr () else run_event_policies e (policies config)) (\<lambda>m.
     then_charge (charge_counted_event config m) (\<lambda>m.
       case e of
         Scalar v _ anchor _ _ \<Rightarrow>
           then_charge (charge_node (anchor \<noteq> None) config m) (charge_scalar_bytes (length v) config)
       | SequenceStart anchor _ _ \<Rightarrow> charge_node (anchor \<noteq> None) config m
       | MappingStart anchor _ _ \<Rightarrow> charge_node (anchor \<noteq> None) config m
       | DocumentStart \<Rightarrow> start_document config m
       | _ \<Rightarrow> (m, Inr ())))"

definition charge_alias :: "parse_config \<Rightarrow> meter \<Rightarrow> charge" where
  "charge_alias config m =
     (let m = m\<lparr>m_aliases := sat_add (m_aliases m) 1\<rparr> in
      (m, if alias_count_exceeded (m_aliases m) (max_alias_expansions config)
          then Inl RepetitionLimitExceeded
          else case alias_anchor_ratio config of
                 None \<Rightarrow> Inr ()
               | Some r \<Rightarrow>
                   if alias_ratio_exceeded (m_aliases m) (m_anchors m) (Some r)
                   then Inl (Budget (AliasAnchorRatio r (m_anchors m) (m_aliases m)))
                   else Inr ()))"

definition charge_expansion :: "alias_cost \<Rightarrow> nat \<Rightarrow> parse_config \<Rightarrow> meter \<Rightarrow> charge" where
  "charge_expansion cost site_depth config m =
     (let depth = sat_add site_depth (cost_height cost) in
      if depth_exceeded depth (max_depth config) then (m, Inl (RecursionLimitExceeded depth))
      else case alias_bytes_exceeded (m_alias_bytes m) (cost_bytes (node_bytes config) cost)
                  (max_document_length config) of
             (bytes, over) \<Rightarrow>
               let m = m\<lparr>m_alias_bytes := bytes\<rparr> in
               if over then (m, Inl RepetitionLimitExceeded)
               else case alias_jump_event_factor config of
                      None \<Rightarrow> (m, Inr ())
                    | Some factor \<Rightarrow>
                        (case jump_charge_exceeded (m_jump_charge m) (cost_jump cost) (m_events m) factor of
                           (c, over) \<Rightarrow>
                             (m\<lparr>m_jump_charge := c\<rparr>,
                              if over then Inl RepetitionLimitExceeded else Inr ())))"

definition charge_merge_key :: "parse_config \<Rightarrow> meter \<Rightarrow> charge" where
  "charge_merge_key config m =
     (case tally_charge (m_merge_keys m) (map_option st_merge_keys (m_shared m)) 1 of
        (local, shared, observed) \<Rightarrow>
          (m\<lparr>m_merge_keys := local,
             m_shared := map_option (\<lambda>t. t\<lparr>st_merge_keys := the shared\<rparr>) (m_shared m)\<rparr>,
           check_limit MaxMergeKeys (max_merge_keys config) observed))"

section \<open>The estimators measure the tree\<close>

fun value_nodes :: "value \<Rightarrow> nat" where
  "value_nodes (VSequence xs) = Suc (sum_list (map value_nodes xs))"
| "value_nodes (VMapping m) = Suc (sum_list (map (\<lambda>(k, v). Suc (value_nodes v)) m))"
| "value_nodes (VTagged t v) = Suc (value_nodes v)"
| "value_nodes _ = 1"

fun value_text :: "value \<Rightarrow> nat" where
  "value_text (VString s) = length s"
| "value_text (VSequence xs) = sum_list (map value_text xs)"
| "value_text (VMapping m) = sum_list (map (\<lambda>(k, v). length k + value_text v) m)"
| "value_text (VTagged t v) = value_text v"
| "value_text _ = 0"

fun max_of :: "nat list \<Rightarrow> nat" where
  "max_of [] = 0"
| "max_of (x # xs) = max x (max_of xs)"

lemma max_of_append: "max_of (xs @ ys) = max (max_of xs) (max_of ys)"
  by (induction xs) (auto simp: max.assoc)

lemma max_of_rev: "max_of (rev xs) = max_of xs"
  by (induction xs) (auto simp: max_of_append max.commute)

lemma max_of_le: "max_of xs \<le> b \<longleftrightarrow> (\<forall>x \<in> set xs. x \<le> b)"
  by (induction xs) auto

fun value_height :: "value \<Rightarrow> nat" where
  "value_height (VSequence xs) = Suc (max_of (map value_height xs))"
| "value_height (VMapping m) = Suc (max_of (map (\<lambda>(k, v). value_height v) m))"
| "value_height (VTagged t v) = value_height v"
| "value_height _ = 0"

definition measured :: "nat \<Rightarrow> nat \<Rightarrow> nat \<Rightarrow> nat \<Rightarrow> alias_cost" where
  "measured n t h j =
     \<lparr>cost_nodes = min n usize_max, cost_text = min t usize_max, cost_height = h,
      cost_jump = min j usize_max\<rparr>"

lemma cost_zero_measured: "cost_zero = measured 0 0 0 0"
  by (simp add: cost_zero_def measured_def)

lemma sat_add_min: "sat_add (min a usize_max) b = min (a + b) usize_max"
  by (simp add: sat_add_def min_def)

lemma measured_steps:
  "count_node (measured n t h j) = measured (Suc n) t h (Suc j)"
  "count_text l (measured n t h j) = measured n (t + l) h j"
  "count_key (measured n t h j) e = measured (Suc n) (t + length (fst e)) h j"
  "reach_level l (measured n t h j) = measured n t (max h l) j"
  by (simp_all add: count_node_def count_text_def count_key_def reach_level_def measured_def sat_add_min)

lemma count_keys:
  "foldl count_key (measured n t h j) m
     = measured (n + length m) (t + sum_list (map (\<lambda>(k, v). length k) m)) h j"
  by (induction m arbitrary: n t) (auto simp: measured_steps add.assoc)

text \<open>What a stack of pending nodes still adds.\<close>

definition pending_height :: "(value \<times> nat) list \<Rightarrow> nat" where
  "pending_height p = max_of (map (\<lambda>(v, l). if value_height v = 0 then 0 else l + value_height v) p)"

lemma pending_height_simps:
  "pending_height [] = 0"
  "pending_height ((v, l) # p) = max (if value_height v = 0 then 0 else l + value_height v) (pending_height p)"
  "pending_height (p @ q) = max (pending_height p) (pending_height q)"
  "pending_height (rev p) = pending_height p"
  by (simp_all add: pending_height_def max_of_append max_of_rev flip: rev_map)

lemma pending_height_items:
  "max (Suc l) (pending_height (map (\<lambda>i. (i, Suc l)) xs)) = l + value_height (VSequence xs)"
  by (induction xs) (auto simp: pending_height_simps max_def split: if_splits)

lemma pending_height_entries:
  "max (Suc l) (pending_height (map (\<lambda>(k, i). (i, Suc l)) m)) = l + value_height (VMapping m)"
  by (induction m) (auto simp: pending_height_simps max_def split: if_splits)

definition loop_turns :: "(value \<times> nat) list \<Rightarrow> nat" where
  "loop_turns p = sum_list (map (\<lambda>(v, l). value_jumps v) p)"

definition pending_nodes :: "(value \<times> nat) list \<Rightarrow> nat" where
  "pending_nodes p = sum_list (map (\<lambda>(v, l). value_nodes v) p)"

definition pending_text :: "(value \<times> nat) list \<Rightarrow> nat" where
  "pending_text p = sum_list (map (\<lambda>(v, l). value_text v) p)"

lemma pending_sums:
  "loop_turns [] = 0" "pending_nodes [] = 0" "pending_text [] = 0"
  "loop_turns ((v, l) # p) = value_jumps v + loop_turns p"
  "pending_nodes ((v, l) # p) = value_nodes v + pending_nodes p"
  "pending_text ((v, l) # p) = value_text v + pending_text p"
  "loop_turns (p @ q) = loop_turns p + loop_turns q"
  "pending_nodes (p @ q) = pending_nodes p + pending_nodes q"
  "pending_text (p @ q) = pending_text p + pending_text q"
  "loop_turns (rev p) = loop_turns p" "pending_nodes (rev p) = pending_nodes p"
  "pending_text (rev p) = pending_text p"
  by (simp_all add: loop_turns_def pending_nodes_def pending_text_def sum_rev_map)

lemma pending_items:
  "Suc (loop_turns (map (\<lambda>i. (i, l)) xs)) = value_jumps (VSequence xs)"
  "Suc (pending_nodes (map (\<lambda>i. (i, l)) xs)) = value_nodes (VSequence xs)"
  "pending_text (map (\<lambda>i. (i, l)) xs) = value_text (VSequence xs)"
  by (induction xs; simp add: pending_sums)+

lemma pending_entries:
  "Suc (loop_turns (map (\<lambda>(k, i). (i, l)) m)) = value_jumps (VMapping m)"
  "Suc (length m + pending_nodes (map (\<lambda>(k, i). (i, l)) m)) = value_nodes (VMapping m)"
  "sum_list (map (\<lambda>(k, v). length k) m) + pending_text (map (\<lambda>(k, i). (i, l)) m) = value_text (VMapping m)"
  by (induction m; auto simp: pending_sums)+

lemma of_value_loop_measures:
  "of_value_loop (measured n t h j) p =
     measured (n + pending_nodes p) (t + pending_text p) (max h (pending_height p)) (j + loop_turns p)"
proof (induction p arbitrary: n t h j rule: measure_induct_rule[of loop_turns])
  case (less p)
  show ?case
  proof (cases p)
    case Nil
    then show ?thesis by (simp add: pending_sums pending_height_simps)
  next
    case (Cons vl q)
    obtain v l where vl: "vl = (v, l)" by (cases vl)
    show ?thesis
    proof (cases v)
      case (VSequence xs)
      let ?q = "rev (map (\<lambda>i. (i, Suc l)) xs) @ q"
      have "loop_turns ?q < loop_turns p"
        using pending_items(1)[of "Suc l" xs] by (simp add: Cons vl VSequence pending_sums)
      from less.IH[OF this, of "Suc n" t "max h (Suc l)" "Suc j"] show ?thesis
        using pending_items(1-3)[of "Suc l" xs] pending_height_items[of l xs]
        by (simp add: Cons vl VSequence pending_sums pending_height_simps measured_steps Let_def
            max.assoc max.commute max.left_commute del: value_height.simps)
    next
      case (VMapping m)
      let ?q = "rev (map (\<lambda>(k, i). (i, Suc l)) m) @ q"
      have "loop_turns ?q < loop_turns p"
        using pending_entries(1)[where l = "Suc l" and m = m] by (simp add: Cons vl VMapping pending_sums)
      from less.IH[OF this, of "Suc n + length m" "t + sum_list (map (\<lambda>(k, v). length k) m)" "max h (Suc l)" "Suc j"]
      show ?thesis
        using pending_height_entries[of l m]
        by (simp add: Cons vl VMapping pending_sums pending_height_simps measured_steps count_keys Let_def
            pending_entries[where l = "Suc l" and m = m, symmetric] add.assoc
            max.assoc max.commute max.left_commute
            del: value_height.simps value_nodes.simps value_text.simps value_jumps.simps)
    next
      case (VTagged tg inner)
      have "loop_turns ((inner, l) # q) < loop_turns p" by (simp add: Cons vl VTagged pending_sums)
      moreover have "of_value_loop (measured n t h j) p
          = of_value_loop (measured (Suc n) t h (Suc j)) ((inner, l) # q)"
        unfolding Cons vl VTagged
        by (subst of_value_loop.simps(2)) (simp add: measured_steps del: of_value_loop.simps)
      ultimately show ?thesis
        by (simp add: less.IH[of "(inner, l) # q"] Cons vl VTagged pending_sums pending_height_simps
            del: of_value_loop.simps)
    qed (use less.IH[of q] in \<open>simp_all add: Cons vl pending_sums pending_height_simps measured_steps Let_def add.assoc\<close>)
  qed
qed

lemma of_value_exact: "of_value v = measured (value_nodes v) (value_text v) (value_height v) (value_jumps v)"
  unfolding of_value_def cost_zero_measured of_value_loop_measures
  by (simp add: pending_sums pending_height_simps measured_def)

text \<open>
  C12.  The loop measures the anchored tree exactly, however deep: the nodes with one more for
  every key, the bytes of strings and keys, the nesting of collections (a tag adds none) and the
  nodes without keys, each saturating at the width.
\<close>

theorem of_value_measures:
  "of_value v =
     \<lparr>cost_nodes = min (value_nodes v) usize_max, cost_text = min (value_text v) usize_max,
      cost_height = value_height v, cost_jump = min (value_jumps v) usize_max\<rparr>"
  by (simp add: of_value_exact measured_def)

text \<open>The buffer a value without tags is recorded as; \<open>spell\<close> is the source text of a scalar that is
  not a string.\<close>

fun recorded :: "(value \<Rightarrow> string) \<Rightarrow> value \<Rightarrow> buffered_event list" where
  "recorded spell (VString s) = [BScalar s Plain]"
| "recorded spell (VSequence xs) = BSeqStart # concat (map (recorded spell) xs) @ [BSeqEnd]"
| "recorded spell (VMapping m) =
     BMapStart # concat (map (\<lambda>(k, v). BScalar k Plain # recorded spell v) m) @ [BMapEnd]"
| "recorded spell (VTagged t v) = recorded spell v"
| "recorded spell v = [BScalar (spell v) Plain]"

fun event_text :: "buffered_event \<Rightarrow> nat" where
  "event_text (BScalar s _) = length s"
| "event_text _ = 0"

definition recorded_text :: "(value \<Rightarrow> string) \<Rightarrow> value \<Rightarrow> nat" where
  "recorded_text spell v = sum_list (map event_text (recorded spell v))"

lemma recorded_text_items:
  "sum_list (map event_text (concat (map (recorded spell) xs))) = sum_list (map (recorded_text spell) xs)"
  "sum_list (map event_text (concat (map (\<lambda>(k, v). BScalar k Plain # recorded spell v) m)))
     = sum_list (map (\<lambda>(k, v). length k + recorded_text spell v) m)"
  by (induction xs; simp add: recorded_text_def) (induction m; auto simp: recorded_text_def)

lemma recorded_text_ge: "value_text v \<le> recorded_text spell v"
proof (induction v)
  case (VSequence xs)
  then have "sum_list (map value_text xs) \<le> sum_list (map (recorded_text spell) xs)"
    by (intro sum_list_mono) auto
  then show ?case using recorded_text_items(1) by (simp add: recorded_text_def)
next
  case (VMapping m)
  then have "sum_list (map (\<lambda>(k, v). length k + value_text v) m)
      \<le> sum_list (map (\<lambda>(k, v). length k + recorded_text spell v) m)"
    by (intro sum_list_mono) (auto simp: snds.simps)
  then show ?case using recorded_text_items(2) by (simp add: recorded_text_def)
qed (auto simp: recorded_text_def)

definition tally_at :: "nat \<Rightarrow> nat \<Rightarrow> nat \<Rightarrow> nat \<Rightarrow> cost_tally" where
  "tally_at n t h l = \<lparr>tally_cost = measured n t h n, tally_level = l\<rparr>"

lemma tally_steps:
  "tally_scalar len (tally_at n t h l) = tally_at (Suc n) (t + len) h l"
  "tally_open (tally_at n t h l) = tally_at (Suc n) t (max h (Suc l)) (Suc l)"
  "tally_close (tally_at n t h l) = tally_at n t h (l - 1)"
  by (simp_all add: tally_scalar_def tally_open_def tally_close_def tally_at_def measured_steps)

definition level_height :: "nat \<Rightarrow> nat \<Rightarrow> nat" where
  "level_height l h = (if h = 0 then 0 else l + h)"

lemma fold_recorded_items:
  assumes "\<And>x n t h l. x \<in> set xs \<Longrightarrow> fold buffer_step (recorded spell x) (tally_at n t h l)
      = tally_at (n + value_nodes x) (t + recorded_text spell x) (max h (level_height l (value_height x))) l"
  shows "fold buffer_step (concat (map (recorded spell) xs)) (tally_at n t (max h l) l)
      = tally_at (n + sum_list (map value_nodes xs)) (t + sum_list (map (recorded_text spell) xs))
          (max h (l + max_of (map value_height xs))) l"
  using assms
proof (induction xs arbitrary: n t h)
  case (Cons x xs)
  have "max (max h l) (level_height l (value_height x)) = max (max h (l + value_height x)) l"
    by (auto simp: level_height_def max_def)
  then show ?case
    using Cons.IH[of "n + value_nodes x" "t + recorded_text spell x" "max h (l + value_height x)"] Cons.prems
    by (simp add: add.assoc max.assoc nat_add_max_right)
qed simp

lemma fold_recorded_entries:
  assumes "\<And>k x n t h l. (k, x) \<in> set m \<Longrightarrow> fold buffer_step (recorded spell x) (tally_at n t h l)
      = tally_at (n + value_nodes x) (t + recorded_text spell x) (max h (level_height l (value_height x))) l"
  shows "fold buffer_step (concat (map (\<lambda>(k, v). BScalar k Plain # recorded spell v) m)) (tally_at n t (max h l) l)
      = tally_at (n + sum_list (map (\<lambda>(k, v). Suc (value_nodes v)) m))
          (t + sum_list (map (\<lambda>(k, v). length k + recorded_text spell v) m))
          (max h (l + max_of (map (\<lambda>(k, v). value_height v) m))) l"
  using assms
proof (induction m arbitrary: n t h)
  case (Cons e m)
  obtain k x where e: "e = (k, x)" by (cases e)
  have "max (max h l) (level_height l (value_height x)) = max (max h (l + value_height x)) l"
    by (auto simp: level_height_def max_def)
  moreover have rest: "fold buffer_step (concat (map (\<lambda>(k, v). BScalar k Plain # recorded spell v) m))
        (tally_at n' t' (max h' l) l)
      = tally_at (n' + sum_list (map (\<lambda>(k, v). Suc (value_nodes v)) m))
          (t' + sum_list (map (\<lambda>(k, v). length k + recorded_text spell v) m))
          (max h' (l + max_of (map (\<lambda>(k, v). value_height v) m))) l" for n' t' h'
    by (rule Cons.IH, rule Cons.prems, rule list.set_intros(2))
  moreover have "fold buffer_step (concat (map (\<lambda>(k, v). BScalar k Plain # recorded spell v) m)) (tally_at n' t' h' l)
      = tally_at (n' + sum_list (map (\<lambda>(k, v). Suc (value_nodes v)) m))
          (t' + sum_list (map (\<lambda>(k, v). length k + recorded_text spell v) m))
          (max h' (l + max_of (map (\<lambda>(k, v). value_height v) m))) l" if "l \<le> h'" for n' t' h'
    using rest[of n' t' h'] that by (simp add: max_absorb1)
  ultimately show ?case
    using Cons.prems[of k x "Suc n" "t + length k" "max h l" l]
    by (simp add: e add.assoc max.assoc nat_add_max_right tally_steps)
qed simp

lemma fold_recorded:
  "tag_free v \<Longrightarrow> fold buffer_step (recorded spell v) (tally_at n t h l)
     = tally_at (n + value_nodes v) (t + recorded_text spell v) (max h (level_height l (value_height v))) l"
proof (induction v arbitrary: n t h l)
  case (VSequence xs)
  have IH: "fold buffer_step (recorded spell x) (tally_at n t h l)
      = tally_at (n + value_nodes x) (t + recorded_text spell x) (max h (level_height l (value_height x))) l"
    if "x \<in> set xs" for x n t h l
    using VSequence.IH[OF that] VSequence.prems that by (simp add: list_all_iff)
  show ?case
    using fold_recorded_items[where spell = spell and xs = xs and n = "Suc n" and t = t and h = h and l = "Suc l", OF IH]
      recorded_text_items(1)[of spell xs]
    by (simp add: tally_steps level_height_def recorded_text_def)
next
  case (VMapping m)
  have IH: "fold buffer_step (recorded spell x) (tally_at n t h l)
      = tally_at (n + value_nodes x) (t + recorded_text spell x) (max h (level_height l (value_height x))) l"
    if "(k, x) \<in> set m" for k x n t h l
    using VMapping.IH[OF that] VMapping.prems that by (fastforce simp: list_all_iff snds.simps)
  show ?case
    using fold_recorded_entries[where spell = spell and m = m and n = "Suc n" and t = t and h = h and l = "Suc l", OF IH]
      recorded_text_items(2)[of spell m]
    by (simp add: tally_steps level_height_def recorded_text_def)
qed (auto simp: tally_steps level_height_def recorded_text_def)

text \<open>
  The two estimators of an alias agree on every value without tags: measured on the value or
  on its recorded events, the node count and the nesting are the same and the recorded text is at
  least the value's.  The jump charge differs: the buffer counts the keys, the value does not.
\<close>

theorem estimators_agree:
  assumes "tag_free v"
  shows "cost_nodes (buffer_cost (recorded spell v)) = cost_nodes (of_value v)
    \<and> cost_height (buffer_cost (recorded spell v)) = cost_height (of_value v)
    \<and> cost_text (of_value v) \<le> cost_text (buffer_cost (recorded spell v))
    \<and> cost_jump (buffer_cost (recorded spell v)) = cost_nodes (of_value v)"
proof -
  have "buffer_cost (recorded spell v) = measured (value_nodes v) (recorded_text spell v) (value_height v) (value_nodes v)"
    using fold_recorded[OF assms, of spell 0 0 0 0]
    by (simp add: buffer_cost_def tally_finish_def tally_new_def tally_at_def cost_zero_measured level_height_def
        split: if_splits)
  then show ?thesis
    using recorded_text_ge[of v spell] by (simp add: of_value_exact measured_def)
qed

theorem estimators_agree_witness:
  "cost_nodes (buffer_cost [BMapStart, BScalar ''a'' Plain, BSeqStart, BScalar ''x'' Plain, BSeqEnd, BMapEnd])
     = cost_nodes (of_value (VMapping [(''a'', VSequence [VString ''x''])]))"
  using estimators_agree[of "VMapping [(''a'', VSequence [VString ''x''])]" "\<lambda>_. []"] by simp

lemma jump_charges_differ:
  "cost_jump (of_value (VMapping [(''a'', VNull)])) = 2
   \<and> cost_jump (buffer_cost (recorded spell (VMapping [(''a'', VNull)]))) = 3"
  by (simp add: of_value_exact measured_def buffer_cost_def tally_finish_def tally_new_def tally_scalar_def
      tally_open_def tally_close_def count_node_def count_text_def reach_level_def cost_zero_def sat_add_def
      usize_max_def)

section \<open>The budgets of one parse\<close>

fun charge_all :: "parse_config \<Rightarrow> event list \<Rightarrow> meter \<Rightarrow> charge" where
  "charge_all config [] m = (m, Inr ())"
| "charge_all config (e # es) m = then_charge (charge_event e config m) (charge_all config es)"

fun is_node :: "event \<Rightarrow> bool" where
  "is_node (Scalar _ _ _ _ _) = True"
| "is_node (SequenceStart _ _ _) = True"
| "is_node (MappingStart _ _ _) = True"
| "is_node _ = False"

fun scalar_length :: "event \<Rightarrow> nat" where
  "scalar_length (Scalar v _ _ _ _) = length v"
| "scalar_length _ = 0"

fun is_document :: "event \<Rightarrow> bool" where
  "is_document DocumentStart = True"
| "is_document _ = False"

abbreviation count :: "('a \<Rightarrow> bool) \<Rightarrow> 'a list \<Rightarrow> nat" where
  "count P xs \<equiv> length (filter P xs)"

lemma then_charge_ok:
  "then_charge c f = (m, Inr ()) \<longleftrightarrow> (\<exists>n. c = (n, Inr ()) \<and> f n = (m, Inr ()))"
  by (cases c; cases "snd c") auto

lemma snd_then_charge:
  "snd (then_charge c f) = Inr u \<longleftrightarrow> snd c = Inr () \<and> snd (f (fst c)) = Inr u"
  by (cases c; cases "snd c") auto

text \<open>The counters of an unshared meter below the limits, and what one event adds to them.\<close>

definition within :: "parse_config \<Rightarrow> meter \<Rightarrow> bool" where
  "within c m \<longleftrightarrow> m_shared m = None \<and> m_events m \<le> max_events c \<and> m_nodes m \<le> max_nodes c
     \<and> m_scalar_bytes m \<le> max_total_scalar_bytes c \<and> m_documents m \<le> max_documents c"

definition finite_limits :: "parse_config \<Rightarrow> bool" where
  "finite_limits c \<longleftrightarrow> max_events c < usize_max \<and> max_nodes c < usize_max
     \<and> max_total_scalar_bytes c < usize_max \<and> max_documents c < usize_max"

lemma sat_add_gt: "limit < usize_max \<Longrightarrow> sat_add a b > limit \<longleftrightarrow> a + b > limit"
  by (auto simp: sat_add_def min_def)

lemma sat_add_exact: "sat_add a b \<le> limit \<Longrightarrow> limit < usize_max \<Longrightarrow> sat_add a b = a + b"
  by (auto simp: sat_add_def min_def split: if_splits)

lemma charge_event_within:
  assumes "policies c = []" and "finite_limits c" and "within c m"
  shows "charge_event e c m = (n, r) \<Longrightarrow>
    (r = Inr () \<longleftrightarrow>
      m_events m + 1 \<le> max_events c
      \<and> m_nodes m + (if is_node e then 1 else 0) \<le> max_nodes c
      \<and> m_scalar_bytes m + scalar_length e \<le> max_total_scalar_bytes c
      \<and> m_documents m + (if is_document e then 1 else 0) \<le> max_documents c)
    \<and> (r = Inr () \<longrightarrow>
      within c n \<and> m_events n = m_events m + 1
      \<and> m_nodes n = m_nodes m + (if is_node e then 1 else 0)
      \<and> m_scalar_bytes n = m_scalar_bytes m + scalar_length e
      \<and> m_documents n = m_documents m + (if is_document e then 1 else 0))"
proof -
  have one: "sat_add (m_events m) (Suc 0) = Suc (m_events m)" "sat_add (m_nodes m) (Suc 0) = Suc (m_nodes m)"
    "sat_add (m_documents m) (Suc 0) = Suc (m_documents m)"
    using assms by (auto simp: within_def finite_limits_def sat_add_def)
  have shared: "m_shared m = None" and le: "m_events m \<le> max_events c" "m_nodes m \<le> max_nodes c"
    "m_scalar_bytes m \<le> max_total_scalar_bytes c" "m_documents m \<le> max_documents c"
    using assms(3) by (simp_all add: within_def)
  have bytes: "sat_add (m_scalar_bytes m) k > max_total_scalar_bytes c
      \<longleftrightarrow> m_scalar_bytes m + k > max_total_scalar_bytes c" for k
    using assms(2) by (simp add: sat_add_gt finite_limits_def)
  have exact: "sat_add (m_scalar_bytes m) k = m_scalar_bytes m + k"
    if "m_scalar_bytes m + k \<le> max_total_scalar_bytes c" for k
    using that assms(2) by (auto simp: sat_add_def finite_limits_def)
  note defs = charge_event_def charge_counted_event_def charge_node_def charge_scalar_bytes_def
    start_document_def tally_charge_def check_limit_def nodes_exceeded_def Let_def one shared
  assume r: "charge_event e c m = (n, r)"
  show ?thesis
  proof (cases "max_events c < Suc (m_events m)")
    case True
    then show ?thesis using r assms(1) by (auto simp: defs)
  next
    case False
    then show ?thesis
      using r assms(1) le
      by (cases e)
         (auto simp: defs bytes exact within_def not_less split: if_splits)
  qed
qed

lemma charge_all_within:
  assumes "policies c = []" and "finite_limits c"
  shows "within c m \<Longrightarrow> snd (charge_all c es m) = Inr () \<longleftrightarrow>
      m_events m + length es \<le> max_events c
      \<and> m_nodes m + count is_node es \<le> max_nodes c
      \<and> m_scalar_bytes m + sum_list (map scalar_length es) \<le> max_total_scalar_bytes c
      \<and> m_documents m + count is_document es \<le> max_documents c"
proof (induction es arbitrary: m)
  case Nil
  then show ?case by (auto simp: within_def)
next
  case (Cons e es)
  obtain n r where nr: "charge_event e c m = (n, r)" by fastforce
  note step = charge_event_within[OF assms Cons.prems nr]
  show ?case
  proof (cases "r = Inr ()")
    case True
    then have "snd (charge_all c (e # es) m) = snd (charge_all c es n)" using nr by simp
    moreover have "within c n" using step True by blast
    note Cons.IH[OF this]
    ultimately show ?thesis using step True by auto
  next
    case False
    then obtain err where "r = Inl err" by (cases r) auto
    then have "snd (charge_all c (e # es) m) \<noteq> Inr ()" using nr by simp
    moreover have "\<not> (m_events m + 1 \<le> max_events c
      \<and> m_nodes m + (if is_node e then 1 else 0) \<le> max_nodes c
      \<and> m_scalar_bytes m + scalar_length e \<le> max_total_scalar_bytes c
      \<and> m_documents m + (if is_document e then 1 else 0) \<le> max_documents c)"
      using step False by blast
    ultimately show ?thesis by auto
  qed
qed



section \<open>The charges of one document\<close>

text \<open>
  What the loaders charge while they read a document, in the order they do: the events, the
  aliases, the expansions of the aliases with the depth of their sites, and the merge keys.
\<close>

datatype document_charge =
    EventCharge event
  | AliasCharge
  | ExpansionCharge alias_cost nat
  | MergeKeyCharge

fun charge_one :: "parse_config \<Rightarrow> document_charge \<Rightarrow> meter \<Rightarrow> charge" where
  "charge_one config (EventCharge e) m = charge_event e config m"
| "charge_one config AliasCharge m = charge_alias config m"
| "charge_one config (ExpansionCharge cost depth) m = charge_expansion cost depth config m"
| "charge_one config MergeKeyCharge m = charge_merge_key config m"

fun charge_run :: "parse_config \<Rightarrow> document_charge list \<Rightarrow> meter \<Rightarrow> charge" where
  "charge_run config [] m = (m, Inr ())"
| "charge_run config (x # xs) m = then_charge (charge_one config x m) (charge_run config xs)"

fun expansion_bytes :: "parse_config \<Rightarrow> document_charge \<Rightarrow> nat" where
  "expansion_bytes config (ExpansionCharge cost depth) = cost_bytes (node_bytes config) cost"
| "expansion_bytes config _ = 0"

lemma effective_depth_le: "effective_max_depth m \<le> 256" "effective_max_depth m \<le> m"
  by (auto simp: effective_max_depth_def max_depth_ceiling_def)

lemma effective_max_depth_le: "effective_max_depth m \<le> min m 256"
  using effective_depth_le by simp

lemma depth_limit_exact: "d \<le> usize_max \<Longrightarrow> depth_exceeded (sat_add d h) m \<longleftrightarrow> effective_max_depth m < d + h"
  using effective_depth_le(1)[of m] by (auto simp: depth_exceeded_def sat_add_def usize_max_def)

lemma charge_alias_ok:
  "charge_alias c m = (n, Inr ()) \<Longrightarrow> m_alias_bytes n = m_alias_bytes m \<and> m_aliases n \<le> max_alias_expansions c
     \<and> m_aliases n = sat_add (m_aliases m) 1"
  by (auto simp: charge_alias_def alias_count_exceeded_def Let_def not_less split: if_splits option.splits)

lemma charge_expansion_ok:
  assumes "charge_expansion cost depth c m = (n, Inr ())"
  shows "m_alias_bytes n = m_alias_bytes m + cost_bytes (node_bytes c) cost
    \<and> m_alias_bytes n \<le> max_alias_bytes \<and> m_alias_bytes n \<le> max_document_length c
    \<and> depth + cost_height cost \<le> effective_max_depth (max_depth c) \<and> m_aliases n = m_aliases m"
proof -
  have "max_alias_bytes < usize_max" by (simp add: max_alias_bytes_def usize_max_def)
  moreover have "effective_max_depth (max_depth c) < usize_max"
    using effective_depth_le(1)[of "max_depth c"] by (simp add: usize_max_def)
  ultimately show ?thesis
    using assms
    by (auto simp: charge_expansion_def alias_bytes_exceeded_def depth_exceeded_def jump_charge_exceeded_def
        sat_add_def min_def Let_def split: if_splits option.splits)
qed

text \<open>An event that does not start a document leaves the alias counters alone, and so does a merge
  key.\<close>

lemma charge_event_aliases:
  assumes "charge_event e c m = (n, Inr ())"
  shows "e \<noteq> DocumentStart \<Longrightarrow> m_alias_bytes n = m_alias_bytes m \<and> m_aliases n = m_aliases m"
    and "e = DocumentStart \<Longrightarrow> m_alias_bytes n = 0 \<and> m_aliases n = 0"
proof -
  note defs = charge_event_def charge_counted_event_def charge_node_def charge_scalar_bytes_def
    start_document_def Let_def then_charge_ok
  show "m_alias_bytes n = m_alias_bytes m \<and> m_aliases n = m_aliases m" if "e \<noteq> DocumentStart"
    using assms that by (cases e) (auto simp: defs split: prod.splits if_splits)
  show "m_alias_bytes n = 0 \<and> m_aliases n = 0" if "e = DocumentStart"
    using assms that by (auto simp: defs split: prod.splits if_splits)
qed

lemma charge_merge_key_aliases:
  "charge_merge_key c m = (n, r) \<Longrightarrow> m_alias_bytes n = m_alias_bytes m \<and> m_aliases n = m_aliases m"
  by (auto simp: charge_merge_key_def split: prod.splits)

lemma charge_one_aliases:
  assumes "charge_one c x m = (n, Inr ())" and "x \<noteq> EventCharge DocumentStart"
  shows "m_alias_bytes n = m_alias_bytes m + expansion_bytes c x
    \<and> (m_alias_bytes n \<noteq> m_alias_bytes m \<longrightarrow>
         m_alias_bytes n \<le> max_alias_bytes \<and> m_alias_bytes n \<le> max_document_length c)
    \<and> m_aliases n = (if x = AliasCharge then sat_add (m_aliases m) 1 else m_aliases m)
    \<and> (x = AliasCharge \<longrightarrow> m_aliases n \<le> max_alias_expansions c)"
proof (cases x)
  case (EventCharge e)
  then show ?thesis using assms charge_event_aliases(1)[of e c m n] by auto
next
  case AliasCharge
  then show ?thesis using assms charge_alias_ok[of c m n] by simp
next
  case (ExpansionCharge cost d)
  then show ?thesis using assms charge_expansion_ok[of cost d c m n] by simp
next
  case MergeKeyCharge
  then show ?thesis using assms charge_merge_key_aliases[of c m n "Inr ()"] by simp
qed

lemma charge_run_bounded:
  "charge_run c xs m = (n, Inr ()) \<Longrightarrow> EventCharge DocumentStart \<notin> set xs \<Longrightarrow>
   m_alias_bytes n = m_alias_bytes m + sum_list (map (expansion_bytes c) xs)
   \<and> (m_alias_bytes n \<noteq> m_alias_bytes m \<longrightarrow>
        m_alias_bytes n \<le> max_alias_bytes \<and> m_alias_bytes n \<le> max_document_length c)
   \<and> (max_alias_expansions c < usize_max \<longrightarrow> m_aliases m \<le> max_alias_expansions c \<longrightarrow>
        m_aliases n = m_aliases m + count (\<lambda>x. x = AliasCharge) xs
        \<and> m_aliases n \<le> max_alias_expansions c)
   \<and> (\<forall>cost depth. ExpansionCharge cost depth \<in> set xs \<longrightarrow>
        depth + cost_height cost \<le> effective_max_depth (max_depth c))"
proof (induction xs arbitrary: m)
  case (Cons x xs)
  obtain k where k: "charge_one c x m = (k, Inr ())" "charge_run c xs k = (n, Inr ())"
    using Cons.prems(1) by (auto simp: then_charge_ok)
  have x: "x \<noteq> EventCharge DocumentStart" "EventCharge DocumentStart \<notin> set xs"
    using Cons.prems(2) by auto
  note step = charge_one_aliases[OF k(1) x(1)] and IH = Cons.IH[OF k(2) x(2)]
  have depth: "d + cost_height cost \<le> effective_max_depth (max_depth c)"
    if "x = ExpansionCharge cost d" for cost d
    using k(1) that charge_expansion_ok[of cost d c m k] by auto
  have aliases: "m_aliases n = m_aliases m + count (\<lambda>x. x = AliasCharge) (x # xs)
      \<and> m_aliases n \<le> max_alias_expansions c"
    if l: "max_alias_expansions c < usize_max" "m_aliases m \<le> max_alias_expansions c"
  proof -
    have "m_aliases k = (if x = AliasCharge then m_aliases m + 1 else m_aliases m)"
      using step l by (auto simp: sat_add_def)
    moreover have "m_aliases k \<le> max_alias_expansions c" using step l by (auto split: if_splits)
    ultimately show ?thesis using IH l(1) by auto
  qed
  have bytes: "m_alias_bytes n = m_alias_bytes m + sum_list (map (expansion_bytes c) (x # xs))"
    using step IH by simp
  have bound: "m_alias_bytes n \<le> max_alias_bytes \<and> m_alias_bytes n \<le> max_document_length c"
    if "m_alias_bytes n \<noteq> m_alias_bytes m"
    using step IH that by (cases "m_alias_bytes n = m_alias_bytes k") auto
  show ?case using bytes bound aliases depth IH by auto
qed simp

text \<open>
  C14.  From the event that starts a document on, whatever events, aliases, expansions and merge
  keys the loaders charge in whatever order until the document ends: the expansions accepted
  allocate, by the estimate, at most 32 MiB and at most the configured document length together;
  each one ends at most \<open>max_depth\<close>, never more than 256, levels deep where it is spliced in; and
  the aliases are at most \<open>max_alias_expansions\<close>, when that is below the largest number of the
  width.
\<close>

theorem expansions_bounded:
  assumes "charge_run c (EventCharge DocumentStart # xs) m = (n, Inr ())"
    and "EventCharge DocumentStart \<notin> set xs"
  shows "sum_list (map (expansion_bytes c) xs) \<le> 1024 * 1024 * 32
    \<and> sum_list (map (expansion_bytes c) xs) \<le> max_document_length c
    \<and> (\<forall>cost depth. ExpansionCharge cost depth \<in> set xs \<longrightarrow>
         depth + cost_height cost \<le> min (max_depth c) 256)
    \<and> (max_alias_expansions c < usize_max \<longrightarrow>
         count (\<lambda>x. x = AliasCharge) xs \<le> max_alias_expansions c)"
proof -
  obtain k where k: "charge_event DocumentStart c m = (k, Inr ())" "charge_run c xs k = (n, Inr ())"
    using assms(1) by (auto simp: then_charge_ok)
  have k0: "m_alias_bytes k = 0" "m_aliases k = 0" using charge_event_aliases(2)[OF k(1)] by simp_all
  note run = charge_run_bounded[OF k(2) assms(2), unfolded k0]
  have "m_alias_bytes n \<le> max_alias_bytes \<and> m_alias_bytes n \<le> max_document_length c"
    using run by (cases "m_alias_bytes n = 0") simp_all
  moreover have "effective_max_depth (max_depth c) \<le> min (max_depth c) 256"
    by (rule effective_max_depth_le)
  ultimately show ?thesis
    using run by (intro conjI allI impI) (auto simp: max_alias_bytes_def intro: order_trans)
qed

theorem expansions_bounded_witness:
  "(3::nat) + cost_height (of_value (VSequence [VNull])) \<le> min (max_depth (default_config 40)) 256"
proof -
  let ?c = "default_config 40\<lparr>alias_anchor_ratio := None\<rparr>"
  let ?x = "[EventCharge (SequenceStart None None \<lparr>span_start = 0, span_end = 1\<rparr>), AliasCharge,
    ExpansionCharge (of_value (VSequence [VNull])) 3, MergeKeyCharge]"
  obtain n where "charge_run ?c (EventCharge DocumentStart # ?x) (meter_new ?c) = (n, Inr ())"
    by (simp add: charge_alias_def charge_expansion_def alias_bytes_exceeded_def depth_exceeded_def
        charge_event_def charge_counted_event_def charge_node_def charge_merge_key_def nodes_exceeded_def
        alias_count_exceeded_def start_document_def tally_charge_def check_limit_def meter_new_def
        default_config_def of_value_exact measured_def cost_bytes_def sat_add_def sat_mul_def usize_max_def
        max_alias_bytes_def effective_max_depth_def max_depth_ceiling_def Let_def)
  from expansions_bounded[OF this] show ?thesis by (auto simp: default_config_def)
qed

section \<open>Documents that share a tally\<close>

text \<open>
  The documents of one stream, each with its own meter, make their charges in any order against
  one shared tally; the step names the document.  A refused document may go on charging.  The
  result lists the charges with whether they were accepted.
\<close>

fun stream_run ::
  "parse_config \<Rightarrow> (nat \<Rightarrow> meter) \<Rightarrow> stream_tally \<Rightarrow> (nat \<times> document_charge) list \<Rightarrow>
   (document_charge \<times> bool) list" where
  "stream_run config docs tally [] = []"
| "stream_run config docs tally ((i, x) # steps) =
     (case charge_one config x ((docs i)\<lparr>m_shared := Some tally\<rparr>) of
        (m, r) \<Rightarrow> (x, r = Inr ()) # stream_run config (docs(i := m)) (the (m_shared m)) steps)"

text \<open>How much of each budget a charge takes.\<close>

fun event_amount :: "document_charge \<Rightarrow> nat" where
  "event_amount (EventCharge e) = 1"
| "event_amount _ = 0"

fun node_amount :: "document_charge \<Rightarrow> nat" where
  "node_amount (EventCharge e) = (if is_node e then 1 else 0)"
| "node_amount _ = 0"

fun scalar_byte_amount :: "document_charge \<Rightarrow> nat" where
  "scalar_byte_amount (EventCharge e) = scalar_length e"
| "scalar_byte_amount _ = 0"

fun document_amount :: "document_charge \<Rightarrow> nat" where
  "document_amount (EventCharge e) = (if is_document e then 1 else 0)"
| "document_amount _ = 0"

fun merge_key_amount :: "document_charge \<Rightarrow> nat" where
  "merge_key_amount MergeKeyCharge = 1"
| "merge_key_amount _ = 0"

definition accepted :: "(document_charge \<Rightarrow> nat) \<Rightarrow> (document_charge \<times> bool) list \<Rightarrow> nat" where
  "accepted amount run = sum_list (map (\<lambda>(x, ok). if ok then amount x else 0) run)"

text \<open>
  What a charge does to one counter of the tally, while the counter does not wrap: it never falls
  and rises by at most the amount, and an accepted charge has moved it by the amount, within the
  limit.
\<close>

definition shared_counter ::
  "(stream_tally \<Rightarrow> nat) \<Rightarrow> (document_charge \<Rightarrow> nat) \<Rightarrow> nat \<Rightarrow> parse_config \<Rightarrow> bool" where
  "shared_counter taken amount limit c \<longleftrightarrow>
     (\<forall>x m t n r. charge_one c x (m\<lparr>m_shared := Some t\<rparr>) = (n, r) \<longrightarrow>
        taken t + amount x \<le> usize_max \<longrightarrow>
        (\<exists>u. m_shared n = Some u \<and> taken t \<le> taken u \<and> taken u \<le> taken t + amount x
           \<and> (r = Inr () \<longrightarrow> taken u = taken t + amount x
                \<and> (0 < amount x \<longrightarrow> taken u \<le> limit))))"

lemma tally_charge_shared:
  "tally_charge l (Some s) k = (sat_add l k, Some ((s + k) mod (usize_max + 1)), sat_add s k)"
  by (simp add: tally_charge_def Let_def)

lemma no_wrap: "s + k \<le> usize_max \<Longrightarrow> (s + k) mod (usize_max + 1) = s + k \<and> sat_add s k = s + k"
  by (simp add: sat_add_def)

lemmas shared_charge_defs = charge_event_def charge_counted_event_def charge_node_def charge_scalar_bytes_def
  start_document_def charge_alias_def charge_expansion_def charge_merge_key_def tally_charge_shared
  check_limit_def nodes_exceeded_def Let_def

lemma shared_counterI:
  assumes "\<And>e m t n r. charge_event e c (m\<lparr>m_shared := Some t\<rparr>) = (n, r) \<Longrightarrow>
      taken t + amount (EventCharge e) \<le> usize_max \<Longrightarrow>
      \<exists>u. m_shared n = Some u \<and> taken t \<le> taken u \<and> taken u \<le> taken t + amount (EventCharge e)
        \<and> (r = Inr () \<longrightarrow> taken u = taken t + amount (EventCharge e)
             \<and> (0 < amount (EventCharge e) \<longrightarrow> taken u \<le> limit))"
    and "\<And>m t n r. charge_merge_key c (m\<lparr>m_shared := Some t\<rparr>) = (n, r) \<Longrightarrow>
      taken t + amount MergeKeyCharge \<le> usize_max \<Longrightarrow>
      \<exists>u. m_shared n = Some u \<and> taken t \<le> taken u \<and> taken u \<le> taken t + amount MergeKeyCharge
        \<and> (r = Inr () \<longrightarrow> taken u = taken t + amount MergeKeyCharge
             \<and> (0 < amount MergeKeyCharge \<longrightarrow> taken u \<le> limit))"
    and "amount AliasCharge = 0" and "\<And>cost d. amount (ExpansionCharge cost d) = 0"
  shows "shared_counter taken amount limit c"
  unfolding shared_counter_def
proof (intro allI impI)
  fix x m t n r
  assume x: "charge_one c x (m\<lparr>m_shared := Some t\<rparr>) = (n, r)" "taken t + amount x \<le> usize_max"
  have "m_shared n = Some t" if "x = AliasCharge"
    using x(1) that by (auto simp: charge_alias_def Let_def)
  moreover have "m_shared n = Some t" if "x = ExpansionCharge cost d" for cost d
    using x(1) that
    by (auto simp: charge_expansion_def Let_def split: if_splits prod.splits option.splits)
  ultimately show "\<exists>u. m_shared n = Some u \<and> taken t \<le> taken u \<and> taken u \<le> taken t + amount x
      \<and> (r = Inr () \<longrightarrow> taken u = taken t + amount x \<and> (0 < amount x \<longrightarrow> taken u \<le> limit))"
    using x assms(1)[where m = m and t = t and n = n and r = r] assms(2)[where m = m and t = t and n = n and r = r] assms(3,4) by (cases x) auto
qed

lemma shared_merge_key:
  "charge_merge_key c (m\<lparr>m_shared := Some t\<rparr>) = (n, r) \<Longrightarrow> \<exists>u. m_shared n = Some u
     \<and> st_events u = st_events t \<and> st_nodes u = st_nodes t \<and> st_scalar_bytes u = st_scalar_bytes t
     \<and> st_documents u = st_documents t \<and> st_merge_keys u = (st_merge_keys t + 1) mod (usize_max + 1)
     \<and> (r = Inr () \<longrightarrow> sat_add (st_merge_keys t) 1 \<le> max_merge_keys c)"
  by (auto simp: charge_merge_key_def tally_charge_shared check_limit_def not_less split: if_splits)

text \<open>An event against a shared tally: each counter keeps its value or takes the event's amount, an
  accepted event has taken every amount within the limits.\<close>

definition counter_moved :: "bool \<Rightarrow> nat \<Rightarrow> nat \<Rightarrow> nat \<Rightarrow> nat \<Rightarrow> bool" where
  "counter_moved ok old new amount limit \<longleftrightarrow>
     (new = old \<or> new = (old + amount) mod (usize_max + 1))
     \<and> (ok \<longrightarrow> 0 < amount \<longrightarrow> new = (old + amount) mod (usize_max + 1) \<and> sat_add old amount \<le> limit)"

lemma counter_moved_bound:
  assumes "counter_moved ok old new amount limit" and "old + amount \<le> usize_max"
  shows "old \<le> new \<and> new \<le> old + amount
    \<and> (ok \<longrightarrow> new = old + amount \<and> (0 < amount \<longrightarrow> new \<le> limit))"
  using assms no_wrap[of old amount] no_wrap[of old 0] by (cases "amount = 0") (auto simp: counter_moved_def)

lemma shared_event:
  assumes "charge_event e c (m\<lparr>m_shared := Some t\<rparr>) = (n, r)"
  shows "\<exists>u. m_shared n = Some u \<and> st_merge_keys u = st_merge_keys t
     \<and> counter_moved (r = Inr ()) (st_events t) (st_events u) 1 (max_events c)
     \<and> counter_moved (r = Inr ()) (st_nodes t) (st_nodes u) (node_amount (EventCharge e)) (max_nodes c)
     \<and> counter_moved (r = Inr ()) (st_scalar_bytes t) (st_scalar_bytes u) (scalar_length e)
         (max_total_scalar_bytes c)
     \<and> counter_moved (r = Inr ()) (st_documents t) (st_documents u) (document_amount (EventCharge e))
         (max_documents c)"
proof -
  let ?pol = "if policies c = [] then Inr () else run_event_policies e (policies c)"
  show ?thesis
  proof (cases ?pol)
    case (Inl err)
    then show ?thesis using assms by (auto simp: charge_event_def counter_moved_def)
  next
    case (Inr u)
    show ?thesis
    proof (cases "max_events c < sat_add (st_events t) 1")
      case True
      then show ?thesis using assms Inr
        by (auto simp: shared_charge_defs counter_moved_def)
    next
      case False
      then show ?thesis
        using assms Inr
        by (cases e) (auto simp: shared_charge_defs counter_moved_def not_less split: if_splits)
    qed
  qed
qed

lemma shared_counters:
  "shared_counter st_events event_amount (max_events c) c"
  "shared_counter st_nodes node_amount (max_nodes c) c"
  "shared_counter st_scalar_bytes scalar_byte_amount (max_total_scalar_bytes c) c"
  "shared_counter st_documents document_amount (max_documents c) c"
  "shared_counter st_merge_keys merge_key_amount (max_merge_keys c) c"
proof -
  note event = shared_event[where c = c] and merge = shared_merge_key[where c = c]
  show "shared_counter st_events event_amount (max_events c) c"
    by (rule shared_counterI; (drule event | drule merge)?)
       (fastforce dest: counter_moved_bound)+
  show "shared_counter st_nodes node_amount (max_nodes c) c"
    by (rule shared_counterI; (drule event | drule merge)?)
       (fastforce dest: counter_moved_bound simp del: node_amount.simps(1))+
  show "shared_counter st_scalar_bytes scalar_byte_amount (max_total_scalar_bytes c) c"
    by (rule shared_counterI; (drule event | drule merge)?)
       (fastforce dest: counter_moved_bound)+
  show "shared_counter st_documents document_amount (max_documents c) c"
    by (rule shared_counterI; (drule event | drule merge)?)
       (fastforce dest: counter_moved_bound simp del: document_amount.simps(1))+
  show "shared_counter st_merge_keys merge_key_amount (max_merge_keys c) c"
    by (rule shared_counterI; (drule event | drule merge)?)
       (fastforce dest: no_wrap)+
qed

lemma stream_run_counter:
  assumes "shared_counter taken amount limit c"
  shows "taken t + sum_list (map (amount \<circ> snd) steps) \<le> usize_max \<Longrightarrow>
    taken t + accepted amount (stream_run c docs t steps) \<le> max (taken t) limit"
proof (induction steps arbitrary: docs t)
  case (Cons s steps)
  obtain i x where s: "s = (i, x)" by (cases s)
  obtain n r where nr: "charge_one c x ((docs i)\<lparr>m_shared := Some t\<rparr>) = (n, r)" by fastforce
  have "taken t + amount x \<le> usize_max" using Cons.prems by (simp add: s)
  then obtain u where u: "m_shared n = Some u" "taken t \<le> taken u" "taken u \<le> taken t + amount x"
      "r = Inr () \<Longrightarrow> taken u = taken t + amount x"
      "r = Inr () \<Longrightarrow> 0 < amount x \<Longrightarrow> taken u \<le> limit"
    using assms nr unfolding shared_counter_def by meson
  obtain d where run: "stream_run c docs t (s # steps) = (x, r = Inr ()) # stream_run c d u steps"
    using nr u(1) by (simp add: s)
  have "taken u + sum_list (map (amount \<circ> snd) steps) \<le> usize_max"
    using Cons.prems u(3) by (simp add: s comp_def)
  note IH = Cons.IH[OF this, of d]
  have "accepted amount (stream_run c docs t (s # steps))
      = (if r = Inr () then amount x else 0) + accepted amount (stream_run c d u steps)"
    by (simp add: run accepted_def)
  then show ?case
    using IH u(2-5) by (cases "r = Inr ()"; cases "0 < amount x"; simp; linarith?)
qed (simp add: accepted_def)

definition fresh_tally :: stream_tally where
  "fresh_tally = \<lparr>st_events = 0, st_nodes = 0, st_scalar_bytes = 0, st_merge_keys = 0, st_documents = 0\<rparr>"

text \<open>
  C15.  Documents parsed separately, on any number of threads and interleaved in any order, share
  the stream's budgets: with a fresh tally the events, the nodes, the scalar bytes, the documents
  and the merge keys accepted over all of them together stay within the limits of one
  configuration, as long as the attempts themselves do not wrap the counters.
\<close>

theorem shared_budgets_hold:
  assumes "length steps + sum_list (map (scalar_byte_amount \<circ> snd) steps) \<le> usize_max"
  shows "accepted event_amount (stream_run c docs fresh_tally steps) \<le> max_events c
    \<and> accepted node_amount (stream_run c docs fresh_tally steps) \<le> max_nodes c
    \<and> accepted scalar_byte_amount (stream_run c docs fresh_tally steps) \<le> max_total_scalar_bytes c
    \<and> accepted document_amount (stream_run c docs fresh_tally steps) \<le> max_documents c
    \<and> accepted merge_key_amount (stream_run c docs fresh_tally steps) \<le> max_merge_keys c"
proof -
  have few: "sum_list (map (amount \<circ> snd) steps) \<le> length steps" if "\<And>x. amount x \<le> 1" for amount
    using sum_list_mono[of steps "amount \<circ> snd" "\<lambda>_. 1"] that by (simp add: sum_list_triv comp_def)
  have one: "event_amount x \<le> 1" "node_amount x \<le> 1" "document_amount x \<le> 1" "merge_key_amount x \<le> 1" for x
    by (cases x; simp)+
  note le = few[of event_amount] few[of node_amount] few[of document_amount] few[of merge_key_amount]
  show ?thesis
    using assms le one stream_run_counter[OF shared_counters(1), of fresh_tally steps c docs]
      stream_run_counter[OF shared_counters(2), of fresh_tally steps c docs]
      stream_run_counter[OF shared_counters(3), of fresh_tally steps c docs]
      stream_run_counter[OF shared_counters(4), of fresh_tally steps c docs]
      stream_run_counter[OF shared_counters(5), of fresh_tally steps c docs]
    by (simp add: fresh_tally_def)
qed

theorem shared_budgets_hold_witness:
  "accepted scalar_byte_amount
     (stream_run (default_config 40\<lparr>max_total_scalar_bytes := 3\<rparr>) (\<lambda>_. meter_new (default_config 40)) fresh_tally
       [(0, EventCharge (Scalar ''ab'' Plain None None \<lparr>span_start = 0, span_end = 2\<rparr>)),
        (1, EventCharge (Scalar ''cd'' Plain None None \<lparr>span_start = 0, span_end = 2\<rparr>)),
        (0, MergeKeyCharge)]) \<le> 3"
  using shared_budgets_hold[of "[(0, EventCharge (Scalar ''ab'' Plain None None \<lparr>span_start = 0, span_end = 2\<rparr>)),
        (1, EventCharge (Scalar ''cd'' Plain None None \<lparr>span_start = 0, span_end = 2\<rparr>)),
        (0, MergeKeyCharge)]" "default_config 40\<lparr>max_total_scalar_bytes := 3\<rparr>"
      "\<lambda>_. meter_new (default_config 40)"]
  by (simp add: usize_max_def del: stream_run.simps)

end
