(* ===== verification/Serializer.thy ===== *)
theory Serializer
  imports Meter Errors Unicode
begin

text \<open>
  The emitter (\<open>ser.rs\<close>): from a value to a YAML text under a \<open>SerializerConfig\<close>.  The output is an
  argument that every writer extends, because some of them look at what was written before; an error
  ends the writing.  \<open>String::push_str\<close> is \<open>@\<close>.  The text of a finite float is the parameter \<open>fmt\<close>.
\<close>

section \<open>Configuration\<close>

datatype flow_style = FlowBlock | FlowFlow | FlowAuto

datatype out_scalar_style = OutAuto | OutDoubleQuoted | OutSingleQuoted | OutLiteral | OutFolded | OutPlain

record serializer_config =
  sr_indent :: nat
  sr_document_start :: bool
  sr_document_end :: bool
  sr_block_scalars :: bool
  sr_block_scalar_threshold :: nat
  sr_flow_style :: flow_style
  sr_scalar_style :: out_scalar_style
  sr_flow_threshold :: nat
  sr_quote_all :: bool
  sr_prefer_single_quotes :: bool
  sr_compact_list_indent :: bool
  sr_folded_wrap_chars :: nat
  sr_min_fold_chars :: nat
  sr_max_depth :: nat

definition serializer_config_default :: serializer_config where
  "serializer_config_default =
     \<lparr>sr_indent = 2, sr_document_start = False, sr_document_end = False, sr_block_scalars = True,
      sr_block_scalar_threshold = 1, sr_flow_style = FlowBlock, sr_scalar_style = OutAuto,
      sr_flow_threshold = 4, sr_quote_all = False, sr_prefer_single_quotes = False,
      sr_compact_list_indent = False, sr_folded_wrap_chars = 80, sr_min_fold_chars = 80, sr_max_depth = 128\<rparr>"

text \<open>The configuration with the emitter's place: inside a flow collection or not.\<close>

record cx = serializer_config +
  in_flow :: bool

definition cx_new :: "serializer_config \<Rightarrow> cx" where
  "cx_new cfg = serializer_config.extend cfg \<lparr>in_flow = False\<rparr>"

definition cx_flow :: "cx \<Rightarrow> cx" where
  "cx_flow c = c\<lparr>in_flow := True\<rparr>"

section \<open>What a plain scalar would mean\<close>

abbreviation ser_tab :: char where "ser_tab \<equiv> CHR 0x09"
abbreviation ser_nl :: char where "ser_nl \<equiv> CHR 0x0A"

definition resolves_as_non_string :: "string \<Rightarrow> bool" where
  "resolves_as_non_string s \<longleftrightarrow>
     (case resolve_plain_ext s False True False True True False of RStr _ \<Rightarrow> False | _ \<Rightarrow> True)"

definition special_floats :: "string list" where
  "special_floats =
     [''.inf'', ''.Inf'', ''.INF'', ''+.inf'', ''+.Inf'', ''+.INF'', ''-.inf'', ''-.Inf'', ''-.INF'',
      ''.nan'', ''.NaN'', ''.NAN'']"

definition is_sign :: "char \<Rightarrow> bool" where
  "is_sign c \<longleftrightarrow> c = CHR ''+'' \<or> c = CHR ''-''"

definition opens_number :: "string \<Rightarrow> bool" where
  "opens_number s \<longleftrightarrow>
     s \<noteq> [] \<and> (is_ascii_digit (hd s) \<or> (hd s = CHR ''.'' \<and> length s > 1 \<and> is_ascii_digit (s ! 1)))"

definition looks_like_number :: "string \<Rightarrow> bool" where
  "looks_like_number s \<longleftrightarrow>
     s \<noteq> [] \<and> (s \<in> set special_floats
              \<or> (let unsigned = dropWhile is_sign s in opens_number unsigned \<and> resolves_as_non_string unsigned))"

definition reserved_words :: "string list" where
  "reserved_words =
     [''true'', ''false'', ''null'', ''~'', ''True'', ''False'', ''TRUE'', ''FALSE'', ''Null'', ''NULL'']"

definition is_reserved_word :: "string \<Rightarrow> bool" where
  "is_reserved_word s \<longleftrightarrow> s \<in> set reserved_words"

section \<open>Which bytes need quotes\<close>

definition ser_flow_indicator :: "char \<Rightarrow> bool" where
  "ser_flow_indicator b \<longleftrightarrow> b \<in> {CHR '','', CHR ''['', CHR '']'', CHR ''{'', CHR ''}''}"

definition has_flow_indicator :: "string \<Rightarrow> bool" where
  "has_flow_indicator s \<longleftrightarrow> list_ex ser_flow_indicator s"

definition ser_blank :: "char \<Rightarrow> bool" where
  "ser_blank b \<longleftrightarrow> b = CHR '' '' \<or> b = ser_tab"

definition ser_colon_ends_plain :: "string \<Rightarrow> nat \<Rightarrow> bool" where
  "ser_colon_ends_plain s i \<longleftrightarrow>
     (if i + 1 < length s then ser_blank (s ! (i + 1)) \<or> ser_flow_indicator (s ! (i + 1)) else True)"

definition hash_starts_comment :: "string \<Rightarrow> nat \<Rightarrow> bool" where
  "hash_starts_comment s i \<longleftrightarrow> i = 0 \<or> ser_blank (s ! (i - 1))"

definition needs_quote_byte :: "char \<Rightarrow> bool" where
  "needs_quote_byte b \<longleftrightarrow> (byte b < 0x20 \<and> b \<noteq> ser_tab) \<or> b = CHR '':'' \<or> b = CHR ''#''"

definition first_char_quote :: "char \<Rightarrow> bool" where
  "first_char_quote b \<longleftrightarrow>
     b \<in> {CHR '' '', CHR ''-'', CHR ''&'', CHR ''*'', CHR ''!'', CHR ''|'', CHR ''>'', CHR ''%'', CHR ''@'',
          CHR 0x60, CHR ''{'', CHR ''}'', CHR ''['', CHR '']'', CHR '','', CHR ''?'', CHR 0x27, CHR 0x22}"

definition byte_forces_quotes :: "string \<Rightarrow> nat \<Rightarrow> bool" where
  "byte_forces_quotes s i \<longleftrightarrow>
     (if s ! i = CHR '':'' then ser_colon_ends_plain s i
      else if s ! i = CHR ''#'' then hash_starts_comment s i
      else needs_quote_byte (s ! i))"

definition is_plain_safe :: "string \<Rightarrow> bool \<Rightarrow> bool" where
  "is_plain_safe s flow \<longleftrightarrow>
     \<not> (first_char_quote (hd s) \<or> hd s = ser_tab \<or> ser_blank (last s) \<or> is_reserved_word s
        \<or> looks_like_number s \<or> (flow \<and> has_flow_indicator s))
     \<and> list_all (\<lambda>i. \<not> byte_forces_quotes s i) [0..<length s]"

definition simple_byte :: "char \<Rightarrow> bool" where
  "simple_byte b \<longleftrightarrow> is_ascii_alphanumeric b \<or> b \<in> {CHR ''_'', CHR ''-'', CHR ''.'', CHR ''/''}"

definition is_simple_plain :: "string \<Rightarrow> bool" where
  "is_simple_plain s \<longleftrightarrow>
     length s \<le> 64 \<and> s \<noteq> [] \<and> is_ascii_alphanumeric (hd s) \<and> is_ascii_alphanumeric (last s)
     \<and> list_all simple_byte s \<and> \<not> is_reserved_word s \<and> \<not> looks_like_number s"

definition char_needs_escape :: "nat \<Rightarrow> bool" where
  "char_needs_escape c \<longleftrightarrow>
     c \<in> {0x0D, 0x2028, 0x2029, 0xFEFF, 0xFFFE, 0xFFFF} \<or> (0x7F \<le> c \<and> c \<le> 0x9F)
     \<or> (c < 0x20 \<and> c \<noteq> 0x09 \<and> c \<noteq> 0x0A)"

definition needs_double_quoted_escape :: "string \<Rightarrow> bool" where
  "needs_double_quoted_escape s \<longleftrightarrow> list_ex (\<lambda>ch. char_needs_escape (code_point ch)) (chars s)"

text \<open>\<open>char::is_control\<close> is the C0 and C1 controls with DEL.\<close>

definition single_quote_safe :: "string \<Rightarrow> bool" where
  "single_quote_safe s \<longleftrightarrow>
     \<not> list_ex (\<lambda>ch. let c = code_point ch in c < 0x20 \<or> (0x7F \<le> c \<and> c \<le> 0x9F) \<or> c = 0xFFFE \<or> c = 0xFFFF) (chars s)"

section \<open>Strings\<close>

datatype str_style = StylePlain | StyleSingle | StyleDouble | StyleBlock

definition quoted_style :: "string \<Rightarrow> bool \<Rightarrow> str_style" where
  "quoted_style s prefer_single =
     (if prefer_single \<and> single_quote_safe s \<and> \<not> needs_double_quoted_escape s then StyleSingle else StyleDouble)"

definition string_style :: "string \<Rightarrow> cx \<Rightarrow> str_style" where
  "string_style s c =
     (if s = [] then (if sr_prefer_single_quotes c then StyleSingle else StyleDouble)
      else if sr_quote_all c \<or> starts_with ''...'' s then quoted_style s True
      else if is_simple_plain s then StylePlain
      else if sr_block_scalars c \<and> \<not> in_flow c \<and> \<not> needs_double_quoted_escape s
              \<and> length (filter (\<lambda>b. b = ser_nl) s) \<ge> sr_block_scalar_threshold c
      then StyleBlock
      else if needs_double_quoted_escape s then StyleDouble
      else if is_plain_safe s (in_flow c) then StylePlain
      else quoted_style s (sr_prefer_single_quotes c))"

definition write_single_quoted :: "string \<Rightarrow> string" where
  "write_single_quoted s =
     CHR 0x27 # concat (map (\<lambda>ch. if ch = [CHR 0x27] then [CHR 0x27, CHR 0x27] else ch) (chars s)) @ [CHR 0x27]"

definition double_escape :: "nat \<Rightarrow> string option" where
  "double_escape c =
     (if c = 0x22 then Some [CHR 0x5C, CHR 0x22]
      else if c = 0x5C then Some [CHR 0x5C, CHR 0x5C]
      else if c = 0x0A then Some [CHR 0x5C, CHR ''n'']
      else if c = 0x0D then Some [CHR 0x5C, CHR ''r'']
      else if c = 0x09 then Some [CHR 0x5C, CHR ''t'']
      else if c = 0 then Some [CHR 0x5C, CHR ''0'']
      else if c = 0x85 then Some [CHR 0x5C, CHR ''N'']
      else if c = 0x2028 then Some [CHR 0x5C, CHR ''L'']
      else if c = 0x2029 then Some [CHR 0x5C, CHR ''P'']
      else if c = 0xFEFF then Some (CHR 0x5C # ''uFEFF'')
      else if c = 0xFFFE \<or> c = 0xFFFF then Some (CHR 0x5C # CHR ''u'' # show_hex 4 c)
      else if c < 0x20 \<or> (0x7F \<le> c \<and> c \<le> 0x9F) then Some (CHR 0x5C # CHR ''x'' # show_hex 2 c)
      else None)"

definition escape_char :: "string \<Rightarrow> string" where
  "escape_char ch = (case double_escape (code_point ch) of Some e \<Rightarrow> e | None \<Rightarrow> ch)"

definition write_double_quoted :: "string \<Rightarrow> string" where
  "write_double_quoted s = CHR 0x22 # concat (map escape_char (chars s)) @ [CHR 0x22]"

section \<open>Block scalars and lines\<close>

definition spaces :: "nat \<Rightarrow> string" where
  "spaces n = replicate n CHR '' ''"

definition write_block_scalar_body :: "string \<Rightarrow> nat \<Rightarrow> cx \<Rightarrow> string" where
  "write_block_scalar_body s indent c =
     concat (map (\<lambda>line. ser_nl # (if line = [] then [] else spaces (sr_indent c * (indent + 1)) @ line)) (lines s))"

definition block_scalar_indent_indicator :: "string \<Rightarrow> cx \<Rightarrow> string" where
  "block_scalar_indent_indicator s c =
     (case find (\<lambda>line. line \<noteq> []) (lines s) of
        Some line \<Rightarrow> if ser_blank (hd line) then show_nat (sr_indent c) else []
      | None \<Rightarrow> [])"

definition ends_with_nl :: "string \<Rightarrow> bool" where
  "ends_with_nl s \<longleftrightarrow> s \<noteq> [] \<and> last s = ser_nl"

definition block_chomping :: "string \<Rightarrow> string" where
  "block_chomping s =
     (if \<not> ends_with_nl s then ''-''
      else if ends_with_nl (butlast s) \<or> list_all (\<lambda>line. line = []) (lines s) then ''+''
      else [])"

definition start_line :: "string \<Rightarrow> nat \<Rightarrow> string" where
  "start_line out n = (if ends_with_nl out then out else out @ [ser_nl]) @ spaces n"

definition write_literal_block :: "string \<Rightarrow> nat \<Rightarrow> cx \<Rightarrow> string" where
  "write_literal_block s indent c =
     ''|'' @ block_scalar_indent_indicator s c @ block_chomping s @ write_block_scalar_body s indent c"

definition write_folded_block :: "string \<Rightarrow> nat \<Rightarrow> cx \<Rightarrow> string" where
  "write_folded_block s indent c =
     ''>'' @ block_scalar_indent_indicator s c @ block_chomping s @ write_block_scalar_body s indent c"

definition write_block_scalar :: "string \<Rightarrow> nat \<Rightarrow> cx \<Rightarrow> string" where
  "write_block_scalar s indent c =
     ''|'' @ block_scalar_indent_indicator s c @ block_chomping s @ write_block_scalar_body s indent c
     @ (if ends_with_nl s then [ser_nl] else [])"

definition write_string :: "string \<Rightarrow> nat \<Rightarrow> cx \<Rightarrow> string" where
  "write_string s indent c =
     (case string_style s c of
        StylePlain \<Rightarrow> s
      | StyleSingle \<Rightarrow> write_single_quoted s
      | StyleDouble \<Rightarrow> write_double_quoted s
      | StyleBlock \<Rightarrow> write_block_scalar s indent c)"

definition write_key_string :: "string \<Rightarrow> nat \<Rightarrow> cx \<Rightarrow> string" where
  "write_key_string s indent c =
     (if ser_nl \<in> set s then write_double_quoted s
      else if s = ''<<'' then
        (case quoted_style s (sr_prefer_single_quotes c) of
           StyleSingle \<Rightarrow> write_single_quoted s | _ \<Rightarrow> write_double_quoted s)
      else write_string s indent c)"

section \<open>Tags and comments\<close>

definition write_tag_spelling :: "string \<Rightarrow> string" where
  "write_tag_spelling t =
     (case (case strip_prefix ''!!'' t of Some b \<Rightarrow> Some b | None \<Rightarrow> strip_prefix ''!'' t) of
        None \<Rightarrow> ''!<'' @ t @ ''>''
      | Some body \<Rightarrow>
          if starts_with ''<'' body
             \<or> list_ex (\<lambda>b. ser_flow_indicator b \<or> b = CHR ''!'' \<or> ser_blank b) body
          then ''!<'' @ t @ ''>'' else t)"

definition tag_as_mapping :: "string \<Rightarrow> bool" where
  "tag_as_mapping t \<longleftrightarrow> list_ex (\<lambda>b. byte b < 0x20 \<or> byte b = 0x7F \<or> b = CHR ''>'') t"

definition comment_break :: "string \<Rightarrow> bool" where
  "comment_break ch \<longleftrightarrow> code_point ch \<in> {0x0A, 0x0D, 0x85, 0x2028, 0x2029}"

fun split_chars :: "(string \<Rightarrow> bool) \<Rightarrow> string list \<Rightarrow> string list list" where
  "split_chars p [] = [[]]"
| "split_chars p (ch # s) =
     (if p ch then [] # split_chars p s
      else case split_chars p s of [] \<Rightarrow> [[ch]] | l # ls \<Rightarrow> (ch # l) # ls)"

definition replacement_char :: string where
  "replacement_char = [CHR 0xEF, CHR 0xBF, CHR 0xBD]"

definition comment_text :: "string list \<Rightarrow> string" where
  "comment_text line =
     (if line = [] then [] else '' '')
     @ concat (map (\<lambda>ch. if char_needs_escape (code_point ch) then replacement_char else ch) line)"

definition write_comment :: "string \<Rightarrow> string \<Rightarrow> bool \<Rightarrow> nat \<Rightarrow> string" where
  "write_comment out comment inline column =
     (case split_chars comment_break (chars comment) of
        [] \<Rightarrow> out
      | l # ls \<Rightarrow>
          foldl (\<lambda>out line. start_line out column @ ''#'' @ comment_text line)
            ((if inline then out @ '' #'' else start_line out column @ ''#'') @ comment_text l) ls)"

section \<open>Layout\<close>

abbreviation magic_flow_seq :: string where "magic_flow_seq \<equiv> ''__noya_flow_seq''"
abbreviation magic_flow_map :: string where "magic_flow_map \<equiv> ''__noya_flow_map''"
abbreviation magic_lit_str :: string where "magic_lit_str \<equiv> ''__noya_lit_str''"
abbreviation magic_fold_str :: string where "magic_fold_str \<equiv> ''__noya_fold_str''"
abbreviation magic_commented :: string where "magic_commented \<equiv> ''__noya_commented''"
abbreviation magic_space_after :: string where "magic_space_after \<equiv> ''__noya_space_after''"
abbreviation magic_anchor_def :: string where "magic_anchor_def \<equiv> ''__noya_anchor_def''"
abbreviation magic_anchor_ref :: string where "magic_anchor_ref \<equiv> ''__noya_anchor_ref''"

fun auto_flow_eligible :: "value \<Rightarrow> cx \<Rightarrow> bool" where
  "auto_flow_eligible (VSequence s) c \<longleftrightarrow>
     length s \<le> sr_flow_threshold c \<and> (\<forall>v \<in> set s. auto_flow_eligible v c)"
| "auto_flow_eligible (VMapping m) c \<longleftrightarrow>
     length m \<le> sr_flow_threshold c \<and> (\<forall>(k, v) \<in> set m. auto_flow_eligible v c)"
| "auto_flow_eligible (VTagged t v) c = False"
| "auto_flow_eligible _ c = True"

definition use_flow :: "value list \<Rightarrow> cx \<Rightarrow> bool" where
  "use_flow vs c =
     (if in_flow c then True
      else case sr_flow_style c of
             FlowBlock \<Rightarrow> False
           | FlowFlow \<Rightarrow> True
           | FlowAuto \<Rightarrow> length vs \<le> sr_flow_threshold c \<and> list_all (\<lambda>v. auto_flow_eligible v c) vs)"

fun is_block_collection :: "value \<Rightarrow> cx \<Rightarrow> bool" where
  "is_block_collection (VMapping m) c \<longleftrightarrow> m \<noteq> [] \<and> \<not> use_flow (map snd m) c"
| "is_block_collection (VSequence s) c \<longleftrightarrow> s \<noteq> [] \<and> \<not> use_flow s c"
| "is_block_collection _ c = False"

function needs_block_layout :: "value \<Rightarrow> cx \<Rightarrow> bool" where
  "needs_block_layout v c =
     (case v of
        VTagged t inner \<Rightarrow>
          if \<not> tag_is_directive t then needs_block_layout inner c
          else if tag_text t = magic_anchor_def then
            (case inner of VSequence [_, x] \<Rightarrow> needs_block_layout x c | _ \<Rightarrow> False)
          else if tag_text t = magic_anchor_ref then False
          else if tag_text t = magic_flow_seq then \<not> is_sequence inner \<and> needs_block_layout inner c
          else if tag_text t = magic_flow_map then \<not> is_mapping inner \<and> needs_block_layout inner c
          else if tag_text t = magic_lit_str \<or> tag_text t = magic_fold_str
          then \<not> is_string inner \<and> needs_block_layout inner c
          else if tag_text t = magic_commented then
            (case inner of VSequence [x, _] \<Rightarrow> needs_block_layout x c | _ \<Rightarrow> needs_block_layout inner c)
          else needs_block_layout inner c
      | _ \<Rightarrow> is_block_collection v c)"
  by pat_completeness auto

termination
  by (relation "measure (\<lambda>(v, c). size v)") auto

declare needs_block_layout.simps [simp del]

definition indicator_takes_a_space :: "value \<Rightarrow> cx \<Rightarrow> bool" where
  "indicator_takes_a_space v c \<longleftrightarrow>
     \<not> needs_block_layout v c
     \<or> (case v of VTagged t _ \<Rightarrow> \<not> tag_is_directive t \<or> tag_text t = magic_anchor_def | _ \<Rightarrow> False)"

text \<open>Where a value under a key is written: one level deeper when it takes lines of its own.\<close>

definition value_indent :: "value \<Rightarrow> nat \<Rightarrow> nat \<Rightarrow> cx \<Rightarrow> nat" where
  "value_indent v same deeper c =
     (if needs_block_layout v c then (if sr_compact_list_indent c \<and> is_sequence v then same else deeper) else same)"

section \<open>Writing values\<close>

text \<open>
  The writers of \<open>ser.rs\<close>, with one function for each loop: \<open>write_items\<close> over the items of a block
  sequence, \<open>write_item_entries\<close> over the entries of a mapping inside one, \<open>write_entries\<close> over a
  block mapping, and the two loops of flow collections; \<open>is_first\<close> is \<open>i = 0\<close>.
\<close>

abbreviation mapping_size :: "mapping \<Rightarrow> nat" where
  "mapping_size m \<equiv> size_list (size_prod (\<lambda>x. 0) size) m"

type_synonym out = "(error, string) res"

function
  write_value :: "(f64 \<Rightarrow> string) \<Rightarrow> string \<Rightarrow> value \<Rightarrow> nat \<Rightarrow> bool \<Rightarrow> cx \<Rightarrow> nat \<Rightarrow> out"
  and write_user_tag :: "(f64 \<Rightarrow> string) \<Rightarrow> string \<Rightarrow> string \<Rightarrow> value \<Rightarrow> nat \<Rightarrow> cx \<Rightarrow> nat \<Rightarrow> out"
  and write_internal_tag :: "(f64 \<Rightarrow> string) \<Rightarrow> string \<Rightarrow> string \<Rightarrow> value \<Rightarrow> nat \<Rightarrow> bool \<Rightarrow> cx \<Rightarrow> nat \<Rightarrow> out"
  and write_flow_hinted :: "(f64 \<Rightarrow> string) \<Rightarrow> string \<Rightarrow> string \<Rightarrow> value \<Rightarrow> cx \<Rightarrow> nat \<Rightarrow> out"
  and write_anchor_def :: "(f64 \<Rightarrow> string) \<Rightarrow> string \<Rightarrow> string \<Rightarrow> value \<Rightarrow> nat \<Rightarrow> cx \<Rightarrow> nat \<Rightarrow> out"
  and write_sequence :: "(f64 \<Rightarrow> string) \<Rightarrow> string \<Rightarrow> value list \<Rightarrow> nat \<Rightarrow> bool \<Rightarrow> cx \<Rightarrow> nat \<Rightarrow> out"
  and write_items :: "(f64 \<Rightarrow> string) \<Rightarrow> string \<Rightarrow> bool \<Rightarrow> value list \<Rightarrow> nat \<Rightarrow> bool \<Rightarrow> cx \<Rightarrow> nat \<Rightarrow> out"
  and write_item_entries :: "(f64 \<Rightarrow> string) \<Rightarrow> string \<Rightarrow> bool \<Rightarrow> mapping \<Rightarrow> nat \<Rightarrow> cx \<Rightarrow> nat \<Rightarrow> out"
  and write_mapping :: "(f64 \<Rightarrow> string) \<Rightarrow> string \<Rightarrow> mapping \<Rightarrow> nat \<Rightarrow> bool \<Rightarrow> cx \<Rightarrow> nat \<Rightarrow> out"
  and write_entries :: "(f64 \<Rightarrow> string) \<Rightarrow> string \<Rightarrow> bool \<Rightarrow> mapping \<Rightarrow> nat \<Rightarrow> bool \<Rightarrow> cx \<Rightarrow> nat \<Rightarrow> out"
  and write_flow_sequence :: "(f64 \<Rightarrow> string) \<Rightarrow> string \<Rightarrow> value list \<Rightarrow> cx \<Rightarrow> nat \<Rightarrow> out"
  and write_flow_items :: "(f64 \<Rightarrow> string) \<Rightarrow> string \<Rightarrow> bool \<Rightarrow> value list \<Rightarrow> cx \<Rightarrow> nat \<Rightarrow> out"
  and write_flow_mapping :: "(f64 \<Rightarrow> string) \<Rightarrow> string \<Rightarrow> mapping \<Rightarrow> cx \<Rightarrow> nat \<Rightarrow> out"
  and write_flow_entries :: "(f64 \<Rightarrow> string) \<Rightarrow> string \<Rightarrow> bool \<Rightarrow> mapping \<Rightarrow> cx \<Rightarrow> nat \<Rightarrow> out"
where
  "write_value fmt out v indent is_root c depth =
     (if depth_exceeded depth (sr_max_depth c) then Inl (RecursionLimitExceeded depth)
      else case v of
        VNull \<Rightarrow> Inr (out @ ''null'')
      | VBool b \<Rightarrow> Inr (out @ (if b then ''true'' else ''false''))
      | VNumber n \<Rightarrow> Inr (out @ number_display fmt n)
      | VString s \<Rightarrow> Inr (out @ write_string s indent c)
      | VSequence seq \<Rightarrow> write_sequence fmt out seq indent is_root c depth
      | VMapping m \<Rightarrow> write_mapping fmt out m indent is_root c depth
      | VTagged t inner \<Rightarrow>
          if tag_is_directive t then write_internal_tag fmt out (tag_text t) inner indent is_root c depth
          else write_user_tag fmt out (tag_text t) inner indent c depth)"
| "write_user_tag fmt out t inner indent c depth =
     (let as_mapping = tag_as_mapping t;
          braced = as_mapping \<and> in_flow c;
          out = out @ (if braced then ''{'' else []);
          out = out @ (if as_mapping then write_key_string t indent c @ '':'' else write_tag_spelling t);
          out = out @ (if indicator_takes_a_space inner c then '' '' else [])
      in and_then (write_value fmt out inner indent False c (depth + 1)) (\<lambda>out.
           Inr (out @ (if braced then ''}'' else []))))"
| "write_internal_tag fmt out t v indent is_root c depth =
     (if t = magic_flow_seq \<and> is_sequence v then
        (case v of VSequence seq \<Rightarrow> write_flow_sequence fmt out seq c depth | _ \<Rightarrow> Inr out)
      else if t = magic_flow_map \<and> is_mapping v then
        (case v of VMapping m \<Rightarrow> write_flow_mapping fmt out m c depth | _ \<Rightarrow> Inr out)
      else if in_flow c \<and> (t = magic_lit_str \<or> t = magic_fold_str \<or> t = magic_commented \<or> t = magic_space_after)
      then write_flow_hinted fmt out t v c depth
      else if t = magic_lit_str \<and> is_string v then
        (case v of VString s \<Rightarrow> Inr (out @ write_literal_block s indent c) | _ \<Rightarrow> Inr out)
      else if t = magic_fold_str \<and> is_string v then
        (case v of VString s \<Rightarrow> Inr (out @ write_folded_block s indent c) | _ \<Rightarrow> Inr out)
      else if t = magic_commented \<and> (case v of VSequence seq \<Rightarrow> length seq = 2 | _ \<Rightarrow> False) then
        (case v of
           VSequence [x, comment] \<Rightarrow>
             and_then (write_value fmt out x indent is_root c depth) (\<lambda>out'.
               Inr (case comment of
                      VString text \<Rightarrow>
                        write_comment out' text (ser_nl \<notin> set (drop (length out) out')) (sr_indent c * indent)
                    | _ \<Rightarrow> out'))
         | _ \<Rightarrow> Inr out)
      else if t = magic_space_after then
        and_then (write_value fmt out v indent is_root c depth) (\<lambda>out.
          Inr (out @ [ser_nl] @ (if is_root then [] else [ser_nl])))
      else if t = magic_anchor_def \<and> is_sequence v then
        (case v of VSequence [VString name, inner] \<Rightarrow> write_anchor_def fmt out name inner indent c depth | _ \<Rightarrow> Inr out)
      else if t = magic_anchor_ref \<and> is_string v then
        (case v of VString name \<Rightarrow> Inr (out @ ''*'' @ name) | _ \<Rightarrow> Inr out)
      else if t = magic_anchor_def \<or> t = magic_anchor_ref then Inr out
      else write_value fmt out v indent is_root c depth)"
| "write_flow_hinted fmt out t v c depth =
     (if t = magic_commented \<and> (case v of VSequence seq \<Rightarrow> length seq = 2 | _ \<Rightarrow> False)
      then (case v of VSequence [x, _] \<Rightarrow> write_value fmt out x 0 False c depth | _ \<Rightarrow> Inr out)
      else write_value fmt out v 0 False c depth)"
| "write_anchor_def fmt out name inner indent c depth =
     (let out = out @ ''&'' @ name; below = out @ [ser_nl] @ spaces (sr_indent c * indent) in
      case inner of
        VMapping m \<Rightarrow>
          if is_block_collection inner c then write_mapping fmt below m indent True c (depth + 1)
          else write_value fmt (out @ '' '') inner indent False c (depth + 1)
      | VSequence s \<Rightarrow>
          if is_block_collection inner c then write_sequence fmt below s indent True c (depth + 1)
          else write_value fmt (out @ '' '') inner indent False c (depth + 1)
      | _ \<Rightarrow> write_value fmt (out @ '' '') inner indent False c (depth + 1))"
| "write_sequence fmt out seq indent is_root c depth =
     (if seq = [] then Inr (out @ ''[]'')
      else if use_flow seq c then write_flow_sequence fmt out seq c depth
      else write_items fmt out True seq indent is_root c depth)"
| "write_items fmt out is_first items indent is_root c depth =
     (case items of
        [] \<Rightarrow> Inr out
      | v # vs \<Rightarrow>
          let out = (if \<not> is_first \<or> \<not> is_root then start_line out (sr_indent c * indent) else out) @ ''-''
          in and_then
               (if is_mapping v \<and> v \<noteq> VMapping [] then
                  (case v of VMapping m \<Rightarrow> write_item_entries fmt (out @ '' '') True m indent c depth | _ \<Rightarrow> Inr out)
                else if is_sequence v \<and> sr_compact_list_indent c \<and> v \<noteq> VSequence [] then
                  (case v of
                     VSequence inner \<Rightarrow> write_sequence fmt (out @ '' '') inner (indent + 1) True c (depth + 1)
                   | _ \<Rightarrow> Inr out)
                else
                  write_value fmt (out @ (if indicator_takes_a_space v c then '' '' else [])) v
                    (if needs_block_layout v c then indent + 1 else indent) False c (depth + 1))
               (\<lambda>out. write_items fmt out False vs indent is_root c depth))"
| "write_item_entries fmt out is_first m indent c depth =
     (case m of
        [] \<Rightarrow> Inr out
      | (k, v) # m \<Rightarrow>
          let out = (if is_first then out else start_line out (sr_indent c * (indent + 1)));
              out = out @ write_key_string k (indent + 1) c @ '':'' @ (if indicator_takes_a_space v c then '' '' else [])
          in and_then (write_value fmt out v (value_indent v (indent + 1) (indent + 2) c) False c (depth + 1))
               (\<lambda>out. write_item_entries fmt out False m indent c depth))"
| "write_mapping fmt out m indent is_root c depth =
     (if m = [] then Inr (out @ ''{}'')
      else if use_flow (map snd m) c then write_flow_mapping fmt out m c depth
      else write_entries fmt out True m indent is_root c depth)"
| "write_entries fmt out is_first m indent is_root c depth =
     (case m of
        [] \<Rightarrow> Inr out
      | (k, v) # m \<Rightarrow>
          let out = (if \<not> is_first \<or> \<not> is_root then start_line out (sr_indent c * indent) else out);
              out = out @ write_key_string k indent c @ '':'' @ (if indicator_takes_a_space v c then '' '' else [])
          in and_then (write_value fmt out v (value_indent v indent (indent + 1) c) False c (depth + 1))
               (\<lambda>out. write_entries fmt out False m indent is_root c depth))"
| "write_flow_sequence fmt out seq c depth =
     and_then (write_flow_items fmt (out @ ''['') True seq (cx_flow c) depth) (\<lambda>out. Inr (out @ '']''))"
| "write_flow_items fmt out is_first items c depth =
     (case items of
        [] \<Rightarrow> Inr out
      | v # vs \<Rightarrow>
          and_then (write_value fmt (if is_first then out else out @ '', '') v 0 False c (depth + 1))
            (\<lambda>out. write_flow_items fmt out False vs c depth))"
| "write_flow_mapping fmt out m c depth =
     and_then (write_flow_entries fmt (out @ ''{'') True m (cx_flow c) depth) (\<lambda>out. Inr (out @ ''}''))"
| "write_flow_entries fmt out is_first m c depth =
     (case m of
        [] \<Rightarrow> Inr out
      | (k, v) # m \<Rightarrow>
          let out = (if is_first then out else out @ '', '') @ write_key_string k 0 c @ '': ''
          in and_then (write_value fmt out v 0 False c (depth + 1))
               (\<lambda>out. write_flow_entries fmt out False m c depth))"
  by pat_completeness auto

termination
  by (relation "measure
    (case_sum (case_sum (case_sum (\<lambda>(fmt, out, v, indent, is_root, c, depth). 10 * size v + 3)
      (case_sum (\<lambda>(fmt, out, t, v, indent, c, depth). 10 * size v + 4)
      (\<lambda>(fmt, out, t, v, indent, is_root, c, depth). 10 * size v + 5)))
      (case_sum (case_sum (\<lambda>(fmt, out, t, v, c, depth). 10 * size v + 4)
      (\<lambda>(fmt, out, name, v, indent, c, depth). 10 * size v + 4))
      (case_sum (\<lambda>(fmt, out, seq, indent, is_root, c, depth). 10 * size_list size seq + 2)
      (\<lambda>(fmt, out, is_first, seq, indent, is_root, c, depth). 10 * size_list size seq))))
      (case_sum (case_sum (\<lambda>(fmt, out, is_first, m, indent, c, depth). 10 * mapping_size m)
      (case_sum (\<lambda>(fmt, out, m, indent, is_root, c, depth). 10 * mapping_size m + 2)
      (\<lambda>(fmt, out, is_first, m, indent, is_root, c, depth). 10 * mapping_size m)))
      (case_sum (case_sum (\<lambda>(fmt, out, seq, c, depth). 10 * size_list size seq + 1)
      (\<lambda>(fmt, out, is_first, seq, c, depth). 10 * size_list size seq))
      (case_sum (\<lambda>(fmt, out, m, c, depth). 10 * mapping_size m + 1)
      (\<lambda>(fmt, out, is_first, m, c, depth). 10 * mapping_size m)))))")
    (auto split: if_splits)

declare write_value.simps [simp del] write_user_tag.simps [simp del] write_internal_tag.simps [simp del]
  write_flow_hinted.simps [simp del] write_anchor_def.simps [simp del] write_sequence.simps [simp del]
  write_items.simps [simp del] write_item_entries.simps [simp del] write_mapping.simps [simp del]
  write_entries.simps [simp del] write_flow_sequence.simps [simp del] write_flow_items.simps [simp del]
  write_flow_mapping.simps [simp del] write_flow_entries.simps [simp del]

section \<open>Documents\<close>

definition value_to_string :: "(f64 \<Rightarrow> string) \<Rightarrow> value \<Rightarrow> serializer_config \<Rightarrow> out" where
  "value_to_string fmt v cfg =
     (let out = (if sr_document_start cfg then ''---'' @ [ser_nl] else [])
      in and_then (write_value fmt out v 0 True (cx_new cfg) 0) (\<lambda>out.
           Inr (if sr_document_end cfg
                then (if ends_with_nl out then out else out @ [ser_nl]) @ ''...'' else out)))"

definition to_string_value :: "(f64 \<Rightarrow> string) \<Rightarrow> value \<Rightarrow> out" where
  "to_string_value fmt v = value_to_string fmt v serializer_config_default"

definition to_string_multi_with_config :: "(f64 \<Rightarrow> string) \<Rightarrow> value list \<Rightarrow> serializer_config \<Rightarrow> out" where
  "to_string_multi_with_config fmt vs cfg =
     map_sum (\<lambda>e. e) fst
       (try_fold (\<lambda>(out, later) v.
          let out = out @ (if later then [ser_nl] else []) @ ''---'' @ [ser_nl]
          in and_then (write_value fmt out v 0 True (cx_new cfg) 0) (\<lambda>out. Inr (out @ [ser_nl], True)))
        ([], False) vs)"

end
