(* ===== verification/Scan_Reading.thy ===== *)
theory Scan_Reading
  imports Scan_Stream Serializer
begin

text \<open>
  What the scanner reads where the emitter wrote: the cursor seen through the rest of the text, and
  the scalars of \<open>ser.rs\<close> read back by \<open>parser/scanner/scalars.rs\<close>.
\<close>

section \<open>The rest of the text\<close>

lemma peek_rest: "sc_peek s = (case rest s of [] \<Rightarrow> nul | c # _ \<Rightarrow> c)"
  by (auto simp: sc_peek_def rest_def neq_Nil_conv hd_drop_conv_nth[symmetric] split: list.splits)

lemma peek_at_rest: "peek_at n s = (if n < length (rest s) then rest s ! n else nul)"
  by (auto simp: peek_at_def rest_def)

lemma eof_rest: "is_eof s \<longleftrightarrow> rest s = []"
  by (simp add: is_eof_def rest_def)

lemma rest_advance_by: "rest (advance_by n s) = drop n (rest s)"
  by (auto simp: rest_def min_def add.commute)

lemma rest_advance: "rest (advance s) = drop 1 (rest s)"
  by (auto simp: rest_def)

lemma advance_while_rest: "rest (advance_while p s) = dropWhile p (rest s)"
  by (simp add: advance_while_def rest_advance_by dropWhile_eq_drop)

lemmas rest_simps = peek_rest peek_at_rest eof_rest rest_advance_by rest_advance advance_while_rest

lemma rest_pos: "rest s \<noteq> [] \<Longrightarrow> sc_pos s + length (rest s) = length (sc_input s)"
  by (simp add: rest_def)

lemma boundary_below_self: "\<not> is_continuation (s ! n) \<Longrightarrow> boundary_below s n = n"
  by (cases n) auto

lemma floor_boundary: "i \<ge> length s \<or> \<not> is_continuation (s ! i) \<Longrightarrow> i \<le> length s \<Longrightarrow> floor_char_boundary s i = i"
  by (auto simp: floor_char_boundary_def boundary_below_self)

lemma slice_run:
  assumes "n \<le> length (rest s)" and "rest s \<noteq> []" and "\<not> is_continuation (hd (rest s))"
    and "n = length (rest s) \<or> \<not> is_continuation (rest s ! n)"
  shows "slice_str (sc_pos s) (sc_pos (advance_by n s)) s = take n (rest s)"
proof -
  let ?i = "sc_input s" and ?p = "sc_pos s"
  have l: "?p + length (rest s) = length ?i" using assms(2) by (rule rest_pos)
  have a: "floor_char_boundary ?i ?p = ?p"
    using assms(2,3) l by (intro floor_boundary) (auto simp: rest_def hd_drop_conv_nth)
  have b: "floor_char_boundary ?i (?p + n) = ?p + n"
    using assms(1,4) l by (intro floor_boundary) (auto simp: rest_def)
  show ?thesis using a b l assms(1) by (simp add: slice_str_def slice_bytes_def Let_def rest_def min_def)
qed

section \<open>Hexadecimal\<close>

lemma hex_digits_code: "list_all (\<lambda>d. is_hex_digit (hex_digit_upper d) \<and> hex_val (hex_digit_upper d) = d) [0..<16]"
  by (simp add: upt_rec hex_digit_upper_def is_hex_digit_def hex_val_def is_ascii_digit_def byte_def)

lemma hex_digit_reads: "d < 16 \<Longrightarrow> is_hex_digit (hex_digit_upper d)" "d < 16 \<Longrightarrow> hex_val (hex_digit_upper d) = d"
  using hex_digits_code by (auto simp: list_all_iff)

lemma show_hex_reads:
  assumes "n < 16 ^ w"
  shows "length (show_hex w n) = w \<and> list_all is_hex_digit (show_hex w n) \<and> hex_value (show_hex w n) = n"
  using assms
proof (induction w arbitrary: n)
  case 0
  then show ?case by (simp add: show_hex.simps hex_value_def)
next
  case (Suc w)
  have "n div 16 < 16 ^ w" using Suc.prems by (simp add: div_less_iff_less_mult mult.commute)
  then show ?case using Suc.IH[of "n div 16"] hex_digit_reads[of "n mod 16"]
    by (simp add: hex_value_def)
qed

lemma read_hex_reads:
  assumes "rest s = ds @ r" and "length ds = n" and "list_all is_hex_digit ds"
  shows "read_hex n e s = Inr (hex_value ds, advance_by n s)"
proof -
  have "take n (takeWhile is_hex_digit (ds @ r)) = ds" using assms(2,3) by (simp add: list_all_iff)
  then show ?thesis using assms by (simp add: read_hex_def Let_def)
qed

section \<open>Characters\<close>

lemma continuation_iff: "is_continuation c \<longleftrightarrow> 0x80 \<le> byte c \<and> byte c < 0xC0"
  unfolding is_continuation_def by auto

lemma char_byte: "c = d \<longleftrightarrow> byte c = byte d"
  by (metis byte_def char_of_char)

lemma utf8_encode_bytes:
  assumes "c < 0x110000"
  shows "utf8_encode c \<noteq> []" and "\<not> is_continuation (hd (utf8_encode c))"
    and "0x80 \<le> c \<Longrightarrow> b \<in> set (utf8_encode c) \<Longrightarrow> 0x80 \<le> byte b"
    and "c < 0x80 \<Longrightarrow> utf8_encode c = [char_of c]"
proof -
  have "utf8_encode c \<noteq> [] \<and> \<not> is_continuation (hd (utf8_encode c)) \<and> (0x80 \<le> c \<longrightarrow> (\<forall>b \<in> set (utf8_encode c). 0x80 \<le> byte b))"
    using assms
  proof (cases c rule: utf8_encode_cases)
    case two
    have "c div 64 < 32" using two by (simp add: div_less_iff_less_mult)
    then show ?thesis using two by (simp add: continuation_iff)
  next
    case three
    then show ?thesis by (simp add: continuation_iff)
  next
    case four
    then show ?thesis by (simp add: continuation_iff)
  qed (simp add: continuation_iff)
  then show "utf8_encode c \<noteq> []" "\<not> is_continuation (hd (utf8_encode c))"
    "0x80 \<le> c \<Longrightarrow> b \<in> set (utf8_encode c) \<Longrightarrow> 0x80 \<le> byte b" by blast+
qed (simp add: utf8_encode_def)

section \<open>Double quotes\<close>

lemma space_encode: "utf8_encode 32 = '' ''"
  by code_simp

lemma is_scalar_bound: "is_scalar_value c \<Longrightarrow> c < 0x110000"
  by (auto simp: is_scalar_value_def)

lemma two_hex_reads:
  assumes "rest s = CHR 0x5C # CHR ''x'' # show_hex 2 c @ r" and "c < 256"
  shows "\<exists>t. scan_double_escape str s = Inr ((str @ utf8_encode c, quoted_fold_new), t) \<and> rest t = r"
proof -
  let ?s = "advance (advance s)"
  have h: "length (show_hex 2 c) = 2 \<and> list_all is_hex_digit (show_hex 2 c) \<and> hex_value (show_hex 2 c) = c"
    using show_hex_reads[of c 2] assms(2) by simp
  have r: "rest ?s = show_hex 2 c @ r" using assms(1) by (simp add: rest_simps)
  have "scan_hex_escape 2 ?s = Inr (c, advance_by 2 ?s)"
    using read_hex_reads[OF r] h assms(2) by (simp add: scan_hex_escape_def is_scalar_value_def)
  moreover have "rest (advance_by 2 ?s) = r" using r h by (simp add: rest_simps)
  moreover have "sc_peek (advance s) = CHR ''x''" "\<not> is_eof (advance s)" using assms(1) by (simp_all add: rest_simps)
  ultimately show ?thesis by (simp add: scan_double_escape_def Let_def simple_escape_def)
qed

lemma four_hex_reads:
  assumes "rest s = CHR 0x5C # CHR ''u'' # ds @ r" and "length ds = 4" and "list_all is_hex_digit ds"
    and "is_scalar_value (hex_value ds)"
  shows "\<exists>t. scan_double_escape str s = Inr ((str @ utf8_encode (hex_value ds), quoted_fold_new), t) \<and> rest t = r"
proof -
  let ?s = "advance (advance s)"
  have r: "rest ?s = ds @ r" using assms(1) by (simp add: rest_simps)
  have "scan_unicode_4 ?s = Inr (hex_value ds, advance_by 4 ?s)"
    using read_hex_reads[OF r assms(2,3)] assms(4) by (simp add: scan_unicode_4_def)
  moreover have "rest (advance_by 4 ?s) = r" using r assms(2) by (simp add: rest_simps)
  moreover have "sc_peek (advance s) = CHR ''u''" "\<not> is_eof (advance s)" using assms(1) by (simp_all add: rest_simps)
  ultimately show ?thesis by (simp add: scan_double_escape_def Let_def simple_escape_def)
qed

lemma simple_escape_reads:
  assumes "rest s = CHR 0x5C # e # r" and "simple_escape e = Some c"
  shows "\<exists>t. scan_double_escape str s = Inr ((str @ utf8_encode c, quoted_fold_new), t) \<and> rest t = r"
proof -
  have "sc_peek (advance s) = e" "\<not> is_eof (advance s)" "rest (advance (advance s)) = r"
    using assms(1) by (simp_all add: rest_simps)
  then show ?thesis using assms(2) by (simp add: scan_double_escape_def Let_def)
qed

lemma double_escape_forms:
  assumes "double_escape c = Some e"
  shows "(e = [CHR 0x5C, e ! 1] \<and> simple_escape (e ! 1) = Some c) \<or> (e = CHR 0x5C # CHR ''u'' # ''FEFF'' \<and> c = 0xFEFF)
    \<or> (e = CHR 0x5C # CHR ''u'' # show_hex 4 c \<and> (c = 0xFFFE \<or> c = 0xFFFF))
    \<or> (e = CHR 0x5C # CHR ''x'' # show_hex 2 c \<and> c < 256)"
  using assms unfolding double_escape_def
  by (elim if_elim) ((erule option.inject[THEN iffD1, elim_format], hypsubst, simp add: simple_escape_def)+, auto)

text \<open>Every escape of the emitter reads back as its character.\<close>

lemma escape_reads_back:
  assumes "double_escape c = Some e" and "rest s = e @ r"
  shows "\<exists>t. scan_double_escape str s = Inr ((str @ utf8_encode c, quoted_fold_new), t) \<and> rest t = r"
proof -
  have h: "length (show_hex 4 c) = 4 \<and> list_all is_hex_digit (show_hex 4 c) \<and> hex_value (show_hex 4 c) = c"
    if "c = 0xFFFE \<or> c = 0xFFFF"
    by (rule show_hex_reads) (use that in auto)
  have b: "list_all is_hex_digit ''FEFF'' \<and> hex_value ''FEFF'' = 0xFEFF"
    by (simp add: hex_value_def hex_val_def is_hex_digit_def is_ascii_digit_def byte_def)
  consider (simple) x where "e = [CHR 0x5C, x]" "simple_escape x = Some c"
    | (bom) "e = CHR 0x5C # CHR ''u'' # ''FEFF''" "c = 0xFEFF"
    | (four) "e = CHR 0x5C # CHR ''u'' # show_hex 4 c" "c = 0xFFFE \<or> c = 0xFFFF"
    | (two) "e = CHR 0x5C # CHR ''x'' # show_hex 2 c" "c < 256"
    using double_escape_forms[OF assms(1)] by blast
  then show ?thesis
  proof cases
    case simple
    then show ?thesis using simple_escape_reads assms(2) by simp
  next
    case bom
    then show ?thesis using four_hex_reads[of s "''FEFF''" r str] b assms(2) by (simp add: is_scalar_value_def)
  next
    case four
    then have "is_scalar_value c" by (auto simp: is_scalar_value_def)
    then show ?thesis using four_hex_reads[of s "show_hex 4 c" r str] h[OF four(2)] four(1) assms(2) by auto
  next
    case two
    then show ?thesis using two_hex_reads assms(2) by simp
  qed
qed

text \<open>A character written as it is: neither a blank nor a stop of the scanner, in all its bytes.\<close>

definition written_raw :: "nat \<Rightarrow> bool" where
  "written_raw c \<longleftrightarrow> double_escape c = None \<and> c \<noteq> 0x20"

lemma written_raw_bytes:
  assumes "written_raw c" and "c < 0x110000" and "b \<in> set (utf8_encode c)"
  shows "\<not> is_double_stop b \<and> 0x20 \<le> byte b \<and> byte b \<noteq> 0x7f"
proof (cases "c < 0x80")
  case True
  then have "byte b = c" using utf8_encode_bytes(4) assms(2,3) by simp
  moreover have "c \<noteq> 0x22 \<and> c \<noteq> 0x5C \<and> 0x20 < c \<and> c \<noteq> 0x7F"
    using assms(1) True by (auto simp: written_raw_def double_escape_def split: if_splits)
  ultimately show ?thesis
    by (auto simp: is_double_stop_def is_blank_or_break_def is_blank_def is_break_def char_byte byte_def)
next
  case False
  then have "0x80 \<le> byte b" using utf8_encode_bytes(3) assms(2,3) by simp
  then show ?thesis
    by (auto simp: is_double_stop_def is_blank_or_break_def is_blank_def is_break_def char_byte byte_def)
qed

definition double_body :: "nat list \<Rightarrow> string" where
  "double_body cs = concat (map (\<lambda>c. escape_char (utf8_encode c)) cs)"

lemma escape_char_encode:
  "c < 0x110000 \<Longrightarrow> escape_char (utf8_encode c) = (case double_escape c of Some e \<Rightarrow> e | None \<Rightarrow> utf8_encode c)"
  by (simp add: escape_char_def code_point_encode)

lemma double_escape_hd: "double_escape c = Some e \<Longrightarrow> e \<noteq> [] \<and> hd e = backslash"
  by (auto simp: double_escape_def split: if_splits)

lemma body_raw_run:
  assumes "list_all written_raw cs" and "list_all is_scalar_value cs"
  shows "double_body cs = utf8 cs" and "\<And>b. b \<in> set (utf8 cs) \<Longrightarrow> \<not> is_double_stop b \<and> 0x20 \<le> byte b \<and> byte b \<noteq> 0x7f"
proof -
  show "double_body cs = utf8 cs" using assms
    by (induction cs) (auto simp: double_body_def utf8_def escape_char_encode is_scalar_bound written_raw_def)
  show "\<And>b. b \<in> set (utf8 cs) \<Longrightarrow> \<not> is_double_stop b \<and> 0x20 \<le> byte b \<and> byte b \<noteq> 0x7f"
    using assms by (auto simp: utf8_def list_all_iff dest: written_raw_bytes is_scalar_bound)
qed

text \<open>What follows a run: an escape, a space or the closing quote, never inside a character.\<close>

lemma body_stops:
  assumes "cs = [] \<or> \<not> written_raw (hd cs)" and "list_all is_scalar_value cs"
  obtains b r' where "double_body cs @ CHR 0x22 # r = b # r'" and "is_double_stop b" and "\<not> is_continuation b"
proof (cases cs)
  case Nil
  then show thesis using that[of "CHR 0x22" r] by (simp add: double_body_def is_double_stop_def continuation_iff byte_def)
next
  case (Cons c cs')
  have bound: "c < 0x110000" using assms(2) Cons is_scalar_bound by simp
  show thesis
  proof (cases "double_escape c")
    case None
    then have "c = 0x20" using assms(1) Cons by (simp add: written_raw_def)
    then have "escape_char (utf8_encode c) = '' ''" using bound None escape_char_encode[of c] space_encode by simp
    then have "double_body cs = CHR '' '' # double_body cs'" using Cons by (simp add: double_body_def)
    then show thesis using that by (simp add: is_double_stop_def is_blank_or_break_def is_blank_def continuation_iff byte_def)
  next
    case (Some e)
    then obtain e' where "e = backslash # e'" using double_escape_hd[OF Some] by (cases e) auto
    then have "double_body cs = backslash # e' @ double_body cs'"
      using Cons bound Some by (simp add: double_body_def escape_char_encode)
    then show thesis using that by (simp add: is_double_stop_def continuation_iff byte_def)
  qed
qed

lemma body_append: "double_body (as @ bs) = double_body as @ double_body bs"
  by (simp add: double_body_def)

lemma utf8_append: "utf8 (as @ bs) = utf8 as @ utf8 bs"
  by (simp add: utf8_def)

lemma flush_double_new [simp]: "flush_double quoted_fold_new out = out"
  by (simp add: flush_double_def quoted_fold_new_def)

lemma fold_new_fields [simp]: "\<not> qf_leading_break quoted_fold_new"
  by (simp add: quoted_fold_new_def)

lemma utf8_Cons: "c < 0x110000 \<Longrightarrow> \<exists>b u. utf8 (c # cs) = b # u \<and> \<not> is_continuation b \<and> b \<in> set (utf8_encode c)"
  using utf8_encode_bytes(1,2)[of c] by (cases "utf8_encode c") (auto simp: utf8_def)

text \<open>A run of characters written raw is read at once.\<close>

lemma content_reads:
  assumes "list_all written_raw cs" and "cs \<noteq> []" and "list_all is_scalar_value cs"
    and "rest s = utf8 cs @ b # r" and "is_double_stop b" and "\<not> is_continuation b"
  shows "\<exists>t. scan_double_content str s = Inr ((str @ utf8 cs, quoted_fold_new), t) \<and> rest t = b # r"
    and "\<not> is_double_stop (sc_peek s)" and "\<not> is_eof s"
proof -
  note raw = body_raw_run(2)[OF assms(1,3)]
  obtain a u where a: "utf8 cs = a # u" "\<not> is_continuation a"
    using utf8_Cons[of "hd cs" "tl cs"] assms(2,3) is_scalar_bound by (cases cs) auto
  have p: "sc_peek s = a" using assms(4) a by (simp add: rest_simps)
  show stop: "\<not> is_double_stop (sc_peek s)" using p raw[of a] a by simp
  show "\<not> is_eof s" using assms(4) a by (simp add: rest_simps)
  have "takeWhile (\<lambda>c. \<not> is_double_stop c) (rest s) = utf8 cs"
    using raw assms(4,5) by (simp add: takeWhile_append2)
  moreover have "slice_str (sc_pos s) (sc_pos (advance_by (length (utf8 cs)) s)) s = utf8 cs"
    using slice_run[of "length (utf8 cs)" s] assms(4,6) a by simp
  moreover have "\<not> list_ex (\<lambda>b. byte b < 0x20 \<or> byte b = 0x7f) (utf8 cs)"
    using raw by (fastforce simp: list_ex_iff)
  moreover have "utf8 cs \<noteq> []" using a by simp
  moreover have "rest (advance_by (length (utf8 cs)) s) = b # r" using assms(4) by (simp add: rest_simps)
  moreover have "\<not> is_blank (sc_peek s)" using stop by (simp add: is_double_stop_def is_blank_or_break_def)
  ultimately show "\<exists>t. scan_double_content str s = Inr ((str @ utf8 cs, quoted_fold_new), t) \<and> rest t = b # r"
    by (simp add: scan_double_content_def Let_def)
qed

text \<open>A run of spaces is kept, or waits in the fold when a quote or an escape follows.\<close>

lemma spaces_run:
  assumes "rest s = replicate n space @ b # r" and "0 < n" and "\<not> is_blank b" and "\<not> is_continuation b"
  shows "advance_while is_blank s = advance_by n s"
    and "slice_str (sc_pos s) (sc_pos (advance_by n s)) s = replicate n space"
    and "rest (advance_by n s) = b # r" and "sc_peek s = space" and "\<not> is_eof s"
proof -
  obtain m where m: "n = Suc m" using assms(2) gr0_implies_Suc by blast
  show "sc_peek s = space" and "\<not> is_eof s" using assms(1) m by (simp_all add: rest_simps)
  have "takeWhile is_blank (replicate n space @ b # r) = replicate n space"
    using assms(3) by (induction n) (simp_all add: is_blank_def)
  then show "advance_while is_blank s = advance_by n s" using assms(1) by (simp add: advance_while_def)
  show "slice_str (sc_pos s) (sc_pos (advance_by n s)) s = replicate n space"
    using slice_run[of n s] assms(1,4) m by (simp add: continuation_iff byte_def nth_append)
  show "rest (advance_by n s) = b # r" using assms(1) by (simp add: rest_simps)
qed

lemma spaces_read:
  assumes "rest s = replicate n space @ b # r" and "0 < n" and "\<not> is_blank b" and "\<not> is_break b" and "\<not> is_continuation b"
  shows "\<exists>str' g t. scan_double_content str s = Inr ((str', g), t) \<and> rest t = b # r
    \<and> \<not> qf_leading_break g \<and> flush_double g str' = str @ replicate n space"
    and "sc_peek s = space" and "\<not> is_eof s"
proof -
  note run = spaces_run[OF assms(1,2,3,5)]
  show p: "sc_peek s = space" and "\<not> is_eof s" by (fact run)+
  have q: "sc_peek (advance_by n s) = b" using run(3) by (simp add: peek_rest)
  show "\<exists>str' g t. scan_double_content str s = Inr ((str', g), t) \<and> rest t = b # r
    \<and> \<not> qf_leading_break g \<and> flush_double g str' = str @ replicate n space"
    using p run(2,3) q assms(4)
    by (auto simp: scan_double_content_def Let_def run(1) is_blank_def flush_double_def quoted_fold_new_def)
qed

lemma spaces_body: "double_body (replicate n 0x20) = replicate n space" "utf8 (replicate n 0x20) = replicate n space"
proof -
  have "escape_char (utf8_encode 0x20) = '' ''"
    using escape_char_encode[of "0x20"] space_encode by (simp add: double_escape_def)
  then show "double_body (replicate n 0x20) = replicate n space" "utf8 (replicate n 0x20) = replicate n space"
    using space_encode by (induction n) (simp_all add: double_body_def utf8_def)
qed

text \<open>The first byte after a run of spaces is neither a blank nor a break.\<close>

lemma body_after_spaces:
  assumes "cs = [] \<or> hd cs \<noteq> 0x20" and "list_all is_scalar_value cs"
  obtains b r' where "double_body cs @ CHR 0x22 # r = b # r'" and "\<not> is_blank b" and "\<not> is_break b" and "\<not> is_continuation b"
proof (cases cs)
  case Nil
  then show thesis using that[of "CHR 0x22" r]
    by (simp add: double_body_def is_blank_def is_break_def continuation_iff byte_def)
next
  case (Cons c cs')
  have bound: "c < 0x110000" using assms(2) Cons is_scalar_bound by simp
  show thesis
  proof (cases "double_escape c")
    case None
    then have w: "written_raw c" using assms(1) Cons by (simp add: written_raw_def)
    have "escape_char (utf8_encode c) = utf8_encode c" using None bound escape_char_encode by simp
    moreover obtain b u where b: "utf8_encode c = b # u" "\<not> is_continuation b"
      using utf8_encode_bytes(1,2)[OF bound] by (cases "utf8_encode c") auto
    moreover have "\<not> is_double_stop b" using written_raw_bytes[OF w bound] b by simp
    ultimately show thesis using that Cons
      by (simp add: double_body_def is_double_stop_def is_blank_or_break_def)
  next
    case (Some e)
    then obtain e' where "e = backslash # e'" using double_escape_hd[OF Some] by (cases e) auto
    then have "double_body cs = backslash # e' @ double_body cs'"
      using Cons bound Some by (simp add: double_body_def escape_char_encode)
    then show thesis using that by (simp add: is_blank_def is_break_def continuation_iff byte_def)
  qed
qed

lemma split_run: "cs = replicate (length (takeWhile (\<lambda>c. c = a) cs)) a @ dropWhile (\<lambda>c. c = a) cs"
  by (induction cs) simp_all

lemma double_loop_reads:
  assumes "list_all is_scalar_value cs" and "rest s = double_body cs @ CHR 0x22 # r" and "\<not> qf_leading_break f"
  shows "\<exists>t. double_loop str f s = Inr (flush_double f str @ utf8 cs, t) \<and> rest t = r"
  using assms
proof (induction "length cs" arbitrary: cs s str f rule: less_induct)
  case less
  show ?case
  proof (cases cs)
    case Nil
    then have q: "rest s = CHR 0x22 # r" using less.prems by (simp add: double_body_def)
    then have "\<not> is_eof s" "sc_peek s = CHR 0x22" and a: "rest (advance s) = r" by (simp_all add: rest_simps)
    then have "double_loop str f s = Inr (flush_double f str, advance s)"
      by (subst double_loop.simps) simp
    with a show ?thesis using Nil by (simp add: utf8_def)
  next
    case (Cons c cs')
    have sc: "list_all is_scalar_value cs'" and bound: "c < 0x110000" using less.prems(1) Cons is_scalar_bound by simp_all
    consider (esc) e where "double_escape c = Some e" | (space) "c = 0x20" | (raw) "written_raw c"
      by (cases "double_escape c") (auto simp: written_raw_def)
    then show ?thesis
    proof cases
      case esc
      have "rest s = e @ double_body cs' @ CHR 0x22 # r"
        using less.prems(2) Cons esc bound by (simp add: double_body_def escape_char_encode)
      then obtain t where t: "scan_double_escape (flush_double f str) s = Inr ((flush_double f str @ utf8_encode c, quoted_fold_new), t)"
          "rest t = double_body cs' @ CHR 0x22 # r"
        using escape_reads_back[OF esc] by blast
      have "\<not> is_eof s" "sc_peek s = backslash"
        using \<open>rest s = e @ _\<close> double_escape_hd[OF esc] by (cases e; simp add: rest_simps)+
      then have "double_loop str f s = double_loop (flush_double f str @ utf8_encode c) quoted_fold_new t"
        using t(1) by (subst double_loop.simps) simp
      moreover obtain u where "double_loop (flush_double f str @ utf8_encode c) quoted_fold_new t
          = Inr (flush_double quoted_fold_new (flush_double f str @ utf8_encode c) @ utf8 cs', u) \<and> rest u = r"
        using less.hyps[of cs' t quoted_fold_new "flush_double f str @ utf8_encode c"] Cons sc t(2) by auto
      ultimately show ?thesis using Cons by (simp add: utf8_def)
    next
      case space
      let ?n = "length (takeWhile (\<lambda>c. c = 0x20) cs)" and ?cs = "dropWhile (\<lambda>c. c = 0x20) cs"
      have split: "cs = replicate ?n 0x20 @ ?cs" and pos: "0 < ?n"
        using split_run[of cs "0x20"] space Cons by simp_all
      have sc2: "list_all is_scalar_value ?cs" using less.prems(1) split by (metis list_all_append)
      have hd: "?cs = [] \<or> hd ?cs \<noteq> 0x20" using hd_dropWhile[of "\<lambda>c. c = 0x20" cs] by auto
      obtain b r' where b: "double_body ?cs @ CHR 0x22 # r = b # r'" "\<not> is_blank b" "\<not> is_break b" "\<not> is_continuation b"
        using body_after_spaces[OF hd sc2] by blast
      have "rest s = double_body (replicate ?n 0x20 @ ?cs) @ CHR 0x22 # r" using less.prems(2) split by metis
      then have r: "rest s = replicate ?n space @ b # r'" using b(1) by (simp add: body_append spaces_body)
      obtain str' g t where t: "scan_double_content (flush_double f str) s = Inr ((str', g), t)" "rest t = b # r'"
          "\<not> qf_leading_break g" "flush_double g str' = flush_double f str @ replicate ?n space"
        using spaces_read(1)[OF r pos b(2,3,4)] by blast
      have "sc_peek s = space" "\<not> is_eof s" using spaces_read(2,3)[OF r pos b(2,3,4)] .
      then have "double_loop str f s = double_loop str' g t"
        using t(1) by (subst double_loop.simps) (simp add: is_break_def)
      moreover have "length ?cs < length cs" using pos split by (metis add_less_cancel_right length_append length_replicate less_add_same_cancel2)
      moreover have "rest t = double_body ?cs @ CHR 0x22 # r" using t(2) b(1) by simp
      ultimately obtain u where "double_loop str f s = Inr (flush_double g str' @ utf8 ?cs, u) \<and> rest u = r"
        using less.hyps[of ?cs t g str'] sc2 t(3) by auto
      moreover have "utf8 cs = replicate ?n space @ utf8 ?cs" using split utf8_append spaces_body(2) by metis
      ultimately show ?thesis using t(4) by simp
    next
      case raw
      let ?as = "takeWhile written_raw cs" and ?cs = "dropWhile written_raw cs"
      have split: "cs = ?as @ ?cs" by simp
      have sc2: "list_all is_scalar_value ?as" "list_all is_scalar_value ?cs" using less.prems(1) split by (metis list_all_append)+
      have as: "list_all written_raw ?as" "?as \<noteq> []" using raw Cons by (auto simp: list_all_iff dest: set_takeWhileD)
      have hd: "?cs = [] \<or> \<not> written_raw (hd ?cs)" using hd_dropWhile[of written_raw cs] by blast
      obtain b r' where b: "double_body ?cs @ CHR 0x22 # r = b # r'" "is_double_stop b" "\<not> is_continuation b"
        using body_stops[OF hd sc2(2)] by blast
      have "rest s = double_body (?as @ ?cs) @ CHR 0x22 # r" using less.prems(2) by simp
      then have r: "rest s = utf8 ?as @ b # r'" using b(1) body_raw_run(1)[OF as(1) sc2(1)] by (simp only: body_append append_assoc)
      obtain t where t: "scan_double_content (flush_double f str) s = Inr ((flush_double f str @ utf8 ?as, quoted_fold_new), t)" "rest t = b # r'"
        using content_reads(1)[OF as sc2(1) r b(2,3)] by blast
      have "\<not> is_double_stop (sc_peek s)" "\<not> is_eof s" using content_reads(2,3)[OF as sc2(1) r b(2,3)] .
      then have "double_loop str f s = double_loop (flush_double f str @ utf8 ?as) quoted_fold_new t"
        using t(1) by (subst double_loop.simps) (simp add: is_double_stop_def is_blank_or_break_def)
      moreover have "length ?cs < length cs" using as(2) split by (metis length_append length_greater_0_conv less_add_same_cancel2)
      moreover have "rest t = double_body ?cs @ CHR 0x22 # r" using t(2) b(1) by simp
      ultimately obtain u where "double_loop str f s = Inr ((flush_double f str @ utf8 ?as) @ utf8 ?cs, u) \<and> rest u = r"
        using less.hyps[of ?cs t quoted_fold_new "flush_double f str @ utf8 ?as"] sc2(2) by auto
      moreover have "utf8 cs = utf8 ?as @ utf8 ?cs" using split utf8_append by metis
      ultimately show ?thesis by simp
    qed
  qed
qed

text \<open>C24. What the emitter writes between double quotes, the scanner reads back.\<close>

theorem double_quoted_reads_back:
  assumes "list_all is_scalar_value cs" and "rest s = write_double_quoted (utf8 cs) @ r"
  shows "\<exists>t. scan_double_quoted_scalar s = Inr (utf8 cs, t) \<and> rest t = r"
proof -
  have b: "list_all (\<lambda>c. c < 0x110000) cs" using assms(1) by (auto simp: list_all_iff is_scalar_bound)
  have "rest (advance s) = double_body cs @ CHR 0x22 # r"
    using assms(2) by (simp add: write_double_quoted_def chars_utf8[OF b] double_body_def rest_simps comp_def)
  then show ?thesis using double_loop_reads[OF assms(1), of "advance s" r quoted_fold_new "[]"]
    by (simp add: scan_double_quoted_scalar_def)
qed

lemma double_quoted_reads_back_witness:
  "\<exists>t. scan_double_quoted_scalar
         (scanner_new (write_double_quoted (utf8 [0x61, 0x20, 0x22, 0x0A, 0xE9, 0x1F600]) @ '': 1''))
       = Inr (utf8 [0x61, 0x20, 0x22, 0x0A, 0xE9, 0x1F600], t) \<and> rest t = '': 1''"
  by (rule double_quoted_reads_back) (simp_all add: is_scalar_value_def rest_def scanner_new_def)

section \<open>Single quotes\<close>

lemma quote_encode: "utf8_encode 39 = [single_quote]"
  by code_simp

definition single_raw :: "nat \<Rightarrow> bool" where
  "single_raw c \<longleftrightarrow> c \<noteq> 0x27 \<and> c \<noteq> 0x20"

definition single_char :: "nat \<Rightarrow> string" where
  "single_char c = (if c = 0x27 then [single_quote, single_quote] else utf8_encode c)"

definition single_body :: "nat list \<Rightarrow> string" where
  "single_body cs = concat (map single_char cs)"

lemma single_body_append: "single_body (as @ bs) = single_body as @ single_body bs"
  by (simp add: single_body_def)

lemma single_raw_bytes:
  assumes "single_raw c" and "0x20 \<le> c" and "c < 0x110000" and "b \<in> set (utf8_encode c)"
  shows "\<not> is_single_stop b"
proof (cases "c < 0x80")
  case True
  then have "byte b = c" using utf8_encode_bytes(4) assms(3,4) by simp
  then show ?thesis using assms(1,2)
    by (auto simp: single_raw_def is_single_stop_def is_blank_or_break_def is_blank_def is_break_def char_byte byte_def)
next
  case False
  then have "0x80 \<le> byte b" using utf8_encode_bytes(3) assms(3,4) by simp
  then show ?thesis
    by (auto simp: is_single_stop_def is_blank_or_break_def is_blank_def is_break_def char_byte byte_def)
qed

lemma single_raw_run:
  assumes "list_all single_raw cs" and "list_all (\<lambda>c. 0x20 \<le> c \<and> c < 0x110000) cs"
  shows "single_body cs = utf8 cs" and "b \<in> set (utf8 cs) \<Longrightarrow> \<not> is_single_stop b"
proof -
  show "single_body cs = utf8 cs" using assms
    by (induction cs) (auto simp: single_body_def single_char_def utf8_def single_raw_def)
  show "b \<in> set (utf8 cs) \<Longrightarrow> \<not> is_single_stop b"
    using assms by (auto simp: utf8_def list_all_iff dest: single_raw_bytes)
qed

text \<open>The first byte of what is left starts a character, and is a stop where a run has ended.\<close>

lemma single_body_starts:
  assumes "list_all (\<lambda>c. 0x20 \<le> c \<and> c < 0x110000) cs"
  obtains b r' where "single_body cs @ single_quote # r = b # r'" and "\<not> is_continuation b" and "\<not> is_break b"
    and "cs = [] \<or> \<not> single_raw (hd cs) \<Longrightarrow> is_single_stop b"
    and "cs = [] \<or> hd cs \<noteq> 0x20 \<Longrightarrow> \<not> is_blank b"
proof (cases cs)
  case Nil
  then show thesis using that[of single_quote r]
    by (simp add: single_body_def is_single_stop_def is_break_def is_blank_def continuation_iff byte_def)
next
  case (Cons c cs')
  consider (quote) "c = 0x27" | (space) "c = 0x20" | (raw) "single_raw c" by (auto simp: single_raw_def)
  then show thesis
  proof cases
    case quote
    then show thesis using that Cons
      by (simp add: single_body_def single_char_def is_single_stop_def is_break_def is_blank_def continuation_iff byte_def)
  next
    case space
    then have "single_body cs = CHR '' '' # single_body cs'"
      using Cons space_encode by (simp add: single_body_def single_char_def)
    then show thesis using that Cons space
      by (simp add: is_single_stop_def is_blank_or_break_def is_break_def is_blank_def continuation_iff byte_def)
  next
    case raw
    have c: "0x20 \<le> c" "c < 0x110000" using assms Cons by simp_all
    obtain b u where b: "utf8_encode c = b # u" "\<not> is_continuation b"
      using utf8_encode_bytes(1,2)[OF c(2)] by (cases "utf8_encode c") auto
    have "\<not> is_single_stop b" using single_raw_bytes[OF raw c] b by simp
    moreover have "single_body cs = b # u @ single_body cs'"
      using Cons b raw by (simp add: single_body_def single_char_def single_raw_def)
    ultimately show thesis using that Cons raw b(2) by (simp add: is_single_stop_def is_blank_or_break_def)
  qed
qed

lemma single_loop_run:
  assumes "\<not> is_single_stop (sc_peek s)" and "\<not> is_eof s" and "n = length (takeWhile (\<lambda>c. \<not> is_single_stop c) (rest s))"
    and "0 < n"
  shows "single_loop str w l s
    = single_loop (flush_single str w l @ slice_str (sc_pos s) (sc_pos (advance_by n s)) s) [] False (advance_by n s)"
  using assms by (subst single_loop.simps) (simp add: is_single_stop_def is_blank_or_break_def Let_def)

lemma single_loop_blanks:
  assumes "is_blank (sc_peek s)" and "\<not> is_eof s" and "t = advance_while is_blank s"
    and "run = slice_str (sc_pos s) (sc_pos t) s" and "\<not> is_break (sc_peek t)"
  shows "single_loop str w l s
    = (if sc_peek t = single_quote then single_loop (flush_single str w l) run False t
       else single_loop (flush_single str w l @ run) [] False t)"
proof -
  have "sc_peek s \<noteq> single_quote" "\<not> is_break (sc_peek s)" using assms(1) by (auto simp: is_blank_def is_break_def)
  then show ?thesis using assms by (subst single_loop.simps) (simp add: Let_def)
qed

lemma flush_single_False [simp]: "flush_single str w False = str @ w"
  by (simp add: flush_single_def)

lemma single_loop_reads:
  assumes "list_all (\<lambda>c. 0x20 \<le> c \<and> c < 0x110000) cs" and "rest s = single_body cs @ single_quote # r"
    and "r = [] \<or> hd r \<noteq> single_quote"
  shows "\<exists>t. single_loop str w False s = Inr (str @ w @ utf8 cs, t) \<and> rest t = r"
  using assms(1,2)
proof (induction "length cs" arbitrary: cs s str w rule: less_induct)
  case less
  show ?case
  proof (cases cs)
    case Nil
    then have q: "rest s = single_quote # r" using less.prems by (simp add: single_body_def)
    then have "\<not> is_eof s" "sc_peek s = single_quote" "rest (advance s) = r" "peek_at 1 s \<noteq> single_quote"
      using assms(3) by (auto simp: rest_simps hd_conv_nth)
    then show ?thesis using Nil by (subst single_loop.simps) (simp add: utf8_def)
  next
    case (Cons c cs')
    consider (quote) "c = 0x27" | (space) "c = 0x20" | (raw) "single_raw c" by (auto simp: single_raw_def)
    then show ?thesis
    proof cases
      case quote
      then have q: "rest s = single_quote # single_quote # single_body cs' @ single_quote # r"
        using less.prems(2) Cons by (simp add: single_body_def single_char_def)
      then have "\<not> is_eof s" "sc_peek s = single_quote" "peek_at 1 s = single_quote"
        and a: "rest (advance_by 2 s) = single_body cs' @ single_quote # r" by (simp_all add: rest_simps)
      then have "single_loop str w False s = single_loop (str @ w @ [single_quote]) [] False (advance_by 2 s)"
        by (subst single_loop.simps) simp
      moreover have "utf8 cs = single_quote # utf8 cs'"
        using Cons quote quote_encode by (simp add: utf8_def)
      ultimately show ?thesis
        using less.hyps[of cs' "advance_by 2 s" "str @ w @ [single_quote]" "[]"] Cons less.prems(1) a by simp
    next
      case space
      let ?n = "length (takeWhile (\<lambda>c. c = 0x20) cs)" and ?cs = "dropWhile (\<lambda>c. c = 0x20) cs"
      have split: "cs = replicate ?n 0x20 @ ?cs" and pos: "0 < ?n"
        using split_run[of cs "0x20"] space Cons by simp_all
      have cs: "list_all (\<lambda>c. 0x20 \<le> c \<and> c < 0x110000) ?cs" using less.prems(1) split by (metis list_all_append)
      have hd: "?cs = [] \<or> hd ?cs \<noteq> 0x20" using hd_dropWhile[of "\<lambda>c. c = 0x20" cs] by auto
      obtain b r' where b: "single_body ?cs @ single_quote # r = b # r'" "\<not> is_continuation b" "\<not> is_break b" "\<not> is_blank b"
        using single_body_starts[OF cs] hd by metis
      have run: "single_body (replicate n 0x20) = replicate n space" for n
        using space_encode by (induction n) (simp_all add: single_body_def single_char_def)
      have "rest s = single_body (replicate ?n 0x20 @ ?cs) @ single_quote # r" using less.prems(2) split by metis
      then have s: "rest s = replicate ?n space @ b # r'" using b(1) by (simp add: single_body_append run)
      note t = spaces_run[OF s pos b(4,2)]
      have "single_loop str w False s = (if b = single_quote then single_loop (str @ w) (replicate ?n space) False (advance_by ?n s)
          else single_loop (str @ w @ replicate ?n space) [] False (advance_by ?n s))"
        using single_loop_blanks[of s "advance_by ?n s" "replicate ?n space" str w False] t b(3)
        by (simp add: peek_rest is_blank_def)
      moreover have "length ?cs < length cs" using pos split by (metis add_less_cancel_right length_append length_replicate less_add_same_cancel2)
      moreover have "rest (advance_by ?n s) = single_body ?cs @ single_quote # r" using t b(1) by simp
      moreover have "utf8 cs = replicate ?n space @ utf8 ?cs" using split utf8_append spaces_body(2) by metis
      ultimately show ?thesis using cs less.hyps[of ?cs "advance_by ?n s" "str @ w" "replicate ?n space"]
          less.hyps[of ?cs "advance_by ?n s" "str @ w @ replicate ?n space" "[]"] by (simp split: if_splits)
    next
      case raw
      let ?as = "takeWhile single_raw cs" and ?cs = "dropWhile single_raw cs"
      have split: "cs = ?as @ ?cs" by simp
      have cs: "list_all (\<lambda>c. 0x20 \<le> c \<and> c < 0x110000) ?as" "list_all (\<lambda>c. 0x20 \<le> c \<and> c < 0x110000) ?cs"
        using less.prems(1) split by (metis list_all_append)+
      have as: "list_all single_raw ?as" "?as \<noteq> []" using raw Cons by (auto simp: list_all_iff dest: set_takeWhileD)
      have hd: "?cs = [] \<or> \<not> single_raw (hd ?cs)" using hd_dropWhile[of single_raw cs] by blast
      obtain b r' where b: "single_body ?cs @ single_quote # r = b # r'" "\<not> is_continuation b" "is_single_stop b"
        using single_body_starts[OF cs(2)] hd by metis
      have "rest s = single_body (?as @ ?cs) @ single_quote # r" using less.prems(2) by simp
      then have s: "rest s = utf8 ?as @ b # r'"
        using b(1) single_raw_run(1)[OF as(1) cs(1)] by (simp only: single_body_append append_assoc)
      obtain a u where a: "utf8 ?as = a # u" "\<not> is_continuation a"
        using utf8_Cons[of "hd ?as" "tl ?as"] as(2) cs(1) by (cases ?as) auto
      let ?n = "length (utf8 ?as)"
      have stops: "\<forall>b \<in> set (utf8 ?as). \<not> is_single_stop b" using single_raw_run(2)[OF as(1) cs(1)] by blast
      have n: "?n = length (takeWhile (\<lambda>c. \<not> is_single_stop c) (rest s))"
        using s stops b(3) by (simp add: takeWhile_append2)
      have p: "\<not> is_single_stop (sc_peek s)" "\<not> is_eof s" "0 < ?n" using s a stops by (simp_all add: rest_simps)
      have sl: "slice_str (sc_pos s) (sc_pos (advance_by ?n s)) s = utf8 ?as"
        using slice_run[of ?n s] s a b(2) by simp
      have "single_loop str w False s = single_loop (str @ w @ utf8 ?as) [] False (advance_by ?n s)"
        using single_loop_run[OF p(1,2) n p(3)] sl by simp
      moreover have "length ?cs < length cs" using as(2) split by (metis length_append length_greater_0_conv less_add_same_cancel2)
      moreover have "rest (advance_by ?n s) = single_body ?cs @ single_quote # r" using s b(1) by (simp add: rest_simps)
      moreover have "utf8 cs = utf8 ?as @ utf8 ?cs" using split utf8_append by metis
      ultimately show ?thesis using less.hyps[of ?cs "advance_by ?n s" "str @ w @ utf8 ?as" "[]"] cs(2) by simp
    qed
  qed
qed

text \<open>
  What the emitter writes between single quotes, the scanner reads back: every string its own
  test \<open>single_quote_safe\<close> admits, whatever follows except another single quote.
\<close>

theorem single_quoted_reads_back:
  assumes "list_all is_scalar_value cs" and "single_quote_safe (utf8 cs)"
    and "rest s = write_single_quoted (utf8 cs) @ r" and "r = [] \<or> hd r \<noteq> single_quote"
  shows "\<exists>t. scan_single_quoted_scalar s = Inr (utf8 cs, t) \<and> rest t = r"
proof -
  have b: "list_all (\<lambda>c. c < 0x110000) cs" using assms(1) by (auto simp: list_all_iff is_scalar_bound)
  have cs: "list_all (\<lambda>c. 0x20 \<le> c \<and> c < 0x110000) cs"
    using assms(2) b by (auto simp: single_quote_safe_def chars_utf8[OF b] list_ex_iff list_all_iff code_point_encode Let_def)
  have "(if utf8_encode c = [single_quote] then [single_quote, single_quote] else utf8_encode c) = single_char c"
    if "c < 0x110000" for c
    using code_point_encode[OF that] quote_encode by (auto simp: single_char_def byte_def)
  then have "concat (map (\<lambda>ch. if ch = [single_quote] then [single_quote, single_quote] else ch) (map utf8_encode cs))
      = single_body cs" using b by (induction cs) (simp_all add: single_body_def)
  then have "rest (advance s) = single_body cs @ single_quote # r"
    using assms(3) by (simp add: write_single_quoted_def chars_utf8[OF b] rest_simps)
  then show ?thesis using single_loop_reads[OF cs _ assms(4), of "advance s" "[]" "[]"]
    by (simp add: scan_single_quoted_scalar_def)
qed

lemma single_quoted_reads_back_witness:
  "\<exists>t. scan_single_quoted_scalar
         (scanner_new (write_single_quoted (utf8 [0x27, 0x20, 0x61, 0x27, 0x20, 0xE9, 0x1F600, 0x20]) @ '', b''))
       = Inr (utf8 [0x27, 0x20, 0x61, 0x27, 0x20, 0xE9, 0x1F600, 0x20], t) \<and> rest t = '', b''"
proof (rule single_quoted_reads_back)
  show "single_quote_safe (utf8 [0x27, 0x20, 0x61, 0x27, 0x20, 0xE9, 0x1F600, 0x20])"
    by (simp add: single_quote_safe_def chars_utf8 code_point_encode Let_def)
qed (simp_all add: is_scalar_value_def rest_def scanner_new_def)

end
