(* ===== verification/Doc_Boundary.thy ===== *)
theory Doc_Boundary
  imports Errors Text
begin

text \<open>
  The split of a stream into documents at column-0 \<open>---\<close> markers (\<open>doc_boundary.rs\<close>): the scan for a
  marker, whole or in a buffer that still grows, and the budgeted stream of slices.
\<close>

section \<open>Markers\<close>

definition bom :: string where
  "bom = [CHR 0xEF, CHR 0xBB, CHR 0xBF]"

definition strip_bom :: "string \<Rightarrow> nat" where
  "strip_bom bytes = (if starts_with bom bytes then 3 else 0)"

definition marker_break :: "char \<Rightarrow> bool" where
  "marker_break c \<longleftrightarrow> c = CHR 0x0A \<or> c = CHR 0x0D"

definition is_doc_marker_at :: "string \<Rightarrow> nat \<Rightarrow> bool" where
  "is_doc_marker_at bytes i \<longleftrightarrow>
     (if i + 3 > length bytes then False
      else if take 3 (drop i bytes) \<noteq> ''---'' then False
      else if \<not> (i = 0 \<or> marker_break (bytes ! (i - 1))) then False
      else if i + 3 = length bytes then True
      else marker_break (bytes ! (i + 3)) \<or> bytes ! (i + 3) = CHR '' '' \<or> bytes ! (i + 3) = CHR 0x09)"

function marker_at_or_after :: "string \<Rightarrow> nat \<Rightarrow> nat option" where
  "marker_at_or_after bytes i =
     (if i + 3 \<le> length bytes
      then (if is_doc_marker_at bytes i then Some i else marker_at_or_after bytes (i + 1))
      else None)"
  by pat_completeness auto

termination
  by (relation "measure (\<lambda>(bytes, i). length bytes - i)") auto

declare marker_at_or_after.simps [simp del]

definition next_marker_after :: "string \<Rightarrow> nat \<Rightarrow> nat option" where
  "next_marker_after bytes start = marker_at_or_after bytes (max start 1)"

function streaming_marker :: "string \<Rightarrow> bool \<Rightarrow> nat \<Rightarrow> nat option" where
  "streaming_marker bytes at_eof i =
     (if i + 3 \<le> length bytes
      then (if \<not> at_eof \<and> i + 3 = length bytes then None
            else if is_doc_marker_at bytes i then Some i
            else streaming_marker bytes at_eof (i + 1))
      else None)"
  by pat_completeness auto

termination
  by (relation "measure (\<lambda>(bytes, at_eof, i). length bytes - i)") auto

declare streaming_marker.simps [simp del]

definition next_marker_after_streaming :: "string \<Rightarrow> nat \<Rightarrow> bool \<Rightarrow> nat option" where
  "next_marker_after_streaming bytes start at_eof = streaming_marker bytes at_eof (max start 1)"

section \<open>The stream of slices\<close>

definition prologue_has_content :: "string \<Rightarrow> bool" where
  "prologue_has_content pre \<longleftrightarrow>
     list_ex (\<lambda>line. let trimmed = trim line
                      in trimmed \<noteq> [] \<and> \<not> starts_with ''#'' trimmed \<and> \<not> starts_with ''%'' trimmed) (lines pre)"

record document_stream =
  ds_input :: string
  ds_pending :: "(nat \<times> nat) option"
  ds_current_start :: "nat option"
  ds_search_from :: nat
  ds_max_documents :: nat
  ds_yielded :: nat
  ds_exhausted :: bool

definition document_stream_new :: "string \<Rightarrow> nat \<Rightarrow> document_stream" where
  "document_stream_new input max_documents =
     (let (pending, current_start, search_from) =
        (case marker_at_or_after input 0 of
           None \<Rightarrow> if trim input = [] then (None, None, length input) else (Some (0, length input), None, length input)
         | Some marker \<Rightarrow>
             if marker > 0 \<and> prologue_has_content (take marker input)
             then (Some (0, marker), Some marker, marker + 3)
             else (None, Some 0, marker + 3))
      in \<lparr>ds_input = input, ds_pending = pending, ds_current_start = current_start,
          ds_search_from = search_from, ds_max_documents = max_documents, ds_yielded = 0, ds_exhausted = False\<rparr>)"

definition slice :: "string \<Rightarrow> nat \<Rightarrow> nat \<Rightarrow> string" where
  "slice s i j = drop i (take j s)"

definition emit_slice :: "nat \<Rightarrow> nat \<Rightarrow> document_stream \<Rightarrow> (error, string) res \<times> document_stream" where
  "emit_slice start stop s =
     (let observed = sat_add (ds_yielded s) 1
      in if observed > ds_max_documents s
         then (Inl (Budget (MaxDocuments (ds_max_documents s) observed)), s\<lparr>ds_exhausted := True\<rparr>)
         else (Inr (slice (ds_input s) start stop), s\<lparr>ds_yielded := observed\<rparr>))"

definition next_document :: "document_stream \<Rightarrow> (error, string) res option \<times> document_stream" where
  "next_document s =
     (if ds_exhausted s then (None, s)
      else case ds_pending s of
             Some (start, stop) \<Rightarrow> apfst Some (emit_slice start stop (s\<lparr>ds_pending := None\<rparr>))
           | None \<Rightarrow>
               (case ds_current_start s of
                  None \<Rightarrow> (None, s\<lparr>ds_exhausted := True\<rparr>)
                | Some start \<Rightarrow>
                    (case marker_at_or_after (ds_input s) (ds_search_from s) of
                       Some marker \<Rightarrow>
                         apfst Some (emit_slice start marker
                           (s\<lparr>ds_current_start := Some marker, ds_search_from := marker + 3\<rparr>))
                     | None \<Rightarrow>
                         let s = s\<lparr>ds_current_start := None, ds_exhausted := True\<rparr>;
                             trailing = drop start (ds_input s)
                         in if start < length (ds_input s) \<and> trim_end trailing \<noteq> []
                            then apfst Some (emit_slice start (length (ds_input s)) s)
                            else (None, s))))"

section \<open>Facts about markers\<close>

lemma marker_fits: "is_doc_marker_at b i \<Longrightarrow> i + 3 \<le> length b"
  by (auto simp: is_doc_marker_at_def split: if_splits)

lemma from_next: "(\<forall>j \<ge> i. P j) \<longleftrightarrow> P i \<and> (\<forall>j \<ge> Suc i. P j)" for P :: "nat \<Rightarrow> bool"
  by (metis Suc_leD Suc_le_eq le_neq_implies_less order_refl)

lemma marker_search:
  "case marker_at_or_after b i of
     Some m \<Rightarrow> i \<le> m \<and> is_doc_marker_at b m \<and> (\<forall>j \<ge> i. j < m \<longrightarrow> \<not> is_doc_marker_at b j)
   | None \<Rightarrow> \<forall>j \<ge> i. \<not> is_doc_marker_at b j"
proof (induction b i rule: marker_at_or_after.induct)
  case (1 b i)
  consider (next_position) "i + 3 \<le> length b" "\<not> is_doc_marker_at b i" | (here) "i + 3 \<le> length b" "is_doc_marker_at b i"
    | (over) "\<not> i + 3 \<le> length b" by blast
  then show ?case
  proof cases
    case next_position
    then have "marker_at_or_after b i = marker_at_or_after b (Suc i)" by (subst marker_at_or_after.simps) simp
    then show ?thesis using 1 next_position from_next[of i] by (auto split: option.splits)
  next
    case here
    then show ?thesis by (subst marker_at_or_after.simps) simp
  next
    case over
    then have "\<forall>j \<ge> i. \<not> is_doc_marker_at b j" using marker_fits[of b] by fastforce
    then show ?thesis using over by (subst marker_at_or_after.simps) simp
  qed
qed

lemma marker_found:
  "marker_at_or_after b i = Some m \<longleftrightarrow> i \<le> m \<and> is_doc_marker_at b m \<and> (\<forall>j \<ge> i. j < m \<longrightarrow> \<not> is_doc_marker_at b j)"
  using marker_search[where b = b and i = i] by (cases "marker_at_or_after b i") (auto, meson linorder_neqE_nat)

lemma no_marker: "marker_at_or_after b i = None \<longleftrightarrow> (\<forall>j \<ge> i. \<not> is_doc_marker_at b j)"
  using marker_search[where b = b and i = i] by (cases "marker_at_or_after b i") auto

lemma marker_dashes: "is_doc_marker_at b m \<Longrightarrow> k < 3 \<Longrightarrow> b ! (m + k) = CHR ''-''"
proof -
  assume a: "is_doc_marker_at b m" "k < 3"
  then have t: "take 3 (drop m b) = ''---''" "m + 3 \<le> length b" by (auto simp: is_doc_marker_at_def split: if_splits)
  have "take 3 (drop m b) ! k = b ! (m + k)" using a(2) t(2) by simp
  moreover have "''---'' ! k = CHR ''-''" using a(2) by (auto simp: less_Suc_eq numeral_3_eq_3)
  ultimately show ?thesis using t(1) by simp
qed

text \<open>Two markers do not overlap: the second needs a break before it.\<close>

lemma markers_apart: "is_doc_marker_at b m \<Longrightarrow> is_doc_marker_at b j \<Longrightarrow> m < j \<Longrightarrow> m + 3 < j"
proof (rule ccontr)
  assume a: "is_doc_marker_at b m" "is_doc_marker_at b j" "m < j" "\<not> m + 3 < j"
  then have "b ! (m + (j - 1 - m)) = CHR ''-''" by (intro marker_dashes) auto
  moreover have "marker_break (b ! (j - 1))" using a(2,3) by (auto simp: is_doc_marker_at_def split: if_splits)
  ultimately show False using a(3) by (simp add: marker_break_def)
qed

text \<open>A text with a dash is not blank.\<close>

lemma trim_end_rev_dash: "trim_end_rev s = [] \<Longrightarrow> CHR ''-'' \<notin> set s"
  by (induction s rule: trim_end_rev.induct) (auto simp: ascii_ws_def ws2_def ws3_def byte_def split: if_splits)

lemma dash_not_ws: "\<not> ascii_ws (byte CHR ''-'')" "\<not> ws2 (byte CHR ''-'') y" "\<not> ws2 x (byte CHR ''-'')"
  "\<not> ws3 (byte CHR ''-'') y z" "\<not> ws3 x (byte CHR ''-'') z" "\<not> ws3 x y (byte CHR ''-'')"
  by (simp_all add: ascii_ws_def ws2_def ws3_def byte_def)

lemma trim_start_dash: "CHR ''-'' \<in> set s \<Longrightarrow> CHR ''-'' \<in> set (trim_start s)"
proof (induction s rule: trim_start.induct)
  case (4 a b c s)
  then show ?case using dash_not_ws by (cases "a = CHR ''-'' \<or> b = CHR ''-'' \<or> c = CHR ''-''") auto
qed (use dash_not_ws in auto)

lemma trim_end_dash: "CHR ''-'' \<in> set s \<Longrightarrow> trim_end s \<noteq> []"
  using trim_end_rev_dash[of "rev s"] by (auto simp: trim_end_def)

section \<open>Every slice\<close>

lemma emit_fields:
  "ds_pending (snd (emit_slice i j s)) = ds_pending s" "ds_current_start (snd (emit_slice i j s)) = ds_current_start s"
  "ds_search_from (snd (emit_slice i j s)) = ds_search_from s" "ds_input (snd (emit_slice i j s)) = ds_input s"
  "ds_exhausted s \<Longrightarrow> ds_exhausted (snd (emit_slice i j s))"
  by (simp_all add: emit_slice_def Let_def)

definition slices_left :: "document_stream \<Rightarrow> nat" where
  "slices_left s =
     (if ds_exhausted s then 0
      else 1 + (if ds_pending s = None then 0 else 1)
             + (case ds_current_start s of None \<Rightarrow> 0 | Some _ \<Rightarrow> length (ds_input s) + 4 - ds_search_from s))"

lemma slices_left_decreases:
  assumes "next_document s = (Some r, t)" shows "slices_left t < slices_left s"
proof -
  have live: "\<not> ds_exhausted s" using assms by (auto simp: next_document_def)
  show ?thesis
  proof (cases "ds_pending s")
    case (Some p)
    obtain i j where "p = (i, j)" by fastforce
    then have "t = snd (emit_slice i j (s\<lparr>ds_pending := None\<rparr>))"
      using assms live Some by (simp add: next_document_def apfst_def map_prod_def split: prod.splits)
    then show ?thesis using live Some by (simp add: slices_left_def emit_fields split: option.splits)
  next
    case None
    then obtain start where start: "ds_current_start s = Some start"
      using assms live by (auto simp: next_document_def split: option.splits)
    show ?thesis
    proof (cases "marker_at_or_after (ds_input s) (ds_search_from s)")
      case (Some m)
      have "t = snd (emit_slice start m (s\<lparr>ds_current_start := Some m, ds_search_from := m + 3\<rparr>))"
        using assms live None start Some by (simp add: next_document_def apfst_def map_prod_def split: prod.splits)
      moreover have "ds_search_from s \<le> m" "m + 3 \<le> length (ds_input s)" using Some marker_fits by (auto simp: marker_found)
      ultimately show ?thesis using live None start by (simp add: slices_left_def emit_fields, arith)
    next
      case none: None
      have "ds_exhausted t" using assms live None start none
        by (auto simp: next_document_def apfst_def map_prod_def Let_def emit_slice_def split: if_splits prod.splits)
      then show ?thesis using live by (simp add: slices_left_def)
    qed
  qed
qed

text \<open>What iterating over the stream yields, up to the first \<open>None\<close>.\<close>

function documents :: "document_stream \<Rightarrow> (error, string) res list" where
  "documents s = (case next_document s of (Some r, t) \<Rightarrow> r # documents t | (None, _) \<Rightarrow> [])"
  by pat_completeness auto

termination
  by (relation "measure slices_left") (simp, metis in_measure slices_left_decreases)

declare documents.simps [simp del]

fun map_while_ok :: "('e, 'a) res list \<Rightarrow> 'a list" where
  "map_while_ok (Inr x # rs) = x # map_while_ok rs"
| "map_while_ok _ = []"

fun collect :: "('e, 'a) res list \<Rightarrow> ('e, 'a list) res" where
  "collect [] = Inr []"
| "collect (Inl e # rs) = Inl e"
| "collect (Inr x # rs) = and_then (collect rs) (\<lambda>xs. Inr (x # xs))"

definition split_documents :: "string \<Rightarrow> string list" where
  "split_documents input = map_while_ok (documents (document_stream_new input usize_max))"

definition split_documents_checked :: "string \<Rightarrow> nat \<Rightarrow> (error, string list) res" where
  "split_documents_checked input max_documents = collect (documents (document_stream_new input max_documents))"

definition validate_document_budget :: "string \<Rightarrow> nat \<Rightarrow> (error, unit) res" where
  "validate_document_budget input max_documents =
     try_fold (\<lambda>_ r. and_then r (\<lambda>_. Inr ())) () (documents (document_stream_new input max_documents))"

section \<open>The slices without the budget\<close>

function slices :: "string \<Rightarrow> nat \<Rightarrow> nat \<Rightarrow> string list" where
  "slices b start k =
     (case marker_at_or_after b k of
        Some m \<Rightarrow> slice b start m # slices b m (m + 3)
      | None \<Rightarrow> if start < length b \<and> trim_end (drop start b) \<noteq> [] then [drop start b] else [])"
  by pat_completeness auto

termination
proof (relation "measure (\<lambda>(b, start, k). length b - k)", goal_cases)
  case (2 b start k m)
  then have "k \<le> m" "m + 3 \<le> length b" using marker_fits by (auto simp: marker_found)
  then show ?case by auto
qed simp

declare slices.simps [simp del]

definition all_slices :: "document_stream \<Rightarrow> string list" where
  "all_slices s =
     (if ds_exhausted s then []
      else (case ds_pending s of Some (i, j) \<Rightarrow> [slice (ds_input s) i j] | None \<Rightarrow> [])
         @ (case ds_current_start s of Some start \<Rightarrow> slices (ds_input s) start (ds_search_from s) | None \<Rightarrow> []))"

fun budget_cut :: "nat \<Rightarrow> nat \<Rightarrow> 'a list \<Rightarrow> (error, 'a) res list" where
  "budget_cut m y [] = []"
| "budget_cut m y (d # ds) =
     (if sat_add y 1 > m then [Inl (Budget (MaxDocuments m (sat_add y 1)))]
      else Inr d # budget_cut m (sat_add y 1) ds)"

lemma documents_exhausted: "ds_exhausted s \<Longrightarrow> documents s = []"
  by (subst documents.simps) (simp add: next_document_def)

text \<open>One emitted slice, with what follows it.\<close>

lemma documents_emit:
  assumes "next_document s = apfst Some (emit_slice i j u)"
    and "ds_input u = ds_input s" "ds_max_documents u = ds_max_documents s" "ds_yielded u = ds_yielded s"
    and "\<And>y. documents (u\<lparr>ds_yielded := y\<rparr>) = budget_cut (ds_max_documents s) y ds"
  shows "documents s = budget_cut (ds_max_documents s) (ds_yielded s) (slice (ds_input s) i j # ds)"
  using assms documents_exhausted[of "u\<lparr>ds_exhausted := True\<rparr>"]
  by (subst documents.simps) (simp add: emit_slice_def Let_def)

lemma documents_slices:
  "documents s = budget_cut (ds_max_documents s) (ds_yielded s) (all_slices s)"
proof (induction "slices_left s" arbitrary: s rule: less_induct)
  case less
  show ?case
  proof (cases "ds_exhausted s")
    case True
    then show ?thesis by (simp add: documents_exhausted all_slices_def)
  next
    case live: False
    show ?thesis
    proof (cases "ds_pending s")
      case (Some p)
      obtain i j where p: "p = (i, j)" by fastforce
      let ?u = "s\<lparr>ds_pending := None\<rparr>"
      have "next_document s = apfst Some (emit_slice i j ?u)" using live Some p by (simp add: next_document_def)
      then have "documents s = budget_cut (ds_max_documents s) (ds_yielded s) (slice (ds_input s) i j # all_slices ?u)"
      proof (rule documents_emit)
        show "documents (?u\<lparr>ds_yielded := y\<rparr>) = budget_cut (ds_max_documents s) y (all_slices ?u)" for y
          using less[of "?u\<lparr>ds_yielded := y\<rparr>"] live Some by (simp add: slices_left_def all_slices_def split: option.splits)
      qed simp_all
      then show ?thesis using live Some p by (simp add: all_slices_def split: option.split)
    next
      case none: None
      show ?thesis
      proof (cases "ds_current_start s")
        case None
        then show ?thesis using live none by (subst documents.simps) (simp add: next_document_def all_slices_def)
      next
        case (Some start)
        show ?thesis
        proof (cases "marker_at_or_after (ds_input s) (ds_search_from s)")
          case m: (Some m)
          let ?u = "s\<lparr>ds_current_start := Some m, ds_search_from := m + 3\<rparr>"
          have fits: "ds_search_from s \<le> m" "m + 3 \<le> length (ds_input s)" using m marker_fits by (auto simp: marker_found)
          have "next_document s = apfst Some (emit_slice start m ?u)" using live none Some m by (simp add: next_document_def)
          then have "documents s = budget_cut (ds_max_documents s) (ds_yielded s) (slice (ds_input s) start m # all_slices ?u)"
          proof (rule documents_emit)
            show "documents (?u\<lparr>ds_yielded := y\<rparr>) = budget_cut (ds_max_documents s) y (all_slices ?u)" for y
              using less[of "?u\<lparr>ds_yielded := y\<rparr>"] live none Some fits by (simp add: slices_left_def all_slices_def)
          qed simp_all
          then show ?thesis using live none Some m by (simp add: all_slices_def slices.simps[of "ds_input s" start "ds_search_from s"])
        next
          case nomark: None
          let ?u = "s\<lparr>ds_current_start := None, ds_exhausted := True\<rparr>"
          show ?thesis
          proof (cases "start < length (ds_input s) \<and> trim_end (drop start (ds_input s)) \<noteq> []")
            case True
            then have "next_document s = apfst Some (emit_slice start (length (ds_input s)) ?u)"
              using live none Some nomark by (simp add: next_document_def Let_def)
            then have "documents s = budget_cut (ds_max_documents s) (ds_yielded s) (slice (ds_input s) start (length (ds_input s)) # [])"
              by (rule documents_emit) (simp_all add: documents_exhausted)
            then show ?thesis using True live none Some nomark
              by (simp add: all_slices_def slices.simps[of "ds_input s" start "ds_search_from s"] slice_def)
          next
            case False
            then have "next_document s = (None, ?u)" using live none Some nomark by (auto simp: next_document_def Let_def)
            then show ?thesis using False live none Some nomark
              by (subst documents.simps) (auto simp: all_slices_def slices.simps[of "ds_input s" start "ds_search_from s"])
          qed
        qed
      qed
    qed
  qed
qed

lemma budget_cut_unlimited: "budget_cut usize_max y ds = map Inr ds"
  by (induction ds arbitrary: y) (simp_all add: sat_add_def)

lemma map_while_ok_Inr [simp]: "map_while_ok (map Inr xs) = xs"
  by (induction xs) simp_all

lemma stream_new_fields:
  "ds_max_documents (document_stream_new input m) = m" "ds_yielded (document_stream_new input m) = 0"
  "all_slices (document_stream_new input m) = all_slices (document_stream_new input m')"
  by (simp_all add: document_stream_new_def all_slices_def split: option.splits prod.splits)

lemma split_documents_slices: "split_documents input = all_slices (document_stream_new input m)"
  unfolding split_documents_def documents_slices stream_new_fields budget_cut_unlimited map_while_ok_Inr
  by (rule stream_new_fields)

lemma collect_budget:
  assumes "m < usize_max" and "y \<le> m"
  shows "collect (budget_cut m y ds) = (if y + length ds \<le> m then Inr ds else Inl (Budget (MaxDocuments m (m + 1))))"
  using assms(2)
proof (induction ds arbitrary: y)
  case (Cons d ds)
  have "sat_add y 1 = y + 1" using Cons.prems assms(1) by (simp add: sat_add_def)
  then show ?case using Cons.IH[of "y + 1"] Cons.prems by (auto split: sum.splits)
qed simp

section \<open>The split of a text\<close>

text \<open>Where each slice starts.\<close>

fun cuts :: "nat \<Rightarrow> 'a list list \<Rightarrow> nat list" where
  "cuts o0 [] = []"
| "cuts o0 (d # ds) = o0 # cuts (o0 + length d) ds"

lemma dash_of_marker: "is_doc_marker_at b m \<Longrightarrow> start \<le> m \<Longrightarrow> CHR ''-'' \<in> set (drop start b)"
proof -
  assume a: "is_doc_marker_at b m" "start \<le> m"
  then have "drop start b ! (m - start) = CHR ''-''" "m - start < length (drop start b)"
    using marker_dashes[of b m 0] marker_fits[of b m] by simp_all
  then show ?thesis by (metis nth_mem)
qed

text \<open>The slices from a marker on cover the rest of the text, and start at the markers.\<close>

lemma slices_cover:
  assumes "start \<le> k" and "CHR ''-'' \<in> set (drop start b)"
  shows "concat (slices b start k) = drop start b
    \<and> (\<exists>xs. cuts start (slices b start k) = start # xs \<and> set xs = {i. k \<le> i \<and> is_doc_marker_at b i})"
  using assms
proof (induction b start k rule: slices.induct)
  case (1 b start k)
  show ?case
  proof (cases "marker_at_or_after b k")
    case None
    have "start < length b" using 1(3) by (metis drop_all empty_iff empty_set linorder_not_less)
    then have "slices b start k = [drop start b]" using None trim_end_dash[OF 1(3)] by (subst slices.simps) simp
    then show ?thesis using None by (auto simp: no_marker)
  next
    case (Some m)
    have m: "k \<le> m" "is_doc_marker_at b m" "\<And>j. k \<le> j \<Longrightarrow> j < m \<Longrightarrow> \<not> is_doc_marker_at b j"
      using Some by (auto simp: marker_found)
    have fits: "m + 3 \<le> length b" using marker_fits[OF m(2)] .
    have eq: "slices b start k = slice b start m # slices b m (m + 3)" using Some by (subst slices.simps) simp
    have IH: "concat (slices b m (m + 3)) = drop m b"
      "\<exists>xs. cuts m (slices b m (m + 3)) = m # xs \<and> set xs = {i. m + 3 \<le> i \<and> is_doc_marker_at b i}"
      using "1.IH"[OF Some] dash_of_marker[OF m(2), of m] by simp_all
    have len: "start + length (slice b start m) = m" using 1(2) m(1) fits by (simp add: slice_def)
    have "slice b start m @ drop m b = drop start b"
      using 1(2) m(1) fits by (simp add: slice_def drop_take) (metis append_take_drop_id drop_drop le_add_diff_inverse2 le_trans)
    moreover have "{i. k \<le> i \<and> is_doc_marker_at b i} = insert m {i. m + 3 \<le> i \<and> is_doc_marker_at b i}"
      using m markers_apart[OF m(2)] by (force simp: not_less dest: le_neq_implies_less)
    ultimately show ?thesis using IH len unfolding eq by auto
  qed
qed

text \<open>
  C26. Splitting a text loses nothing: the slices are the text, unless it is blank, and they are cut
  exactly at its document markers, except that comments, directives and blank lines before the first
  marker stay with the document it opens.
\<close>

theorem split_cuts_at_markers:
  "concat (split_documents input) = (if trim input = [] then [] else input)
   \<and> set (tl (cuts 0 (split_documents input)))
     = {i. is_doc_marker_at input i \<and> 0 < i
            \<and> (prologue_has_content (take i input) \<or> (\<exists>j < i. is_doc_marker_at input j))}"
proof (cases "marker_at_or_after input 0")
  case None
  then have "split_documents input = (if trim input = [] then [] else [input])"
    unfolding split_documents_slices[of input 0] by (simp add: all_slices_def document_stream_new_def slice_def)
  then show ?thesis using None by (auto simp: no_marker)
next
  case (Some m)
  then have m: "is_doc_marker_at input m" "\<And>j. j < m \<Longrightarrow> \<not> is_doc_marker_at input j" by (auto simp: marker_found)
  have dash: "CHR ''-'' \<in> set input" using dash_of_marker[OF m(1), of 0] by simp
  have "trim input \<noteq> []"
  proof
    assume "trim input = []"
    then have "CHR ''-'' \<notin> set (trim_start input)" using trim_end_dash by (auto simp: trim_def)
    then show False using dash trim_start_dash by blast
  qed
  moreover have after: "{i. m + 3 \<le> i \<and> is_doc_marker_at input i} = {i. m < i \<and> is_doc_marker_at input i}"
    using markers_apart[OF m(1)] by force
  moreover have fits: "m + 3 \<le> length input" using marker_fits[OF m(1)] .
  ultimately show ?thesis
  proof (cases "m > 0 \<and> prologue_has_content (take m input)")
    case True
    then have eq: "split_documents input = take m input # slices input m (m + 3)"
      unfolding split_documents_slices[of input 0] using Some
      by (simp add: all_slices_def document_stream_new_def slice_def)
    obtain xs where "concat (slices input m (m + 3)) = drop m input" "cuts m (slices input m (m + 3)) = m # xs"
        "set xs = {i. m + 3 \<le> i \<and> is_doc_marker_at input i}"
      using slices_cover[of m "m + 3" input] dash_of_marker[OF m(1), of m] by auto
    then show ?thesis unfolding eq using True m fits after \<open>trim input \<noteq> []\<close>
      by (auto simp: min_def)
  next
    case False
    then have eq: "split_documents input = slices input 0 (m + 3)"
      unfolding split_documents_slices[of input 0] using Some
      by (auto simp: all_slices_def document_stream_new_def)
    obtain xs where "concat (slices input 0 (m + 3)) = input" "cuts 0 (slices input 0 (m + 3)) = 0 # xs"
        "set xs = {i. m + 3 \<le> i \<and> is_doc_marker_at input i}"
      using slices_cover[of 0 "m + 3" input] dash by auto
    then show ?thesis unfolding eq using False m after \<open>trim input \<noteq> []\<close>
      by (auto simp: dest: m(2)) (metis linorder_neqE_nat)+
  qed
qed

text \<open>
  The budget of documents changes nothing but the refusal: within it the same slices, beyond it
  the error that names the limit, found at the first document too many.
\<close>

theorem split_checked_within_budget:
  assumes "max_documents < usize_max"
  shows "split_documents_checked input max_documents =
    (if length (split_documents input) \<le> max_documents then Inr (split_documents input)
     else Inl (Budget (MaxDocuments max_documents (max_documents + 1))))"
  unfolding split_documents_checked_def documents_slices stream_new_fields split_documents_slices[of input max_documents]
  by (simp add: collect_budget[OF assms])

lemma split_checked_within_budget_witness:
  "split_documents_checked (''a: 1'' @ [CHR 0x0A] @ ''---'') 7 =
    (if length (split_documents (''a: 1'' @ [CHR 0x0A] @ ''---'')) \<le> 7
     then Inr (split_documents (''a: 1'' @ [CHR 0x0A] @ ''---'')) else Inl (Budget (MaxDocuments 7 (7 + 1))))"
  by (rule split_checked_within_budget) (simp add: usize_max_def)

end
