(* ===== verification/Stream_Decoder.thy ===== *)
theory Stream_Decoder
  imports Doc_Boundary
begin

text \<open>
  The decoder of an asynchronous byte stream (\<open>tokio_async.rs\<close>): a buffer that grows by reads, cut at
  the document markers it can be sure of.  Deserializing a frame is the parameter \<open>parse\<close>, which may
  keep a state of its own (the stream-wide tally).
\<close>

section \<open>The decoder\<close>

record yaml_decoder =
  yd_max_document_length :: nat
  yd_max_frame_size :: "nat option"
  yd_scanned :: nat

definition decoder_with_config :: "nat \<Rightarrow> yaml_decoder" where
  "decoder_with_config max_document_length =
     \<lparr>yd_max_document_length = max_document_length, yd_max_frame_size = Some max_document_length, yd_scanned = 0\<rparr>"

definition set_max_frame_size :: "nat \<Rightarrow> yaml_decoder \<Rightarrow> yaml_decoder" where
  "set_max_frame_size m d = d\<lparr>yd_max_frame_size := Some m\<rparr>"

definition frame_limit :: "yaml_decoder \<Rightarrow> nat \<times> string" where
  "frame_limit d =
     (case yd_max_frame_size d of
        Some m \<Rightarrow> if m \<le> yd_max_document_length d then (m, ''max_frame_size'')
                  else (yd_max_document_length d, ''max_document_length'')
      | None \<Rightarrow> (yd_max_document_length d, ''max_document_length''))"

definition check_frame_len :: "yaml_decoder \<Rightarrow> nat \<Rightarrow> (error, unit) res" where
  "check_frame_len d frame_len =
     (case frame_limit d of (m, name) \<Rightarrow>
        if frame_len > m
        then Inl (Io (''noyalib YamlDecoder: frame '' @ show_nat frame_len @ '' > '' @ name @ '' '' @ show_nat m))
        else Inr ())"

definition next_boundary :: "string \<Rightarrow> bool \<Rightarrow> yaml_decoder \<Rightarrow> nat option \<times> yaml_decoder" where
  "next_boundary bytes at_eof d =
     (let d = (if yd_scanned d > length bytes then d\<lparr>yd_scanned := 0\<rparr> else d)
      in case next_marker_after_streaming bytes (yd_scanned d) at_eof of
           Some i \<Rightarrow> (Some i, d)
         | None \<Rightarrow> (None, d\<lparr>yd_scanned := max (yd_scanned d) (length bytes - (if at_eof then 2 else 3))\<rparr>))"

text \<open>\<open>u8::is_ascii_whitespace\<close>\<close>

definition is_ascii_whitespace :: "char \<Rightarrow> bool" where
  "is_ascii_whitespace c \<longleftrightarrow> byte c \<in> {0x20, 0x09, 0x0A, 0x0C, 0x0D}"

definition blank :: "string \<Rightarrow> bool" where
  "blank s \<longleftrightarrow> list_all is_ascii_whitespace s"

type_synonym ('g, 't) parser_fn = "'g \<Rightarrow> string \<Rightarrow> (error, 't) res \<times> 'g"
type_synonym ('g, 't) decoded = "(error, 't option) res \<times> yaml_decoder \<times> 'g \<times> string"

lemma streaming_marker_bounds: "streaming_marker b e i = Some m \<Longrightarrow> i \<le> m \<and> m + 3 \<le> length b"
  by (induction b e i rule: streaming_marker.induct) (subst (asm) (2) streaming_marker.simps, auto split: if_splits)

lemma boundary_positive: "(Some m, d') = next_boundary src e d \<Longrightarrow> 0 < m \<and> m < length src"
  using streaming_marker_bounds[of src e "max k 1" m for k]
  by (fastforce simp: next_boundary_def next_marker_after_streaming_def Let_def split: option.splits)

function decode_step :: "('g, 't) parser_fn \<Rightarrow> bool \<Rightarrow> yaml_decoder \<Rightarrow> 'g \<Rightarrow> string \<Rightarrow> ('g, 't) decoded" where
  "decode_step parse at_eof d g src =
     (case next_boundary src at_eof d of (boundary, d) \<Rightarrow>
        case check_frame_len d (case boundary of Some i \<Rightarrow> i | None \<Rightarrow> length src) of
          Inl e \<Rightarrow> (Inl e, d, g, src)
        | Inr _ \<Rightarrow>
            (case boundary of
               None \<Rightarrow> (Inr None, d, g, src)
             | Some stop \<Rightarrow>
                 let doc = take stop src; src = drop stop src; d = d\<lparr>yd_scanned := 0\<rparr> in
                 if blank doc then decode_step parse at_eof d g src
                 else case parse g doc of
                        (Inl e, g) \<Rightarrow> (Inl e, d, g, src)
                      | (Inr v, g) \<Rightarrow> (Inr (Some v), d, g, src)))"
  by pat_completeness auto

termination
  by (relation "measure (\<lambda>(parse, at_eof, d, g, src). length src)") (auto dest: boundary_positive)

declare decode_step.simps [simp del]

definition decode :: "('g, 't) parser_fn \<Rightarrow> yaml_decoder \<Rightarrow> 'g \<Rightarrow> string \<Rightarrow> ('g, 't) decoded" where
  "decode parse d g src = decode_step parse False d g src"

definition decode_eof :: "('g, 't) parser_fn \<Rightarrow> yaml_decoder \<Rightarrow> 'g \<Rightarrow> string \<Rightarrow> ('g, 't) decoded" where
  "decode_eof parse d g src =
     (if src = [] then (Inr None, d, g, src)
      else case decode_step parse True d g src of
             (Inl e, d, g, src) \<Rightarrow> (Inl e, d, g, src)
           | (Inr (Some v), d, g, src) \<Rightarrow> (Inr (Some v), d, g, src)
           | (Inr None, d, g, src) \<Rightarrow>
               if blank src then (Inr None, d\<lparr>yd_scanned := 0\<rparr>, g, [])
               else case parse g src of
                      (Inl e, g) \<Rightarrow> (Inl e, d\<lparr>yd_scanned := 0\<rparr>, g, [])
                    | (Inr v, g) \<Rightarrow> (Inr (Some v), d\<lparr>yd_scanned := 0\<rparr>, g, []))"

section \<open>Markers in a buffer that grows\<close>

lemma marker_stable: "i + 3 < length b \<Longrightarrow> is_doc_marker_at (b @ x) i \<longleftrightarrow> is_doc_marker_at b i"
  by (simp add: is_doc_marker_at_def nth_append)

lemma streaming_search:
  "case streaming_marker b e i of
     Some m \<Rightarrow> i \<le> m \<and> is_doc_marker_at b m \<and> (\<not> e \<longrightarrow> m + 3 < length b) \<and> (\<forall>j \<ge> i. j < m \<longrightarrow> \<not> is_doc_marker_at b j)
   | None \<Rightarrow> \<forall>j \<ge> i. is_doc_marker_at b j \<longrightarrow> \<not> e \<and> j + 3 = length b"
proof (induction b e i rule: streaming_marker.induct)
  case (1 b e i)
  consider (next_position) "i + 3 \<le> length b" "\<not> (\<not> e \<and> i + 3 = length b)" "\<not> is_doc_marker_at b i"
    | (here) "i + 3 \<le> length b" "\<not> (\<not> e \<and> i + 3 = length b)" "is_doc_marker_at b i"
    | (last_one) "\<not> e" "i + 3 = length b" | (over) "\<not> i + 3 \<le> length b" by blast
  then show ?case
  proof cases
    case next_position
    then have "streaming_marker b e i = streaming_marker b e (Suc i)" by (subst streaming_marker.simps) (simp, blast)
    then show ?thesis using 1[OF next_position] next_position(3) from_next[of i] by (auto split: option.splits)
  next
    case here
    then show ?thesis by (subst streaming_marker.simps) (auto simp: le_less)
  next
    case last_one
    then have "j + 3 = length b" if "j \<ge> i" "is_doc_marker_at b j" for j using marker_fits[OF that(2)] that(1) by simp
    then show ?thesis using last_one by (subst streaming_marker.simps) simp
  next
    case over
    then have "\<forall>j \<ge> i. \<not> is_doc_marker_at b j" using marker_fits[of b] by fastforce
    then show ?thesis using over by (subst streaming_marker.simps) simp
  qed
qed

text \<open>What may still be appended: nothing after the end of the stream.\<close>

definition may_follow :: "bool \<Rightarrow> string \<Rightarrow> bool" where
  "may_follow at_eof x \<longleftrightarrow> (at_eof \<longrightarrow> x = [])"

text \<open>The positions already scanned hold no marker, whatever is read next.\<close>

definition clear_below :: "bool \<Rightarrow> string \<Rightarrow> nat \<Rightarrow> bool" where
  "clear_below at_eof b k \<longleftrightarrow>
     (\<forall>x j. may_follow at_eof x \<longrightarrow> 1 \<le> j \<longrightarrow> j < k \<longrightarrow> \<not> is_doc_marker_at (b @ x) j)"

lemma clear_below_0 [simp]: "clear_below e b 0"
  by (simp add: clear_below_def)

lemma stable_at: "may_follow e x \<Longrightarrow> (\<not> e \<Longrightarrow> i + 3 < length b) \<Longrightarrow> is_doc_marker_at (b @ x) i \<longleftrightarrow> is_doc_marker_at b i"
  by (cases e) (auto simp: may_follow_def marker_stable)

lemma next_boundary_clear:
  assumes "clear_below e b (yd_scanned d)" and "next_boundary b e d = (found, d')"
  shows "case found of
      Some m \<Rightarrow> 0 < m \<and> m < length b \<and> clear_below e b (yd_scanned d')
        \<and> (\<forall>x. may_follow e x \<longrightarrow> marker_at_or_after (b @ x) 1 = Some m)
    | None \<Rightarrow> clear_below e b (yd_scanned d') \<and> (e \<longrightarrow> marker_at_or_after b 1 = None)"
proof -
  define k where "k = (if yd_scanned d > length b then 0 else yd_scanned d)"
  have clear: "clear_below e b k" using assms(1) by (simp add: k_def)
  note search = streaming_search[where b = b and e = e and i = "max k 1"]
  show ?thesis
  proof (cases "streaming_marker b e (max k 1)")
    case (Some m)
    then have f: "found = Some m" "yd_scanned d' = k" using assms(2) by (auto simp: next_boundary_def next_marker_after_streaming_def Let_def k_def split: if_splits)
    have m: "max k 1 \<le> m" "is_doc_marker_at b m" "\<not> e \<Longrightarrow> m + 3 < length b"
      "\<And>j. max k 1 \<le> j \<Longrightarrow> j < m \<Longrightarrow> \<not> is_doc_marker_at b j" using search Some by auto
    have "marker_at_or_after (b @ x) 1 = Some m" if x: "may_follow e x" for x
    proof -
      have "\<not> is_doc_marker_at (b @ x) j" if j: "1 \<le> j" "j < m" for j
      proof (cases "j < k")
        case True
        then show ?thesis using clear x j by (simp add: clear_below_def)
      next
        case False
        then show ?thesis using m(4)[of j] j stable_at[OF x, of j b] m(3) by fastforce
      qed
      then show ?thesis using m(1) stable_at[OF x m(3)] m(2) by (auto simp: marker_found)
    qed
    then show ?thesis using f m marker_fits[OF m(2)] clear by auto
  next
    case None
    then have f: "found = None" "yd_scanned d' = max k (length b - (if e then 2 else 3))"
      using assms(2) by (auto simp: next_boundary_def next_marker_after_streaming_def Let_def k_def split: if_splits)
    have none: "is_doc_marker_at b j \<Longrightarrow> \<not> e \<and> j + 3 = length b" if "max k 1 \<le> j" for j using search None that by auto
    have "\<not> is_doc_marker_at (b @ x) j" if "may_follow e x" "1 \<le> j" "j < yd_scanned d'" for x j
    proof (cases "j < k")
      case True
      then show ?thesis using clear that by (simp add: clear_below_def)
    next
      case False
      then have "j < length b - (if e then 2 else 3)" using that f by simp
      then show ?thesis using none[of j] stable_at[OF that(1), of j b] that(2) False by (fastforce split: if_splits)
    qed
    moreover have "marker_at_or_after b 1 = None" if e
    proof -
      have "\<not> is_doc_marker_at b j" if "1 \<le> j" for j
        using clear[unfolded clear_below_def, rule_format, of "[]" j] none[of j] \<open>e\<close> that by (cases "j < k") (auto simp: may_follow_def)
      then show ?thesis by (simp add: no_marker)
    qed
    ultimately show ?thesis using f by (auto simp: clear_below_def)
  qed
qed

section \<open>Frames\<close>

text \<open>A text cut at every marker but a leading one, and the documents among the pieces.\<close>

function pieces :: "string \<Rightarrow> string list" where
  "pieces b = (case marker_at_or_after b 1 of Some m \<Rightarrow> take m b # pieces (drop m b) | None \<Rightarrow> [b])"
  by pat_completeness auto

termination
proof (relation "measure length", goal_cases)
  case (2 b m)
  then show ?case using marker_fits[of b m] by (auto simp: marker_found)
qed simp

declare pieces.simps [simp del]

definition frames :: "string \<Rightarrow> string list" where
  "frames b = filter (\<lambda>p. \<not> blank p) (pieces b)"

text \<open>A parser that also keeps the texts it was given.\<close>

definition logged :: "('g, 't) parser_fn \<Rightarrow> (string list \<times> 'g, 't) parser_fn" where
  "logged parse = (\<lambda>(log, g) s. case parse g s of (r, g) \<Rightarrow> (r, (log @ [s], g)))"

text \<open>Whatever a call returns, an error included, what it handed to the parser and what it left in
  the buffer are the pieces of what was there.\<close>

lemma decode_step_frames:
  assumes "decode_step (logged parse) e d (log, g) src = (r, d', (log', g'), src')"
    and "clear_below e src (yd_scanned d)"
  shows "\<exists>ps. log' = log @ filter (\<lambda>p. \<not> blank p) ps \<and> clear_below e src' (yd_scanned d')
    \<and> (\<forall>x. may_follow e x \<longrightarrow> pieces (src @ x) = ps @ pieces (src' @ x))
    \<and> (e \<and> r = Inr None \<longrightarrow> pieces src' = [src'])"
  using assms
proof (induction "length src" arbitrary: d log g src rule: less_induct)
  case less
  obtain boundary d1 where b: "next_boundary src e d = (boundary, d1)" by fastforce
  note clear = next_boundary_clear[OF less.prems(2) b]
  let ?check = "check_frame_len d1 (case boundary of Some i \<Rightarrow> i | None \<Rightarrow> length src)"
  show ?case
  proof (cases ?check)
    case (Inl err)
    then have "r = Inl err \<and> d' = d1 \<and> log' = log \<and> src' = src"
      using less.prems(1) b by (subst (asm) decode_step.simps) simp
    then show ?thesis using clear by (intro exI[of _ "[]"]) (simp split: option.splits)
  next
    case ok: (Inr u)
    show ?thesis
    proof (cases boundary)
      case None
      then have "r = Inr None \<and> d' = d1 \<and> log' = log \<and> src' = src"
        using less.prems(1) b ok by (subst (asm) decode_step.simps) simp
      then show ?thesis using clear None by (intro exI[of _ "[]"]) (auto simp: pieces.simps[of src])
    next
      case (Some m)
      let ?doc = "take m src" and ?src = "drop m src" and ?d = "d1\<lparr>yd_scanned := 0\<rparr>"
      have m: "m < length src" "0 < m" "\<And>x. may_follow e x \<Longrightarrow> marker_at_or_after (src @ x) 1 = Some m"
        using clear Some by auto
      have cut: "pieces (src @ x) = ?doc # pieces (?src @ x)" if "may_follow e x" for x
        using m that by (subst pieces.simps) simp
      show ?thesis
      proof (cases "blank ?doc")
        case True
        have "decode_step (logged parse) e ?d (log, g) ?src = (r, d', (log', g'), src')"
          using less.prems(1) b ok Some True by (subst (asm) decode_step.simps) simp
        moreover have "length ?src < length src" using m(1,2) by simp
        ultimately obtain ps where
          "log' = log @ filter (\<lambda>p. \<not> blank p) ps" "clear_below e src' (yd_scanned d')"
          "\<forall>x. may_follow e x \<longrightarrow> pieces (?src @ x) = ps @ pieces (src' @ x)"
          "e \<and> r = Inr None \<longrightarrow> pieces src' = [src']"
          using less.hyps[of ?src ?d log g] by auto
        then show ?thesis using True cut by (intro exI[of _ "?doc # ps"]) simp
      next
        case False
        then have "log' = log @ [?doc] \<and> d' = ?d \<and> src' = ?src \<and> r \<noteq> Inr None"
          using less.prems(1) b ok Some
          by (subst (asm) decode_step.simps) (auto simp: logged_def Let_def split: prod.splits sum.splits)
        then show ?thesis using False cut by (intro exI[of _ "[?doc]"]) auto
      qed
    qed
  qed
qed

lemma frames_Nil [simp]: "frames [] = []"
proof -
  have "pieces [] = [[]]" by (subst pieces.simps) (simp add: marker_at_or_after.simps)
  then show ?thesis by (simp add: frames_def blank_def)
qed

lemma decode_eof_frames:
  assumes "decode_eof (logged parse) d (log, g) src = (r, d', (log', g'), src')" and "clear_below True src (yd_scanned d)"
  shows "\<exists>ps. log' = log @ filter (\<lambda>p. \<not> blank p) ps \<and> frames src = filter (\<lambda>p. \<not> blank p) ps @ frames src'
      \<and> clear_below True src' (yd_scanned d')"
proof (cases "src = []")
  case True
  then show ?thesis using assms by (intro exI[of _ "[]"]) (simp add: decode_eof_def)
next
  case False
  obtain q d1 log1 g1 src1 where step: "decode_step (logged parse) True d (log, g) src = (q, d1, (log1, g1), src1)"
    by (metis prod.exhaust)
  from decode_step_frames[OF step assms(2)] obtain ps where ps: "log1 = log @ filter (\<lambda>p. \<not> blank p) ps"
      "clear_below True src1 (yd_scanned d1)" "pieces src = ps @ pieces src1" "q = Inr None \<Longrightarrow> pieces src1 = [src1]"
    by (auto simp: may_follow_def)
  then have fr: "frames src = filter (\<lambda>p. \<not> blank p) ps @ frames src1" by (simp add: frames_def)
  show ?thesis
  proof (cases "q = Inr None")
    case True
    then have last: "frames src1 = filter (\<lambda>p. \<not> blank p) [src1]" using ps(4) by (simp add: frames_def)
    show ?thesis
    proof (cases "blank src1")
      case True
      then show ?thesis using assms(1) False step \<open>q = Inr None\<close> ps fr last
        by (intro exI[of _ ps]) (auto simp: decode_eof_def)
    next
      case nonblank: False
      then have "log' = log1 @ [src1] \<and> src' = [] \<and> yd_scanned d' = 0" using assms(1) False step \<open>q = Inr None\<close>
        by (auto simp: decode_eof_def logged_def split: prod.splits sum.splits)
      then show ?thesis using nonblank ps fr last by (intro exI[of _ "ps @ [src1]"]) simp
    qed
  next
    case notnone: False
    then have "log' = log1 \<and> src' = src1 \<and> d' = d1" using assms(1) False step
      by (auto simp: decode_eof_def split: sum.splits option.splits)
    then show ?thesis using ps fr by (intro exI[of _ ps]) simp
  qed
qed

text \<open>
  Every way to drive the decoder: reads append bytes to the buffer, calls of \<open>decode\<close> come in between
  at will, and after the last read only \<open>decode_eof\<close> is called.  A call may return anything, also the
  error of a frame that does not parse or is too long, and the driver may go on after it.  \<open>fed\<close> is
  what was read.
\<close>

inductive driven :: "('g, 't) parser_fn \<Rightarrow> bool \<Rightarrow> yaml_decoder \<Rightarrow> string list \<times> 'g \<Rightarrow> string \<Rightarrow> string \<Rightarrow> bool" for parse where
  driven_new: "driven parse False (d\<lparr>yd_scanned := 0\<rparr>) ([], g) [] []"
| driven_read: "driven parse False d s src fed \<Longrightarrow> driven parse False d s (src @ x) (fed @ x)"
| driven_decode: "driven parse False d s src fed \<Longrightarrow> decode (logged parse) d s src = (r, d', s', src')
    \<Longrightarrow> driven parse False d' s' src' fed"
| driven_eof: "driven parse e d s src fed \<Longrightarrow> decode_eof (logged parse) d s src = (r, d', s', src')
    \<Longrightarrow> driven parse True d' s' src' fed"

inductive_cases driven_endE: "driven parse True d s src fed"

lemma may_follow_weaker: "clear_below False b k \<Longrightarrow> clear_below e b k"
  by (auto simp: clear_below_def may_follow_def)

lemma clear_below_append: "clear_below False b k \<Longrightarrow> clear_below False (b @ x) k"
  by (auto simp: clear_below_def may_follow_def)

lemma driven_frames:
  assumes "driven parse e d s src fed"
  shows "clear_below e src (yd_scanned d) \<and> (\<exists>ps. fst s = filter (\<lambda>p. \<not> blank p) ps
    \<and> (\<forall>x. may_follow e x \<longrightarrow> filter (\<lambda>p. \<not> blank p) (pieces (fed @ x)) = filter (\<lambda>p. \<not> blank p) (ps @ pieces (src @ x))))"
  using assms
proof (induction rule: driven.induct)
  case (driven_new d g)
  then show ?case by (auto intro: exI[of _ "[]"])
next
  case (driven_read d s src fed x)
  then show ?case by (auto simp: clear_below_append may_follow_def)
next
  case (driven_decode d s src fed r d' s' src')
  obtain log g log' g' where s: "s = (log, g)" "s' = (log', g')" by fastforce
  from decode_step_frames[OF driven_decode.hyps(2)[unfolded decode_def s]] driven_decode.IH obtain ps where ps:
    "log' = log @ filter (\<lambda>p. \<not> blank p) ps" "clear_below False src' (yd_scanned d')"
    "\<forall>x. may_follow False x \<longrightarrow> pieces (src @ x) = ps @ pieces (src' @ x)" by blast
  from driven_decode.IH obtain qs where "log = filter (\<lambda>p. \<not> blank p) qs"
    "\<forall>x. may_follow False x \<longrightarrow> filter (\<lambda>p. \<not> blank p) (pieces (fed @ x)) = filter (\<lambda>p. \<not> blank p) (qs @ pieces (src @ x))"
    by (auto simp: s)
  then show ?case using ps s by (intro conjI exI[of _ "qs @ ps"]) auto
next
  case (driven_eof e d s src fed r d' s' src')
  obtain log g log' g' where s: "s = (log, g)" "s' = (log', g')" by fastforce
  have clear: "clear_below True src (yd_scanned d)" using driven_eof.IH by (cases e) (auto intro: may_follow_weaker)
  from driven_eof.IH obtain qs where "log = filter (\<lambda>p. \<not> blank p) qs"
    "\<forall>x. may_follow e x \<longrightarrow> filter (\<lambda>p. \<not> blank p) (pieces (fed @ x)) = filter (\<lambda>p. \<not> blank p) (qs @ pieces (src @ x))"
    by (auto simp: s)
  then have qs: "log = filter (\<lambda>p. \<not> blank p) qs" "frames fed = filter (\<lambda>p. \<not> blank p) qs @ frames src"
    by (auto simp: frames_def may_follow_def dest: spec[of _ "[]"])
  have "\<exists>ps. log' = log @ filter (\<lambda>p. \<not> blank p) ps \<and> frames src = filter (\<lambda>p. \<not> blank p) ps @ frames src'
      \<and> clear_below True src' (yd_scanned d')"
    by (rule decode_eof_frames[OF driven_eof.hyps(2)[unfolded s] clear])
  then obtain ps where "log' = log @ filter (\<lambda>p. \<not> blank p) ps" "frames src = filter (\<lambda>p. \<not> blank p) ps @ frames src'"
      "clear_below True src' (yd_scanned d')" by blast
  then show ?case using qs s by (intro conjI exI[of _ "qs @ ps"]) (auto simp: may_follow_def frames_def)
qed

text \<open>
  C27. However a stream is cut into reads and whenever the decoder is called in between, and whatever
  the calls return (an error leaves the driver free to go on), the texts handed to the parser so far,
  in order, followed by the frames of the buffer are the frames of what was read: cut at its markers,
  without the blank ones.  Once the buffer is used up they are the frames of the whole stream.  The
  cut can still decide whether a call is refused for the size of a frame: see
  \<open>frame_limit_sees_the_cut\<close>.
\<close>

theorem decoder_ignores_chunking:
  assumes "driven parse e d (log, g) src fed"
  shows "frames fed = log @ frames src \<and> (src = [] \<longrightarrow> log = frames fed)"
proof -
  obtain ps where "log = filter (\<lambda>p. \<not> blank p) ps"
      "filter (\<lambda>p. \<not> blank p) (pieces (fed @ [])) = filter (\<lambda>p. \<not> blank p) (ps @ pieces (src @ []))"
    using driven_frames[OF assms] by (auto simp: may_follow_def)
  then show ?thesis using frames_Nil by (auto simp: frames_def)
qed

text \<open>
  The size check looks at the whole buffer as long as no boundary is sure: a frame just within the
  limit is refused when the read ends inside the marker after it, and accepted when it does not.
\<close>

lemma frame_limit_sees_the_cut:
  "let parse = (\<lambda>g s. (Inr s, g :: unit)); d = decoder_with_config 2; nl = [CHR 0x0A]
   in fst (decode parse d () (''a'' @ nl @ ''---'' @ nl @ ''b'')) = Inr (Some (''a'' @ nl))
    \<and> (\<exists>e. fst (decode parse d () (''a'' @ nl @ ''--'')) = Inl (Io e))"
proof -
  have "fst (decode (\<lambda>g s. (Inr s, g :: unit)) (decoder_with_config 2) () (''a'' @ [CHR 0x0A] @ ''---'' @ [CHR 0x0A] @ ''b''))
      = Inr (Some (''a'' @ [CHR 0x0A]))" by code_simp
  moreover have "fst (decode (\<lambda>g s. (Inr s, g :: unit)) (decoder_with_config 2) () (''a'' @ [CHR 0x0A] @ ''--''))
      = Inl (Io ''noyalib YamlDecoder: frame 4 > max_frame_size 2'')" by code_simp
  ultimately show ?thesis by (simp add: Let_def)
qed

text \<open>
  The frames are not the documents that the split of a whole text finds: a comment before the first
  marker is a frame of its own, and so is a directive.
\<close>

lemma comment_is_a_frame:
  "frames (''# c'' @ [CHR 0x0A] @ ''---'') = [''# c'' @ [CHR 0x0A], ''---'']
   \<and> split_documents (''# c'' @ [CHR 0x0A] @ ''---'') = [''# c'' @ [CHR 0x0A] @ ''---'']"
  unfolding split_documents_slices[of _ 0] by code_simp

lemma decoder_ignores_chunking_witness:
  "frames (''a'' @ [CHR 0x0A] @ ''---'' @ [CHR 0x0A] @ ''b'') = [''a'' @ [CHR 0x0A], ''---'' @ [CHR 0x0A] @ ''b'']"
proof -
  define parse :: "(unit, string) parser_fn" where "parse = (\<lambda>g s. (Inr s, g))"
  let ?d = "decoder_with_config 100" and ?x = "''a'' @ [CHR 0x0A] @ ''-''" and ?y = "''--'' @ [CHR 0x0A] @ ''b''"
  let ?a = "''a'' @ [CHR 0x0A]" and ?b = "''---'' @ [CHR 0x0A] @ ''b''"
  have "driven parse False ?d ([], ()) [] []"
    using driven_new[of parse ?d "()"] by (simp add: decoder_with_config_def)
  then have "driven parse False ?d ([], ()) ([] @ ?x) ([] @ ?x)" by (rule driven_read)
  moreover have "decode (logged parse) ?d ([], ()) ([] @ ?x) = (Inr None, ?d, ([], ()), ?x)"
    unfolding parse_def by code_simp
  ultimately have "driven parse False ?d ([], ()) ?x ([] @ ?x)" by (rule driven_decode)
  then have "driven parse False ?d ([], ()) (?x @ ?y) (([] @ ?x) @ ?y)" by (rule driven_read)
  moreover have "decode (logged parse) ?d ([], ()) (?x @ ?y) = (Inr (Some ?a), ?d, ([?a], ()), ?b)"
    unfolding parse_def by code_simp
  ultimately have "driven parse False ?d ([?a], ()) ?b (([] @ ?x) @ ?y)" by (rule driven_decode)
  moreover have "decode_eof (logged parse) ?d ([?a], ()) ?b = (Inr (Some ?b), ?d, ([?a, ?b], ()), [])"
    unfolding parse_def by code_simp
  ultimately have "driven parse True ?d ([?a, ?b], ()) [] (([] @ ?x) @ ?y)" by (rule driven_eof)
  from conjunct2[OF decoder_ignores_chunking[OF this], THEN mp, OF refl] show ?thesis by simp
qed

section \<open>Progress\<close>

lemma decode_step_shrinks:
  "decode_step parse e d g src = (Inr r, d', g', src') \<Longrightarrow> length src' \<le> length src \<and> (r \<noteq> None \<longrightarrow> length src' < length src)"
proof (induction "length src" arbitrary: d g src rule: less_induct)
  case less
  obtain boundary d1 where b: "next_boundary src e d = (boundary, d1)" by fastforce
  have ok: "check_frame_len d1 (case boundary of Some i \<Rightarrow> i | None \<Rightarrow> length src) = Inr ()"
    using less.prems b by (subst (asm) decode_step.simps) (auto split: sum.splits)
  show ?case
  proof (cases boundary)
    case None
    then show ?thesis using less.prems b ok by (subst (asm) decode_step.simps) simp
  next
    case (Some m)
    then have m: "0 < m" "m < length src" using boundary_positive[of m d1 src e d] b by auto
    show ?thesis
    proof (cases "blank (take m src)")
      case True
      then have "decode_step parse e (d1\<lparr>yd_scanned := 0\<rparr>) g (drop m src) = (Inr r, d', g', src')"
        using less.prems b ok Some by (subst (asm) decode_step.simps) simp
      moreover have "length (drop m src) < length src" using m by simp
      ultimately show ?thesis using less.hyps[of "drop m src"] by fastforce
    next
      case False
      then have "src' = drop m src" using less.prems b ok Some
        by (subst (asm) decode_step.simps) (auto simp: Let_def split: prod.splits sum.splits)
      then show ?thesis using m by (simp, linarith)
    qed
  qed
qed

text \<open>
  C28. At the end of a stream the decoder never stalls: every call that succeeds either hands out a
  document and consumes bytes, or reports the end with nothing left in the buffer.
\<close>

theorem decode_eof_progress:
  assumes "decode_eof parse d g src = (Inr r, d', g', src')"
  shows "if r = None then src' = [] else length src' < length src"
proof (cases "src = []")
  case True
  then show ?thesis using assms by (simp add: decode_eof_def)
next
  case False
  obtain q d1 g1 src1 where step: "decode_step parse True d g src = (q, d1, g1, src1)" by (metis prod.exhaust)
  then obtain q' where q: "q = Inr q'" using assms False by (cases q) (auto simp: decode_eof_def)
  note shrinks = decode_step_shrinks[OF step[unfolded q]]
  show ?thesis
  proof (cases q')
    case None
    then show ?thesis using assms False step q by (auto simp: decode_eof_def split: if_splits prod.splits sum.splits)
  next
    case (Some v)
    then show ?thesis using assms False step q shrinks by (auto simp: decode_eof_def)
  qed
qed

lemma decode_eof_progress_witness:
  "\<exists>r d' g' src'. decode_eof (\<lambda>g s. (Inr s, g :: unit)) (decoder_with_config 9) () ''a'' = (Inr r, d', g', src')
     \<and> (if r = None then src' = [] else length src' < length ''a'')"
proof -
  have "decode_eof (\<lambda>g s. (Inr s, g :: unit)) (decoder_with_config 9) () ''a''
      = (Inr (Some ''a''), decoder_with_config 9, (), [])" by code_simp
  from decode_eof_progress[OF this] this show ?thesis by (intro exI conjI)
qed

end
