(* ===== verification/Recovery.thy ===== *)
theory Recovery
  imports Doc_Boundary Config
begin

text \<open>
  Error-tolerant parsing (\<open>recovery.rs\<close>): each document of a stream is parsed strictly, then with the
  last of duplicate keys, then by its longest prefix of lines that parses.  \<open>from_str_with_config\<close> is a
  parameter: \<open>parse\<close> under a configuration, and \<open>strict\<close> under the base configuration with the stream's
  shared tally, whose state it threads.
\<close>

section \<open>Configuration and result\<close>

text \<open>The fields of \<open>ParserConfig\<close> that recovery itself reads; the others are the record's extension.\<close>

record parser_limits =
  pl_max_stream_bytes :: nat
  pl_max_documents :: nat
  pl_duplicate_key_policy :: duplicate_key_policy

record 'c lenient_config =
  lc_max_errors :: nat
  lc_recover_duplicate_keys :: bool
  lc_line_truncation :: bool
  lc_base_config :: "'c parser_limits_scheme"
  lc_truncation_event_budget :: nat

definition lenient_default :: "'c parser_limits_scheme \<Rightarrow> 'c lenient_config" where
  "lenient_default base =
     \<lparr>lc_max_errors = 100, lc_recover_duplicate_keys = True, lc_line_truncation = True, lc_base_config = base,
      lc_truncation_event_budget = 1024 * 1024\<rparr>"

record parse_result =
  pr_value :: "value"
  pr_errors :: "error list"
  pr_is_complete :: bool

type_synonym 'c parse_fn = "'c parser_limits_scheme \<Rightarrow> string \<Rightarrow> (error, value) res"
type_synonym 'g strict_fn = "'g \<Rightarrow> string \<Rightarrow> (error, value) res \<times> 'g"

section \<open>One document\<close>

datatype truncation_outcome = Recovered "value" | Exhausted "error option"

fun truncation_loop :: "(string \<Rightarrow> (error, value) res) \<Rightarrow> string \<Rightarrow> nat \<Rightarrow> error option \<Rightarrow> nat list \<Rightarrow> truncation_outcome" where
  "truncation_loop parse input budget last_err [] = Exhausted last_err"
| "truncation_loop parse input budget last_err (stop # ends) =
     (let candidate = take stop input in
      if trim candidate = [] then truncation_loop parse input budget last_err ends
      else if length candidate > budget then Exhausted last_err
      else case parse candidate of
             Inr v \<Rightarrow> Recovered v
           | Inl e \<Rightarrow> truncation_loop parse input (budget - length candidate) (Some e) ends)"

definition line_boundaries :: "string \<Rightarrow> nat list" where
  "line_boundaries input =
     (let boundaries = filter (\<lambda>i. input ! i = CHR 0x0A) [0..<length input]
      in if boundaries \<noteq> [] \<and> last boundaries = length input then boundaries else boundaries @ [length input])"

definition try_line_truncation :: "(string \<Rightarrow> (error, value) res) \<Rightarrow> string \<Rightarrow> nat \<Rightarrow> truncation_outcome" where
  "try_line_truncation parse input event_budget =
     truncation_loop parse input event_budget None (rev (line_boundaries input))"

text \<open>The second pass: the value it found, or the errors so far with the configuration of the third.\<close>

definition duplicate_pass ::
  "'c parse_fn \<Rightarrow> 'c lenient_config \<Rightarrow> string \<Rightarrow> nat \<Rightarrow> error list \<Rightarrow> value + error list \<times> 'c parser_limits_scheme" where
  "duplicate_pass parse cfg input budget errors =
     (if lc_recover_duplicate_keys cfg \<and> pl_duplicate_key_policy (lc_base_config cfg) \<noteq> DuplicateLast
         \<and> length errors < budget
      then let cfg2 = (lc_base_config cfg)\<lparr>pl_duplicate_key_policy := DuplicateLast\<rparr>
           in case parse cfg2 input of Inr v \<Rightarrow> Inl v | Inl e \<Rightarrow> Inr (errors @ [e], cfg2)
      else Inr (errors, lc_base_config cfg))"

definition truncation_pass ::
  "'c parse_fn \<Rightarrow> 'c lenient_config \<Rightarrow> string \<Rightarrow> nat \<Rightarrow> error list \<Rightarrow> 'c parser_limits_scheme \<Rightarrow> value \<times> error list" where
  "truncation_pass parse cfg input budget errors pass3_cfg =
     (if lc_line_truncation cfg \<and> length errors < budget
      then case try_line_truncation (parse pass3_cfg) input (lc_truncation_event_budget cfg) of
             Recovered v \<Rightarrow> (v, errors)
           | Exhausted (Some e) \<Rightarrow> (VNull, if length errors < budget then errors @ [e] else errors)
           | Exhausted None \<Rightarrow> (VNull, errors)
      else (VNull, errors))"

definition recover_one ::
  "'c parse_fn \<Rightarrow> 'g strict_fn \<Rightarrow> 'c lenient_config \<Rightarrow> 'g \<Rightarrow> string \<Rightarrow> nat \<Rightarrow> (value \<times> error list) \<times> 'g" where
  "recover_one parse strict cfg g input budget =
     (if budget = 0 then ((VNull, []), g)
      else case strict g input of
             (Inr v, g) \<Rightarrow> ((v, []), g)
           | (Inl strict_err, g) \<Rightarrow>
               (case duplicate_pass parse cfg input budget [strict_err] of
                  Inl v \<Rightarrow> ((v, [strict_err]), g)
                | Inr (errors, pass3_cfg) \<Rightarrow> (truncation_pass parse cfg input budget errors pass3_cfg, g)))"

section \<open>A stream\<close>

text \<open>The loop over the documents: their values, with \<open>null\<close> for those after the budget, and the errors.\<close>

fun recover_documents ::
  "'c parse_fn \<Rightarrow> 'g strict_fn \<Rightarrow> 'c lenient_config \<Rightarrow> 'g \<Rightarrow> nat \<Rightarrow> bool \<Rightarrow> (error, string) res list \<Rightarrow> value list \<times> error list" where
  "recover_documents parse strict cfg g budget exhausted [] = ([], [])"
| "recover_documents parse strict cfg g budget exhausted (Inl e # docs) = ([VNull], [e])"
| "recover_documents parse strict cfg g budget exhausted (Inr doc # docs) =
     (if exhausted
      then (case recover_documents parse strict cfg g budget exhausted docs of (vs, es) \<Rightarrow> (VNull # vs, es))
      else case recover_one parse strict cfg g doc budget of
             ((v, doc_errors), g) \<Rightarrow>
               let budget = budget - length doc_errors
               in case recover_documents parse strict cfg g budget (budget = 0) docs of
                    (vs, es) \<Rightarrow> (v # vs, doc_errors @ es))"

definition failed_result :: "error \<Rightarrow> parse_result" where
  "failed_result e = \<lparr>pr_value = VNull, pr_errors = [e], pr_is_complete = False\<rparr>"

definition parse_lenient_with ::
  "'c parse_fn \<Rightarrow> 'g strict_fn \<Rightarrow> 'g \<Rightarrow> string \<Rightarrow> 'c lenient_config \<Rightarrow> parse_result" where
  "parse_lenient_with parse strict g input cfg =
     (let input = drop (strip_bom input) input; base = lc_base_config cfg in
      if length input > pl_max_stream_bytes base
      then failed_result (Parse (''stream exceeds max_stream_bytes of '' @ show_nat (pl_max_stream_bytes base) @ '' bytes''))
      else case validate_document_budget input (pl_max_documents base) of
             Inl e \<Rightarrow> failed_result e
           | Inr _ \<Rightarrow>
               (case next_document (document_stream_new input (pl_max_documents base)) of
                  (None, docs) \<Rightarrow> \<lparr>pr_value = VNull, pr_errors = [], pr_is_complete = True\<rparr>
                | (Some (Inl e), docs) \<Rightarrow> failed_result e
                | (Some (Inr doc1), docs) \<Rightarrow>
                    (case next_document docs of
                       (Some (Inl e), docs) \<Rightarrow> failed_result e
                     | (None, docs) \<Rightarrow>
                         (case recover_one parse strict cfg g doc1 (lc_max_errors cfg) of
                            ((v, errors), g) \<Rightarrow> \<lparr>pr_value = v, pr_errors = errors, pr_is_complete = (errors = [])\<rparr>)
                     | (Some (Inr doc2), docs) \<Rightarrow>
                         (case recover_documents parse strict cfg g (lc_max_errors cfg) False
                                 (Inr doc1 # Inr doc2 # documents docs) of
                            (vs, errors) \<Rightarrow>
                              \<lparr>pr_value = VSequence vs, pr_errors = errors, pr_is_complete = (errors = [])\<rparr>))))"

section \<open>Facts\<close>

lemma truncation_pass_errors: "length errors \<le> budget \<Longrightarrow> length (snd (truncation_pass parse cfg input budget errors c)) \<le> budget"
  by (auto simp: truncation_pass_def split: truncation_outcome.splits option.splits)

lemma recover_one_errors: "length (snd (fst (recover_one parse strict cfg g input budget))) \<le> budget"
proof -
  have "length errors \<le> budget" if "duplicate_pass parse cfg input budget [e] = Inr (errors, c)" "0 < budget" for e errors c
    using that by (auto simp: duplicate_pass_def Let_def split: if_splits sum.splits)
  then show ?thesis
    by (auto simp: recover_one_def intro: truncation_pass_errors split: prod.splits sum.splits)
qed

lemma recover_documents_errors:
  "list_all (\<lambda>r. \<not> isl r) docs \<Longrightarrow> length (snd (recover_documents parse strict cfg g budget exhausted docs)) \<le> budget
    \<and> length (fst (recover_documents parse strict cfg g budget exhausted docs)) = length docs"
proof (induction docs arbitrary: g budget exhausted)
  case (Cons r docs)
  then obtain doc where r: "r = Inr doc" by (cases r) auto
  obtain v es g' where one: "recover_one parse strict cfg g doc budget = ((v, es), g')" by (metis prod.exhaust)
  then have "length es \<le> budget" using recover_one_errors[of parse strict cfg g doc budget] by simp
  then show ?case using Cons.IH[of g budget True] Cons.IH[of g' "budget - length es" "budget - length es = 0"] Cons.prems one r
    by (auto simp: Let_def split: prod.splits)
qed simp

lemma validate_try: "try_fold (\<lambda>_ r. and_then r (\<lambda>_. Inr ())) () rs =
  (case collect rs of Inl e \<Rightarrow> Inl e | Inr xs \<Rightarrow> Inr ())"
  by (induction rs rule: collect.induct) (auto split: sum.splits)

lemma validate_is_split:
  "validate_document_budget input m = (case split_documents_checked input m of Inl e \<Rightarrow> Inl e | Inr docs \<Rightarrow> Inr ())"
  by (simp add: validate_document_budget_def split_documents_checked_def validate_try)

lemma collect_Inr: "collect rs = Inr xs \<longleftrightarrow> rs = map Inr xs"
proof (induction rs arbitrary: xs rule: collect.induct)
  case (3 x rs)
  show ?case using "3.IH" by (cases xs) (auto simp: res_simps)
qed auto

lemma documents_next: "documents s = (case next_document s of (Some r, t) \<Rightarrow> r # documents t | (None, t) \<Rightarrow> [])"
  by (rule documents.simps)

text \<open>Recovery by the list of documents that the checked split gives.\<close>

lemma lenient_by_documents:
  assumes "drop (strip_bom input) input = text" and "length text \<le> pl_max_stream_bytes (lc_base_config cfg)"
    and "split_documents_checked text (pl_max_documents (lc_base_config cfg)) = Inr docs"
  shows "parse_lenient_with parse strict g input cfg =
    (case docs of
       [] \<Rightarrow> \<lparr>pr_value = VNull, pr_errors = [], pr_is_complete = True\<rparr>
     | [d] \<Rightarrow> (case fst (recover_one parse strict cfg g d (lc_max_errors cfg)) of (v, es) \<Rightarrow>
                 \<lparr>pr_value = v, pr_errors = es, pr_is_complete = (es = [])\<rparr>)
     | _ \<Rightarrow> (case recover_documents parse strict cfg g (lc_max_errors cfg) False (map Inr docs) of (vs, es) \<Rightarrow>
              \<lparr>pr_value = VSequence vs, pr_errors = es, pr_is_complete = (es = [])\<rparr>))"
proof -
  let ?s = "document_stream_new text (pl_max_documents (lc_base_config cfg))"
  have all: "documents ?s = map Inr docs" using assms(3) by (simp add: split_documents_checked_def collect_Inr)
  have v: "validate_document_budget text (pl_max_documents (lc_base_config cfg)) = Inr ()"
    using assms(3) by (simp add: validate_is_split)
  obtain r t where n: "next_document ?s = (r, t)" by fastforce
  obtain r' t' where n': "next_document t = (r', t')" by fastforce
  have d: "map Inr docs = (case r of Some r \<Rightarrow> r # documents t | None \<Rightarrow> [])"
    "documents t = (case r' of Some r \<Rightarrow> r # documents t' | None \<Rightarrow> [])"
    using all documents_next[of ?s] documents_next[of t] n n' by (simp_all split: option.splits)
  show ?thesis using assms(1,2) v n n' d
    by (auto simp: parse_lenient_with_def Let_def Cons_eq_map_conv split: option.splits list.splits prod.splits)
qed

section \<open>Properties\<close>

fun strict_all :: "'g strict_fn \<Rightarrow> 'g \<Rightarrow> string list \<Rightarrow> (error, value list) res" where
  "strict_all strict g [] = Inr []"
| "strict_all strict g (d # ds) =
     (case strict g d of
        (Inl e, g) \<Rightarrow> Inl e
      | (Inr v, g) \<Rightarrow> and_then (strict_all strict g ds) (\<lambda>vs. Inr (v # vs)))"

lemma recover_documents_strict:
  "strict_all strict g docs = Inr vs \<Longrightarrow> 0 < budget \<Longrightarrow>
   recover_documents parse strict cfg g budget False (map Inr docs) = (vs, [])"
proof (induction docs arbitrary: g vs)
  case (Cons d docs)
  obtain v g' ws where v: "strict g d = (Inr v, g')" "strict_all strict g' docs = Inr ws" "vs = v # ws"
    using Cons.prems(1) by (auto simp: res_simps split: prod.splits sum.splits)
  then have "recover_one parse strict cfg g d budget = ((v, []), g')" using Cons.prems(2) by (simp add: recover_one_def)
  then show ?case using Cons.IH[OF v(2) Cons.prems(2)] Cons.prems(2) v(3) by simp
qed simp

text \<open>
  C29. Recovery changes nothing for a stream that parses: its values are those of the strict parses of
  its documents in order, with no error, and it is reported complete.
\<close>

theorem lenient_agrees_with_strict:
  assumes "drop (strip_bom input) input = text" and "length text \<le> pl_max_stream_bytes (lc_base_config cfg)"
    and "split_documents_checked text (pl_max_documents (lc_base_config cfg)) = Inr docs"
    and "strict_all strict g docs = Inr vs" and "0 < lc_max_errors cfg"
  shows "parse_lenient_with parse strict g input cfg =
    \<lparr>pr_value = (case vs of [] \<Rightarrow> VNull | [v] \<Rightarrow> v | _ \<Rightarrow> VSequence vs), pr_errors = [], pr_is_complete = True\<rparr>"
proof -
  have len: "length vs = length docs" using assms(4)
    by (induction docs arbitrary: g vs) (auto simp: res_simps split: prod.splits sum.splits)
  show ?thesis
  proof (cases "\<exists>d. docs = [d]")
    case True
    then obtain d v g' where "docs = [d]" "strict g d = (Inr v, g')" "vs = [v]"
      using assms(4) by (auto split: prod.splits sum.splits)
    then show ?thesis using assms(5) by (simp add: lenient_by_documents[OF assms(1-3)] recover_one_def)
  next
    case False
    then show ?thesis using recover_documents_strict[OF assms(4,5), of parse cfg] len
      by (auto simp: lenient_by_documents[OF assms(1-3)] split: list.splits)
  qed
qed

text \<open>
  C31. Whatever fails, recovery stays within its budget of errors, is complete exactly when it has none,
  and in a stream of several documents has one value for each, in their places.
\<close>

theorem lenient_within_error_budget:
  assumes "drop (strip_bom input) input = text" and "length text \<le> pl_max_stream_bytes (lc_base_config cfg)"
    and "split_documents_checked text (pl_max_documents (lc_base_config cfg)) = Inr docs"
    and "parse_lenient_with parse strict g input cfg = r"
  shows "length (pr_errors r) \<le> lc_max_errors cfg \<and> (pr_is_complete r \<longleftrightarrow> pr_errors r = [])
    \<and> (length docs \<ge> 2 \<longrightarrow> (\<exists>vs. pr_value r = VSequence vs \<and> length vs = length docs))"
proof -
  have ok: "list_all (\<lambda>r. \<not> isl r) (map Inr docs)" by (simp add: list_all_iff)
  show ?thesis
    using recover_documents_errors[OF ok, of parse strict cfg g "lc_max_errors cfg" False]
      recover_one_errors[of parse strict cfg g "hd docs" "lc_max_errors cfg"]
    unfolding assms(4)[symmetric] lenient_by_documents[OF assms(1-3)]
    by (auto split: list.splits prod.splits)
qed

lemma truncation_loop_salvage:
  "truncation_loop parse input budget err ends = Recovered v \<Longrightarrow>
   \<exists>before stop after. ends = before @ stop # after \<and> parse (take stop input) = Inr v
     \<and> (\<forall>c \<in> set before. trim (take c input) = [] \<or> isl (parse (take c input)))
     \<and> sum_list (map (\<lambda>c. if trim (take c input) = [] then 0 else length (take c input)) (before @ [stop])) \<le> budget"
proof (induction parse input budget err ends rule: truncation_loop.induct)
  case (2 parse input budget err stop ends)
  let ?c = "take stop input"
  consider (blank) "trim ?c = []" | (over) "trim ?c \<noteq> []" "length ?c > budget"
    | (ok) w where "trim ?c \<noteq> []" "\<not> length ?c > budget" "parse ?c = Inr w"
    | (fails) e where "trim ?c \<noteq> []" "\<not> length ?c > budget" "parse ?c = Inl e"
    by (cases "parse ?c") auto
  then show ?case
  proof cases
    case blank
    with "2.IH"(1)[OF refl blank] "2.prems" obtain before s after where "ends = before @ s # after" "parse (take s input) = Inr v"
      "\<forall>c \<in> set before. trim (take c input) = [] \<or> isl (parse (take c input))"
      "sum_list (map (\<lambda>c. if trim (take c input) = [] then 0 else length (take c input)) (before @ [s])) \<le> budget" by auto
    then have "stop # ends = (stop # before) @ s # after \<and> parse (take s input) = Inr v
        \<and> (\<forall>c \<in> set (stop # before). trim (take c input) = [] \<or> isl (parse (take c input)))
        \<and> sum_list (map (\<lambda>c. if trim (take c input) = [] then 0 else length (take c input)) ((stop # before) @ [s])) \<le> budget"
      using blank by auto
    then show ?thesis by blast
  next
    case over
    then show ?thesis using "2.prems" by (simp add: Let_def)
  next
    case ok
    then have "w = v" using "2.prems" by (simp add: Let_def del: length_take)
    then have "stop # ends = ([]) @ stop # ends \<and> parse (take stop input) = Inr v
        \<and> (\<forall>c \<in> set ([]). trim (take c input) = [] \<or> isl (parse (take c input)))
        \<and> sum_list (map (\<lambda>c. if trim (take c input) = [] then 0 else length (take c input)) (([]) @ [stop])) \<le> budget"
      using ok by auto
    then show ?thesis by blast
  next
    case fails
    with "2.IH"(2)[OF refl fails] "2.prems" obtain before s after where "ends = before @ s # after" "parse (take s input) = Inr v"
      "\<forall>c \<in> set before. trim (take c input) = [] \<or> isl (parse (take c input))"
      "sum_list (map (\<lambda>c. if trim (take c input) = [] then 0 else length (take c input)) (before @ [s])) \<le> budget - length ?c"
      by (auto simp: Let_def)
    then have "stop # ends = (stop # before) @ s # after \<and> parse (take s input) = Inr v
        \<and> (\<forall>c \<in> set (stop # before). trim (take c input) = [] \<or> isl (parse (take c input)))
        \<and> sum_list (map (\<lambda>c. if trim (take c input) = [] then 0 else length (take c input)) ((stop # before) @ [s])) \<le> budget"
      using fails by auto
    then show ?thesis by blast
  qed
qed simp

lemma line_boundaries_sorted: "sorted_wrt (<) (line_boundaries input)"
proof -
  have "sorted_wrt (<) (filter (\<lambda>i. input ! i = CHR 0x0A) [0..<length input])"
    by (simp add: strict_sorted_iff sorted_wrt_filter)
  then show ?thesis by (auto simp: line_boundaries_def Let_def sorted_wrt_append)
qed

lemma line_boundaries_iff: "c \<in> set (line_boundaries input) \<longleftrightarrow> c = length input \<or> (c < length input \<and> input ! c = CHR 0x0A)"
  using last_in_set[of "filter (\<lambda>i. input ! i = CHR 0x0A) [0..<length input]"]
  by (auto simp: line_boundaries_def Let_def)

text \<open>
  C30. A value salvaged by truncation is that of the longest prefix of whole lines that parses: every
  longer one was blank or failed.
\<close>

theorem salvage_is_longest_prefix:
  assumes "try_line_truncation parse input event_budget = Recovered v"
  shows "\<exists>stop. parse (take stop input) = Inr v \<and> (stop = length input \<or> input ! stop = CHR 0x0A)
    \<and> (\<forall>c. stop < c \<and> (c = length input \<or> (c < length input \<and> input ! c = CHR 0x0A)) \<longrightarrow>
          trim (take c input) = [] \<or> isl (parse (take c input)))"
proof -
  obtain before stop after where e: "rev (line_boundaries input) = before @ stop # after" "parse (take stop input) = Inr v"
      "\<forall>c \<in> set before. trim (take c input) = [] \<or> isl (parse (take c input))"
    using truncation_loop_salvage[OF assms[unfolded try_line_truncation_def]] by blast
  have lb: "line_boundaries input = rev after @ stop # rev before" using arg_cong[OF e(1), of rev] by simp
  have "c \<in> set before" if "stop < c" "c \<in> set (line_boundaries input)" for c
    using that line_boundaries_sorted[of input] unfolding lb by (auto simp: sorted_wrt_append)
  moreover have "stop \<in> set (line_boundaries input)" using lb by simp
  ultimately show ?thesis using e(2,3) by (auto simp: line_boundaries_iff intro!: exI[of _ stop])
qed

text \<open>With no error allowed at all, a document that does not parse is reported as complete.\<close>

lemma zero_errors_reported_complete:
  assumes "drop (strip_bom input) input = text" and "length text \<le> pl_max_stream_bytes (lc_base_config cfg)"
    and "split_documents_checked text (pl_max_documents (lc_base_config cfg)) = Inr [d]" and "lc_max_errors cfg = 0"
  shows "parse_lenient_with parse strict g input cfg = \<lparr>pr_value = VNull, pr_errors = [], pr_is_complete = True\<rparr>"
  by (simp add: lenient_by_documents[OF assms(1-3)] recover_one_def assms(4))

section \<open>Witnesses\<close>

text \<open>A parser that takes the text without a closing brace for a string.\<close>

definition sample_parse :: "string \<Rightarrow> (error, value) res" where
  "sample_parse s = (if CHR ''}'' \<in> set s then Inl EndOfStream else Inr (VString s))"

definition sample_limits :: parser_limits where
  "sample_limits = \<lparr>pl_max_stream_bytes = 100, pl_max_documents = 5, pl_duplicate_key_policy = DuplicateLast\<rparr>"

lemma sample_split: "split_documents_checked ''a'' 5 = Inr [''a'']"
proof -
  have "split_documents ''a'' = [''a'']" unfolding split_documents_slices[of _ 0] by code_simp
  then show ?thesis by (simp add: split_checked_within_budget usize_max_def)
qed

lemma lenient_agrees_with_strict_witness:
  "parse_lenient_with (\<lambda>c. sample_parse) (\<lambda>g s. (sample_parse s, g)) () ''a'' (lenient_default sample_limits)
   = \<lparr>pr_value = VString ''a'', pr_errors = [], pr_is_complete = True\<rparr>"
  using lenient_agrees_with_strict[of "''a''" "''a''" "lenient_default sample_limits" "[''a'']" "\<lambda>g s. (sample_parse s, g)" "()"
      "[VString ''a'']" "\<lambda>c. sample_parse"] sample_split
  by (simp add: strip_bom_def starts_with_def bom_def lenient_default_def sample_limits_def sample_parse_def)

lemma lenient_within_error_budget_witness:
  "length (pr_errors (parse_lenient_with (\<lambda>c. sample_parse) (\<lambda>g s. (sample_parse s, g)) () ''a'' (lenient_default sample_limits))) \<le> 100"
  using lenient_within_error_budget[of "''a''" "''a''" "lenient_default sample_limits" "[''a'']" "\<lambda>c. sample_parse"
      "\<lambda>g s. (sample_parse s, g)" "()", OF _ _ _ refl] sample_split
  by (simp add: strip_bom_def starts_with_def bom_def lenient_default_def sample_limits_def)

lemma salvage_is_longest_prefix_witness:
  "\<exists>stop. sample_parse (take stop (''a'' @ [CHR 0x0A] @ ''}'')) = Inr (VString ''a'')"
proof -
  have "try_line_truncation sample_parse (''a'' @ [CHR 0x0A] @ ''}'') 100 = Recovered (VString ''a'')" by code_simp
  from salvage_is_longest_prefix[OF this] show ?thesis by blast
qed

end
