(* ===== verification/Plain_Style.thy ===== *)
theory Plain_Style
  imports Serializer
begin

text \<open>
  The emitter writes a string plain only when no reading of the plain scalar changes it: its test for
  words and numbers in \<open>ser.rs\<close> against the resolution of \<open>streaming.rs\<close>.
\<close>

section \<open>Texts that read as numbers\<close>

definition reads_as_number :: "string \<Rightarrow> bool" where
  "reads_as_number s \<longleftrightarrow>
     parse_integer s True \<noteq> None \<or> parse_sexagesimal_int s \<noteq> None \<or> parse_sexagesimal_float s \<noteq> None
     \<or> parse_plain_float s \<noteq> None"

lemma reads_as_number_non_string: "reads_as_number s \<Longrightarrow> resolves_as_non_string s"
  by (auto simp: reads_as_number_def resolves_as_non_string_def resolve_plain_ext_def split: option.splits)

text \<open>What a resolution other than the string comes from, under any flags but the legacy booleans.\<close>

lemma resolution_cases:
  assumes "resolve_plain_ext s strict False raw octal sexagesimal u64 \<noteq> RStr s"
  shows "s = [] \<or> is_reserved_word s \<or> s \<in> set special_floats \<or> parse_integer s octal \<noteq> None
    \<or> parse_sexagesimal_int s \<noteq> None \<or> parse_sexagesimal_float s \<noteq> None \<or> parse_plain_float s \<noteq> None"
  using assms
  by (auto simp: resolve_plain_ext_def is_reserved_word_def reserved_words_def special_floats_def
      split: option.splits if_splits)

section \<open>Signs\<close>

lemma sign_not_digit [simp]: "is_sign c \<Longrightarrow> \<not> is_ascii_digit c" "is_sign c \<Longrightarrow> c \<noteq> CHR ''.''"
  by (auto simp: is_sign_def is_ascii_digit_def byte_def)

lemma opens_number_unsigned: "opens_number u \<Longrightarrow> dropWhile is_sign u = u" "opens_number u \<Longrightarrow> strip_sign u = (False, u)"
  by (cases u; auto simp: opens_number_def strip_sign_def is_sign_def is_ascii_digit_def byte_def)+

lemma unsigned_of_strip: "strip_sign s = (neg, u) \<Longrightarrow> opens_number u \<Longrightarrow> dropWhile is_sign s = u"
  using opens_number_unsigned(1)
  by (cases s) (auto simp: strip_sign_def is_sign_def split: if_splits)

lemma digits_open_number: "all_digits u \<Longrightarrow> opens_number u"
  by (cases u) (auto simp: all_digits_def opens_number_def)

section \<open>Floats\<close>

lemma parse_decimal_opens: "parse_decimal u \<noteq> None \<Longrightarrow> opens_number u"
  by (cases u) (auto simp: parse_decimal_def opens_number_def Let_def takeWhile_eq_Nil_iff hd_conv_nth
      split: if_splits)

lemma not_word_digits:
  assumes "opens_number u"
  shows "\<not> eq_ignore_ascii_case u ''nan''" and "\<not> eq_ignore_ascii_case u ''inf''"
    and "\<not> eq_ignore_ascii_case u ''infinity''"
proof -
  obtain c t where u: "u = c # t" "is_ascii_digit c \<or> c = CHR ''.''" using assms by (cases u) (auto simp: opens_number_def)
  then have "to_lower c = c" by (auto simp: to_lower_def is_ascii_upper_def is_ascii_digit_def byte_def)
  moreover have "c \<noteq> CHR ''n''" "c \<noteq> CHR ''i''" using u(2) by (auto simp: is_ascii_digit_def byte_def)
  moreover have "to_lower CHR ''n'' = CHR ''n''" "to_lower CHR ''i'' = CHR ''i''" by code_simp+
  ultimately show "\<not> eq_ignore_ascii_case u ''nan''" "\<not> eq_ignore_ascii_case u ''inf''"
    "\<not> eq_ignore_ascii_case u ''infinity''" using u(1) by (simp_all add: eq_ignore_ascii_case_def)
qed

lemma plain_float_parts:
  "parse_plain_float s \<noteq> None \<longleftrightarrow>
     (case strip_sign s of (neg, u) \<Rightarrow> parse_decimal u \<noteq> None
        \<and> \<not> eq_ignore_ascii_case u ''nan'' \<and> \<not> eq_ignore_ascii_case u ''inf'' \<and> \<not> eq_ignore_ascii_case u ''infinity'')"
  by (auto simp: parse_plain_float_def f64_parse_def Let_def split: prod.splits)

lemma plain_float_unsigned:
  assumes "parse_plain_float s \<noteq> None"
  obtains u where "dropWhile is_sign s = u" and "opens_number u" and "parse_plain_float u \<noteq> None"
proof -
  obtain neg u where u: "strip_sign s = (neg, u)" by fastforce
  then have d: "parse_decimal u \<noteq> None" using assms plain_float_parts by auto
  then have o: "opens_number u" by (rule parse_decimal_opens)
  show thesis
  proof (rule that[of u])
    show "parse_plain_float u \<noteq> None"
      unfolding plain_float_parts using o d by (simp add: opens_number_unsigned not_word_digits)
  qed (use unsigned_of_strip[OF u o] o in simp_all)
qed

lemma digits_plain_float:
  assumes "all_digits u" shows "parse_plain_float u \<noteq> None"
proof -
  have "takeWhile is_ascii_digit u = u" "dropWhile is_ascii_digit u = []" "u \<noteq> []"
    using assms by (auto simp: all_digits_def)
  then have "parse_decimal u \<noteq> None" unfolding parse_decimal_def parse_exponent_def Let_def by (simp only:) simp
  then show ?thesis unfolding plain_float_parts using digits_open_number[OF assms]
    by (simp add: opens_number_unsigned not_word_digits)
qed

section \<open>Integers\<close>

lemma prefix_opens: "strip_prefix (CHR ''0'' # p) s = Some t \<Longrightarrow> opens_number s"
  by (cases s) (auto simp: opens_number_def is_ascii_digit_def byte_def split: if_splits)

lemma integer_unsigned:
  assumes "parse_integer s octal \<noteq> None"
  obtains u where "dropWhile is_sign s = u" and "opens_number u" and "reads_as_number u"
proof (cases "parse_integer s True \<noteq> None \<and> opens_number s")
  case True
  then show thesis using that opens_number_unsigned(1) by (simp add: reads_as_number_def)
next
  case False
  have no: "strip_prefix ''0x'' s = None" "strip_prefix ''0o'' s = None"
    using False assms prefix_opens by (auto simp: parse_integer_def split: if_splits option.splits)
  let ?u = "if hd s = CHR ''+'' \<or> hd s = CHR ''-'' then tl s else s"
  have octal: False if "2 \<le> length s" "hd s = CHR ''0''" "list_all octal_digit (tl s)" "parse_radix_integer (tl s) 8 \<noteq> None"
  proof -
    have "opens_number s" using that(1,2) by (cases s) (auto simp: opens_number_def is_ascii_digit_def byte_def)
    moreover from this have "s \<noteq> []" by (auto simp: opens_number_def)
    ultimately show False using False no that by (simp add: parse_integer_def)
  qed
  have d: "all_digits ?u"
    using assms no octal by (auto simp: parse_integer_def all_digits_def list_all_iff Let_def split: if_splits)
  have "dropWhile is_sign s = ?u"
    using unsigned_of_strip[of s "hd s = CHR ''-''" ?u] digits_open_number[OF d] d
    by (cases s) (auto simp: strip_sign_def all_digits_def)
  then show thesis using that digits_open_number[OF d] digits_plain_float[OF d] by (simp add: reads_as_number_def)
qed

section \<open>Sexagesimals\<close>

lemma split_first: "split_at_char d s \<noteq> [] \<and> hd (split_at_char d s) = takeWhile (\<lambda>c. c \<noteq> d) s"
  by (induction s) (auto split: list.splits)

lemma first_part_opens:
  assumes "split_at_char d s = p # ps" and "p \<noteq> []" and "list_all is_ascii_digit p"
  shows "opens_number s"
proof -
  have "p = takeWhile (\<lambda>c. c \<noteq> d) s" using split_first[of d s] assms(1) by simp
  then show ?thesis using assms(2,3) by (cases s) (auto simp: opens_number_def split: if_splits)
qed

lemma checked_i64_Some: "checked_i64 m = Some n \<Longrightarrow> n = m \<and> checked_i64 n = Some n"
  by (auto simp: checked_i64_def split: if_splits)

lemma sexagesimal_int_fits:
  "sexagesimal_int_parts b acc parts = Some n \<Longrightarrow> checked_i64 acc = Some acc \<Longrightarrow> checked_i64 n = Some n"
proof (induction b acc parts rule: sexagesimal_int_parts.induct)
  case (2 b acc part parts)
  then obtain m t u where m: "i64_from_str_radix 10 part = Some m" "checked_i64 (acc * 60) = Some t" "checked_i64 (t + m) = Some u"
      "sexagesimal_int_parts False u parts = Some n" "\<not> (part = [] \<or> \<not> list_all is_ascii_digit part)" "\<not> (\<not> b \<and> m \<ge> 60)"
    by (auto split: if_splits option.splits)
  show ?case by (rule "2.IH"[OF m(5,1,6,2,3,4)]) (use checked_i64_Some[OF m(3)] in blast)
qed simp

lemma sexagesimal_int_unsigned:
  assumes "parse_sexagesimal_int s \<noteq> None"
  obtains u where "dropWhile is_sign s = u" and "opens_number u" and "parse_sexagesimal_int u \<noteq> None"
proof -
  obtain neg u where u: "strip_sign s = (neg, u)" by fastforce
  obtain p ps where p: "split_at_char CHR '':'' u = p # ps" using split_first by (cases "split_at_char CHR '':'' u") auto
  obtain n where n: "sexagesimal_int_parts True 0 (p # ps) = Some n" "CHR '':'' \<in> set u" "ps \<noteq> []"
    using assms u p by (auto simp: parse_sexagesimal_int_def Let_def simp del: sexagesimal_int_parts.simps split: if_splits option.splits)
  have o: "opens_number u" using first_part_opens[OF p] n(1) by (auto split: if_splits)
  have "checked_i64 n = Some n" using sexagesimal_int_fits[OF n(1)] by (simp add: checked_i64_def i64_min_def i64_max_def)
  then have "parse_sexagesimal_int u \<noteq> None"
    using n p by (simp add: parse_sexagesimal_int_def opens_number_unsigned(2)[OF o] Let_def del: sexagesimal_int_parts.simps)
  then show thesis using that o unsigned_of_strip[OF u] by simp
qed

lemma sexagesimal_float_unsigned:
  assumes "parse_sexagesimal_float s \<noteq> None"
  obtains u where "dropWhile is_sign s = u" and "opens_number u" and "parse_sexagesimal_float u \<noteq> None"
proof -
  obtain neg u where u: "strip_sign s = (neg, u)" by fastforce
  obtain p ps where p: "split_at_char CHR '':'' u = p # ps" using split_first by (cases "split_at_char CHR '':'' u") auto
  have n: "sexagesimal_float_parts True 0 (p # ps) \<noteq> None" "CHR '':'' \<in> set u" "ps \<noteq> []"
    using assms u p by (auto simp: parse_sexagesimal_float_def Let_def simp del: sexagesimal_float_parts.simps split: if_splits)
  have o: "opens_number u" using first_part_opens[OF p] n(1,3) by (auto split: if_splits)
  have "parse_sexagesimal_float u \<noteq> None"
    using n p by (simp add: parse_sexagesimal_float_def opens_number_unsigned(2)[OF o] Let_def del: sexagesimal_float_parts.simps)
  then show thesis using that o unsigned_of_strip[OF u] by simp
qed

section \<open>The decision\<close>

text \<open>Where the resolution differs from the string, the emitter sees a word or a number.\<close>

lemma emitter_sees_it:
  assumes "resolve_plain_ext s strict False raw octal sexagesimal u64 \<noteq> RStr s"
  shows "s = [] \<or> is_reserved_word s \<or> looks_like_number s"
proof (cases "s = [] \<or> is_reserved_word s \<or> s \<in> set special_floats")
  case True
  then show ?thesis by (auto simp: looks_like_number_def)
next
  case False
  then consider "parse_integer s octal \<noteq> None" | "parse_sexagesimal_int s \<noteq> None" | "parse_sexagesimal_float s \<noteq> None"
    | "parse_plain_float s \<noteq> None" using resolution_cases[OF assms] by blast
  then obtain u where "dropWhile is_sign s = u" "opens_number u" "reads_as_number u"
    by cases (metis integer_unsigned sexagesimal_int_unsigned sexagesimal_float_unsigned plain_float_unsigned reads_as_number_def)+
  then show ?thesis using False reads_as_number_non_string by (simp add: looks_like_number_def Let_def)
qed

text \<open>
  C23. A string written plain loads back as itself, whatever the emitter's configuration: the loader
  resolves it to the string under every reader configuration without legacy booleans and legacy
  binary numbers (strict booleans, no schema, legacy octals, sexagesimals, leading-zero and overflow
  strings on or off), and so does the resolution the streaming reader uses, with 64-bit integers or
  without.  What the two excluded flags do is in \<open>legacy_boolean_written_plain\<close> and
  \<open>legacy_binary_written_plain\<close>.
\<close>

theorem plain_style_resolves_back:
  assumes "string_style s c = StylePlain"
  shows "resolve_plain_ext s strict False raw octal sexagesimal u64 = RStr s
    \<and> (\<forall>config. \<not> legacy_booleans config \<and> \<not> legacy_binary_numbers config \<longrightarrow>
         resolve_untagged_scalar s Plain config = VString s)"
proof -
  have "s \<noteq> [] \<and> \<not> is_reserved_word s \<and> \<not> looks_like_number s"
    using assms by (auto simp: string_style_def quoted_style_def is_simple_plain_def is_plain_safe_def split: if_splits)
  then have "resolve_plain_ext s strict False raw octal sexagesimal u64 = RStr s"
    for strict raw octal sexagesimal u64 using emitter_sees_it by blast
  then show ?thesis by (simp add: resolve_untagged_scalar_def)
qed

lemma plain_style_resolves_back_witness:
  "string_style ''v1.2'' (cx_new serializer_config_default) = StylePlain
   \<and> resolve_plain_ext ''v1.2'' False False False True True False = RStr ''v1.2''
   \<and> resolve_untagged_scalar ''v1.2'' Plain (default_config 40) = VString ''v1.2''"
proof -
  have s: "string_style ''v1.2'' (cx_new serializer_config_default) = StylePlain" by code_simp
  have "\<not> legacy_booleans (default_config 40) \<and> \<not> legacy_binary_numbers (default_config 40)"
    by (simp add: default_config_def)
  then show ?thesis using plain_style_resolves_back[OF s] s by blast
qed

text \<open>The cases it leaves out: a word that a reader with legacy booleans takes for a boolean, and a
  text that a loader with legacy binary numbers takes for an integer.\<close>

lemma legacy_boolean_written_plain:
  "string_style ''yes'' (cx_new serializer_config_default) = StylePlain
   \<and> resolve_plain_ext ''yes'' False True False False False False = RBool True"
  by code_simp

lemma legacy_binary_written_plain:
  "string_style ''0b101'' (cx_new serializer_config_default) = StylePlain
   \<and> resolve_untagged_scalar ''0b101'' Plain (default_config 40\<lparr>legacy_binary_numbers := True\<rparr>)
       = VNumber (Integer 5)"
proof -
  have "string_style ''0b101'' (cx_new serializer_config_default) = StylePlain" by code_simp
  moreover have "parse_legacy_binary ''0b101'' = Some 5" by code_simp
  ultimately show ?thesis by (simp add: resolve_untagged_scalar_def default_config_def)
qed

end
