(* ===== verification/Emit_Depth.thy ===== *)
theory Emit_Depth
  imports Serializer
begin

text \<open>The only failure of the emitter (\<open>ser.rs\<close>): a value nested deeper than its limit.\<close>

fun emit_height :: "value \<Rightarrow> nat" where
  "emit_height (VSequence xs) = Suc (max_of (map emit_height xs))"
| "emit_height (VMapping m) = Suc (max_of (map (\<lambda>(k, v). emit_height v) m))"
| "emit_height (VTagged t v) = Suc (emit_height v)"
| "emit_height _ = 0"

definition within :: "nat \<Rightarrow> nat \<Rightarrow> out \<Rightarrow> bool" where
  "within limit most r \<longleftrightarrow>
     (case r of Inr t \<Rightarrow> True | Inl e \<Rightarrow> (\<exists>d. e = RecursionLimitExceeded d \<and> limit < d \<and> d \<le> most))"

lemma within_Inr [simp]: "within l most (Inr t)"
  by (simp add: within_def)

lemma within_mono: "within l m r \<Longrightarrow> m \<le> n \<Longrightarrow> within l n r"
  by (auto simp: within_def split: sum.splits)

lemma within_if:
  "(b \<Longrightarrow> within l n x) \<Longrightarrow> (\<not> b \<Longrightarrow> within l n y) \<Longrightarrow> within l n (if b then x else y)"
  by simp

lemma within_and_then: "within l n r \<Longrightarrow> (\<And>t. r = Inr t \<Longrightarrow> within l n (f t)) \<Longrightarrow> within l n (and_then r f)"
  by (cases r) (auto simp: within_def)

abbreviation limit_of :: "cx \<Rightarrow> nat" where
  "limit_of c \<equiv> effective_max_depth (sr_max_depth c)"

lemma cx_flow_limit [simp]: "sr_max_depth (cx_flow c) = sr_max_depth c"
  by (simp add: cx_flow_def)

abbreviation list_height :: "value list \<Rightarrow> nat" where
  "list_height xs \<equiv> max_of (map emit_height xs)"

abbreviation map_height :: "mapping \<Rightarrow> nat" where
  "map_height m \<equiv> max_of (map (\<lambda>(k, v). emit_height v) m)"

lemma writers_within:
  shows "within (limit_of c) (depth + emit_height v) (write_value fmt out v indent is_root c depth)"
  and "within (limit_of c) (Suc (depth + emit_height v)) (write_user_tag fmt out t v indent c depth)"
  and "within (limit_of c) (depth + emit_height v) (write_internal_tag fmt out t v indent is_root c depth)"
  and "within (limit_of c) (depth + emit_height v) (write_flow_hinted fmt out t v c depth)"
  and "within (limit_of c) (Suc (depth + emit_height v)) (write_anchor_def fmt out t v indent c depth)"
  and "within (limit_of c) (Suc (depth + list_height seq)) (write_sequence fmt out seq indent is_root c depth)"
  and "within (limit_of c) (Suc (depth + list_height seq)) (write_items fmt out is_first seq indent is_root c depth)"
  and "within (limit_of c) (Suc (depth + map_height m)) (write_item_entries fmt out is_first m indent c depth)"
  and "within (limit_of c) (Suc (depth + map_height m)) (write_mapping fmt out m indent is_root c depth)"
  and "within (limit_of c) (Suc (depth + map_height m)) (write_entries fmt out is_first m indent is_root c depth)"
  and "within (limit_of c) (Suc (depth + list_height seq)) (write_flow_sequence fmt out seq c depth)"
  and "within (limit_of c) (Suc (depth + list_height seq)) (write_flow_items fmt out is_first seq c depth)"
  and "within (limit_of c) (Suc (depth + map_height m)) (write_flow_mapping fmt out m c depth)"
  and "within (limit_of c) (Suc (depth + map_height m)) (write_flow_entries fmt out is_first m c depth)"
proof (induction fmt out v indent is_root c depth and fmt out t v indent c depth
    and fmt out t v indent is_root c depth and fmt out t v c depth and fmt out t v indent c depth
    and fmt out seq indent is_root c depth and fmt out is_first seq indent is_root c depth
    and fmt out is_first m indent c depth and fmt out m indent is_root c depth
    and fmt out is_first m indent is_root c depth and fmt out seq c depth and fmt out is_first seq c depth
    and fmt out m c depth and fmt out is_first m c depth
    rule: write_value_write_user_tag_write_internal_tag_write_flow_hinted_write_anchor_def_write_sequence_write_items_write_item_entries_write_mapping_write_entries_write_flow_sequence_write_flow_items_write_flow_mapping_write_flow_entries.induct)
  case (1 fmt out v indent is_root c depth)
  show ?case
  proof (cases "depth_exceeded depth (sr_max_depth c)")
    case True
    then show ?thesis by (subst write_value.simps) (simp add: within_def depth_exceeded_def)
  next
    case False
    then show ?thesis using 1 by (subst write_value.simps) (cases v; auto elim!: within_mono)
  qed
next
  case (2 fmt out t v indent c depth)
  then show ?case by (subst write_user_tag.simps) (auto simp: Let_def intro!: within_and_then)
next
  case (3 fmt out t v indent is_root c depth)
  have pair: "\<exists>x y. v = VSequence [x, y]" if "case v of VSequence seq \<Rightarrow> length seq = 2 | _ \<Rightarrow> False"
    using that by (cases v) (auto simp: numeral_2_eq_2 length_Suc_conv)
  show ?case
  proof (subst write_internal_tag.simps, intro within_if, goal_cases)
    case 1
    then obtain seq where "v = VSequence seq" by (cases v) auto
    then show ?case using "3.IH"(1)[OF 1] by simp
  next
    case 2
    then obtain m where "v = VMapping m" by (cases v) auto
    then show ?case using "3.IH"(2)[OF 2] by simp
  next
    case 3
    then show ?case by (rule "3.IH"(3))
  next
    case 6
    obtain x y where xy: "v = VSequence [x, y]" using pair[OF conjunct2[OF 6(6)]] by blast
    have "within (limit_of c) (depth + emit_height x) (write_value fmt out x indent is_root c depth)"
      by (rule "3.IH"(4)[OF 6 xy refl refl refl])
    then show ?case unfolding xy by (auto intro!: within_and_then elim: within_mono split: "value.split")
  next
    case 7
    then show ?case by (rule within_and_then[OF "3.IH"(5)]) (rule within_Inr)
  next
    case 8
    show ?case
    proof (cases "\<exists>name x. v = VSequence [VString name, x]")
      case True
      then obtain name x where x: "v = VSequence [VString name, x]" by blast
      have "within (limit_of c) (Suc (depth + emit_height x)) (write_anchor_def fmt out name x indent c depth)"
        by (rule "3.IH"(6)[OF 8 x refl refl refl refl])
      then show ?thesis unfolding x by (auto elim: within_mono)
    qed (auto split: "value.split" list.split)
  next
    case 11
    then show ?case by (rule "3.IH"(7))
  qed (auto split: "value.split")
next
  case (4 fmt out t v c depth)
  show ?case
  proof (subst write_flow_hinted.simps, intro within_if, goal_cases)
    case 1
    obtain x y where xy: "v = VSequence [x, y]"
      using conjunct2[OF 1] by (cases v) (auto simp: numeral_2_eq_2 length_Suc_conv)
    have "within (limit_of c) (depth + emit_height x) (write_value fmt out x 0 False c depth)"
      by (rule "4.IH"(1)[OF 1 xy refl refl refl])
    then show ?case unfolding xy by (auto elim: within_mono)
  next
    case 2
    then show ?case by (rule "4.IH"(2))
  qed
next
  case (5 fmt out t v indent c depth)
  then show ?case by (subst write_anchor_def.simps) (auto simp: Let_def elim!: within_mono split: "value.split")
next
  case (6 fmt out seq indent is_root c depth)
  then show ?case by (subst write_sequence.simps) auto
next
  case (7 fmt out is_first seq indent is_root c depth)
  show ?case
  proof (cases seq)
    case Nil
    then show ?thesis by (subst write_items.simps) simp
  next
    case (Cons v vs)
    show ?thesis
    proof (subst write_items.simps, unfold Cons list.case Let_def, intro within_and_then within_if, goal_cases)
      case 1
      then obtain m where m: "v = VMapping m" by (cases v) auto
      show ?case unfolding m "value.case" by (rule within_mono[OF "7.IH"(1)[OF Cons refl 1 m]]) simp
    next
      case 2
      then obtain xs where xs: "v = VSequence xs" by (cases v) auto
      show ?case unfolding xs "value.case" by (rule within_mono[OF "7.IH"(2)[OF Cons refl 2 xs]]) simp
    next
      case 3
      show ?case by (rule within_mono[OF "7.IH"(3)[OF Cons refl 3]]) simp
    next
      case (4 t)
      show ?case by (rule within_mono[OF "7.IH"(4)[OF Cons refl 4]]) simp
    qed
  qed
next
  case (8 fmt out is_first m indent c depth)
  show ?case
  proof (cases m)
    case Nil
    then show ?thesis by (subst write_item_entries.simps) simp
  next
    case (Cons e m')
    obtain k v where e: "(k, v) = e" by (metis surj_pair)
    show ?thesis
    proof (subst write_item_entries.simps, unfold Cons list.case Let_def e[symmetric] prod.case, intro within_and_then, goal_cases)
      case 1
      show ?case by (rule within_mono[OF "8.IH"(1)[OF Cons e refl refl]]) (simp add: e[symmetric])
    next
      case (2 t)
      show ?case by (rule within_mono[OF "8.IH"(2)[OF Cons e refl refl 2]]) (simp add: e[symmetric])
    qed
  qed
next
  case (9 fmt out m indent is_root c depth)
  then show ?case by (subst write_mapping.simps) auto
next
  case (10 fmt out is_first m indent is_root c depth)
  show ?case
  proof (cases m)
    case Nil
    then show ?thesis by (subst write_entries.simps) simp
  next
    case (Cons e m')
    obtain k v where e: "(k, v) = e" by (metis surj_pair)
    show ?thesis
    proof (subst write_entries.simps, unfold Cons list.case Let_def e[symmetric] prod.case, intro within_and_then, goal_cases)
      case 1
      show ?case by (rule within_mono[OF "10.IH"(1)[OF Cons e refl refl]]) (simp add: e[symmetric])
    next
      case (2 t)
      show ?case by (rule within_mono[OF "10.IH"(2)[OF Cons e refl refl 2]]) (simp add: e[symmetric])
    qed
  qed
next
  case (11 fmt out seq c depth)
  then show ?case by (subst write_flow_sequence.simps) (auto intro!: within_and_then)
next
  case (12 fmt out is_first seq c depth)
  show ?case
  proof (cases seq)
    case Nil
    then show ?thesis by (subst write_flow_items.simps) simp
  next
    case (Cons v vs)
    show ?thesis
    proof (subst write_flow_items.simps, unfold Cons list.case Let_def, intro within_and_then, goal_cases)
      case 1
      show ?case by (rule within_mono[OF "12.IH"(1)[OF Cons]]) simp
    next
      case (2 t)
      show ?case by (rule within_mono[OF "12.IH"(2)[OF Cons 2]]) simp
    qed
  qed
next
  case (13 fmt out m c depth)
  then show ?case by (subst write_flow_mapping.simps) (auto intro!: within_and_then)
next
  case (14 fmt out is_first m c depth)
  show ?case
  proof (cases m)
    case Nil
    then show ?thesis by (subst write_flow_entries.simps) simp
  next
    case (Cons e m')
    obtain k v where e: "(k, v) = e" by (metis surj_pair)
    show ?thesis
    proof (subst write_flow_entries.simps, unfold Cons list.case Let_def e[symmetric] prod.case, intro within_and_then, goal_cases)
      case 1
      show ?case by (rule within_mono[OF "14.IH"(1)[OF Cons e refl]]) (simp add: e[symmetric])
    next
      case (2 t)
      show ?case by (rule within_mono[OF "14.IH"(2)[OF Cons e refl 2]]) (simp add: e[symmetric])
    qed
  qed
qed

section \<open>The emitter's only failure\<close>

text \<open>
  C25. The emitter fails for one reason only: a value nested deeper than \<open>max_depth\<close> (256 at most),
  with the depth that crossed the limit.  A value within the limit, counting its collections and its
  tags, is always written.
\<close>

theorem emitter_fails_only_on_depth:
  "case value_to_string fmt v cfg of
     Inr text \<Rightarrow> True
   | Inl e \<Rightarrow> \<exists>d. e = RecursionLimitExceeded d
       \<and> min (sr_max_depth cfg) 256 < d \<and> d \<le> emit_height v"
proof -
  have l: "limit_of (cx_new cfg) = min (sr_max_depth cfg) 256"
    by (auto simp: cx_new_def effective_max_depth_def max_depth_ceiling_def serializer_config.extend_def)
  have "within (limit_of (cx_new cfg)) (emit_height v) (value_to_string fmt v cfg)"
    unfolding value_to_string_def Let_def
    by (rule within_and_then) (use writers_within(1)[of "cx_new cfg" 0 v] in simp_all)
  then show ?thesis unfolding l within_def .
qed

text \<open>
  The limit counts a tag as a level where the loader counts collections only, so a document that was
  loaded within a depth may be refused when it is written under the same depth.
\<close>

lemma tags_count_as_levels:
  "let v = VTagged (Tag ''!a'' False) (VSequence [VTagged (Tag ''!b'' False) (VSequence [VNull])])
   in value_height v = 2
      \<and> value_to_string (\<lambda>x. []) v (serializer_config_default\<lparr>sr_max_depth := 2\<rparr>) = Inl (RecursionLimitExceeded 3)"
  by code_simp

text \<open>
  With an \<open>indent\<close> other than 2 the keys of a mapping inside a sequence are not aligned: the first
  stands two columns after the dash, the others \<open>indent\<close> columns.
\<close>

lemma item_keys_not_aligned:
  "value_to_string (\<lambda>x. []) (VSequence [VMapping [(''a'', VNumber (Integer 1)), (''b'', VNumber (Integer 2))]])
     (serializer_config_default\<lparr>sr_indent := 4\<rparr>)
   = Inr (''- a: 1'' @ [ser_nl] @ ''    b: 2'')"
  by code_simp

end
