(* ===== verification/Merge.thy ===== *)
theory Merge
  imports Query Errors
begin

text \<open>
  Model of the updates of \<open>value.rs\<close> that combine values: \<open>merge\<close>, \<open>merge_concat\<close>, \<open>remove\<close>,
  \<open>insert\<close> and \<open>apply_merge\<close> (the \<open><<\<close> key).  \<open>apply_merge\<close> returns the value it leaves behind
  together with its error, because it works in place and an error keeps what was already done.
\<close>

section \<open>Deep merge\<close>

text \<open>
  The loop of both merges over the entries of \<open>other\<close>: a key of \<open>base\<close> is merged in place, an
  unknown key is appended.
\<close>

definition merge_entries :: "('v \<Rightarrow> 'v \<Rightarrow> 'v) \<Rightarrow> ('k, 'v) imap \<Rightarrow> ('k, 'v) imap \<Rightarrow> ('k, 'v) imap" where
  "merge_entries rec base other =
     foldl (\<lambda>b (key, ov). case imap_get b key of
              Some bv \<Rightarrow> imap_insert key (rec bv ov) b
            | None \<Rightarrow> imap_insert key ov b) base other"

lemma merge_entries_cong [fundef_cong]:
  assumes "base = base'" "other = other'" "\<And>k v b. (k, v) \<in> set other' \<Longrightarrow> f b v = g b v"
  shows "merge_entries f base other = merge_entries g base' other'"
  unfolding merge_entries_def using assms
  by (intro foldl_cong) (auto split: option.splits)

fun merge :: "value \<Rightarrow> value \<Rightarrow> value" where
  "merge (VMapping base) (VMapping other) = VMapping (merge_entries merge base other)"
| "merge this other = other"

fun merge_concat :: "value \<Rightarrow> value \<Rightarrow> value" where
  "merge_concat (VMapping base) (VMapping other) = VMapping (merge_entries merge_concat base other)"
| "merge_concat (VSequence base) (VSequence other) = VSequence (base @ other)"
| "merge_concat this other = other"

fun value_remove :: "value \<Rightarrow> string \<Rightarrow> value option \<times> value" where
  "value_remove (VMapping m) key = (imap_get m key, VMapping (imap_shift_remove key m))"
| "value_remove v key = (None, v)"

fun value_insert :: "value \<Rightarrow> string \<Rightarrow> value \<Rightarrow> value option \<times> value" where
  "value_insert (VMapping m) key w = (imap_get m key, VMapping (imap_insert key w m))"
| "value_insert v key w = (None, v)"

section \<open>The merge key\<close>

fun merge_sources :: "mapping \<Rightarrow> value list \<Rightarrow> mapping \<times> error option" where
  "merge_sources m [] = (m, None)"
| "merge_sources m (VMapping source # vs) = merge_sources (imap_fill m source) vs"
| "merge_sources m (VSequence _ # vs) = (m, Some SequenceInMergeElement)"
| "merge_sources m (VTagged _ _ # vs) = (m, Some TaggedInMerge)"
| "merge_sources m (v # vs) = (m, Some ScalarInMergeElement)"

definition merge_sequence :: "value option \<Rightarrow> value list" where
  "merge_sequence v =
     (case v of Some (VSequence s) \<Rightarrow> s | Some w \<Rightarrow> [w] | None \<Rightarrow> [])"

fun apply_merge :: "value \<Rightarrow> value \<times> error option"
  and apply_merge_items :: "value list \<Rightarrow> value list \<times> error option"
  and apply_merge_entries :: "(string \<times> value) list \<Rightarrow> (string \<times> value) list \<times> error option" where
  "apply_merge (VMapping m) =
     (case apply_merge_entries m of
        (m1, Some e) \<Rightarrow> (VMapping m1, Some e)
      | (m1, None) \<Rightarrow>
          (case merge_sources (imap_shift_remove ''<<'' m1) (merge_sequence (imap_get m1 ''<<'')) of
             (m2, e) \<Rightarrow> (VMapping m2, e)))"
| "apply_merge (VSequence s) = (case apply_merge_items s of (s1, e) \<Rightarrow> (VSequence s1, e))"
| "apply_merge (VTagged t v) = (case apply_merge v of (v1, e) \<Rightarrow> (VTagged t v1, e))"
| "apply_merge v = (v, None)"
| "apply_merge_items [] = ([], None)"
| "apply_merge_items (v # vs) =
     (case apply_merge v of
        (v1, Some e) \<Rightarrow> (v1 # vs, Some e)
      | (v1, None) \<Rightarrow> (case apply_merge_items vs of (vs1, e) \<Rightarrow> (v1 # vs1, e)))"
| "apply_merge_entries [] = ([], None)"
| "apply_merge_entries ((k, v) # m) =
     (case apply_merge v of
        (v1, Some e) \<Rightarrow> ((k, v1) # m, Some e)
      | (v1, None) \<Rightarrow> (case apply_merge_entries m of (m1, e) \<Rightarrow> ((k, v1) # m1, e)))"

section \<open>Deep merge, key by key\<close>

lemma merge_entries_Cons:
  "merge_entries f base ((k, ov) # other) =
     merge_entries f (imap_insert k (case imap_get base k of Some bv \<Rightarrow> f bv ov | None \<Rightarrow> ov) base) other"
  by (simp add: merge_entries_def split: option.splits)

lemma merge_entries_Nil [simp]: "merge_entries f base [] = base"
  by (simp add: merge_entries_def)

lemma merge_entries_get:
  assumes "imap_valid base" "imap_valid other"
  shows "imap_get (merge_entries f base other) k =
    (case imap_get other k of
       None \<Rightarrow> imap_get base k
     | Some ov \<Rightarrow> Some (case imap_get base k of None \<Rightarrow> ov | Some bv \<Rightarrow> f bv ov))"
  using assms
proof (induction other arbitrary: base)
  case (Cons e other)
  obtain l ov where e: "e = (l, ov)" by fastforce
  have "imap_valid other" and l: "imap_get other l = None"
    using Cons.prems(2) e by (auto simp: imap_valid_def imap_get_None_iff)
  with Cons.IH[OF imap_insert_valid[OF Cons.prems(1)]] show ?case
    by (auto simp: e merge_entries_Cons imap_get_insert split: option.splits)
qed simp

lemma merge_entries_valid: "imap_valid base \<Longrightarrow> imap_valid (merge_entries f base other)"
proof (induction other arbitrary: base)
  case (Cons e other)
  then show ?case by (cases e) (simp add: merge_entries_Cons imap_insert_valid)
qed simp

lemma merge_entries_keys:
  "imap_valid other \<Longrightarrow> map fst (merge_entries f base other)
     = map fst base @ filter (\<lambda>k. k \<notin> set (map fst base)) (map fst other)"
proof (induction other arbitrary: base)
  case (Cons e other)
  obtain l ov where e: "e = (l, ov)" by fastforce
  have o: "imap_valid other" "l \<notin> set (map fst other)"
    using Cons.prems e by (auto simp: imap_valid_def)
  then have "filter (\<lambda>k. k \<notin> set (map fst base @ [l])) (map fst other)
      = filter (\<lambda>k. k \<notin> set (map fst base)) (map fst other)"
    by (intro filter_cong) auto
  with Cons.IH[OF o(1)] show ?case
    by (simp add: e merge_entries_Cons imap_insert_keys imap_insert_key_set)
qed simp

lemma merge_entries_wf:
  assumes "\<And>b k v. (k, v) \<in> set other \<Longrightarrow> wf_value b \<Longrightarrow> wf_value v \<Longrightarrow> wf_value (f b v)"
    and "wf_mapping base" and "\<forall>(k, v) \<in> set other. wf_value v"
  shows "wf_mapping (merge_entries f base other)"
  using assms
proof (induction other arbitrary: base)
  case (Cons e other)
  obtain l ov where e: "e = (l, ov)" by fastforce
  have "wf_value (f bv ov)" if "imap_get base l = Some bv" for bv
    using Cons.prems(1)[of l ov bv] Cons.prems(3) wf_mapping_get[OF Cons.prems(2) that] e by simp
  then have "wf_value (case imap_get base l of Some bv \<Rightarrow> f bv ov | None \<Rightarrow> ov)"
    using Cons.prems(3) e by (auto split: option.splits)
  then have "wf_mapping (imap_insert l (case imap_get base l of Some bv \<Rightarrow> f bv ov | None \<Rightarrow> ov) base)"
    by (rule wf_mapping_insert[OF Cons.prems(2)])
  moreover have "\<And>b k v. (k, v) \<in> set other \<Longrightarrow> wf_value b \<Longrightarrow> wf_value v \<Longrightarrow> wf_value (f b v)"
    and "\<forall>(k, v) \<in> set other. wf_value v"
    using Cons.prems(1,3) by auto
  ultimately show ?case using Cons.IH by (simp add: e merge_entries_Cons)
qed simp

lemma merge_wf: "wf_value a \<Longrightarrow> wf_value b \<Longrightarrow> wf_value (merge a b)"
proof (induction a b rule: merge.induct)
  case (1 base other)
  then show ?case
    unfolding merge.simps wf_value_VMapping
    by (intro merge_entries_wf) (auto simp: wf_mapping_def)
qed simp_all

text \<open>
  C4.  Deep merge of two mappings, key by key: a key of both is merged recursively, a key of one
  side keeps its value, the old keys keep their order and the new ones follow in theirs; and the
  result is well formed when both sides are.  \<open>merge_concat\<close> differs only in the recursive call.
\<close>

theorem merge_mapping_spec:
  assumes "wf_value (VMapping base)" "wf_value (VMapping other)"
    and "merge (VMapping base) (VMapping other) = VMapping r"
    and "merge_concat (VMapping base) (VMapping other) = VMapping c"
  shows "imap_get r k =
      (case imap_get other k of
         None \<Rightarrow> imap_get base k
       | Some ov \<Rightarrow> Some (case imap_get base k of None \<Rightarrow> ov | Some bv \<Rightarrow> merge bv ov))
    \<and> imap_get c k =
      (case imap_get other k of
         None \<Rightarrow> imap_get base k
       | Some ov \<Rightarrow> Some (case imap_get base k of None \<Rightarrow> ov | Some bv \<Rightarrow> merge_concat bv ov))
    \<and> map fst r = map fst base @ filter (\<lambda>k. k \<notin> set (map fst base)) (map fst other)
    \<and> wf_value (VMapping r)"
proof -
  have v: "imap_valid base" "imap_valid other" using assms(1,2) by auto
  have r: "r = merge_entries merge base other" and c: "c = merge_entries merge_concat base other"
    using assms(3,4) by simp_all
  show ?thesis
    using merge_entries_get[OF v] merge_entries_keys[OF v(2)] merge_wf[OF assms(1,2)] assms(3)
    unfolding r c by simp
qed

theorem merge_mapping_spec_witness:
  "map fst (merge_entries merge [(''a'', VNull), (''b'', VNull)] [(''c'', VNull), (''a'', VBool True)])
     = [''a'', ''b'', ''c'']"
proof -
  let ?b = "[(''a'', VNull), (''b'', VNull)]" and ?o = "[(''c'', VNull), (''a'', VBool True)]"
  have "wf_value (VMapping ?b)" "wf_value (VMapping ?o)" by (simp_all add: imap_valid_def)
  from merge_mapping_spec[OF this merge.simps(1) merge_concat.simps(1), of "''a''"]
  show ?thesis by simp
qed

lemma merge_lookup_override:
  "\<lbrakk>wf_value a; wf_value b; lookup_keys b ks = Some w; \<not> is_mapping w\<rbrakk>
   \<Longrightarrow> lookup_keys (merge a b) ks = Some w"
proof (induction a b arbitrary: ks rule: merge.induct)
  case (1 base other)
  obtain k ks' where ks: "ks = k # ks'"
    using "1.prems"(3,4) by (cases ks) auto
  obtain ov where ov: "imap_get other k = Some ov" "lookup_keys ov ks' = Some w"
    using "1.prems"(3) ks by (auto simp: bind_eq_Some_conv)
  have v: "imap_valid base" "imap_valid other" using "1.prems"(1,2) by auto
  show ?case
  proof (cases "imap_get base k")
    case None
    then show ?thesis using ov by (simp add: ks merge_entries_get[OF v])
  next
    case (Some bv)
    have "wf_value bv" "wf_value ov"
      using wf_mapping_get Some ov(1) "1.prems"(1,2) unfolding wf_value_VMapping by blast+
    then have "lookup_keys (merge bv ov) ks' = Some w"
      using "1.IH"[OF imap_get_in_set[OF ov(1)]] ov(2) "1.prems"(4) by blast
    then show ?thesis using ov Some by (simp add: ks merge_entries_get[OF v])
  qed
qed simp_all

text \<open>
  An override always arrives: whatever non-mapping value the second operand has under a list
  of keys, the merged value has it under the same keys; and merging a value into itself, or an
  empty mapping into a mapping, changes nothing.
\<close>

theorem merge_override_arrives:
  assumes "wf_value a" "wf_value b" and "lookup_keys b ks = Some w" "\<not> is_mapping w"
  shows "get_path (merge a b) (join_keys ks) = Some w"
  using merge_lookup_override[OF assms] by (simp add: get_path_join_keys)

theorem merge_override_arrives_witness:
  "get_path (merge (VMapping [(''s'', VMapping [(''p'', VNull), (''h'', VNull)])])
                   (VMapping [(''s'', VMapping [(''p'', VBool True)])])) (join_keys [''s'', ''p''])
     = Some (VBool True)"
  by (rule merge_override_arrives) (simp_all add: imap_valid_def)

section \<open>The merge key is resolved\<close>

fun merge_free :: "value \<Rightarrow> bool" where
  "merge_free (VMapping m) = list_all (\<lambda>(k, v). k \<noteq> ''<<'' \<and> merge_free v) m"
| "merge_free (VSequence s) = list_all merge_free s"
| "merge_free (VTagged t v) = merge_free v"
| "merge_free _ = True"

text \<open>\<open>good v\<close> is what a processed value is: well formed, with no merge key left anywhere.\<close>

abbreviation good :: "value \<Rightarrow> bool" where
  "good v \<equiv> wf_value v \<and> merge_free v"

lemma merge_free_entry: "merge_free (VMapping m) \<longleftrightarrow> (\<forall>(k, v) \<in> set m. k \<noteq> ''<<'' \<and> merge_free v)"
  by (simp add: list_all_iff)

lemma good_mapping: "good (VMapping m) \<longleftrightarrow> imap_valid m \<and> (\<forall>(k, v) \<in> set m. k \<noteq> ''<<'' \<and> good v)"
  by (auto simp: list_all_iff)

lemma good_fill:
  assumes "good (VMapping m)" "good (VMapping source)"
  shows "good (VMapping (imap_fill m source))"
  using assms imap_fill_set[of m source] imap_fill_valid[of m source]
  unfolding good_mapping by blast

lemma merge_sources_good:
  "\<lbrakk>good (VMapping m); \<forall>v \<in> set vs. good v; merge_sources m vs = (r, e)\<rbrakk> \<Longrightarrow> good (VMapping r)"
proof (induction m vs rule: merge_sources.induct)
  case (2 m source vs)
  then show ?case using good_fill[of m source]
    by (simp del: wf_value.simps merge_free.simps)
qed (simp_all del: wf_value.simps merge_free.simps)

lemma merge_sequence_good: "\<forall>w. x = Some w \<longrightarrow> good w \<Longrightarrow> \<forall>v \<in> set (merge_sequence x). good v"
proof (cases x)
  case (Some w)
  assume "\<forall>w. x = Some w \<longrightarrow> good w"
  with Some show ?thesis by (cases w) (simp_all add: merge_sequence_def list_all_iff)
qed (simp add: merge_sequence_def)

lemma apply_merge_items_Cons:
  "apply_merge_items (v # vs) = (r, None) \<longleftrightarrow>
   (\<exists>v1 vs1. apply_merge v = (v1, None) \<and> apply_merge_items vs = (vs1, None) \<and> r = v1 # vs1)"
  by (auto split: prod.splits option.splits)

lemma apply_merge_entries_Cons:
  "apply_merge_entries ((k, v) # m) = (r, None) \<longleftrightarrow>
   (\<exists>v1 m1. apply_merge v = (v1, None) \<and> apply_merge_entries m = (m1, None) \<and> r = (k, v1) # m1)"
  by (auto split: prod.splits option.splits)

lemma apply_merge_good:
  "\<lbrakk>wf_value v; apply_merge v = (v', None)\<rbrakk> \<Longrightarrow> good v'"
  "\<lbrakk>\<forall>v \<in> set vs. wf_value v; apply_merge_items vs = (vs', None)\<rbrakk> \<Longrightarrow> \<forall>v \<in> set vs'. good v"
  "\<lbrakk>\<forall>(k, v) \<in> set m. wf_value v; apply_merge_entries m = (m', None)\<rbrakk>
     \<Longrightarrow> map fst m' = map fst m \<and> (\<forall>(k, v) \<in> set m'. good v)"
proof (induction v and vs and m arbitrary: v' and vs' and m'
    rule: apply_merge_apply_merge_items_apply_merge_entries.induct)
  case (1 m)
  obtain m1 where m1: "apply_merge_entries m = (m1, None)"
    using "1.prems"(2) by (auto split: prod.splits option.splits)
  obtain m2 where m2: "merge_sources (imap_shift_remove ''<<'' m1) (merge_sequence (imap_get m1 ''<<''))
      = (m2, None)" and v': "v' = VMapping m2"
    using "1.prems"(2) m1 by (auto split: prod.splits)
  have ih: "map fst m1 = map fst m" "\<forall>(k, v) \<in> set m1. good v"
    using "1.IH"[OF _ m1] "1.prems"(1) by (auto simp: list_all_iff)
  then have val: "imap_valid m1" using "1.prems"(1) by (simp add: imap_valid_def)
  have keys: "map fst (imap_shift_remove ''<<'' m1) = filter (\<lambda>x. x \<noteq> ''<<'') (map fst m1)"
    by (rule imap_remove_keys[OF val])
  have "k \<noteq> ''<<''" if "(k, v) \<in> set (imap_shift_remove ''<<'' m1)" for k v
  proof -
    have "k \<in> set (map fst (imap_shift_remove ''<<'' m1))" using that by force
    then show ?thesis unfolding keys by simp
  qed
  then have g: "good (VMapping (imap_shift_remove ''<<'' m1))"
    unfolding good_mapping using ih(2) imap_remove_valid[OF val] imap_shift_remove_set[of "''<<''" m1]
    by blast
  have "\<forall>w. imap_get m1 ''<<'' = Some w \<longrightarrow> good w"
    using ih(2) imap_get_in_set[of m1 "''<<''"] by blast
  then have "\<forall>v \<in> set (merge_sequence (imap_get m1 ''<<'')). good v"
    by (rule merge_sequence_good)
  from merge_sources_good[OF g this m2] show ?case by (simp only: v')
next
  case (2 s)
  obtain s1 where s1: "apply_merge_items s = (s1, None)" "v' = VSequence s1"
    using "2.prems"(2) by (auto split: prod.splits)
  show ?case using "2.IH"[OF _ s1(1)] "2.prems"(1) by (simp add: s1(2) list_all_iff)
next
  case (3 t v)
  obtain v1 where v1: "apply_merge v = (v1, None)" "v' = VTagged t v1"
    using "3.prems"(2) by (auto split: prod.splits)
  show ?case using "3.IH"[OF _ v1(1)] "3.prems"(1) by (simp add: v1(2))
next
  case (6 v vs)
  obtain v1 vs1 where s: "apply_merge v = (v1, None)" "apply_merge_items vs = (vs1, None)" "vs' = v1 # vs1"
    using "6.prems"(2) unfolding apply_merge_items_Cons by blast
  show ?case using "6.IH"(1)[OF _ s(1)] "6.IH"(2)[OF s(1)[symmetric] refl _ s(2)] "6.prems"(1) s(3) by simp
next
  case (8 k v m)
  obtain v1 m1 where s: "apply_merge v = (v1, None)" "apply_merge_entries m = (m1, None)" "m' = (k, v1) # m1"
    using "8.prems"(2) unfolding apply_merge_entries_Cons by blast
  show ?case using "8.IH"(1)[OF _ s(1)] "8.IH"(2)[OF s(1)[symmetric] refl _ s(2)] "8.prems"(1) s(3) by simp
qed simp_all

lemma apply_merge_merge_free:
  "\<lbrakk>merge_free v\<rbrakk> \<Longrightarrow> apply_merge v = (v, None)"
  "\<lbrakk>\<forall>v \<in> set vs. merge_free v\<rbrakk> \<Longrightarrow> apply_merge_items vs = (vs, None)"
  "\<lbrakk>\<forall>(k, v) \<in> set m. merge_free v\<rbrakk> \<Longrightarrow> apply_merge_entries m = (m, None)"
proof (induction v and vs and m rule: apply_merge_apply_merge_items_apply_merge_entries.induct)
  case (1 m)
  then have entries: "apply_merge_entries m = (m, None)" by (auto simp: list_all_iff)
  have "''<<'' \<notin> set (map fst m)" using 1(2) by (auto simp: list_all_iff)
  then have "imap_get m ''<<'' = None" "imap_shift_remove ''<<'' m = m"
    by (auto simp: imap_get_None_iff, induction m, auto)
  then show ?case using entries by (simp add: merge_sequence_def)
qed (auto simp: list_all_iff)

text \<open>
  C5.  A successful \<open>apply_merge\<close> resolves every merge key: the result is well formed, has no
  \<open><<\<close> key in any mapping at any depth, and applying the merge again changes nothing.
\<close>

theorem apply_merge_resolves:
  assumes "wf_value v" and "apply_merge v = (v', None)"
  shows "wf_value v' \<and> merge_free v' \<and> apply_merge v' = (v', None)"
  using apply_merge_good(1)[OF assms] apply_merge_merge_free(1) by blast

theorem apply_merge_resolves_witness:
  "merge_free (VMapping [(''z'', VNull), (''x'', VBool True)])"
proof -
  let ?v = "VMapping [(''<<'', VSequence [VMapping [(''x'', VBool True)], VMapping [(''x'', VNull)]]),
                      (''z'', VNull)]"
  have "wf_value ?v" by (simp add: imap_valid_def)
  moreover have "apply_merge ?v = (VMapping [(''z'', VNull), (''x'', VBool True)], None)"
    by (simp add: merge_sequence_def imap_fill_def imap_or_insert_def)
  ultimately show ?thesis using apply_merge_resolves by blast
qed

lemma merge_sources_get:
  "\<lbrakk>imap_valid m; merge_sources m vs = (r, None)\<rbrakk> \<Longrightarrow>
   \<exists>sources. vs = map VMapping sources \<and> imap_valid r
     \<and> imap_get r k = (case imap_get m k of
         Some v \<Rightarrow> Some v
       | None \<Rightarrow> map_of (concat sources) k)"
proof (induction m vs rule: merge_sources.induct)
  case (1 m)
  then show ?case by (auto split: option.splits)
next
  case (2 m source vs)
  from "2.prems" obtain sources where s: "vs = map VMapping sources" "imap_valid r"
    and g: "imap_get r k = (case imap_get (imap_fill m source) k of
         Some v \<Rightarrow> Some v | None \<Rightarrow> map_of (concat sources) k)"
    using "2.IH" imap_fill_valid by fastforce
  have "imap_get (imap_fill m source) k = (map_of source ++ imap_get m) k"
    using imap_fill_lookup[OF "2.prems"(1)] by simp
  with s g show ?case
    by (intro exI[of _ "source # sources"]) (auto simp: map_add_def split: option.splits)
qed simp_all

lemma apply_merge_entries_get:
  "apply_merge_entries m = (m', None) \<Longrightarrow> imap_get m k = Some v \<Longrightarrow>
   \<exists>v'. apply_merge v = (v', None) \<and> imap_get m' k = Some v'"
proof (induction m arbitrary: m')
  case (Cons e m)
  obtain l w where e: "e = (l, w)" by fastforce
  from Cons.prems(1) e obtain w' m1 where w: "apply_merge w = (w', None)"
    "apply_merge_entries m = (m1, None)" "m' = (l, w') # m1"
    by (auto split: prod.splits option.splits)
  show ?case using Cons.IH[OF w(2)] Cons.prems(2) w e by (auto split: if_splits)
qed simp

text \<open>
  C6.  Precedence of the merge key: a key the mapping spells out keeps its own value, and the
  others come from the first source that has them; and a source that is not a mapping is refused.
\<close>

theorem apply_merge_precedence:
  assumes "wf_value (VMapping m)" and "apply_merge (VMapping m) = (v', None)" and "k \<noteq> ''<<''"
  shows "\<exists>r sources m1. v' = VMapping r \<and> apply_merge_entries m = (m1, None)
    \<and> merge_sequence (imap_get m1 ''<<'') = map VMapping sources
    \<and> (\<forall>v. imap_get m k = Some v \<longrightarrow> (\<exists>w. apply_merge v = (w, None) \<and> imap_get r k = Some w))
    \<and> (imap_get m k = None \<longrightarrow> imap_get r k = map_of (concat sources) k)"
proof -
  obtain m1 where m1: "apply_merge_entries m = (m1, None)"
    using assms(2) by (auto split: prod.splits option.splits)
  obtain r where r: "merge_sources (imap_shift_remove ''<<'' m1) (merge_sequence (imap_get m1 ''<<''))
      = (r, None)" and v': "v' = VMapping r"
    using assms(2) m1 by (auto split: prod.splits)
  have keys: "map fst m1 = map fst m"
    using apply_merge_good(3)[OF _ m1] assms(1) by (auto simp: list_all_iff)
  then have val: "imap_valid m1" using assms(1) by (simp add: imap_valid_def)
  have get: "imap_get (imap_shift_remove ''<<'' m1) k = imap_get m1 k"
    using imap_get_remove[OF val] assms(3) by simp
  from merge_sources_get[OF imap_remove_valid[OF val] r, of k] get obtain sources where
    s: "merge_sequence (imap_get m1 ''<<'') = map VMapping sources"
      "imap_get r k = (case imap_get m1 k of Some v \<Rightarrow> Some v | None \<Rightarrow> map_of (concat sources) k)"
    by auto
  have "imap_get m k = None \<Longrightarrow> imap_get m1 k = None"
    using keys by (metis imap_get_None_iff)
  moreover have "\<forall>v. imap_get m k = Some v \<longrightarrow> (\<exists>w. apply_merge v = (w, None) \<and> imap_get r k = Some w)"
    using apply_merge_entries_get[OF m1] s(2) by fastforce
  ultimately show ?thesis using s v' m1 by auto
qed

theorem apply_merge_precedence_witness:
  "\<exists>v'. apply_merge (VMapping [(''<<'', VMapping [(''x'', VNull)]), (''x'', VBool True)]) = (v', None)
    \<and> index_into_str ''x'' v' = Some (VBool True)"
proof -
  let ?m = "[(''<<'', VMapping [(''x'', VNull)]), (''x'', VBool True)]"
  have "wf_value (VMapping ?m)" by (simp add: imap_valid_def)
  moreover have "apply_merge (VMapping ?m) = (VMapping [(''x'', VBool True)], None)"
    by (simp add: merge_sequence_def imap_fill_def imap_or_insert_def)
  ultimately show ?thesis using apply_merge_precedence[of ?m _ "''x''"] by fastforce
qed

end
