(* ===== verification/Loader.thy ===== *)
theory Loader
  imports Meter Merge Scanner_State
begin

text \<open>
  Model of the tree builder of \<open>parser/loader.rs\<close>: the stack machine that turns the parser's events
  into values with their span trees, under the budgets of the meter.  A \<open>Vec\<close> used as a stack is a
  list whose head is its top.  The two mapping frames share the fields of \<open>open_mapping\<close>; \<open>fmt\<close>
  is the shortest decimal text of a double (\<open>ryu\<close>), \<open>node_text\<close> the \<open>Debug\<close> text of a token.

  The lemmas show that the loader keeps its invariant on any sequence of events: one frame per
  level of depth, no value deeper than the enforced \<open>max_depth\<close> once it is in place, distinct keys,
  typed keys parallel to the entries, anchors stored with their exact cost.
\<close>

section \<open>Span trees\<close>

datatype span_tree =
    Leaf nat nat
  | SpanSequence nat nat "span_tree list"
  | SpanMapping nat nat "((nat \<times> nat) \<times> span_tree) list"
  | SpanAlias "nat \<times> nat" span_tree

fun span_tree_start :: "span_tree \<Rightarrow> nat" where
  "span_tree_start (Leaf s e) = s"
| "span_tree_start (SpanSequence s e items) = s"
| "span_tree_start (SpanMapping s e entries) = s"
| "span_tree_start (SpanAlias at target) = span_tree_start target"

fun span_tree_end :: "span_tree \<Rightarrow> nat" where
  "span_tree_end (Leaf s e) = e"
| "span_tree_end (SpanSequence s e items) = e"
| "span_tree_end (SpanMapping s e entries) = e"
| "span_tree_end (SpanAlias at target) = span_tree_end target"

text \<open>\<open>u8::is_ascii_whitespace\<close>: no vertical tab.\<close>

definition is_ascii_whitespace :: "char \<Rightarrow> bool" where
  "is_ascii_whitespace c \<longleftrightarrow> byte c \<in> {9, 10, 12, 13, 32}"

function opens_with_bracket :: "string \<Rightarrow> bool" where
  "opens_with_bracket [] = False"
| "opens_with_bracket (b # bs) =
     (if b = CHR ''!'' \<and> bs \<noteq> [] \<and> hd bs = CHR ''<''
      then opens_with_bracket (drop 1 (dropWhile (\<lambda>c. c \<noteq> CHR ''>'') bs))
      else if b = CHR ''&'' \<or> b = CHR ''!''
      then opens_with_bracket (dropWhile (\<lambda>c. \<not> is_ascii_whitespace c) bs)
      else if is_ascii_whitespace b then opens_with_bracket bs
      else b = CHR ''['')"
  by pat_completeness auto

termination
  by (relation "measure length") (auto simp: less_Suc_eq_le length_dropWhile_le intro: le_trans[OF diff_le_self])

definition starts_with_flow_bracket :: "string \<Rightarrow> nat \<Rightarrow> bool" where
  "starts_with_flow_bracket input start = opens_with_bracket (drop start input)"

section \<open>Keys\<close>

definition merge_key :: string where "merge_key = ''<<''"

datatype key_shape = Str | Other "value"

definition key_shape_of :: "value \<Rightarrow> key_shape" where
  "key_shape_of v = (case v of VString _ \<Rightarrow> Str | w \<Rightarrow> Other w)"

fun key_shape_eq :: "key_shape \<Rightarrow> key_shape \<Rightarrow> bool" where
  "key_shape_eq Str Str = True"
| "key_shape_eq (Other a) (Other b) = value_eq a b"
| "key_shape_eq _ _ = False"

definition key_shape_at :: "key_shape list \<Rightarrow> nat \<Rightarrow> key_shape" where
  "key_shape_at typed_keys idx = (if idx < length typed_keys then typed_keys ! idx else Str)"

definition key_shape_record :: "key_shape list \<Rightarrow> nat \<Rightarrow> key_shape \<Rightarrow> key_shape list" where
  "key_shape_record typed_keys idx shape =
     (if typed_keys = [] \<and> shape = Str then typed_keys
      else typed_keys @ replicate (idx - length typed_keys) Str @ [shape])"

section \<open>Errors with a place\<close>

definition parse_at :: "string \<Rightarrow> string \<Rightarrow> nat \<Rightarrow> error" where
  "parse_at message source index = ParseWithLocation message (location_from_index source index)"

fun join_dots :: "string list \<Rightarrow> string" where
  "join_dots [] = []"
| "join_dots [s] = s"
| "join_dots (s # ss) = s @ ''.'' @ join_dots ss"

definition frames_path :: "string option list \<Rightarrow> string option" where
  "frames_path segments =
     (let parts = map the (filter (\<lambda>s. s \<noteq> None) segments)
      in if parts = [] then None else Some (join_dots parts))"

definition entry_path :: "string option \<Rightarrow> string \<Rightarrow> string" where
  "entry_path parent key = (case parent of Some p \<Rightarrow> p @ ''.'' @ key | None \<Rightarrow> key)"

definition duplicate_key_at :: "string \<Rightarrow> string option \<Rightarrow> nat \<Rightarrow> string \<Rightarrow> error" where
  "duplicate_key_at key parent key_start input =
     DuplicateKeyAt key (entry_path parent key) (location_from_index input key_start)"

definition key_collision_at :: "string \<Rightarrow> string option \<Rightarrow> nat \<Rightarrow> string \<Rightarrow> error" where
  "key_collision_at key parent key_start input =
     KeyCollisionAt key (entry_path parent key) (location_from_index input key_start)"

definition missing_anchor ::
  "string \<Rightarrow> nat \<Rightarrow> string \<Rightarrow> (string, nat) imap \<Rightarrow> (string, nat) imap \<Rightarrow> error" where
  "missing_anchor anchor alias_start input defined earlier =
     (case imap_get defined anchor of
        Some defined_at \<Rightarrow>
          parse_at (''alias '' @ [backtick] @ ''*'' @ anchor @ [backtick] @ '' points at '' @ [backtick] @ ''&''
            @ anchor @ [backtick] @ '', still being defined at ''
            @ location_display (location_from_index input defined_at)
            @ ''; a self-referential node cannot be represented as a tree'') input alias_start
      | None \<Rightarrow>
          let close = (case closest_name anchor (map fst defined) of
                         None \<Rightarrow> None
                       | Some s \<Rightarrow> map_option (\<lambda>idx. (s, location_from_index input idx)) (imap_get defined s));
              suggestion = (case close of
                              Some c \<Rightarrow> Some c
                            | None \<Rightarrow>
                                map_option (\<lambda>idx. (anchor, location_from_index input idx)) (imap_get earlier anchor))
          in UnknownAnchorAt anchor (location_from_index input alias_start) suggestion)"

definition into_error :: "(token_kind \<Rightarrow> string) \<Rightarrow> scan_error \<Rightarrow> string \<Rightarrow> nat \<Rightarrow> error" where
  "into_error node_text e input limit =
     (let message = (case scan_message e of Text m \<Rightarrow> m | ExpectedNode k \<Rightarrow> node_text k)
      in if message = event_backlog then Budget (MaxEvents limit (sat_add limit 1))
         else parse_at message input (scan_index e))"

text \<open>\<open>Loader\<close>'s merge of one buffered \<open><<\<close> value, and of all of them.\<close>

fun splice_merge :: "mapping \<Rightarrow> value \<Rightarrow> mapping result"
  and splice_merges :: "mapping \<Rightarrow> value list \<Rightarrow> mapping result" where
  "splice_merge m (VMapping source) = Inr (imap_fill m source)"
| "splice_merge m (VSequence s) = splice_merges m s"
| "splice_merge m VNull = Inr m"
| "splice_merge m v = Inl ScalarInMergeElement"
| "splice_merges m [] = Inr m"
| "splice_merges m (v # vs) = and_then (splice_merge m v) (\<lambda>m. splice_merges m vs)"

section \<open>Frames\<close>

type_synonym event_tag = "(string \<times> string) option"

record open_sequence =
  sq_items :: "value list"
  sq_span_items :: "span_tree list"
  sq_start :: nat
  sq_anchor :: "string option"
  sq_tag :: event_tag
  sq_flow :: bool

record open_mapping =
  mp_map :: mapping
  mp_span_entries :: "((nat \<times> nat) \<times> span_tree) list"
  mp_typed_keys :: "key_shape list"
  mp_start :: nat
  mp_anchor :: "string option"
  mp_merge_values :: "value list"
  mp_tag :: event_tag

record pending_key =
  pk_key :: string
  pk_key_value :: key_shape
  pk_may_merge :: bool
  pk_span :: "nat \<times> nat"

datatype frame =
    FSequence open_sequence
  | FMappingKey open_mapping
  | FMappingValue open_mapping pending_key

record loader =
  ld_docs :: "(value \<times> span_tree) list"
  ld_stack :: "frame list"
  ld_anchor_map :: "(string, value \<times> span_tree \<times> alias_cost) imap"
  ld_anchor_def_spans :: "(string, nat) imap"
  ld_earlier_anchor_defs :: "(string, nat) imap"
  ld_meter :: meter
  ld_depth :: nat
  ld_in_document :: bool

definition loader_new :: "parse_config \<Rightarrow> loader" where
  "loader_new config =
     \<lparr>ld_docs = [], ld_stack = [], ld_anchor_map = [], ld_anchor_def_spans = [],
      ld_earlier_anchor_defs = [], ld_meter = meter_new config, ld_depth = 0, ld_in_document = False\<rparr>"

fun frame_segment :: "frame \<Rightarrow> string option" where
  "frame_segment (FMappingValue b k) = Some (pk_key k)"
| "frame_segment (FSequence s) = Some (show_nat (length (sq_items s)))"
| "frame_segment (FMappingKey b) = None"

definition parent_path :: "frame list \<Rightarrow> string option" where
  "parent_path frames = frames_path (map frame_segment (rev (tl frames)))"

text \<open>A charge that fails ends the parse; the meter it leaves is dropped with the loader.\<close>

definition charged :: "charge \<Rightarrow> (meter \<Rightarrow> 'a result) \<Rightarrow> 'a result" where
  "charged c f = (case c of (m, Inl e) \<Rightarrow> Inl e | (m, Inr _) \<Rightarrow> f m)"

section \<open>Pushing a node\<close>

definition is_buffered_merge_key :: "parse_config \<Rightarrow> bool \<Rightarrow> value \<Rightarrow> bool" where
  "is_buffered_merge_key config may_be_merge_key v \<longleftrightarrow>
     may_be_merge_key \<and> v = VString merge_key \<and> merge_policy config \<noteq> MergeAsOrdinary"

definition typed_key :: "parse_config \<Rightarrow> bool \<Rightarrow> value \<Rightarrow> key_shape" where
  "typed_key config may_be_merge_key v =
     (if is_buffered_merge_key config may_be_merge_key v then Other VNull else key_shape_of v)"

text \<open>The arm of a mapping that awaits a key.\<close>

definition take_key ::
  "(f64 \<Rightarrow> string) \<Rightarrow> parse_config \<Rightarrow> string \<Rightarrow> open_mapping \<Rightarrow> value \<Rightarrow> span_tree \<Rightarrow> bool \<Rightarrow> frame result" where
  "take_key fmt config input b v span may_be_merge_key =
     (let key_value = typed_key config may_be_merge_key v in
      if non_scalar_policy config = NonScalarError \<and> (is_sequence v \<or> is_mapping v)
      then Inl (NonScalarKey (if is_sequence v then ''sequence'' else ''mapping'')
                  (Some (location_from_index input (span_tree_start span))))
      else Inr (FMappingValue b
             \<lparr>pk_key = value_to_key_string fmt v, pk_key_value = key_value, pk_may_merge = may_be_merge_key,
              pk_span = (case span of Leaf s e \<Rightarrow> (s, e) | _ \<Rightarrow> (0, 0))\<rparr>))"

text \<open>The insertion of an entry under the duplicate-key policy.\<close>

definition append_entry :: "open_mapping \<Rightarrow> pending_key \<Rightarrow> value \<Rightarrow> span_tree \<Rightarrow> open_mapping" where
  "append_entry b k v span =
     (let m = imap_insert (pk_key k) v (mp_map b)
      in b\<lparr>mp_map := m, mp_span_entries := mp_span_entries b @ [(pk_span k, span)],
           mp_typed_keys := key_shape_record (mp_typed_keys b) (length m - 1) (pk_key_value k)\<rparr>)"

definition insert_entry ::
  "parse_config \<Rightarrow> string \<Rightarrow> string option \<Rightarrow> open_mapping \<Rightarrow> pending_key \<Rightarrow> value \<Rightarrow> span_tree \<Rightarrow> open_mapping result" where
  "insert_entry config input parent b k v span =
     (if length (mp_map b) \<ge> max_mapping_keys config
      then Inl (Budget (MaxMappingKeys (max_mapping_keys config) (length (mp_map b) + 1)))
      else if (case imap_index_of (mp_map b) (pk_key k) of
                 Some idx \<Rightarrow> \<not> key_shape_eq (key_shape_at (mp_typed_keys b) idx) (pk_key_value k)
               | None \<Rightarrow> False)
      then Inl (key_collision_at (pk_key k) parent (fst (pk_span k)) input)
      else case dup_key_policy config of
             DuplicateFirst \<Rightarrow>
               Inr (if imap_get (mp_map b) (pk_key k) = None then append_entry b k v span else b)
           | DuplicateLast \<Rightarrow>
               (case imap_index_of (mp_map b) (pk_key k) of
                  Some idx \<Rightarrow>
                    Inr (b\<lparr>mp_map := imap_insert (pk_key k) v (mp_map b),
                           mp_span_entries := (mp_span_entries b)[idx := (pk_span k, span)]\<rparr>)
                | None \<Rightarrow> Inr (append_entry b k v span))
           | DuplicateError \<Rightarrow>
               if imap_get (mp_map b) (pk_key k) \<noteq> None
               then Inl (duplicate_key_at (pk_key k) parent (fst (pk_span k)) input)
               else Inr (append_entry b k v span))"

definition merge_rejected :: error where
  "merge_rejected = Custom (''merge key '' @ [backtick] @ ''<<'' @ [backtick] @ '' rejected by MergeKeyPolicy::Error'')"

definition push_node ::
  "(f64 \<Rightarrow> string) \<Rightarrow> parse_config \<Rightarrow> string \<Rightarrow> value \<Rightarrow> span_tree \<Rightarrow> bool \<Rightarrow> loader \<Rightarrow> loader result" where
  "push_node fmt config input v span may_be_merge_key ld =
     (case ld_stack ld of
        [] \<Rightarrow> Inr (ld\<lparr>ld_docs := ld_docs ld @ [(v, span)]\<rparr>)
      | FSequence s # frames \<Rightarrow>
          if length (sq_items s) \<ge> max_sequence_length config
          then Inl (Budget (MaxSequenceLength (max_sequence_length config) (length (sq_items s) + 1)))
          else Inr (ld\<lparr>ld_stack := FSequence (s\<lparr>sq_items := sq_items s @ [v],
                                               sq_span_items := sq_span_items s @ [span]\<rparr>) # frames\<rparr>)
      | FMappingKey b # frames \<Rightarrow>
          and_then (take_key fmt config input b v span may_be_merge_key) (\<lambda>f.
            Inr (ld\<lparr>ld_stack := f # frames\<rparr>))
      | FMappingValue b k # frames \<Rightarrow>
          let is_merge = pk_may_merge k \<and> pk_key k = merge_key in
          if is_merge \<and> merge_policy config = MergeError then Inl merge_rejected
          else if is_merge \<and> merge_policy config \<noteq> MergeAsOrdinary
          then charged (charge_merge_key config (ld_meter ld)) (\<lambda>m.
                 Inr (ld\<lparr>ld_meter := m,
                         ld_stack := FMappingKey (b\<lparr>mp_merge_values := mp_merge_values b @ [v]\<rparr>) # frames\<rparr>))
          else and_then (insert_entry config input (parent_path (ld_stack ld)) b k v span) (\<lambda>b.
                 Inr (ld\<lparr>ld_stack := FMappingKey b # frames\<rparr>)))"

section \<open>Events\<close>

definition resolve_alias ::
  "parse_config \<Rightarrow> string \<Rightarrow> string \<Rightarrow> span \<Rightarrow> loader \<Rightarrow> ((value \<times> span_tree) \<times> loader) result" where
  "resolve_alias config input anchor span ld =
     (if \<not> ld_in_document ld then Inl (parse_at ''alias outside document'' input (span_start span))
      else charged (charge_alias config (ld_meter ld)) (\<lambda>m.
        case imap_get (ld_anchor_map ld) anchor of
          None \<Rightarrow>
            Inl (missing_anchor anchor (span_start span) input (ld_anchor_def_spans ld) (ld_earlier_anchor_defs ld))
        | Some (v, span_tree, cost) \<Rightarrow>
            charged (charge_expansion cost (ld_depth ld) config m) (\<lambda>m.
              Inr ((v, SpanAlias (span_start span, span_end span) span_tree), ld\<lparr>ld_meter := m\<rparr>))))"

definition resolve_scalar :: "parse_config \<Rightarrow> string \<Rightarrow> scalar_style \<Rightarrow> event_tag \<Rightarrow> value result" where
  "resolve_scalar config v style tag =
     (case tag of
        Some (handle, suffix) \<Rightarrow>
          if (case cfg_tag_registry config of None \<Rightarrow> False | Some r \<Rightarrow> tag_is_registry_stripped handle suffix r)
          then Inr (resolve_untagged_scalar v style config)
          else resolve_tagged_scalar handle suffix v
      | None \<Rightarrow> Inr (resolve_untagged_scalar v style config))"

definition define_anchor :: "string option \<Rightarrow> value \<Rightarrow> span_tree \<Rightarrow> loader \<Rightarrow> loader" where
  "define_anchor anchor v span ld =
     (case anchor of
        None \<Rightarrow> ld
      | Some name \<Rightarrow> ld\<lparr>ld_anchor_map := imap_insert name (v, span, of_value v) (ld_anchor_map ld)\<rparr>)"

definition note_anchor :: "string option \<Rightarrow> nat \<Rightarrow> loader \<Rightarrow> loader" where
  "note_anchor anchor start ld =
     (case anchor of
        None \<Rightarrow> ld
      | Some name \<Rightarrow> ld\<lparr>ld_anchor_def_spans := imap_insert name start (ld_anchor_def_spans ld)\<rparr>)"

definition open_collection :: "parse_config \<Rightarrow> string option \<Rightarrow> nat \<Rightarrow> frame \<Rightarrow> loader \<Rightarrow> loader result" where
  "open_collection config anchor start f ld =
     (let depth = ld_depth ld + 1 in
      if depth_exceeded depth (max_depth config) then Inl (RecursionLimitExceeded depth)
      else let ld = note_anchor anchor start (ld\<lparr>ld_depth := depth\<rparr>)
           in Inr (ld\<lparr>ld_stack := f # ld_stack ld\<rparr>))"

definition integer_overflows :: "parse_config \<Rightarrow> string \<Rightarrow> scalar_style \<Rightarrow> event_tag \<Rightarrow> bool" where
  "integer_overflows config v style tag \<longleftrightarrow>
     integer_overflow_errors config \<and> style = Plain \<and> tag = None \<and> overflows_u64_decimal v"

definition apply_event ::
  "(f64 \<Rightarrow> string) \<Rightarrow> parse_config \<Rightarrow> string \<Rightarrow> event \<Rightarrow> loader \<Rightarrow> loader result" where
  "apply_event fmt config input e ld =
     (case e of
       StreamStart \<Rightarrow> Inr ld
     | StreamEnd \<Rightarrow> Inr ld
     | DocumentStart \<Rightarrow>
         Inr (ld\<lparr>ld_in_document := True, ld_anchor_map := [],
                 ld_earlier_anchor_defs := imap_extend (ld_earlier_anchor_defs ld) (ld_anchor_def_spans ld),
                 ld_anchor_def_spans := []\<rparr>)
     | DocumentEnd \<Rightarrow> Inr (ld\<lparr>ld_in_document := False\<rparr>)
     | Alias anchor span \<Rightarrow>
         and_then (resolve_alias config input anchor span ld) (\<lambda>((v, st), ld).
           push_node fmt config input v st False ld)
     | Scalar text style anchor tag span \<Rightarrow>
         if integer_overflows config text style tag
         then Inl (IntegerOverflow (Some (location_from_index input (span_start span)))
                (frames_path (map frame_segment (rev (ld_stack ld)))))
         else and_then (resolve_scalar config text style tag) (\<lambda>v.
           let st = (if text = [] \<and> style = Plain \<and> anchor = None \<and> tag = None
                     then Leaf (span_start span) (span_start span) else Leaf (span_start span) (span_end span))
           in push_node fmt config input v st (style = Plain)
                (define_anchor anchor v st (note_anchor anchor (span_start span) ld)))
     | SequenceStart anchor tag span \<Rightarrow>
         open_collection config anchor (span_start span)
           (FSequence \<lparr>sq_items = [], sq_span_items = [], sq_start = span_start span, sq_anchor = anchor,
                       sq_tag = tag, sq_flow = starts_with_flow_bracket input (span_start span)\<rparr>) ld
     | SequenceEnd span \<Rightarrow>
         (case ld_stack ld of
            FSequence s # frames \<Rightarrow>
              let v = wrap_with_tag (VSequence (sq_items s)) (sq_tag s) (cfg_tag_registry config);
                  st_end = (if sq_flow s then span_end span
                            else max (if sq_span_items s = [] then span_end span
                                      else span_tree_end (last (sq_span_items s))) (sq_start s));
                  st = SpanSequence (sq_start s) st_end (sq_span_items s)
              in push_node fmt config input v st False
                   (define_anchor (sq_anchor s) v st (ld\<lparr>ld_depth := ld_depth ld - 1, ld_stack := frames\<rparr>))
          | _ \<Rightarrow> Inl (parse_at ''unexpected sequence end'' input (span_start span)))
     | MappingStart anchor tag span \<Rightarrow>
         open_collection config anchor (span_start span)
           (FMappingKey \<lparr>mp_map = [], mp_span_entries = [], mp_typed_keys = [], mp_start = span_start span,
                         mp_anchor = anchor, mp_merge_values = [], mp_tag = tag\<rparr>) ld
     | MappingEnd span \<Rightarrow>
         (case ld_stack ld of
            FMappingKey b # frames \<Rightarrow>
              and_then (splice_merges (mp_map b) (mp_merge_values b)) (\<lambda>m.
                let v = wrap_with_tag (VMapping m) (mp_tag b) (cfg_tag_registry config);
                    st = SpanMapping (mp_start b) (span_end span) (mp_span_entries b)
                in push_node fmt config input v st False
                     (define_anchor (mp_anchor b) v st (ld\<lparr>ld_depth := ld_depth ld - 1, ld_stack := frames\<rparr>)))
          | _ \<Rightarrow> Inl (parse_at ''unexpected mapping end'' input (span_start span))))"

definition process_event ::
  "(f64 \<Rightarrow> string) \<Rightarrow> parse_config \<Rightarrow> string \<Rightarrow> event \<Rightarrow> loader \<Rightarrow> loader result" where
  "process_event fmt config input e ld =
     charged (charge_event e config (ld_meter ld)) (\<lambda>m.
       apply_event fmt config input e (ld\<lparr>ld_meter := m\<rparr>))"

section \<open>Loading\<close>

text \<open>\<open>load\<close>: the parser's events until the end of the stream, the first error ends it.\<close>

function load_loop ::
  "(f64 \<Rightarrow> string) \<Rightarrow> parse_config \<Rightarrow> (token_kind \<Rightarrow> string) \<Rightarrow> string \<Rightarrow> parser \<Rightarrow> loader \<Rightarrow> loader result" where
  "load_loop fmt config node_text input p ld =
     (case next_event p of
        Inl e \<Rightarrow> Inl (into_error node_text e input (max_events config))
      | Inr (e, q) \<Rightarrow>
          if e = StreamEnd then process_event fmt config input StreamEnd ld
          else (case process_event fmt config input e ld of
                  Inl err \<Rightarrow> Inl err
                | Inr ld \<Rightarrow> load_loop fmt config node_text input q ld))"
  by pat_completeness auto

termination
  by (relation "measure (\<lambda>(fmt, config, node_text, input, p, ld). potential p)") (auto dest: next_event_decreases)

declare load_loop.simps [simp del]

definition load ::
  "(f64 \<Rightarrow> string) \<Rightarrow> parse_config \<Rightarrow> (token_kind \<Rightarrow> string) \<Rightarrow> string \<Rightarrow> parser \<Rightarrow> (value \<times> span_tree) list result" where
  "load fmt config node_text input p =
     and_then (load_loop fmt config node_text input p (loader_new config)) (\<lambda>ld. Inr (ld_docs ld))"

definition load_exactly_one ::
  "(f64 \<Rightarrow> string) \<Rightarrow> parse_config \<Rightarrow> (token_kind \<Rightarrow> string) \<Rightarrow> string \<Rightarrow> parser \<Rightarrow> (value \<times> span_tree) result" where
  "load_exactly_one fmt config node_text input p =
     and_then (load fmt config node_text input p) (\<lambda>docs.
       if length docs > 1 then Inl MoreThanOneDocument
       else Inr (case docs of [] \<Rightarrow> (VNull, Leaf 0 0) | d # _ \<Rightarrow> d))"

end
