(* ===== verification/Loader_Invariant.thy ===== *)
theory Loader_Invariant
  imports Loader
begin

text \<open>
  The invariant of the tree builder, kept by every event of any stream: as many frames as levels of
  depth; in a frame with \<open>n\<close> frames below it, no value higher than what \<open>max_depth\<close> leaves there;
  mappings with distinct keys; span trees that mirror the values they belong to; anchors stored with
  their exact cost.  The properties of a whole load follow for any token sequence.
\<close>

section \<open>What a loaded value looks like\<close>

fun well_built :: "nat \<Rightarrow> value \<Rightarrow> bool" where
  "well_built limit (VNumber n) = (case n of Integer i \<Rightarrow> fits_i64 i | Float f \<Rightarrow> True)"
| "well_built limit (VSequence xs) = (length xs \<le> limit \<and> list_all (well_built limit) xs)"
| "well_built limit (VMapping m) = (imap_valid m \<and> list_all (\<lambda>(k, v). well_built limit v) m)"
| "well_built limit (VTagged t v) = well_built limit v"
| "well_built limit v = True"

fun is_scalar :: "value \<Rightarrow> bool" where
  "is_scalar (VSequence _) = False"
| "is_scalar (VMapping _) = False"
| "is_scalar _ = True"

text \<open>
  The tree of spans has the shape of the value: an alias stands for its target, a mapping's
  entries are its first ones, in order (merged keys come after and have no span of their own).
\<close>

fun mirrors :: "span_tree \<Rightarrow> value \<Rightarrow> bool" where
  "mirrors (Leaf s e) v = is_scalar (untag_ref v)"
| "mirrors (SpanAlias at target) v = mirrors target v"
| "mirrors (SpanSequence s e items) v =
     (case untag_ref v of VSequence xs \<Rightarrow> list_all2 mirrors items xs | _ \<Rightarrow> False)"
| "mirrors (SpanMapping s e entries) v =
     (case untag_ref v of
        VMapping m \<Rightarrow>
          length entries \<le> length m
          \<and> list_all2 (\<lambda>(ks, st) (k, x). mirrors st x) entries (take (length entries) m)
      | _ \<Rightarrow> False)"

definition node_ok :: "parse_config \<Rightarrow> nat \<Rightarrow> span_tree \<Rightarrow> value \<Rightarrow> bool" where
  "node_ok c room st v \<longleftrightarrow>
     well_built (max_sequence_length c) v \<and> value_height v \<le> room \<and> mirrors st v"

definition entry_ok :: "parse_config \<Rightarrow> nat \<Rightarrow> (nat \<times> nat) \<times> span_tree \<Rightarrow> string \<times> value \<Rightarrow> bool" where
  "entry_ok c room se kv \<longleftrightarrow> node_ok c room (snd se) (snd kv)"

definition loose_ok :: "parse_config \<Rightarrow> nat \<Rightarrow> value \<Rightarrow> bool" where
  "loose_ok c room v \<longleftrightarrow> well_built (max_sequence_length c) v \<and> value_height v \<le> room"

definition mapping_ok :: "parse_config \<Rightarrow> nat \<Rightarrow> open_mapping \<Rightarrow> bool" where
  "mapping_ok c room b \<longleftrightarrow>
     imap_valid (mp_map b) \<and> list_all2 (entry_ok c room) (mp_span_entries b) (mp_map b)
     \<and> length (mp_map b) \<le> max_mapping_keys c
     \<and> (mp_typed_keys b = [] \<or> length (mp_typed_keys b) = length (mp_map b))
     \<and> list_all (loose_ok c room) (mp_merge_values b)"

fun frame_ok :: "parse_config \<Rightarrow> nat \<Rightarrow> frame \<Rightarrow> bool" where
  "frame_ok c room (FSequence s) =
     (length (sq_items s) \<le> max_sequence_length c
      \<and> list_all2 (node_ok c room) (sq_span_items s) (sq_items s))"
| "frame_ok c room (FMappingKey b) = mapping_ok c room b"
| "frame_ok c room (FMappingValue b k) = mapping_ok c room b"

definition depth_limit :: "parse_config \<Rightarrow> nat" where
  "depth_limit c = effective_max_depth (max_depth c)"

fun frames_ok :: "parse_config \<Rightarrow> frame list \<Rightarrow> bool" where
  "frames_ok c [] = True"
| "frames_ok c (f # fs) = (frame_ok c (depth_limit c - Suc (length fs)) f \<and> frames_ok c fs)"

definition anchors_ok :: "parse_config \<Rightarrow> (string \<times> value \<times> span_tree \<times> alias_cost) list \<Rightarrow> bool" where
  "anchors_ok c anchors \<longleftrightarrow>
     (\<forall>(name, v, st, cost) \<in> set anchors. node_ok c (depth_limit c) st v \<and> cost = of_value v)"

definition loader_ok :: "parse_config \<Rightarrow> loader \<Rightarrow> bool" where
  "loader_ok c ld \<longleftrightarrow>
     ld_depth ld = length (ld_stack ld) \<and> ld_depth ld \<le> depth_limit c
     \<and> frames_ok c (ld_stack ld) \<and> anchors_ok c (ld_anchor_map ld)
     \<and> list_all (\<lambda>(v, st). node_ok c (depth_limit c) st v) (ld_docs ld)"

text \<open>The height left at the place where the next node goes.\<close>

definition room :: "parse_config \<Rightarrow> loader \<Rightarrow> nat" where
  "room c ld = depth_limit c - length (ld_stack ld)"

section \<open>Scalars and tags\<close>

lemma untag_scalar: "well_built l v \<Longrightarrow> value_height v = 0 \<Longrightarrow> is_scalar (untag_ref v)"
  by (induction v) auto

lemma resolve_untagged_shape:
  "value_height (resolve_untagged_scalar v style c) = 0 \<and> \<not> is_tagged (resolve_untagged_scalar v style c)"
  unfolding resolve_untagged_scalar_def by (auto split: option.split scalar.split)

lemma untagged_well_built: "well_built l (resolve_untagged_scalar v style c)"
proof (cases "resolve_untagged_scalar v style c")
  case (VNumber n)
  then show ?thesis using untagged_fits[of v style c] by (cases n) auto
qed (use resolve_untagged_shape[of v style c] in auto)

lemma resolve_tagged_shape:
  assumes "resolve_tagged_scalar handle suffix v = Inr w"
  shows "value_height w = 0 \<and> (is_tagged w \<longrightarrow> (\<exists>t. w = VTagged t (VString v)))"
  using assms unfolding resolve_tagged_scalar_def resolve_tagged_int_def resolve_tagged_float_def
    parse_tagged_integer_def parse_tagged_decimal_integer_def Let_def
  by (auto dest!: if_either split: option.splits)

lemma tagged_well_built:
  assumes "resolve_tagged_scalar handle suffix v = Inr w"
  shows "well_built l w"
proof (cases w)
  case (VNumber n)
  then show ?thesis using tagged_fits[of handle suffix v] assms by (cases n) auto
qed (use resolve_tagged_shape[OF assms] in auto)

lemma resolve_scalar_ok: "resolve_scalar c v style tag = Inr w \<Longrightarrow> well_built l w \<and> value_height w = 0"
  by (auto simp: resolve_scalar_def untagged_well_built resolve_untagged_shape resolve_tagged_shape tagged_well_built
      split: option.splits if_splits prod.splits)

lemma wrap_with_tag_ok:
  "well_built l (wrap_with_tag v tag r) = well_built l v"
  "value_height (wrap_with_tag v tag r) = value_height v"
  "untag_ref (wrap_with_tag v tag r) = untag_ref v"
  by (auto simp: wrap_with_tag_def split: option.split)

lemma mirrors_untag: "untag_ref v = untag_ref w \<Longrightarrow> mirrors st v = mirrors st w"
  by (induction st) auto

section \<open>Heights and rooms\<close>

lemma node_ok_mono: "node_ok c n st v \<Longrightarrow> n \<le> n' \<Longrightarrow> node_ok c n' st v"
  by (auto simp: node_ok_def)

lemma node_ok_loose: "node_ok c n st v \<Longrightarrow> loose_ok c n v"
  by (simp add: node_ok_def loose_ok_def)

lemma sequence_node_ok:
  assumes "list_all2 (node_ok c n) sts xs" and "length xs \<le> max_sequence_length c"
  shows "node_ok c (Suc n) (SpanSequence s e sts) (wrap_with_tag (VSequence xs) tag r)"
proof -
  have "list_all2 mirrors sts xs" "list_all (well_built (max_sequence_length c)) xs" "max_of (map value_height xs) \<le> n"
    using assms(1) by (auto simp: node_ok_def list_all2_conv_all_nth list_all_length max_of_le in_set_conv_nth)
  then show ?thesis using assms(2) by (simp add: node_ok_def wrap_with_tag_ok)
qed

lemma mapping_node_ok:
  assumes "imap_valid m" and "list_all (\<lambda>(k, v). loose_ok c n v) m"
    and "length sts \<le> length m" and "list_all2 (entry_ok c n) sts (take (length sts) m)"
  shows "node_ok c (Suc n) (SpanMapping s e sts) (wrap_with_tag (VMapping m) tag r)"
proof -
  have "list_all2 (\<lambda>(ks, st) (k, x). mirrors st x) sts (take (length sts) m)"
    using assms(4) by (rule list_all2_mono) (auto simp: entry_ok_def node_ok_def)
  moreover have "list_all (\<lambda>(k, v). well_built (max_sequence_length c) v) m"
      "max_of (map (\<lambda>(k, v). value_height v) m) \<le> n"
    using assms(2) by (auto simp: loose_ok_def list_all_iff max_of_le)
  ultimately show ?thesis using assms(1,3) by (simp add: node_ok_def wrap_with_tag_ok)
qed

lemma scalar_node_ok: "well_built (max_sequence_length c) v \<Longrightarrow> value_height v = 0 \<Longrightarrow> node_ok c n (Leaf s e) v"
  by (simp add: node_ok_def untag_scalar)

section \<open>Merging\<close>

lemma imap_fill_extends: "\<exists>t. imap_fill m kvs = m @ t"
proof (induction kvs arbitrary: m)
  case (Cons kv kvs)
  obtain k v where kv: "kv = (k, v)" by (cases kv)
  have "\<exists>t. imap_or_insert k v m = m @ t"
    by (auto simp: imap_or_insert_def imap_insert_absent)
  with Cons[of "imap_or_insert k v m"] show ?case by (auto simp: imap_fill_def kv)
qed (simp add: imap_fill_def)

definition entries_ok :: "parse_config \<Rightarrow> nat \<Rightarrow> mapping \<Rightarrow> bool" where
  "entries_ok c n m \<longleftrightarrow> imap_valid m \<and> list_all (\<lambda>(k, v). loose_ok c n v) m"

lemma loose_ok_mapping: "loose_ok c n (VMapping m) \<Longrightarrow> 0 < n \<and> entries_ok c (n - 1) m"
proof -
  assume a: "loose_ok c n (VMapping m)"
  then have "max_of (map (\<lambda>(k, v). value_height v) m) \<le> n - 1" and "0 < n" by (auto simp: loose_ok_def)
  with a show ?thesis unfolding max_of_le by (fastforce simp: loose_ok_def entries_ok_def list_all_iff)
qed

lemma loose_ok_sequence: "loose_ok c n (VSequence s) \<Longrightarrow> list_all (loose_ok c n) s"
proof -
  assume a: "loose_ok c n (VSequence s)"
  then have "max_of (map value_height s) \<le> n" by (auto simp: loose_ok_def)
  with a show ?thesis unfolding max_of_le by (auto simp: loose_ok_def list_all_iff)
qed

lemma entries_ok_fill:
  assumes "entries_ok c n m" and "entries_ok c n kvs"
  shows "entries_ok c n (imap_fill m kvs)"
  using assms imap_fill_set[of m kvs] by (fastforce simp: entries_ok_def imap_fill_valid list_all_iff)

lemma entries_ok_mono: "entries_ok c n m \<Longrightarrow> n \<le> n' \<Longrightarrow> entries_ok c n' m"
  by (fastforce simp: entries_ok_def loose_ok_def list_all_iff)

lemma splice_merges_ok:
  "loose_ok c n v \<Longrightarrow> entries_ok c n m \<Longrightarrow> splice_merge m v = Inr m' \<Longrightarrow>
     entries_ok c n m' \<and> (\<exists>t. m' = m @ t)"
  "list_all (loose_ok c n) vs \<Longrightarrow> entries_ok c n m \<Longrightarrow> splice_merges m vs = Inr m' \<Longrightarrow>
     entries_ok c n m' \<and> (\<exists>t. m' = m @ t)"
proof (induction m v and m vs arbitrary: m' and m' rule: splice_merge_splice_merges.induct)
  case (1 m source)
  then have "entries_ok c n source"
    using loose_ok_mapping entries_ok_mono by (metis diff_le_self)
  with 1 show ?case using entries_ok_fill imap_fill_extends by auto
next
  case (2 m s)
  then show ?case using loose_ok_sequence by simp
next
  case (6 m v vs)
  obtain u where u: "splice_merge m v = Inr u" "splice_merges u vs = Inr m'"
    using "6.prems"(3) by (auto simp: res_simps)
  have "entries_ok c n u \<and> (\<exists>t. u = m @ t)"
    using "6.IH"(1)[OF _ "6.prems"(2) u(1)] "6.prems"(1) by simp
  moreover from this have "entries_ok c n m' \<and> (\<exists>t. m' = u @ t)"
    using "6.IH"(2)[OF u(1)] "6.prems"(1) u(2) by simp
  ultimately show ?case by auto
qed auto

section \<open>Pushing a node\<close>

lemma charged_Inr: "charged x f = Inr y \<longleftrightarrow> (\<exists>m. x = (m, Inr ()) \<and> f m = Inr y)"
  by (cases x; cases "snd x") (auto simp: charged_def)

lemma typed_keys_record:
  assumes "ks = [] \<or> length ks = n"
  shows "key_shape_record ks n shape = [] \<or> length (key_shape_record ks n shape) = Suc n"
  using assms by (auto simp: key_shape_record_def)

lemma append_entry_ok:
  assumes "mapping_ok c n b" and "node_ok c n st v" and "imap_get (mp_map b) (pk_key k) = None"
    and "length (mp_map b) < max_mapping_keys c"
  shows "mapping_ok c n (append_entry b k v st)"
proof -
  have m: "imap_insert (pk_key k) v (mp_map b) = mp_map b @ [(pk_key k, v)]"
    by (rule imap_insert_absent[OF assms(3)])
  have "imap_valid (mp_map b @ [(pk_key k, v)])"
    using assms(1) imap_insert_valid[of "mp_map b" "pk_key k" v] by (simp add: mapping_ok_def m)
  moreover have "list_all2 (entry_ok c n) (mp_span_entries b @ [(pk_span k, st)]) (mp_map b @ [(pk_key k, v)])"
    using assms(1,2) by (auto simp: mapping_ok_def entry_ok_def intro!: list_all2_appendI)
  ultimately show ?thesis
    using assms(1,4) typed_keys_record[of "mp_typed_keys b" "length (mp_map b)" "pk_key_value k"]
    by (simp add: mapping_ok_def append_entry_def m Let_def)
qed

lemma replace_entry_ok:
  assumes "mapping_ok c n b" and "node_ok c n st v" and "imap_index_of (mp_map b) key = Some idx"
  shows "mapping_ok c n (b\<lparr>mp_map := imap_insert key v (mp_map b),
           mp_span_entries := (mp_span_entries b)[idx := (ks, st)]\<rparr>)"
proof -
  have m: "imap_insert key v (mp_map b) = (mp_map b)[idx := (key, v)]"
    by (rule imap_insert_present[OF assms(3)])
  have "imap_valid ((mp_map b)[idx := (key, v)])"
    using assms(1) imap_insert_valid[of "mp_map b" key v] by (simp add: mapping_ok_def m)
  then show ?thesis
    using assms(1,2) by (auto simp: mapping_ok_def m entry_ok_def intro: list_all2_update_cong)
qed

lemma insert_entry_ok:
  assumes "insert_entry c input parent b k v st = Inr b'" and "mapping_ok c n b" and "node_ok c n st v"
  shows "mapping_ok c n b'"
  using assms append_entry_ok[OF assms(2,3)] replace_entry_ok[OF assms(2,3), where ks = "pk_span k"]
  by (auto simp: insert_entry_def imap_index_of_None not_le
      split: if_splits option.splits duplicate_key_policy.splits)

lemma take_key_ok:
  assumes "take_key fmt c input b v st mk = Inr f" and "mapping_ok c n b"
  shows "frame_ok c n f"
  using assms by (auto simp: take_key_def Let_def split: if_splits)

lemma frame_ok_merge_value:
  "mapping_ok c n b \<Longrightarrow> loose_ok c n v \<Longrightarrow> mapping_ok c n (b\<lparr>mp_merge_values := mp_merge_values b @ [v]\<rparr>)"
  by (simp add: mapping_ok_def)

lemma push_node_ok:
  assumes ok: "loader_ok c ld" and v: "node_ok c (room c ld) st v"
    and push: "push_node fmt c input v st mk ld = Inr ld'"
  shows "loader_ok c ld'"
proof (cases "ld_stack ld")
  case Nil
  then show ?thesis using assms by (auto simp: push_node_def loader_ok_def room_def)
next
  case (Cons f frames)
  let ?n = "depth_limit c - Suc (length frames)"
  have n: "node_ok c ?n st v" using v by (simp add: room_def Cons)
  have f: "frame_ok c ?n f" using ok by (simp add: loader_ok_def Cons)
  have replaced: "loader_ok c (ld\<lparr>ld_meter := m, ld_stack := g # frames\<rparr>)" if "frame_ok c ?n g" for g m
    using ok that by (simp add: loader_ok_def Cons)
  have replaced': "loader_ok c (ld\<lparr>ld_stack := g # frames\<rparr>)" if "frame_ok c ?n g" for g
    using ok that by (simp add: loader_ok_def Cons)
  show ?thesis
  proof (cases f)
    case (FSequence s)
    have "frame_ok c ?n (FSequence (s\<lparr>sq_items := sq_items s @ [v], sq_span_items := sq_span_items s @ [st]\<rparr>))"
      if "\<not> max_sequence_length c \<le> length (sq_items s)"
      using f n that by (auto simp: FSequence intro!: list_all2_appendI)
    then show ?thesis
      using push replaced' by (auto simp: push_node_def Cons FSequence split: if_splits)
  next
    case (FMappingKey b)
    then show ?thesis
      using push f replaced' take_key_ok[of fmt c input b v st mk _ ?n]
      by (auto simp: push_node_def Cons res_simps)
  next
    case (FMappingValue b k)
    have b: "mapping_ok c ?n b" using f by (simp add: FMappingValue)
    note node_ok_loose[OF n]
    then have "frame_ok c ?n (FMappingKey (b\<lparr>mp_merge_values := mp_merge_values b @ [v]\<rparr>))"
      using frame_ok_merge_value[OF b] by simp
    moreover have "frame_ok c ?n (FMappingKey b')" if "insert_entry c input parent b k v st = Inr b'" for b' parent
      using insert_entry_ok[OF that b n] by simp
    ultimately show ?thesis
      using push replaced replaced'
      by (auto simp: push_node_def Cons FMappingValue Let_def res_simps charged_Inr split: if_splits)
  qed
qed

section \<open>Events\<close>

lemma loader_ok_updates:
  "loader_ok c (ld\<lparr>ld_meter := m\<rparr>) = loader_ok c ld"
  "loader_ok c (ld\<lparr>ld_in_document := d\<rparr>) = loader_ok c ld"
  "loader_ok c (note_anchor a start ld) = loader_ok c ld"
  "room c (ld\<lparr>ld_meter := m\<rparr>) = room c ld"
  "room c (note_anchor a start ld) = room c ld"
  "room c (define_anchor a v st ld) = room c ld"
  by (simp_all add: loader_ok_def room_def note_anchor_def define_anchor_def split: option.split)

lemma define_anchor_ok:
  "loader_ok c ld \<Longrightarrow> node_ok c (depth_limit c) st v \<Longrightarrow> loader_ok c (define_anchor a v st ld)"
  using imap_insert_set[of _ "(v, st, of_value v)" "ld_anchor_map ld"]
  by (fastforce simp: define_anchor_def loader_ok_def anchors_ok_def split: option.split)

lemma room_le: "room c ld \<le> depth_limit c"
  by (simp add: room_def)

lemma resolve_alias_ok:
  assumes "loader_ok c ld" and "resolve_alias c input anchor sp ld = Inr ((v, st), ld')"
  shows "loader_ok c ld' \<and> node_ok c (room c ld') st v"
proof -
  from assms(2) obtain m1 where "(case imap_get (ld_anchor_map ld) anchor of
          None \<Rightarrow>
            Inl (missing_anchor anchor (span_start sp) input (ld_anchor_def_spans ld) (ld_earlier_anchor_defs ld))
        | Some (v, span_tree, cost) \<Rightarrow>
            charged (charge_expansion cost (ld_depth ld) c m1) (\<lambda>m.
              Inr ((v, SpanAlias (span_start sp, span_end sp) span_tree), ld\<lparr>ld_meter := m\<rparr>)))
      = Inr ((v, st), ld')"
    unfolding resolve_alias_def by (simp add: charged_Inr split: if_splits) blast
  then obtain m2 st0 cost where r: "imap_get (ld_anchor_map ld) anchor = Some (v, st0, cost)"
    "charge_expansion cost (ld_depth ld) c m1 = (m2, Inr ())" "ld' = ld\<lparr>ld_meter := m2\<rparr>"
    "st = SpanAlias (span_start sp, span_end sp) st0"
    by (cases "imap_get (ld_anchor_map ld) anchor") (auto simp: charged_Inr)
  have "node_ok c (depth_limit c) st0 v" "cost = of_value v"
    using assms(1) imap_get_in_set[OF r(1)] by (auto simp: loader_ok_def anchors_ok_def)
  moreover have "ld_depth ld + value_height v \<le> depth_limit c"
    using charge_expansion_ok[OF r(2)] calculation(2) by (simp add: depth_limit_def of_value_exact measured_def)
  ultimately show ?thesis
    using assms(1) r(3,4) by (auto simp: loader_ok_updates node_ok_def room_def loader_ok_def)
qed

lemma open_collection_ok:
  assumes "loader_ok c ld" and "open_collection c anchor start f ld = Inr ld'" and "\<And>n. frame_ok c n f"
  shows "loader_ok c ld'"
  using assms
  by (auto simp: open_collection_def Let_def depth_exceeded_def depth_limit_def loader_ok_def note_anchor_def
      split: if_splits option.splits)

text \<open>Closing the top collection frees one level.\<close>

lemma close_collection_ok:
  assumes "loader_ok c ld" and "ld_stack ld = f # frames"
    and "node_ok c (Suc (depth_limit c - Suc (length frames))) st v"
    and "push_node fmt c input v st mk
      (define_anchor a v st (ld\<lparr>ld_depth := ld_depth ld - 1, ld_stack := frames\<rparr>)) = Inr ld'"
  shows "loader_ok c ld'"
proof -
  let ?ld = "ld\<lparr>ld_depth := ld_depth ld - 1, ld_stack := frames\<rparr>"
  have "Suc (length frames) \<le> depth_limit c" using assms(1,2) by (simp add: loader_ok_def)
  then have r: "Suc (depth_limit c - Suc (length frames)) = room c ?ld" by (simp add: room_def)
  have "loader_ok c ?ld" using assms(1,2) by (simp add: loader_ok_def)
  moreover have "node_ok c (depth_limit c) st v"
    using node_ok_mono[OF assms(3)[unfolded r] room_le] .
  ultimately have "loader_ok c (define_anchor a v st ?ld)" by (rule define_anchor_ok)
  from push_node_ok[OF this _ assms(4)] show ?thesis
    using assms(3) unfolding r by (simp add: loader_ok_updates)
qed

lemma sequence_end_ok:
  assumes "loader_ok c ld" and "ld_stack ld = FSequence s # frames"
  shows "node_ok c (Suc (depth_limit c - Suc (length frames)))
    (SpanSequence st e (sq_span_items s)) (wrap_with_tag (VSequence (sq_items s)) tag r)"
  using assms by (intro sequence_node_ok) (auto simp: loader_ok_def)

lemma mapping_end_ok:
  assumes "loader_ok c ld" and "ld_stack ld = FMappingKey b # frames"
    and "splice_merges (mp_map b) (mp_merge_values b) = Inr m"
  shows "node_ok c (Suc (depth_limit c - Suc (length frames)))
    (SpanMapping st e (mp_span_entries b)) (wrap_with_tag (VMapping m) tag r)"
proof -
  let ?n = "depth_limit c - Suc (length frames)"
  have b: "mapping_ok c ?n b" using assms(1,2) by (simp add: loader_ok_def)
  then have l: "list_all2 (entry_ok c ?n) (mp_span_entries b) (mp_map b)" by (simp add: mapping_ok_def)
  have "loose_ok c ?n v" if "(k, v) \<in> set (mp_map b)" for k v
    using that l by (fastforce simp: list_all2_conv_all_nth in_set_conv_nth entry_ok_def dest: node_ok_loose)
  then have "entries_ok c ?n (mp_map b)"
    using b by (auto simp: entries_ok_def mapping_ok_def list_all_iff)
  then obtain t where t: "entries_ok c ?n m" "m = mp_map b @ t"
    using splice_merges_ok(2)[OF _ _ assms(3)] b by (auto simp: mapping_ok_def)
  have "length (mp_span_entries b) = length (mp_map b)" using l by (rule list_all2_lengthD)
  then show ?thesis
    using t l by (intro mapping_node_ok) (auto simp: entries_ok_def)
qed

lemma process_event_ok:
  assumes ok: "loader_ok c ld0" and ev: "process_event fmt c input e ld0 = Inr ld'"
  shows "loader_ok c ld'"
proof -
  obtain m where m: "charge_event e c (ld_meter ld0) = (m, Inr ())"
    using ev by (auto simp: process_event_def charged_Inr)
  define ld where "ld = ld0\<lparr>ld_meter := m\<rparr>"
  have ld: "loader_ok c ld" using ok by (simp add: ld_def loader_ok_updates)
  note step = ev[unfolded process_event_def m charged_def prod.case sum.case, folded ld_def, unfolded apply_event_def Let_def]
  show ?thesis
  proof (cases e)
    case (Alias anchor span)
    then obtain v st ld1 where r: "resolve_alias c input anchor span ld = Inr ((v, st), ld1)"
      "push_node fmt c input v st False ld1 = Inr ld'"
      using step by (auto simp: res_simps)
    show ?thesis using resolve_alias_ok[OF ld r(1)] push_node_ok[OF _ _ r(2)] by blast
  next
    case (Scalar v style anchor tag span)
    then obtain w s e where w: "resolve_scalar c v style tag = Inr w"
      "push_node fmt c input w (Leaf s e) (style = Plain)
         (define_anchor anchor w (Leaf s e) (note_anchor anchor (span_start span) ld)) = Inr ld'"
      using step by (auto simp: res_simps split: if_splits)
    have n: "node_ok c n (Leaf s e) w" for n
      using resolve_scalar_ok[OF w(1)] scalar_node_ok by blast
    have "loader_ok c (define_anchor anchor w (Leaf s e) (note_anchor anchor (span_start span) ld))"
      using ld n by (intro define_anchor_ok) (simp_all add: loader_ok_updates)
    from push_node_ok[OF this n w(2)] show ?thesis .
  next
    case (SequenceStart anchor tag span)
    from open_collection_ok[OF ld step[unfolded SequenceStart event.case]] show ?thesis by simp
  next
    case (MappingStart anchor tag span)
    from open_collection_ok[OF ld step[unfolded MappingStart event.case]] show ?thesis
      by (simp add: mapping_ok_def)
  next
    case (SequenceEnd span)
    then obtain s frames where st: "ld_stack ld = FSequence s # frames"
      using step by (auto split: list.splits frame.splits)
    show ?thesis
      using step close_collection_ok[OF ld st sequence_end_ok[OF ld st]]
      by (simp add: SequenceEnd st)
  next
    case (MappingEnd span)
    then obtain b frames n where st: "ld_stack ld = FMappingKey b # frames"
      "splice_merges (mp_map b) (mp_merge_values b) = Inr n"
      using step by (auto simp: res_simps split: list.splits frame.splits)
    show ?thesis
      using step close_collection_ok[OF ld st(1) mapping_end_ok[OF ld st]]
      by (simp add: MappingEnd st)
  qed (use step ld in \<open>auto simp: loader_ok_def anchors_ok_def\<close>)
qed

lemma loader_new_ok: "loader_ok c (loader_new c)"
  by (simp add: loader_ok_def loader_new_def anchors_ok_def)

lemma load_loop_ok:
  "loader_ok c ld \<Longrightarrow> load_loop fmt c node_text input p ld = Inr ld' \<Longrightarrow> loader_ok c ld'"
proof (induction fmt c node_text input p ld rule: load_loop.induct)
  case (1 fmt c node_text input p ld)
  from "1.prems"(2) show ?case
    using "1.IH" process_event_ok[OF "1.prems"(1)]
    by (subst (asm) load_loop.simps) (auto split: sum.splits prod.splits if_splits)
qed

lemma load_ok:
  "load fmt c node_text input p = Inr docs \<Longrightarrow> list_all (\<lambda>(v, st). node_ok c (depth_limit c) st v) docs"
  using load_loop_ok[OF loader_new_ok] by (auto simp: load_def res_simps loader_ok_def)

section \<open>Span trees that cover their values\<close>

text \<open>
  A tree that covers its value has a subtree for every item and every entry, in their order.  A
  mapping that took keys from a merge is the one case in which a tree mirrors its value and does not
  cover it, so the invariant holds as long as the meter has counted no merge key.
\<close>

fun covers :: "span_tree \<Rightarrow> value \<Rightarrow> bool" where
  "covers (Leaf s e) v = is_scalar (untag_ref v)"
| "covers (SpanAlias at target) v = covers target v"
| "covers (SpanSequence s e items) v =
     (case untag_ref v of VSequence xs \<Rightarrow> list_all2 covers items xs | _ \<Rightarrow> False)"
| "covers (SpanMapping s e entries) v =
     (case untag_ref v of
        VMapping m \<Rightarrow> list_all2 (\<lambda>(ks, st) (k, x). covers st x) entries m
      | _ \<Rightarrow> False)"

lemma covers_untag: "untag_ref v = untag_ref w \<Longrightarrow> covers st v = covers st w"
  by (induction st) auto

definition mapping_covered :: "open_mapping \<Rightarrow> bool" where
  "mapping_covered b \<longleftrightarrow> mp_merge_values b = []
     \<and> list_all2 (\<lambda>(ks, st) (k, x). covers st x) (mp_span_entries b) (mp_map b)"

fun frame_covered :: "frame \<Rightarrow> bool" where
  "frame_covered (FSequence s) = list_all2 covers (sq_span_items s) (sq_items s)"
| "frame_covered (FMappingKey b) = mapping_covered b"
| "frame_covered (FMappingValue b k) = mapping_covered b"

definition all_covered :: "loader \<Rightarrow> bool" where
  "all_covered ld \<longleftrightarrow>
     list_all frame_covered (ld_stack ld)
     \<and> (\<forall>(name, v, st, cost) \<in> set (ld_anchor_map ld). covers st v)
     \<and> list_all (\<lambda>(v, st). covers st v) (ld_docs ld)"

definition merge_count :: "loader \<Rightarrow> nat" where
  "merge_count ld = m_merge_keys (ld_meter ld)"

text \<open>No charge takes a merge key back.\<close>

lemma charges_keep_merge_keys:
  "charge_event e c m = (n, Inr ()) \<Longrightarrow> m_merge_keys n = m_merge_keys m"
  "charge_alias c m = (n, r) \<Longrightarrow> m_merge_keys n = m_merge_keys m"
  "charge_expansion cost d c m = (n, r) \<Longrightarrow> m_merge_keys n = m_merge_keys m"
  "charge_merge_key c m = (n, r) \<Longrightarrow> 0 < m_merge_keys n"
proof -
  show "charge_event e c m = (n, Inr ()) \<Longrightarrow> m_merge_keys n = m_merge_keys m"
    by (cases e) (auto simp: charge_event_def charge_counted_event_def charge_node_def
        charge_scalar_bytes_def start_document_def Let_def then_charge_ok split: prod.splits if_splits)
  show "charge_alias c m = (n, r) \<Longrightarrow> m_merge_keys n = m_merge_keys m"
    by (auto simp: charge_alias_def Let_def)
  show "charge_expansion cost d c m = (n, r) \<Longrightarrow> m_merge_keys n = m_merge_keys m"
    by (auto simp: charge_expansion_def Let_def split: if_splits prod.splits option.splits)
  show "charge_merge_key c m = (n, r) \<Longrightarrow> 0 < m_merge_keys n"
    by (auto simp: charge_merge_key_def tally_charge_def Let_def sat_add_def usize_max_def
        split: option.splits prod.splits)
qed

lemma insert_entry_covered:
  assumes "insert_entry c input parent b k v st = Inr b'" and "mapping_covered b" and "covers st v"
  shows "mapping_covered b'"
proof -
  have app: "mapping_covered (append_entry b k v st)" if "imap_get (mp_map b) (pk_key k) = None"
    using assms(2,3) imap_insert_absent[OF that, of v]
    by (auto simp: mapping_covered_def append_entry_def Let_def intro!: list_all2_appendI)
  have rep: "mapping_covered (b\<lparr>mp_map := imap_insert (pk_key k) v (mp_map b),
      mp_span_entries := (mp_span_entries b)[idx := (pk_span k, st)]\<rparr>)"
    if "imap_index_of (mp_map b) (pk_key k) = Some idx" for idx
    using assms(2,3) imap_insert_present[OF that, of v]
    by (auto simp: mapping_covered_def intro!: list_all2_update_cong)
  show ?thesis
  proof (cases "dup_key_policy c")
    case DuplicateLast
    show ?thesis
    proof (cases "imap_index_of (mp_map b) (pk_key k)")
      case None
      then have "imap_get (mp_map b) (pk_key k) = None" by (simp add: imap_index_of_None)
      then show ?thesis using assms(1) DuplicateLast None app by (auto simp: insert_entry_def split: if_splits)
    next
      case (Some idx)
      then show ?thesis using assms(1) DuplicateLast rep[OF Some] by (auto simp: insert_entry_def split: if_splits)
    qed
  qed (use assms(1,2) app in \<open>auto simp: insert_entry_def split: if_splits\<close>)
qed

lemma push_node_covered:
  assumes ok: "all_covered ld" and v: "covers st v"
    and push: "push_node fmt c input v st mk ld = Inr ld'" and none: "merge_count ld' = 0"
  shows "all_covered ld'"
proof (cases "ld_stack ld")
  case Nil
  then show ?thesis using assms by (auto simp: push_node_def all_covered_def)
next
  case (Cons f frames)
  have f: "frame_covered f" using ok by (simp add: all_covered_def Cons)
  have replaced: "all_covered (ld\<lparr>ld_stack := g # frames\<rparr>)" if "frame_covered g" for g
    using ok that by (simp add: all_covered_def Cons)
  show ?thesis
  proof (cases f)
    case (FSequence s)
    have "frame_covered (FSequence (s\<lparr>sq_items := sq_items s @ [v], sq_span_items := sq_span_items s @ [st]\<rparr>))"
      using f v by (auto simp: FSequence intro!: list_all2_appendI)
    then show ?thesis using push replaced by (auto simp: push_node_def Cons FSequence split: if_splits)
  next
    case (FMappingKey b)
    then show ?thesis
      using push f replaced by (auto simp: push_node_def Cons res_simps take_key_def Let_def split: if_splits)
  next
    case (FMappingValue b k)
    have b: "mapping_covered b" using f by (simp add: FMappingValue)
    have "frame_covered (FMappingKey b')" if "insert_entry c input parent b k v st = Inr b'" for b' parent
      using insert_entry_covered[OF that b v] by simp
    moreover have "merge_count (ld\<lparr>ld_meter := m, ld_stack := g\<rparr>) = m_merge_keys m" for m g
      by (simp add: merge_count_def)
    ultimately show ?thesis
      using push replaced none charges_keep_merge_keys(4)[of c "ld_meter ld"]
      by (auto simp: push_node_def Cons FMappingValue Let_def res_simps charged_Inr split: if_splits)
  qed
qed

lemma push_node_merge_count:
  assumes "push_node fmt c input v st mk ld = Inr ld'" and "merge_count ld' = 0"
  shows "merge_count ld = 0"
proof (cases "ld_stack ld")
  case Nil
  then show ?thesis using assms by (auto simp: push_node_def merge_count_def)
next
  case (Cons f frames)
  then show ?thesis
    using assms charges_keep_merge_keys(4)[of c "ld_meter ld"]
    by (cases f) (auto simp: push_node_def merge_count_def Let_def res_simps charged_Inr split: if_splits)
qed

lemma all_covered_updates:
  "all_covered (ld\<lparr>ld_meter := m\<rparr>) = all_covered ld"
  "all_covered (ld\<lparr>ld_in_document := d\<rparr>) = all_covered ld"
  "all_covered (note_anchor a start ld) = all_covered ld"
  "merge_count (note_anchor a start ld) = merge_count ld"
  "merge_count (define_anchor a v st ld) = merge_count ld"
  by (simp_all add: all_covered_def merge_count_def note_anchor_def define_anchor_def split: option.split)

lemma define_anchor_covered:
  assumes "all_covered ld" and "covers st v"
  shows "all_covered (define_anchor a v st ld)"
proof (cases a)
  case None
  then show ?thesis using assms(1) by (simp add: define_anchor_def)
next
  case (Some name)
  have "set (imap_insert name (v, st, of_value v) (ld_anchor_map ld))
      \<subseteq> insert (name, v, st, of_value v) (set (ld_anchor_map ld))" by (rule imap_insert_set)
  then have "\<forall>(name, v, st, cost) \<in> set (imap_insert name (v, st, of_value v) (ld_anchor_map ld)). covers st v"
    using assms by (auto simp: all_covered_def)
  then show ?thesis using assms(1) by (simp add: define_anchor_def all_covered_def Some)
qed

lemma resolve_alias_parts:
  assumes "resolve_alias c input anchor sp ld = Inr ((v, st), ld')"
  obtains m1 m2 st0 cost where "charge_alias c (ld_meter ld) = (m1, Inr ())"
    and "charge_expansion cost (ld_depth ld) c m1 = (m2, Inr ())"
    and "imap_get (ld_anchor_map ld) anchor = Some (v, st0, cost)"
    and "ld' = ld\<lparr>ld_meter := m2\<rparr>" and "st = SpanAlias (span_start sp, span_end sp) st0"
proof -
  obtain m1 where m1: "charge_alias c (ld_meter ld) = (m1, Inr ())"
    using assms by (simp add: resolve_alias_def charged_Inr split: if_splits) blast
  have rest: "(case imap_get (ld_anchor_map ld) anchor of
          None \<Rightarrow>
            Inl (missing_anchor anchor (span_start sp) input (ld_anchor_def_spans ld) (ld_earlier_anchor_defs ld))
        | Some (v, span_tree, cost) \<Rightarrow>
            charged (charge_expansion cost (ld_depth ld) c m1) (\<lambda>m.
              Inr ((v, SpanAlias (span_start sp, span_end sp) span_tree), ld\<lparr>ld_meter := m\<rparr>)))
      = Inr ((v, st), ld')"
    using assms m1 by (simp add: resolve_alias_def charged_Inr split: if_splits)
  show thesis
  proof (cases "imap_get (ld_anchor_map ld) anchor")
    case None
    then show thesis using rest by simp
  next
    case (Some x)
    then show thesis using rest that[OF m1] by (cases x) (auto simp: charged_Inr)
  qed
qed

lemma resolve_alias_covered:
  assumes "all_covered ld" and "resolve_alias c input anchor sp ld = Inr ((v, st), ld')"
  shows "all_covered ld' \<and> covers st v"
proof -
  from assms(2) obtain m2 st0 cost where r: "imap_get (ld_anchor_map ld) anchor = Some (v, st0, cost)"
    "ld' = ld\<lparr>ld_meter := m2\<rparr>" "st = SpanAlias (span_start sp, span_end sp) st0"
    by (rule resolve_alias_parts)
  have "covers st0 v" using assms(1) imap_get_in_set[OF r(1)] by (auto simp: all_covered_def)
  then show ?thesis using assms(1) r(2,3) by (simp add: all_covered_updates)
qed

lemma resolve_alias_merge_count:
  assumes "resolve_alias c input anchor sp ld = Inr ((v, st), ld')"
  shows "merge_count ld' = merge_count ld"
  using assms
  by (rule resolve_alias_parts) (simp add: merge_count_def charges_keep_merge_keys(2,3))

lemma closed_covered:
  assumes "all_covered ld" and "ld_stack ld = f # frames" and "covers st v"
    and "push_node fmt c input v st mk
      (define_anchor a v st (ld\<lparr>ld_depth := d, ld_stack := frames\<rparr>)) = Inr ld'"
    and "merge_count ld' = 0"
  shows "all_covered ld'"
proof -
  have "all_covered (ld\<lparr>ld_depth := d, ld_stack := frames\<rparr>)"
    using assms(1,2) by (simp add: all_covered_def)
  from push_node_covered[OF define_anchor_covered[OF this assms(3)] assms(3,4,5)] show ?thesis .
qed

lemma process_event_covered:
  assumes ok: "merge_count ld0 = 0 \<Longrightarrow> all_covered ld0"
    and ev: "process_event fmt c input e ld0 = Inr ld'" and none: "merge_count ld' = 0"
  shows "all_covered ld'"
proof -
  obtain m where m: "charge_event e c (ld_meter ld0) = (m, Inr ())"
    using ev by (auto simp: process_event_def charged_Inr)
  define ld where "ld = ld0\<lparr>ld_meter := m\<rparr>"
  have ld: "all_covered ld" if "merge_count ld = 0"
    using ok that charges_keep_merge_keys(1)[OF m]
    by (simp add: ld_def all_covered_updates merge_count_def)
  note step = ev[unfolded process_event_def m charged_def prod.case sum.case, folded ld_def, unfolded apply_event_def Let_def]
  show ?thesis
  proof (cases e)
    case (Alias anchor span)
    then obtain v st ld1 where r: "resolve_alias c input anchor span ld = Inr ((v, st), ld1)"
      "push_node fmt c input v st False ld1 = Inr ld'"
      using step by (auto simp: res_simps)
    have "merge_count ld1 = 0" using push_node_merge_count[OF r(2) none] .
    then have "all_covered ld" using resolve_alias_merge_count[OF r(1)] ld by simp
    from resolve_alias_covered[OF this r(1)] show ?thesis using push_node_covered[OF _ _ r(2) none] by blast
  next
    case (Scalar v style anchor tag span)
    then obtain w s e where w: "resolve_scalar c v style tag = Inr w"
      "push_node fmt c input w (Leaf s e) (style = Plain)
         (define_anchor anchor w (Leaf s e) (note_anchor anchor (span_start span) ld)) = Inr ld'"
      using step by (auto simp: res_simps split: if_splits)
    have n: "covers (Leaf s e) w"
      using resolve_scalar_ok[OF w(1)] untag_scalar by fastforce
    have "merge_count ld = 0" using push_node_merge_count[OF w(2) none] by (simp add: all_covered_updates)
    then have "all_covered (define_anchor anchor w (Leaf s e) (note_anchor anchor (span_start span) ld))"
      using ld n by (intro define_anchor_covered) (simp_all add: all_covered_updates)
    from push_node_covered[OF this n w(2) none] show ?thesis .
  next
    case (SequenceStart anchor tag span)
    then show ?thesis
      using step ld none
      by (auto simp: open_collection_def note_anchor_def all_covered_def merge_count_def Let_def
          split: if_splits option.splits)
  next
    case (MappingStart anchor tag span)
    then show ?thesis
      using step ld none
      by (auto simp: open_collection_def note_anchor_def all_covered_def merge_count_def mapping_covered_def
          Let_def split: if_splits option.splits)
  next
    case (SequenceEnd span)
    then obtain s frames where st: "ld_stack ld = FSequence s # frames"
      using step by (auto split: list.splits frame.splits)
    obtain en where push: "push_node fmt c input (wrap_with_tag (VSequence (sq_items s)) (sq_tag s) (cfg_tag_registry c))
        (SpanSequence (sq_start s) en (sq_span_items s)) False
        (define_anchor (sq_anchor s) (wrap_with_tag (VSequence (sq_items s)) (sq_tag s) (cfg_tag_registry c))
          (SpanSequence (sq_start s) en (sq_span_items s)) (ld\<lparr>ld_depth := ld_depth ld - 1, ld_stack := frames\<rparr>)) = Inr ld'"
      using step by (simp add: SequenceEnd st)
    have "merge_count ld = 0"
      using push_node_merge_count[OF push none] by (simp add: all_covered_updates) (simp add: merge_count_def)
    then have c: "all_covered ld" by (rule ld)
    then have "covers (SpanSequence (sq_start s) en (sq_span_items s))
        (wrap_with_tag (VSequence (sq_items s)) (sq_tag s) (cfg_tag_registry c))"
      by (simp add: all_covered_def st wrap_with_tag_ok)
    from closed_covered[OF c st this push none] show ?thesis .
  next
    case (MappingEnd span)
    then obtain b frames n where st: "ld_stack ld = FMappingKey b # frames"
      "splice_merges (mp_map b) (mp_merge_values b) = Inr n"
      using step by (auto simp: res_simps split: list.splits frame.splits)
    let ?v = "wrap_with_tag (VMapping n) (mp_tag b) (cfg_tag_registry c)"
      and ?t = "SpanMapping (mp_start b) (span_end span) (mp_span_entries b)"
    have push: "push_node fmt c input ?v ?t False
        (define_anchor (mp_anchor b) ?v ?t (ld\<lparr>ld_depth := ld_depth ld - 1, ld_stack := frames\<rparr>)) = Inr ld'"
      using step by (simp add: MappingEnd st)
    have "merge_count ld = 0"
      using push_node_merge_count[OF push none] by (simp add: all_covered_updates) (simp add: merge_count_def)
    then have c: "all_covered ld" by (rule ld)
    then have b: "mapping_covered b" by (simp add: all_covered_def st)
    then have "n = mp_map b" using st(2) by (simp add: mapping_covered_def)
    then have "covers ?t ?v" using b by (simp add: mapping_covered_def wrap_with_tag_ok)
    from closed_covered[OF c st(1) this push none] show ?thesis .
  next
    case DocumentStart
    then show ?thesis using step ld none by (auto simp: all_covered_def merge_count_def)
  next
    case DocumentEnd
    then show ?thesis using step ld none by (auto simp: all_covered_def merge_count_def)
  qed (use step ld none in \<open>auto simp: merge_count_def\<close>)
qed

lemma load_loop_covered:
  "(merge_count ld = 0 \<Longrightarrow> all_covered ld) \<Longrightarrow> load_loop fmt c node_text input p ld = Inr ld' \<Longrightarrow>
   merge_count ld' = 0 \<Longrightarrow> all_covered ld'"
proof (induction fmt c node_text input p ld rule: load_loop.induct)
  case (1 fmt c node_text input p ld)
  obtain e q where n: "next_event p = Inr (e, q)"
    using "1.prems"(2) by (subst (asm) load_loop.simps) (auto split: sum.splits)
  show ?case
  proof (cases "e = StreamEnd")
    case True
    then have "process_event fmt c input StreamEnd ld = Inr ld'"
      using "1.prems"(2) n by (subst (asm) load_loop.simps) simp
    from process_event_covered[OF "1.prems"(1) this "1.prems"(3)] show ?thesis .
  next
    case False
    then obtain k where k: "process_event fmt c input e ld = Inr k"
      "load_loop fmt c node_text input q k = Inr ld'"
      using "1.prems"(2) n by (subst (asm) load_loop.simps) (auto split: sum.splits)
    show ?thesis
      by (rule "1.IH"[OF n refl False k(1) _ k(2) "1.prems"(3)])
        (rule process_event_covered[OF "1.prems"(1) k(1)])
  qed
qed

section \<open>The properties of a load\<close>

text \<open>
  C18.  Whatever the tokens, no value a load returns is nested deeper than \<open>max_depth\<close>, and never
  deeper than 256 levels, aliases expanded and merges applied: the functions that recurse over a
  value stay within the stack they were measured for.
\<close>

theorem loaded_depth_bounded:
  "case load fmt config node_text input p of
     Inr docs \<Rightarrow> list_all (\<lambda>(v, st). value_height v \<le> min (max_depth config) 256) docs
   | Inl e \<Rightarrow> True"
proof (cases "load fmt config node_text input p")
  case (Inr docs)
  have "depth_limit config = min (max_depth config) 256"
    by (auto simp: depth_limit_def effective_max_depth_def max_depth_ceiling_def)
  with load_ok[OF Inr] Inr show ?thesis by (auto simp: list_all_iff node_ok_def)
qed simp

text \<open>
  C19.  Whatever the tokens, every value a load returns is well built at every level: mappings have
  distinct keys, sequences are within \<open>max_sequence_length\<close>, integers fit an \<open>i64\<close>.
\<close>

theorem loaded_values_well_built:
  "case load fmt config node_text input p of
     Inr docs \<Rightarrow> list_all (\<lambda>(v, st). well_built (max_sequence_length config) v) docs
   | Inl e \<Rightarrow> True"
proof (cases "load fmt config node_text input p")
  case (Inr docs)
  with load_ok[OF Inr] show ?thesis by (auto simp: list_all_iff node_ok_def)
qed simp

text \<open>
  C20.  The span tree of every loaded document mirrors its value, whatever the duplicate-key policy,
  the aliases and the merge keys did: an item's tree is at the item's index and an entry's tree at
  the entry's index.  In a load that met no merge key every item and every entry of every level has
  its tree; otherwise the keys a merge provided come after the others and have none.
\<close>

theorem span_trees_mirror_values:
  "case load_loop fmt config node_text input p (loader_new config) of
     Inr ld \<Rightarrow> load fmt config node_text input p = Inr (ld_docs ld)
       \<and> list_all (\<lambda>(v, st). mirrors st v \<and> (0 < m_merge_keys (ld_meter ld) \<or> covers st v)) (ld_docs ld)
   | Inl e \<Rightarrow> True"
proof (cases "load_loop fmt config node_text input p (loader_new config)")
  case (Inr ld)
  then have l: "load fmt config node_text input p = Inr (ld_docs ld)" by (simp add: load_def)
  have "all_covered ld" if "merge_count ld = 0"
    by (rule load_loop_covered[OF _ Inr that]) (simp add: all_covered_def loader_new_def)
  then show ?thesis
    using l load_ok[OF l] Inr by (auto simp: list_all_iff node_ok_def all_covered_def merge_count_def)
qed simp

end
