(* ===== verification/No_Span_Loader.thy ===== *)
theory No_Span_Loader
  imports Loader
begin

text \<open>
  Model of \<open>NoSpanLoader\<close> (\<open>parser/loader.rs\<close>), the tree builder that keeps no span tree: the same
  events, the same meter, its own frames and its own duplicate-key arm.  The only positions it keeps
  are the first bytes of the open nodes and of the pending key.
\<close>

section \<open>Frames\<close>

record ns_sequence =
  ns_items :: "value list"
  ns_sq_anchor :: "string option"
  ns_sq_tag :: event_tag
  ns_sq_start :: nat

record ns_mapping =
  ns_map :: mapping
  ns_start :: nat
  ns_typed_keys :: "key_shape list"
  ns_anchor :: "string option"
  ns_merge_values :: "value list"
  ns_tag :: event_tag

record ns_key =
  nk_key :: string
  nk_key_value :: key_shape
  nk_may_merge :: bool
  nk_start :: nat

datatype no_span_frame =
    NSequence ns_sequence
  | NMappingKey ns_mapping
  | NMappingValue ns_mapping ns_key

record no_span_loader =
  nl_docs :: "value list"
  nl_stack :: "no_span_frame list"
  nl_anchor_map :: "(string, value \<times> alias_cost) imap"
  nl_anchor_def_spans :: "(string, nat) imap"
  nl_earlier_anchor_defs :: "(string, nat) imap"
  nl_meter :: meter
  nl_depth :: nat
  nl_in_document :: bool

definition no_span_loader_new :: "parse_config \<Rightarrow> no_span_loader" where
  "no_span_loader_new config =
     \<lparr>nl_docs = [], nl_stack = [], nl_anchor_map = [], nl_anchor_def_spans = [],
      nl_earlier_anchor_defs = [], nl_meter = meter_new config, nl_depth = 0, nl_in_document = False\<rparr>"

fun ns_segment :: "no_span_frame \<Rightarrow> string option" where
  "ns_segment (NMappingValue b k) = Some (nk_key k)"
| "ns_segment (NSequence s) = Some (show_nat (length (ns_items s)))"
| "ns_segment (NMappingKey b) = None"

definition ns_parent_path :: "no_span_frame list \<Rightarrow> string option" where
  "ns_parent_path frames = frames_path (map ns_segment (rev (tl frames)))"

section \<open>Pushing a value\<close>

definition ns_take_key ::
  "(f64 \<Rightarrow> string) \<Rightarrow> parse_config \<Rightarrow> string \<Rightarrow> ns_mapping \<Rightarrow> value \<Rightarrow> bool \<Rightarrow> nat \<Rightarrow> no_span_frame result" where
  "ns_take_key fmt config input b v may_be_merge_key node_start =
     (let key_value = (if may_be_merge_key \<and> v = VString merge_key \<and> merge_policy config \<noteq> MergeAsOrdinary
                       then Other VNull else key_shape_of v) in
      if non_scalar_policy config = NonScalarError \<and> (is_sequence v \<or> is_mapping v)
      then Inl (NonScalarKey (if is_sequence v then ''sequence'' else ''mapping'')
                  (Some (location_from_index input node_start)))
      else Inr (NMappingValue b
             \<lparr>nk_key = value_to_key_string fmt v, nk_key_value = key_value, nk_may_merge = may_be_merge_key,
              nk_start = node_start\<rparr>))"

definition ns_insert_entry ::
  "parse_config \<Rightarrow> string \<Rightarrow> string option \<Rightarrow> ns_mapping \<Rightarrow> ns_key \<Rightarrow> value \<Rightarrow> ns_mapping result" where
  "ns_insert_entry config input parent b k v =
     (if length (ns_map b) \<ge> max_mapping_keys config
      then Inl (Budget (MaxMappingKeys (max_mapping_keys config) (length (ns_map b) + 1)))
      else case imap_index_of (ns_map b) (nk_key k) of
             Some idx \<Rightarrow>
               if \<not> key_shape_eq (key_shape_at (ns_typed_keys b) idx) (nk_key_value k)
               then Inl (key_collision_at (nk_key k) parent (nk_start k) input)
               else (case dup_key_policy config of
                       DuplicateFirst \<Rightarrow> Inr b
                     | DuplicateLast \<Rightarrow> Inr (b\<lparr>ns_map := imap_insert (nk_key k) v (ns_map b)\<rparr>)
                     | DuplicateError \<Rightarrow> Inl (duplicate_key_at (nk_key k) parent (nk_start k) input))
           | None \<Rightarrow>
               let m = imap_insert (nk_key k) v (ns_map b)
               in Inr (b\<lparr>ns_map := m,
                         ns_typed_keys := key_shape_record (ns_typed_keys b) (length m - 1) (nk_key_value k)\<rparr>))"

definition push_value ::
  "(f64 \<Rightarrow> string) \<Rightarrow> parse_config \<Rightarrow> string \<Rightarrow> value \<Rightarrow> bool \<Rightarrow> nat \<Rightarrow> no_span_loader \<Rightarrow> no_span_loader result" where
  "push_value fmt config input v may_be_merge_key node_start nl =
     (case nl_stack nl of
        [] \<Rightarrow> Inr (nl\<lparr>nl_docs := nl_docs nl @ [v]\<rparr>)
      | NSequence s # frames \<Rightarrow>
          if length (ns_items s) \<ge> max_sequence_length config
          then Inl (Budget (MaxSequenceLength (max_sequence_length config) (length (ns_items s) + 1)))
          else Inr (nl\<lparr>nl_stack := NSequence (s\<lparr>ns_items := ns_items s @ [v]\<rparr>) # frames\<rparr>)
      | NMappingKey b # frames \<Rightarrow>
          and_then (ns_take_key fmt config input b v may_be_merge_key node_start) (\<lambda>f.
            Inr (nl\<lparr>nl_stack := f # frames\<rparr>))
      | NMappingValue b k # frames \<Rightarrow>
          let is_merge = nk_may_merge k \<and> nk_key k = merge_key in
          if is_merge \<and> merge_policy config = MergeError then Inl merge_rejected
          else if is_merge \<and> merge_policy config \<noteq> MergeAsOrdinary
          then charged (charge_merge_key config (nl_meter nl)) (\<lambda>m.
                 Inr (nl\<lparr>nl_meter := m,
                         nl_stack := NMappingKey (b\<lparr>ns_merge_values := ns_merge_values b @ [v]\<rparr>) # frames\<rparr>))
          else and_then (ns_insert_entry config input (ns_parent_path (nl_stack nl)) b k v) (\<lambda>b.
                 Inr (nl\<lparr>nl_stack := NMappingKey b # frames\<rparr>)))"

section \<open>Events\<close>

definition ns_resolve_alias ::
  "parse_config \<Rightarrow> string \<Rightarrow> string \<Rightarrow> nat \<Rightarrow> no_span_loader \<Rightarrow> (value \<times> no_span_loader) result" where
  "ns_resolve_alias config input anchor alias_start nl =
     (if \<not> nl_in_document nl then Inl (parse_at ''alias outside document'' input alias_start)
      else charged (charge_alias config (nl_meter nl)) (\<lambda>m.
        case imap_get (nl_anchor_map nl) anchor of
          None \<Rightarrow>
            Inl (missing_anchor anchor alias_start input (nl_anchor_def_spans nl) (nl_earlier_anchor_defs nl))
        | Some (v, cost) \<Rightarrow>
            charged (charge_expansion cost (nl_depth nl) config m) (\<lambda>m. Inr (v, nl\<lparr>nl_meter := m\<rparr>))))"

definition ns_define_anchor :: "string option \<Rightarrow> value \<Rightarrow> no_span_loader \<Rightarrow> no_span_loader" where
  "ns_define_anchor anchor v nl =
     (case anchor of
        None \<Rightarrow> nl
      | Some name \<Rightarrow> nl\<lparr>nl_anchor_map := imap_insert name (v, of_value v) (nl_anchor_map nl)\<rparr>)"

definition ns_note_anchor :: "string option \<Rightarrow> nat \<Rightarrow> no_span_loader \<Rightarrow> no_span_loader" where
  "ns_note_anchor anchor start nl =
     (case anchor of
        None \<Rightarrow> nl
      | Some name \<Rightarrow> nl\<lparr>nl_anchor_def_spans := imap_insert name start (nl_anchor_def_spans nl)\<rparr>)"

definition ns_open_collection ::
  "parse_config \<Rightarrow> string option \<Rightarrow> nat \<Rightarrow> no_span_frame \<Rightarrow> no_span_loader \<Rightarrow> no_span_loader result" where
  "ns_open_collection config anchor start f nl =
     (let depth = nl_depth nl + 1 in
      if depth_exceeded depth (max_depth config) then Inl (RecursionLimitExceeded depth)
      else let nl = ns_note_anchor anchor start (nl\<lparr>nl_depth := depth\<rparr>)
           in Inr (nl\<lparr>nl_stack := f # nl_stack nl\<rparr>))"

text \<open>
  An end event that does not match the top frame drops the frame and goes on, where the span-full
  loader refuses it; \<open>tl\<close> of an empty stack is empty, as \<open>pop\<close> leaves it.
\<close>

definition ns_apply_event ::
  "(f64 \<Rightarrow> string) \<Rightarrow> parse_config \<Rightarrow> string \<Rightarrow> event \<Rightarrow> no_span_loader \<Rightarrow> no_span_loader result" where
  "ns_apply_event fmt config input e nl =
     (case e of
       StreamStart \<Rightarrow> Inr nl
     | StreamEnd \<Rightarrow> Inr nl
     | DocumentStart \<Rightarrow>
         Inr (nl\<lparr>nl_in_document := True, nl_anchor_map := [],
                 nl_earlier_anchor_defs := imap_extend (nl_earlier_anchor_defs nl) (nl_anchor_def_spans nl),
                 nl_anchor_def_spans := []\<rparr>)
     | DocumentEnd \<Rightarrow> Inr (nl\<lparr>nl_in_document := False\<rparr>)
     | Alias anchor span \<Rightarrow>
         and_then (ns_resolve_alias config input anchor (span_start span) nl) (\<lambda>(v, nl).
           push_value fmt config input v False (span_start span) nl)
     | Scalar text style anchor tag span \<Rightarrow>
         if integer_overflows config text style tag
         then Inl (IntegerOverflow (Some (location_from_index input (span_start span)))
                (frames_path (map ns_segment (rev (nl_stack nl)))))
         else and_then (resolve_scalar config text style tag) (\<lambda>v.
           push_value fmt config input v (style = Plain) (span_start span)
             (ns_define_anchor anchor v (ns_note_anchor anchor (span_start span) nl)))
     | SequenceStart anchor tag span \<Rightarrow>
         ns_open_collection config anchor (span_start span)
           (NSequence \<lparr>ns_items = [], ns_sq_anchor = anchor, ns_sq_tag = tag, ns_sq_start = span_start span\<rparr>) nl
     | SequenceEnd span \<Rightarrow>
         (case nl_stack nl of
            NSequence s # frames \<Rightarrow>
              let v = wrap_with_tag (VSequence (ns_items s)) (ns_sq_tag s) (cfg_tag_registry config)
              in push_value fmt config input v False (ns_sq_start s)
                   (ns_define_anchor (ns_sq_anchor s) v (nl\<lparr>nl_depth := nl_depth nl - 1, nl_stack := frames\<rparr>))
          | _ \<Rightarrow> Inr (nl\<lparr>nl_depth := nl_depth nl - 1, nl_stack := tl (nl_stack nl)\<rparr>))
     | MappingStart anchor tag span \<Rightarrow>
         ns_open_collection config anchor (span_start span)
           (NMappingKey \<lparr>ns_map = [], ns_start = span_start span, ns_typed_keys = [], ns_anchor = anchor,
                         ns_merge_values = [], ns_tag = tag\<rparr>) nl
     | MappingEnd span \<Rightarrow>
         (case nl_stack nl of
            NMappingKey b # frames \<Rightarrow>
              and_then (splice_merges (ns_map b) (ns_merge_values b)) (\<lambda>m.
                let v = wrap_with_tag (VMapping m) (ns_tag b) (cfg_tag_registry config)
                in push_value fmt config input v False (ns_start b)
                     (ns_define_anchor (ns_anchor b) v (nl\<lparr>nl_depth := nl_depth nl - 1, nl_stack := frames\<rparr>)))
          | _ \<Rightarrow> Inr (nl\<lparr>nl_depth := nl_depth nl - 1, nl_stack := tl (nl_stack nl)\<rparr>)))"

definition ns_process_event ::
  "(f64 \<Rightarrow> string) \<Rightarrow> parse_config \<Rightarrow> string \<Rightarrow> event \<Rightarrow> no_span_loader \<Rightarrow> no_span_loader result" where
  "ns_process_event fmt config input e nl =
     charged (charge_event e config (nl_meter nl)) (\<lambda>m.
       ns_apply_event fmt config input e (nl\<lparr>nl_meter := m\<rparr>))"

section \<open>Loading\<close>

function ns_load_loop ::
  "(f64 \<Rightarrow> string) \<Rightarrow> parse_config \<Rightarrow> (token_kind \<Rightarrow> string) \<Rightarrow> string \<Rightarrow> parser \<Rightarrow> no_span_loader
    \<Rightarrow> no_span_loader result" where
  "ns_load_loop fmt config node_text input p nl =
     (case next_event p of
        Inl e \<Rightarrow> Inl (into_error node_text e input (max_events config))
      | Inr (e, q) \<Rightarrow>
          if e = StreamEnd then ns_process_event fmt config input StreamEnd nl
          else (case ns_process_event fmt config input e nl of
                  Inl err \<Rightarrow> Inl err
                | Inr nl \<Rightarrow> ns_load_loop fmt config node_text input q nl))"
  by pat_completeness auto

termination
  by (relation "measure (\<lambda>(fmt, config, node_text, input, p, nl). potential p)") (auto dest: next_event_decreases)

declare ns_load_loop.simps [simp del]

definition load_all_no_spans ::
  "(f64 \<Rightarrow> string) \<Rightarrow> parse_config \<Rightarrow> (token_kind \<Rightarrow> string) \<Rightarrow> string \<Rightarrow> parser \<Rightarrow> value list result" where
  "load_all_no_spans fmt config node_text input p =
     and_then (ns_load_loop fmt config node_text input p (no_span_loader_new config)) (\<lambda>nl. Inr (nl_docs nl))"

definition load_one_no_spans ::
  "(f64 \<Rightarrow> string) \<Rightarrow> parse_config \<Rightarrow> (token_kind \<Rightarrow> string) \<Rightarrow> string \<Rightarrow> parser \<Rightarrow> value result" where
  "load_one_no_spans fmt config node_text input p =
     and_then (load_all_no_spans fmt config node_text input p) (\<lambda>docs.
       Inr (case docs of [] \<Rightarrow> VNull | d # _ \<Rightarrow> d))"

definition load_exactly_one_no_spans ::
  "(f64 \<Rightarrow> string) \<Rightarrow> parse_config \<Rightarrow> (token_kind \<Rightarrow> string) \<Rightarrow> string \<Rightarrow> parser \<Rightarrow> value result" where
  "load_exactly_one_no_spans fmt config node_text input p =
     and_then (load_all_no_spans fmt config node_text input p) (\<lambda>docs.
       if length docs > 1 then Inl MoreThanOneDocument
       else Inr (case docs of [] \<Rightarrow> VNull | d # _ \<Rightarrow> d))"

end
