(* ===== verification/Loader_Agreement.thy ===== *)
theory Loader_Agreement
  imports Loader_Invariant No_Span_Loader
begin

text \<open>
  The two tree builders in lock step: on the events of any token stream the span-free loader does
  what the span-full one does, error for error, up to the location of the error.  The only event
  they treat differently, an end that does not match the innermost collection, never comes out of
  the parser: the frames of the loader follow the grammar of the event stream.
\<close>

section \<open>Related states\<close>

definition erase_sequence :: "open_sequence \<Rightarrow> ns_sequence" where
  "erase_sequence s =
     \<lparr>ns_items = sq_items s, ns_sq_anchor = sq_anchor s, ns_sq_tag = sq_tag s, ns_sq_start = sq_start s\<rparr>"

definition erase_mapping :: "open_mapping \<Rightarrow> ns_mapping" where
  "erase_mapping b =
     \<lparr>ns_map = mp_map b, ns_start = mp_start b, ns_typed_keys = mp_typed_keys b, ns_anchor = mp_anchor b,
      ns_merge_values = mp_merge_values b, ns_tag = mp_tag b\<rparr>"

definition same_key :: "pending_key \<Rightarrow> ns_key \<Rightarrow> bool" where
  "same_key k n \<longleftrightarrow> nk_key n = pk_key k \<and> nk_key_value n = pk_key_value k \<and> nk_may_merge n = pk_may_merge k"

fun same_frame :: "frame \<Rightarrow> no_span_frame \<Rightarrow> bool" where
  "same_frame (FSequence s) g = (g = NSequence (erase_sequence s))"
| "same_frame (FMappingKey b) g = (g = NMappingKey (erase_mapping b))"
| "same_frame (FMappingValue b k) g = (\<exists>n. g = NMappingValue (erase_mapping b) n \<and> same_key k n)"

definition erase_anchor :: "string \<times> value \<times> span_tree \<times> alias_cost \<Rightarrow> string \<times> value \<times> alias_cost" where
  "erase_anchor a = (case a of (name, v, st, cost) \<Rightarrow> (name, v, cost))"

definition agree :: "loader \<Rightarrow> no_span_loader \<Rightarrow> bool" where
  "agree ld nl \<longleftrightarrow>
     nl_docs nl = map fst (ld_docs ld) \<and> list_all2 same_frame (ld_stack ld) (nl_stack nl)
     \<and> nl_anchor_map nl = map erase_anchor (ld_anchor_map ld)
     \<and> nl_anchor_def_spans nl = ld_anchor_def_spans ld
     \<and> nl_earlier_anchor_defs nl = ld_earlier_anchor_defs ld
     \<and> nl_meter nl = ld_meter ld \<and> nl_depth nl = ld_depth ld \<and> nl_in_document nl = ld_in_document ld"

definition somewhere :: "location \<Rightarrow> location" where
  "somewhere l = \<lparr>loc_index = 0, loc_line = 1, loc_column = 1\<rparr>"

definition same_error :: "error \<Rightarrow> error \<Rightarrow> bool" where
  "same_error e f \<longleftrightarrow> shift_error somewhere e = shift_error somewhere f"

fun same_outcome :: "('a \<Rightarrow> 'b \<Rightarrow> bool) \<Rightarrow> 'a result \<Rightarrow> 'b result \<Rightarrow> bool" where
  "same_outcome r (Inr a) (Inr b) = r a b"
| "same_outcome r (Inl e) (Inl f) = same_error e f"
| "same_outcome r _ _ = False"

lemma same_error_refl [simp]: "same_error e e"
  by (simp add: same_error_def)

lemma same_outcome_then:
  "\<lbrakk>same_outcome r x y; \<And>a b. r a b \<Longrightarrow> same_outcome q (f a) (g b)\<rbrakk> \<Longrightarrow>
   same_outcome q (and_then x f) (and_then y g)"
  by (cases x; cases y) auto

lemma same_outcome_charged:
  "(\<And>m. same_outcome q (f m) (g m)) \<Longrightarrow> same_outcome q (charged x f) (charged x g)"
  by (cases x; cases "snd x") (auto simp: charged_def)

lemma same_segments: "list_all2 same_frame fs gs \<Longrightarrow> map ns_segment gs = map frame_segment fs"
proof (induction fs gs rule: list_all2_induct)
  case (Cons f fs g gs)
  then show ?case by (cases f) (auto simp: erase_sequence_def same_key_def)
qed simp

lemma same_parent_path: "list_all2 same_frame fs gs \<Longrightarrow> ns_parent_path gs = parent_path fs"
proof -
  assume a: "list_all2 same_frame fs gs"
  then have "list_all2 same_frame (tl fs) (tl gs)" by (cases fs; cases gs) auto
  from same_segments[OF this] show ?thesis by (simp add: ns_parent_path_def parent_path_def flip: rev_map)
qed

section \<open>Pushing\<close>

lemma insert_entry_agree:
  assumes "same_key k n"
  shows "same_outcome (\<lambda>b' n'. n' = erase_mapping b') (insert_entry c input parent b k v st)
    (ns_insert_entry c input parent (erase_mapping b) n v)"
proof (cases "imap_index_of (mp_map b) (pk_key k)")
  case None
  then have "imap_get (mp_map b) (pk_key k) = None" by (simp add: imap_index_of_None)
  then show ?thesis
    using assms None
    by (auto simp: insert_entry_def ns_insert_entry_def append_entry_def erase_mapping_def same_key_def Let_def
        split: duplicate_key_policy.split)
next
  case (Some idx)
  then have "imap_get (mp_map b) (pk_key k) \<noteq> None" by (auto dest: imap_index_of_Some)
  then show ?thesis
    using assms Some
    by (auto simp: insert_entry_def ns_insert_entry_def erase_mapping_def same_key_def same_error_def somewhere_def
        key_collision_at_def duplicate_key_at_def split: duplicate_key_policy.split)
qed

lemma take_key_agree:
  "same_outcome same_frame (take_key fmt c input b v st mk) (ns_take_key fmt c input (erase_mapping b) v mk start)"
  by (auto simp: take_key_def ns_take_key_def typed_key_def is_buffered_merge_key_def same_key_def Let_def
      same_error_def somewhere_def)

lemma push_agree:
  assumes "agree ld nl"
  shows "same_outcome agree (push_node fmt c input v st mk ld) (push_value fmt c input v mk start nl)"
proof (cases "ld_stack ld")
  case Nil
  then show ?thesis using assms by (auto simp: push_node_def push_value_def agree_def)
next
  case (Cons f frames)
  then obtain g gs where g: "nl_stack nl = g # gs" "same_frame f g" "list_all2 same_frame frames gs"
    using assms by (auto simp: agree_def list_all2_Cons1)
  have path: "ns_parent_path (g # gs) = parent_path (f # frames)"
    using same_parent_path[of "f # frames" "g # gs"] g(2,3) by simp
  have with_top: "agree (ld\<lparr>ld_stack := f' # frames\<rparr>) (nl\<lparr>nl_stack := g' # gs\<rparr>)"
    "agree (ld\<lparr>ld_meter := m, ld_stack := f' # frames\<rparr>) (nl\<lparr>nl_meter := m, nl_stack := g' # gs\<rparr>)"
    if "same_frame f' g'" for f' g' m
    using assms that g(3) by (simp_all add: agree_def)
  have meter: "nl_meter nl = ld_meter ld" using assms by (simp add: agree_def)
  show ?thesis
  proof (cases f)
    case (FSequence s)
    then show ?thesis
      using g(1,2) with_top(1)[of "FSequence (s\<lparr>sq_items := sq_items s @ [v], sq_span_items := sq_span_items s @ [st]\<rparr>)"]
      by (auto simp: push_node_def push_value_def Cons erase_sequence_def)
  next
    case (FMappingKey b)
    then have "g = NMappingKey (erase_mapping b)" using g(2) by simp
    then show ?thesis
      unfolding push_node_def push_value_def Cons g(1) FMappingKey
      by (simp, intro same_outcome_then[OF take_key_agree]) (simp add: with_top)
  next
    case (FMappingValue b k)
    then obtain n where n: "g = NMappingValue (erase_mapping b) n" "same_key k n" using g(2) by auto
    have merge: "same_frame (FMappingKey (b\<lparr>mp_merge_values := mp_merge_values b @ [v]\<rparr>))
        (NMappingKey (erase_mapping b\<lparr>ns_merge_values := ns_merge_values (erase_mapping b) @ [v]\<rparr>))"
      by (simp add: erase_mapping_def)
    have insert: "same_outcome agree
        (and_then (insert_entry c input (parent_path (f # frames)) b k v st)
           (\<lambda>b. Inr (ld\<lparr>ld_stack := FMappingKey b # frames\<rparr>)))
        (and_then (ns_insert_entry c input (ns_parent_path (g # gs)) (erase_mapping b) n v)
           (\<lambda>b. Inr (nl\<lparr>nl_stack := NMappingKey b # gs\<rparr>)))"
      unfolding path by (rule same_outcome_then[OF insert_entry_agree[OF n(2)]]) (simp add: with_top)
    have same: "nk_may_merge n = pk_may_merge k" "nk_key n = pk_key k"
      using n(2) by (simp_all add: same_key_def)
    show ?thesis
      using insert with_top(2)[OF merge]
      unfolding push_node_def push_value_def Cons g(1)
      by (simp add: FMappingValue n(1) same meter Let_def same_outcome_charged)
  qed
qed

section \<open>The frames follow the grammar\<close>

text \<open>
  The grammar moves a mapping on when a node in it starts, the loader when the node is complete:
  the top frame is in its own phase, a frame below it already in the next one.
\<close>

fun top_phase :: "frame \<Rightarrow> phase" where
  "top_phase (FSequence s) = InSeq"
| "top_phase (FMappingKey b) = AtKey"
| "top_phase (FMappingValue b k) = AtValue"

fun below_phase :: "frame \<Rightarrow> phase" where
  "below_phase (FSequence s) = InSeq"
| "below_phase (FMappingKey b) = AtValue"
| "below_phase (FMappingValue b k) = AtKey"

fun stack_phases_of :: "frame list \<Rightarrow> phase list" where
  "stack_phases_of [] = []"
| "stack_phases_of (f # fs) = top_phase f # map below_phase fs"

definition follows_grammar :: "grammar \<Rightarrow> loader \<Rightarrow> bool" where
  "follows_grammar g ld \<longleftrightarrow> snd g = stack_phases_of (ld_stack ld)"

text \<open>A push moves the frame that receives the node.\<close>

lemma push_node_frames:
  assumes "push_node fmt c input v st mk ld = Inr ld'"
  shows "stack_phases_of (ld_stack ld') = map below_phase (ld_stack ld)"
  using assms
  by (auto simp: push_node_def take_key_def Let_def res_simps charged_Inr
      split: list.splits frame.splits if_splits)

lemma anchors_keep_frames:
  "ld_stack (define_anchor a v st ld) = ld_stack ld" "ld_stack (note_anchor a start ld) = ld_stack ld"
  by (simp_all add: define_anchor_def note_anchor_def split: option.split)

lemma resolve_alias_frames:
  assumes "resolve_alias c input anchor sp ld = Inr (r, ld')"
  shows "ld_stack ld' = ld_stack ld"
  using assms
  by (cases "imap_get (ld_anchor_map ld) anchor") (auto simp: resolve_alias_def charged_Inr split: if_splits)

lemma complete_node_phases:
  assumes "complete_node g = Some h" and "snd g = stack_phases_of fs"
  shows "snd h = map below_phase fs"
proof (cases fs)
  case Nil
  then show ?thesis using assms by (cases g rule: complete_node.cases) auto
next
  case (Cons f fs')
  then show ?thesis using assms by (cases f; cases g rule: complete_node.cases) auto
qed

lemma process_event_follows:
  assumes "follows_grammar g ld0" and "grammar_step g e = Some h"
    and "process_event fmt c input e ld0 = Inr ld'"
  shows "follows_grammar h ld'"
proof -
  obtain m where m: "charge_event e c (ld_meter ld0) = (m, Inr ())"
    using assms(3) by (auto simp: process_event_def charged_Inr)
  define ld where "ld = ld0\<lparr>ld_meter := m\<rparr>"
  have g: "snd g = stack_phases_of (ld_stack ld)" using assms(1) by (simp add: follows_grammar_def ld_def)
  note step = assms(3)[unfolded process_event_def m charged_def prod.case sum.case, folded ld_def, unfolded apply_event_def Let_def]
  show ?thesis
  proof (cases e)
    case (Alias anchor span)
    then obtain v st ld1 where r: "resolve_alias c input anchor span ld = Inr ((v, st), ld1)"
      "push_node fmt c input v st False ld1 = Inr ld'"
      using step by (auto simp: res_simps)
    have "complete_node g = Some h" using assms(2) by (simp add: Alias)
    from complete_node_phases[OF this g] show ?thesis
      using push_node_frames[OF r(2)] resolve_alias_frames[OF r(1)] by (simp add: follows_grammar_def)
  next
    case (Scalar v style anchor tag span)
    then obtain w s e where w:
      "push_node fmt c input w (Leaf s e) (style = Plain)
         (define_anchor anchor w (Leaf s e) (note_anchor anchor (span_start span) ld)) = Inr ld'"
      using step by (auto simp: res_simps split: if_splits)
    have "complete_node g = Some h" using assms(2) by (simp add: Scalar)
    from complete_node_phases[OF this g] show ?thesis
      using push_node_frames[OF w] by (simp add: follows_grammar_def anchors_keep_frames)
  next
    case (SequenceStart anchor tag span)
    then obtain h0 where "complete_node g = Some h0" "h = push_phase InSeq h0" using assms(2) by auto
    with complete_node_phases[OF this(1) g] step show ?thesis
      by (auto simp: SequenceStart open_collection_def Let_def follows_grammar_def push_phase_def
          anchors_keep_frames split: if_splits)
  next
    case (MappingStart anchor tag span)
    then obtain h0 where "complete_node g = Some h0" "h = push_phase AtKey h0" using assms(2) by auto
    with complete_node_phases[OF this(1) g] step show ?thesis
      by (auto simp: MappingStart open_collection_def Let_def follows_grammar_def push_phase_def
          anchors_keep_frames split: if_splits)
  next
    case (SequenceEnd span)
    then obtain s frames where st: "ld_stack ld = FSequence s # frames"
      using step by (auto split: list.splits frame.splits)
    then have "snd h = map below_phase frames"
      using assms(2) g by (auto simp: SequenceEnd split: prod.splits doc_phase.splits list.splits phase.splits)
    then show ?thesis
      using step by (auto simp: SequenceEnd st follows_grammar_def anchors_keep_frames dest!: push_node_frames)
  next
    case (MappingEnd span)
    then obtain b frames n where st: "ld_stack ld = FMappingKey b # frames"
      "splice_merges (mp_map b) (mp_merge_values b) = Inr n"
      using step by (auto simp: res_simps split: list.splits frame.splits)
    then have "snd h = map below_phase frames"
      using assms(2) g by (auto simp: MappingEnd split: prod.splits doc_phase.splits list.splits phase.splits)
    then show ?thesis
      using step by (auto simp: MappingEnd st follows_grammar_def anchors_keep_frames dest!: push_node_frames)
  qed (use step assms(2) g in \<open>auto simp: follows_grammar_def split: if_splits\<close>)
qed

section \<open>Events in lock step\<close>

lemma imap_get_erased: "imap_get (map erase_anchor m) a = map_option (\<lambda>(v, st, cost). (v, cost)) (imap_get m a)"
  by (induction m) (auto simp: erase_anchor_def)

lemma imap_insert_erased:
  "imap_insert a (v, cost) (map erase_anchor m) = map erase_anchor (imap_insert a (v, st, cost) m)"
  by (induction m) (auto simp: erase_anchor_def)

lemma define_anchor_agree:
  "agree ld nl \<Longrightarrow> agree (define_anchor a v st ld) (ns_define_anchor a v nl)"
  by (auto simp: agree_def define_anchor_def ns_define_anchor_def imap_insert_erased[of _ _ _ _ st] split: option.split)

lemma note_anchor_agree: "agree ld nl \<Longrightarrow> agree (note_anchor a start ld) (ns_note_anchor a start nl)"
  by (auto simp: agree_def note_anchor_def ns_note_anchor_def split: option.split)

lemma resolve_alias_agree:
  assumes "agree ld nl"
  shows "same_outcome (\<lambda>((v, st), ld) (w, nl). w = v \<and> agree ld nl)
    (resolve_alias c input anchor sp ld) (ns_resolve_alias c input anchor (span_start sp) nl)"
proof -
  have get: "imap_get (nl_anchor_map nl) anchor
      = map_option (\<lambda>(v, st, cost). (v, cost)) (imap_get (ld_anchor_map ld) anchor)"
    using assms by (simp add: agree_def imap_get_erased)
  have upd: "agree (ld\<lparr>ld_meter := m\<rparr>) (nl\<lparr>nl_meter := m\<rparr>)" for m
    using assms by (simp add: agree_def)
  have same: "nl_in_document nl = ld_in_document ld" "nl_meter nl = ld_meter ld" "nl_depth nl = ld_depth ld"
    "nl_anchor_def_spans nl = ld_anchor_def_spans ld" "nl_earlier_anchor_defs nl = ld_earlier_anchor_defs ld"
    using assms by (simp_all add: agree_def)
  show ?thesis
    unfolding resolve_alias_def ns_resolve_alias_def same get
    by (auto intro!: same_outcome_charged simp: upd split: option.split)
qed

lemma open_collection_agree:
  assumes "agree ld nl" and "same_frame f g"
  shows "same_outcome agree (open_collection c anchor start f ld) (ns_open_collection c anchor start g nl)"
proof -
  have "agree (ld\<lparr>ld_depth := d\<rparr>) (nl\<lparr>nl_depth := d\<rparr>)" for d using assms(1) by (simp add: agree_def)
  note note_anchor_agree[OF this, of anchor start]
  then show ?thesis
    using assms by (auto simp: open_collection_def ns_open_collection_def agree_def Let_def)
qed

lemma closing_agree:
  assumes "agree ld nl" and "ld_stack ld = f # frames" and "nl_stack nl = g # gs"
  shows "agree (ld\<lparr>ld_depth := ld_depth ld - 1, ld_stack := frames\<rparr>)
    (nl\<lparr>nl_depth := nl_depth nl - 1, nl_stack := gs\<rparr>)"
  using assms by (simp add: agree_def)

lemma process_event_agree:
  assumes ag0: "agree ld0 nl0" and "follows_grammar g ld0" and "grammar_step g e = Some h"
  shows "same_outcome agree (process_event fmt c input e ld0) (ns_process_event fmt c input e nl0)"
proof -
  have meter: "nl_meter nl0 = ld_meter ld0" using ag0 by (simp add: agree_def)
  show ?thesis
    unfolding process_event_def ns_process_event_def meter
  proof (rule same_outcome_charged)
    fix m
    define ld where "ld = ld0\<lparr>ld_meter := m\<rparr>"
    define nl where "nl = nl0\<lparr>nl_meter := m\<rparr>"
    have ag: "agree ld nl" using ag0 by (simp add: agree_def ld_def nl_def)
    have g: "snd g = stack_phases_of (ld_stack ld)" using assms(2) by (simp add: follows_grammar_def ld_def)
    have frames: "list_all2 same_frame (ld_stack ld) (nl_stack nl)" using ag by (simp add: agree_def)
    show "same_outcome agree (apply_event fmt c input e (ld0\<lparr>ld_meter := m\<rparr>))
      (ns_apply_event fmt c input e (nl0\<lparr>nl_meter := m\<rparr>))"
      unfolding ld_def[symmetric] nl_def[symmetric]
    proof (cases e)
      case (Alias anchor span)
      show "same_outcome agree (apply_event fmt c input e ld) (ns_apply_event fmt c input e nl)"
        unfolding apply_event_def ns_apply_event_def Alias event.case
        by (rule same_outcome_then[OF resolve_alias_agree[OF ag]]) (auto intro: push_agree)
    next
      case (Scalar v style anchor tag span)
      have path: "map ns_segment (rev (nl_stack nl)) = map frame_segment (rev (ld_stack ld))"
        using same_segments[OF frames] by (simp flip: rev_map)
      show "same_outcome agree (apply_event fmt c input e ld) (ns_apply_event fmt c input e nl)"
        unfolding apply_event_def ns_apply_event_def Scalar event.case path
        by (cases "integer_overflows c v style tag"; cases "resolve_scalar c v style tag")
           (simp_all add: push_agree define_anchor_agree note_anchor_agree ag Let_def)
    next
      case (SequenceStart anchor tag span)
      show "same_outcome agree (apply_event fmt c input e ld) (ns_apply_event fmt c input e nl)"
        unfolding apply_event_def ns_apply_event_def SequenceStart event.case
        by (rule open_collection_agree[OF ag]) (simp add: erase_sequence_def)
    next
      case (MappingStart anchor tag span)
      show "same_outcome agree (apply_event fmt c input e ld) (ns_apply_event fmt c input e nl)"
        unfolding apply_event_def ns_apply_event_def MappingStart event.case
        by (rule open_collection_agree[OF ag]) (simp add: erase_mapping_def)
    next
      case (SequenceEnd span)
      then obtain ps where "snd g = InSeq # ps"
        using assms(3) by (auto split: prod.splits doc_phase.splits list.splits phase.splits)
      then obtain s fs where s: "ld_stack ld = FSequence s # fs"
        using g by (cases "ld_stack ld"; cases "hd (ld_stack ld)") auto
      then obtain gs where gs: "nl_stack nl = NSequence (erase_sequence s) # gs"
        using frames by (auto simp: list_all2_Cons1)
      show "same_outcome agree (apply_event fmt c input e ld) (ns_apply_event fmt c input e nl)"
        unfolding apply_event_def ns_apply_event_def SequenceEnd
        by (simp add: s gs Let_def erase_sequence_def push_agree define_anchor_agree closing_agree[OF ag s gs, unfolded One_nat_def])
    next
      case (MappingEnd span)
      then obtain ps where "snd g = AtKey # ps"
        using assms(3) by (auto split: prod.splits doc_phase.splits list.splits phase.splits)
      then obtain b fs where b: "ld_stack ld = FMappingKey b # fs"
        using g by (cases "ld_stack ld"; cases "hd (ld_stack ld)") auto
      then obtain gs where gs: "nl_stack nl = NMappingKey (erase_mapping b) # gs"
        using frames by (auto simp: list_all2_Cons1)
      show "same_outcome agree (apply_event fmt c input e ld) (ns_apply_event fmt c input e nl)"
        unfolding apply_event_def ns_apply_event_def MappingEnd
        by (cases "splice_merges (mp_map b) (mp_merge_values b)")
           (simp_all add: b gs Let_def erase_mapping_def push_agree define_anchor_agree closing_agree[OF ag b gs, unfolded One_nat_def])
    qed (use ag in \<open>auto simp: agree_def apply_event_def ns_apply_event_def\<close>)
  qed
qed

section \<open>Loads\<close>

lemma load_loops_agree:
  "\<lbrakk>agree ld nl; follows_grammar g ld; grammar_of p = Some g\<rbrakk> \<Longrightarrow>
   same_outcome agree (load_loop fmt c node_text input p ld) (ns_load_loop fmt c node_text input p nl)"
proof (induction fmt c node_text input p ld arbitrary: nl g rule: load_loop.induct)
  case (1 fmt c node_text input p ld)
  show ?case
  proof (cases "next_event p")
    case (Inl e)
    then show ?thesis by (simp add: load_loop.simps ns_load_loop.simps)
  next
    case (Inr eq)
    obtain e q where eq: "eq = (e, q)" by (cases eq)
    note ev = Inr[unfolded eq]
    obtain h where h: "grammar_step g e = Some h" "grammar_of q = Some h"
      using next_event_follows[OF ev "1.prems"(3)] by (auto simp: follows_def)
    note step = process_event_agree[OF "1.prems"(1,2) h(1), of fmt c input]
    show ?thesis
    proof (cases "e = StreamEnd")
      case True
      then show ?thesis using step ev by (simp add: load_loop.simps ns_load_loop.simps)
    next
      case False
      show ?thesis
      proof (cases "process_event fmt c input e ld")
        case (Inl err)
        then obtain err' where "ns_process_event fmt c input e nl = Inl err'" "same_error err err'"
          using step by (cases "ns_process_event fmt c input e nl") auto
        then show ?thesis
          using Inl ev False by (simp add: load_loop.simps[of _ _ _ _ p] ns_load_loop.simps[of _ _ _ _ p])
      next
        case (Inr ld')
        then obtain nl' where nl': "ns_process_event fmt c input e nl = Inr nl'" "agree ld' nl'"
          using step by (cases "ns_process_event fmt c input e nl") auto
        have "follows_grammar h ld'" by (rule process_event_follows[OF "1.prems"(2) h(1) Inr])
        from "1.IH"[OF ev refl False Inr nl'(2) this h(2)] show ?thesis
          using Inr nl'(1) ev False by (simp add: load_loop.simps[of _ _ _ _ p] ns_load_loop.simps[of _ _ _ _ p])
      qed
    qed
  qed
qed

lemma agree_new: "agree (loader_new c) (no_span_loader_new c)"
  by (simp add: agree_def loader_new_def no_span_loader_new_def)

lemma follows_new: "follows_grammar (BeforeStream, []) (loader_new c)"
  by (simp add: follows_grammar_def loader_new_def)

text \<open>
  C21.  The span-full and the span-free loader agree on every token stream: they return the same
  values or the same error up to its location, under every configuration.  The one event they
  treat differently, an end without its start, cannot come out of the parser.
\<close>

theorem loaders_agree:
  "same_outcome (\<lambda>docs values. values = map fst docs)
     (load fmt config node_text input (parser_new tokens err))
     (load_all_no_spans fmt config node_text input (parser_new tokens err))
   \<and> same_outcome (\<lambda>doc v. v = fst doc)
     (load_exactly_one fmt config node_text input (parser_new tokens err))
     (load_exactly_one_no_spans fmt config node_text input (parser_new tokens err))"
proof -
  have "grammar_of (parser_new tokens err) = Some (BeforeStream, [])"
    by (simp add: parser_new_def grammar_of_def)
  note loops = load_loops_agree[OF agree_new follows_new this, of fmt config node_text input]
  have docs: "same_outcome (\<lambda>docs values. values = map fst docs)
     (load fmt config node_text input (parser_new tokens err))
     (load_all_no_spans fmt config node_text input (parser_new tokens err))"
    unfolding load_def load_all_no_spans_def
    by (rule same_outcome_then[OF loops]) (simp add: agree_def)
  moreover have "same_outcome (\<lambda>doc v. v = fst doc)
     (load_exactly_one fmt config node_text input (parser_new tokens err))
     (load_exactly_one_no_spans fmt config node_text input (parser_new tokens err))"
    unfolding load_exactly_one_def load_exactly_one_no_spans_def
    by (rule same_outcome_then[OF docs]) (auto split: list.split)
  ultimately show ?thesis by blast
qed

end
