(* ===== verification/Loader_Rebuild.thy ===== *)
theory Loader_Rebuild
  imports Loader_Invariant
begin

text \<open>
  The tree builder rebuilds a value from its events.  The events of a value are the ones a document
  spelling it out has: strings quoted, null, booleans and integers plain.  Every value within the
  limits is accepted and comes back unchanged.
\<close>

definition no_span :: span where "no_span = \<lparr>span_start = 0, span_end = 0\<rparr>"

definition quoted_event :: "string \<Rightarrow> event" where
  "quoted_event s = Scalar s DoubleQuoted None None no_span"

definition plain_event :: "string \<Rightarrow> event" where
  "plain_event s = Scalar s Plain None None no_span"

fun events_of :: "(f64 \<Rightarrow> string) \<Rightarrow> value \<Rightarrow> event list" where
  "events_of spell VNull = [plain_event ''null'']"
| "events_of spell (VBool b) = [plain_event (if b then ''true'' else ''false'')]"
| "events_of spell (VNumber n) = (case n of Integer i \<Rightarrow> [plain_event (show_int i)] | Float f \<Rightarrow> [plain_event (spell f)])"
| "events_of spell (VString s) = [quoted_event s]"
| "events_of spell (VSequence xs) = SequenceStart None None no_span # concat (map (events_of spell) xs) @ [SequenceEnd no_span]"
| "events_of spell (VMapping m) =
     MappingStart None None no_span # concat (map (\<lambda>(k, v). quoted_event k # events_of spell v) m) @ [MappingEnd no_span]"
| "events_of spell (VTagged t v) = events_of spell v"

text \<open>
  Values the events determine, within the limits of the configuration.  A float needs a spelling
  that the plain resolution reads as that float; null, booleans and numbers need the schema, which
  \<open>no_schema\<close> turns off.  Tagged values are left out.
\<close>

fun spelled :: "(f64 \<Rightarrow> string) \<Rightarrow> parse_config \<Rightarrow> value \<Rightarrow> bool" where
  "spelled spell c VNull = (\<not> no_schema c)"
| "spelled spell c (VBool b) = (\<not> no_schema c)"
| "spelled spell c (VNumber n) =
     (case n of
        Integer i \<Rightarrow> \<not> no_schema c \<and> fits_i64 i
      | Float f \<Rightarrow> resolve_untagged_scalar (spell f) Plain c = VNumber (Float f)
                   \<and> \<not> overflows_u64_decimal (spell f))"
| "spelled spell c (VString s) = True"
| "spelled spell c (VSequence xs) = (length xs \<le> max_sequence_length c \<and> list_all (spelled spell c) xs)"
| "spelled spell c (VMapping m) =
     (imap_valid m \<and> length m \<le> max_mapping_keys c \<and> list_all (\<lambda>(k, v). spelled spell c v) m)"
| "spelled spell c (VTagged t v) = False"

fun run_events ::
  "(f64 \<Rightarrow> string) \<Rightarrow> parse_config \<Rightarrow> string \<Rightarrow> event list \<Rightarrow> loader \<Rightarrow> loader result" where
  "run_events fmt c input [] ld = Inr ld"
| "run_events fmt c input (e # es) ld =
     and_then (process_event fmt c input e ld) (\<lambda>ld. run_events fmt c input es ld)"

lemma run_events_append:
  "run_events fmt c input (es @ fs) ld = and_then (run_events fmt c input es ld) (run_events fmt c input fs)"
proof (induction es arbitrary: ld)
  case (Cons e es)
  then show ?case by (cases "process_event fmt c input e ld") auto
qed simp

lemma charge_all_append:
  "charge_all c (es @ fs) m = then_charge (charge_all c es m) (charge_all c fs)"
proof (induction es arbitrary: m)
  case (Cons e es)
  then show ?case by (cases "charge_event e c m"; cases "snd (charge_event e c m)") auto
qed simp

lemma process_charged:
  "charge_event e c (ld_meter ld) = (m, Inr ()) \<Longrightarrow>
   process_event fmt c input e ld = apply_event fmt c input e (ld\<lparr>ld_meter := m\<rparr>)"
  by (simp add: process_event_def charged_def)

section \<open>Scalars\<close>

lemma show_int_no_overflow:
  assumes "fits_i64 n" shows "\<not> overflows_u64_decimal (show_int n)"
proof
  assume a: "overflows_u64_decimal (show_int n)"
  show False
  proof (cases "n < 0")
    case True
    then show ?thesis using a
      by (simp add: show_int_def overflows_u64_decimal_def no_digit Let_def)
  next
    case False
    let ?s = "show_nat (nat n)"
    obtain x t where s: "?s = x # t" by (meson neq_Nil_conv show_nat_nonempty)
    have d: "all_digits ?s" by simp
    then have x: "x \<noteq> CHR ''+''" by (auto simp: s all_digits_def dest: digit_not_plus)
    have "nat n < 2 ^ 64" using assms False by (simp add: fits_i64_iff)
    then have "u64_from_str_radix 10 ?s = Some (nat n)"
      using decimal_digits[of ?s] d x
      by (simp add: u64_from_str_radix_def Let_def) (simp add: s)
    then show ?thesis using a False x by (simp add: show_int_def overflows_u64_decimal_def Let_def s)
  qed
qed

text \<open>One scalar event pushes its value.\<close>

lemma apply_quoted:
  "\<exists>st. apply_event fmt c input (quoted_event s) ld = push_node fmt c input (VString s) st False ld"
proof -
  have "apply_event fmt c input (quoted_event s) ld = push_node fmt c input (VString s) (Leaf 0 0) False ld"
    by (simp add: apply_event_def quoted_event_def integer_overflows_def resolve_scalar_def
        resolve_untagged_scalar_def define_anchor_def note_anchor_def Let_def no_span_def)
  then show ?thesis by blast
qed

lemma resolve_words:
  assumes "\<not> no_schema c"
  shows "resolve_untagged_scalar ''null'' Plain c = VNull"
    and "resolve_untagged_scalar ''true'' Plain c = VBool True"
    and "resolve_untagged_scalar ''false'' Plain c = VBool False"
  using assms
  by (simp_all add: resolve_untagged_scalar_def resolve_plain_ext_def is_leading_zero_decimal_def
      strip_sign_def starts_with_def parse_legacy_binary_def)

lemma resolve_number:
  assumes "\<not> no_schema c" and "fits_i64 n"
  shows "resolve_untagged_scalar (show_int n) Plain c = VNumber (Integer n)"
  using assms by (simp add: resolve_untagged_scalar_def resolve_show_int legacy_binary_show_int
      is_leading_zero_show_int)

lemma no_overflow_words: "\<not> overflows_u64_decimal ''null''" "\<not> overflows_u64_decimal ''true''"
  "\<not> overflows_u64_decimal ''false''"
  by (simp_all add: overflows_u64_decimal_def is_ascii_digit_def byte_def)

lemma apply_plain:
  assumes "\<not> overflows_u64_decimal s"
  shows "\<exists>st. apply_event fmt c input (plain_event s) ld
    = push_node fmt c input (resolve_untagged_scalar s Plain c) st True ld"
proof -
  have "apply_event fmt c input (plain_event s) ld
      = push_node fmt c input (resolve_untagged_scalar s Plain c) (Leaf 0 0) True ld"
    using assms
    by (simp add: apply_event_def plain_event_def integer_overflows_def resolve_scalar_def
        define_anchor_def note_anchor_def Let_def no_span_def)
  then show ?thesis by blast
qed

section \<open>Collections\<close>

lemma apply_sequence_start:
  assumes "ld_depth ld < depth_limit c"
  obtains s where "apply_event fmt c input (SequenceStart None None no_span) ld
      = Inr (ld\<lparr>ld_depth := Suc (ld_depth ld), ld_stack := FSequence s # ld_stack ld\<rparr>)"
    and "sq_items s = []" and "sq_anchor s = None" and "sq_tag s = None"
  using assms
  by (simp add: apply_event_def open_collection_def note_anchor_def depth_exceeded_def depth_limit_def Let_def)

lemma apply_mapping_start:
  assumes "ld_depth ld < depth_limit c"
  obtains b where "apply_event fmt c input (MappingStart None None no_span) ld
      = Inr (ld\<lparr>ld_depth := Suc (ld_depth ld), ld_stack := FMappingKey b # ld_stack ld\<rparr>)"
    and "mp_map b = []" and "mp_anchor b = None" and "mp_tag b = None" and "mp_merge_values b = []"
  using assms
  by (simp add: apply_event_def open_collection_def note_anchor_def depth_exceeded_def depth_limit_def Let_def)

lemma apply_sequence_end:
  assumes "ld_stack ld = FSequence s # frames" and "sq_anchor s = None" and "sq_tag s = None"
  obtains st where "apply_event fmt c input (SequenceEnd no_span) ld
    = push_node fmt c input (VSequence (sq_items s)) st False (ld\<lparr>ld_depth := ld_depth ld - 1, ld_stack := frames\<rparr>)"
  using assms by (simp add: apply_event_def define_anchor_def wrap_with_tag_def Let_def)

lemma apply_mapping_end:
  assumes "ld_stack ld = FMappingKey b # frames" and "mp_anchor b = None" and "mp_tag b = None"
    and "mp_merge_values b = []"
  obtains st where "apply_event fmt c input (MappingEnd no_span) ld
    = push_node fmt c input (VMapping (mp_map b)) st False (ld\<lparr>ld_depth := ld_depth ld - 1, ld_stack := frames\<rparr>)"
  using assms by (simp add: apply_event_def define_anchor_def wrap_with_tag_def Let_def)

lemma push_item:
  assumes "ld_stack ld = FSequence s # frames" and "length (sq_items s) < max_sequence_length c"
  shows "\<exists>st'. push_node fmt c input v st mk ld
    = Inr (ld\<lparr>ld_stack := FSequence (s\<lparr>sq_items := sq_items s @ [v], sq_span_items := st'\<rparr>) # frames\<rparr>)"
  using assms by (auto simp: push_node_def)

text \<open>A quoted key and its value add an entry.\<close>

lemma push_entry:
  assumes "ld_stack ld = FMappingKey b # frames" and "imap_get (mp_map b) k = None"
    and "length (mp_map b) < max_mapping_keys c"
  shows "\<exists>ld1. push_node fmt c input (VString k) st False ld = Inr ld1
    \<and> ld_depth ld1 = ld_depth ld \<and> length (ld_stack ld1) = length (ld_stack ld) \<and> ld_meter ld1 = ld_meter ld
    \<and> (\<forall>v st' mk m. \<exists>b'. push_node fmt c input v st' mk (ld1\<lparr>ld_meter := m\<rparr>)
        = Inr (ld\<lparr>ld_meter := m, ld_stack := FMappingKey b' # frames\<rparr>)
        \<and> mp_map b' = mp_map b @ [(k, v)] \<and> mp_anchor b' = mp_anchor b \<and> mp_tag b' = mp_tag b
        \<and> mp_merge_values b' = mp_merge_values b)"
proof -
  have "imap_index_of (mp_map b) k = None" using assms(2) by (simp add: imap_index_of_None)
  then show ?thesis
    using assms
    by (auto simp: push_node_def take_key_def insert_entry_def append_entry_def imap_insert_absent Let_def
        split: duplicate_key_policy.split)
qed

section \<open>Rebuilding\<close>

lemma and_then_stop: "and_then r (run_events fmt c input []) = r"
  by (cases r) simp_all

definition rebuilds :: "(f64 \<Rightarrow> string) \<Rightarrow> (f64 \<Rightarrow> string) \<Rightarrow> parse_config \<Rightarrow> string \<Rightarrow> value \<Rightarrow> bool" where
  "rebuilds spell fmt c input v \<longleftrightarrow>
     (\<forall>ld m. ld_depth ld + value_height v \<le> depth_limit c
        \<longrightarrow> charge_all c (events_of spell v) (ld_meter ld) = (m, Inr ())
        \<longrightarrow> (\<exists>st mk. run_events fmt c input (events_of spell v) ld = push_node fmt c input v st mk (ld\<lparr>ld_meter := m\<rparr>)))"

lemma rebuildsD:
  assumes "rebuilds spell fmt c input v" and "ld_depth ld + value_height v \<le> depth_limit c"
    and "charge_all c (events_of spell v) (ld_meter ld) = (m, Inr ())"
  obtains st mk where "run_events fmt c input (events_of spell v) ld = push_node fmt c input v st mk (ld\<lparr>ld_meter := m\<rparr>)"
  using assms unfolding rebuilds_def by blast

lemma rebuilds_quoted: "rebuilds spell fmt c input (VString s)"
  unfolding rebuilds_def
proof (intro allI impI)
  fix ld :: loader and m
  assume "charge_all c (events_of spell (VString s)) (ld_meter ld) = (m, Inr ())"
  then have "process_event fmt c input (quoted_event s) ld = apply_event fmt c input (quoted_event s) (ld\<lparr>ld_meter := m\<rparr>)"
    by (auto simp: then_charge_ok intro: process_charged)
  then show "\<exists>st mk. run_events fmt c input (events_of spell (VString s)) ld
      = push_node fmt c input (VString s) st mk (ld\<lparr>ld_meter := m\<rparr>)"
    using apply_quoted[of fmt c input s "ld\<lparr>ld_meter := m\<rparr>"] by (auto simp: and_then_stop)
qed

lemma rebuilds_plain:
  assumes "events_of spell v = [plain_event s]" and "resolve_untagged_scalar s Plain c = v"
    and "\<not> overflows_u64_decimal s"
  shows "rebuilds spell fmt c input v"
  unfolding rebuilds_def
proof (intro allI impI)
  fix ld :: loader and m
  assume "charge_all c (events_of spell v) (ld_meter ld) = (m, Inr ())"
  then have "process_event fmt c input (plain_event s) ld = apply_event fmt c input (plain_event s) (ld\<lparr>ld_meter := m\<rparr>)"
    by (auto simp: then_charge_ok assms(1) intro: process_charged)
  then show "\<exists>st mk. run_events fmt c input (events_of spell v) ld
      = push_node fmt c input v st mk (ld\<lparr>ld_meter := m\<rparr>)"
    using apply_plain[OF assms(3), of fmt c input "ld\<lparr>ld_meter := m\<rparr>"] assms(2)
    by (auto simp: and_then_stop assms(1))
qed

text \<open>The items of a sequence, one after the other.\<close>

lemma run_items:
  assumes "\<And>x. x \<in> set xs \<Longrightarrow> rebuilds spell fmt c input x \<and> ld_depth ld + value_height x \<le> depth_limit c"
    and "ld_stack ld = FSequence s # frames" and "length (sq_items s) + length xs \<le> max_sequence_length c"
    and "charge_all c (concat (map (events_of spell) xs)) (ld_meter ld) = (m, Inr ())"
  shows "\<exists>s'. run_events fmt c input (concat (map (events_of spell) xs)) ld
        = Inr (ld\<lparr>ld_meter := m, ld_stack := FSequence s' # frames\<rparr>)
      \<and> sq_items s' = sq_items s @ xs \<and> sq_anchor s' = sq_anchor s \<and> sq_tag s' = sq_tag s"
  using assms
proof (induction xs arbitrary: ld s)
  case Nil
  then show ?case by (auto intro: exI[of _ s] simp: loader.defs)
next
  case (Cons x xs)
  obtain n where n: "charge_all c (events_of spell x) (ld_meter ld) = (n, Inr ())"
    "charge_all c (concat (map (events_of spell) xs)) n = (m, Inr ())"
    using Cons.prems(4) by (auto simp: charge_all_append then_charge_ok)
  obtain st mk where r: "run_events fmt c input (events_of spell x) ld = push_node fmt c input x st mk (ld\<lparr>ld_meter := n\<rparr>)"
    using rebuildsD[of spell fmt c input x ld n] Cons.prems(1)[of x] n(1) by auto
  let ?s = "s\<lparr>sq_items := sq_items s @ [x], sq_span_items := sq_span_items s @ [st]\<rparr>"
  let ?ld = "ld\<lparr>ld_meter := n, ld_stack := FSequence ?s # frames\<rparr>"
  have p: "run_events fmt c input (events_of spell x) ld = Inr ?ld"
    using Cons.prems(2,3) by (simp add: r push_node_def)
  have "\<exists>s'. run_events fmt c input (concat (map (events_of spell) xs)) ?ld
        = Inr (?ld\<lparr>ld_meter := m, ld_stack := FSequence s' # frames\<rparr>)
      \<and> sq_items s' = sq_items ?s @ xs \<and> sq_anchor s' = sq_anchor ?s \<and> sq_tag s' = sq_tag ?s"
    using Cons.prems(1,3) n(2) by (intro Cons.IH) auto
  then show ?case by (simp add: run_events_append p)
qed

text \<open>The entries of a mapping.\<close>

lemma run_entries:
  assumes "\<And>k v. (k, v) \<in> set es \<Longrightarrow> rebuilds spell fmt c input v \<and> ld_depth ld + value_height v \<le> depth_limit c"
    and "ld_stack ld = FMappingKey b # frames" and "imap_valid (mp_map b @ es)"
    and "length (mp_map b) + length es \<le> max_mapping_keys c"
    and "charge_all c (concat (map (\<lambda>(k, v). quoted_event k # events_of spell v) es)) (ld_meter ld) = (m, Inr ())"
  shows "\<exists>b'. run_events fmt c input (concat (map (\<lambda>(k, v). quoted_event k # events_of spell v) es)) ld
        = Inr (ld\<lparr>ld_meter := m, ld_stack := FMappingKey b' # frames\<rparr>)
      \<and> mp_map b' = mp_map b @ es \<and> mp_anchor b' = mp_anchor b \<and> mp_tag b' = mp_tag b
      \<and> mp_merge_values b' = mp_merge_values b"
  using assms
proof (induction es arbitrary: ld b)
  case Nil
  then show ?case by (auto intro: exI[of _ b])
next
  case (Cons e es)
  obtain k v where e: "e = (k, v)" by fastforce
  obtain n n' where n: "charge_event (quoted_event k) c (ld_meter ld) = (n, Inr ())"
    "charge_all c (events_of spell v) n = (n', Inr ())"
    "charge_all c (concat (map (\<lambda>(k, v). quoted_event k # events_of spell v) es)) n' = (m, Inr ())"
    using Cons.prems(5) by (auto simp: e charge_all_append then_charge_ok)
  have "k \<notin> fst ` set (mp_map b)" using Cons.prems(3) by (auto simp: e imap_valid_def)
  then have absent: "imap_get (mp_map b) k = None" by (simp add: imap_get_map_of map_of_eq_None_iff)
  obtain st0 where k: "process_event fmt c input (quoted_event k) ld
      = push_node fmt c input (VString k) st0 False (ld\<lparr>ld_meter := n\<rparr>)"
    using apply_quoted[of fmt c input k "ld\<lparr>ld_meter := n\<rparr>"] process_charged[OF n(1)] by metis
  have room: "length (mp_map b) < max_mapping_keys c" using Cons.prems(4) by simp
  obtain ld1 where ld1: "push_node fmt c input (VString k) st0 False (ld\<lparr>ld_meter := n\<rparr>) = Inr ld1"
      "ld_depth ld1 = ld_depth ld" "ld_meter ld1 = n"
    and entry: "\<And>v st' mk m. \<exists>b'. push_node fmt c input v st' mk (ld1\<lparr>ld_meter := m\<rparr>)
        = Inr (ld\<lparr>ld_meter := m, ld_stack := FMappingKey b' # frames\<rparr>)
        \<and> mp_map b' = mp_map b @ [(k, v)] \<and> mp_anchor b' = mp_anchor b \<and> mp_tag b' = mp_tag b
        \<and> mp_merge_values b' = mp_merge_values b"
    using push_entry[of "ld\<lparr>ld_meter := n\<rparr>" b frames k c fmt input st0] Cons.prems(2) absent room by auto
  obtain st mk where r: "run_events fmt c input (events_of spell v) ld1 = push_node fmt c input v st mk (ld1\<lparr>ld_meter := n'\<rparr>)"
    using rebuildsD[of spell fmt c input v ld1 n'] Cons.prems(1)[of k v] n(2) ld1(2,3) by (auto simp: e)
  obtain b1 where b1: "push_node fmt c input v st mk (ld1\<lparr>ld_meter := n'\<rparr>)
        = Inr (ld\<lparr>ld_meter := n', ld_stack := FMappingKey b1 # frames\<rparr>)"
      "mp_map b1 = mp_map b @ [(k, v)]" "mp_anchor b1 = mp_anchor b" "mp_tag b1 = mp_tag b"
      "mp_merge_values b1 = mp_merge_values b"
    using entry[where m = n'] by blast
  let ?ld = "ld\<lparr>ld_meter := n', ld_stack := FMappingKey b1 # frames\<rparr>"
  have "\<exists>b'. run_events fmt c input (concat (map (\<lambda>(k, v). quoted_event k # events_of spell v) es)) ?ld
        = Inr (?ld\<lparr>ld_meter := m, ld_stack := FMappingKey b' # frames\<rparr>)
      \<and> mp_map b' = mp_map b1 @ es \<and> mp_anchor b' = mp_anchor b1 \<and> mp_tag b' = mp_tag b1
      \<and> mp_merge_values b' = mp_merge_values b1"
    using Cons.prems(1,3,4) n(3) by (intro Cons.IH) (auto simp: e b1(2))
  then show ?case by (simp add: e run_events_append k ld1(1) r b1)
qed

text \<open>Every spelled value rebuilds itself.\<close>

lemma max_of_member: "x \<in> set xs \<Longrightarrow> x \<le> max_of xs"
  by (meson max_of_le order_refl)

lemma rebuilds_spelled:
  "spelled spell c v \<Longrightarrow> rebuilds spell fmt c input v"
proof (induction v)
  case VNull
  then show ?case using rebuilds_plain[OF _ resolve_words(1)] no_overflow_words by simp
next
  case (VBool b)
  then show ?case
    using rebuilds_plain[OF _ resolve_words(2)] rebuilds_plain[OF _ resolve_words(3)] no_overflow_words
    by (cases b) simp_all
next
  case (VNumber n)
  show ?case
  proof (cases n)
    case (Integer i)
    then show ?thesis using rebuilds_plain[OF _ resolve_number] show_int_no_overflow VNumber by simp
  next
    case (Float f)
    then show ?thesis using rebuilds_plain[where v = "VNumber n" and s = "spell f"] VNumber by simp
  qed
next
  case (VString s)
  then show ?case by (simp add: rebuilds_quoted)
next
  case (VSequence xs)
  show ?case
    unfolding rebuilds_def
  proof (intro allI impI)
    fix ld :: loader and m
    let ?v = "VSequence xs" and ?xs = "concat (map (events_of spell) xs)"
    assume d: "ld_depth ld + value_height ?v \<le> depth_limit c"
      and ch: "charge_all c (events_of spell ?v) (ld_meter ld) = (m, Inr ())"
    obtain n n' where n: "charge_event (SequenceStart None None no_span) c (ld_meter ld) = (n, Inr ())"
      "charge_all c ?xs n = (n', Inr ())" "charge_event (SequenceEnd no_span) c n' = (m, Inr ())"
      using ch by (auto simp: charge_all_append then_charge_ok)
    obtain s where s: "process_event fmt c input (SequenceStart None None no_span) ld
        = Inr (ld\<lparr>ld_meter := n, ld_depth := Suc (ld_depth ld), ld_stack := FSequence s # ld_stack ld\<rparr>)"
      "sq_items s = []" "sq_anchor s = None" "sq_tag s = None"
      using apply_sequence_start[of "ld\<lparr>ld_meter := n\<rparr>" c fmt input] process_charged[OF n(1)] d by auto
    let ?ld = "ld\<lparr>ld_meter := n, ld_depth := Suc (ld_depth ld), ld_stack := FSequence s # ld_stack ld\<rparr>"
    have "\<And>x. x \<in> set xs \<Longrightarrow> rebuilds spell fmt c input x \<and> ld_depth ?ld + value_height x \<le> depth_limit c"
    proof -
      fix x assume x: "x \<in> set xs"
      then have "value_height x \<le> max_of (map value_height xs)" by (simp add: max_of_member)
      then show "rebuilds spell fmt c input x \<and> ld_depth ?ld + value_height x \<le> depth_limit c"
        using VSequence d x by (auto simp: list_all_iff)
    qed
    then obtain s' where s': "run_events fmt c input ?xs ?ld
        = Inr (?ld\<lparr>ld_meter := n', ld_stack := FSequence s' # ld_stack ld\<rparr>)"
      "sq_items s' = xs" "sq_anchor s' = None" "sq_tag s' = None"
      using run_items[of xs spell fmt c input ?ld s "ld_stack ld" n'] s VSequence.prems n(2) by auto
    obtain st where "process_event fmt c input (SequenceEnd no_span)
          (?ld\<lparr>ld_meter := n', ld_stack := FSequence s' # ld_stack ld\<rparr>)
        = push_node fmt c input ?v st False (ld\<lparr>ld_meter := m\<rparr>)"
      using apply_sequence_end[of "?ld\<lparr>ld_meter := n', ld_stack := FSequence s' # ld_stack ld\<rparr>\<lparr>ld_meter := m\<rparr>" s' "ld_stack ld" fmt c input]
        process_charged[of "SequenceEnd no_span" c "?ld\<lparr>ld_meter := n', ld_stack := FSequence s' # ld_stack ld\<rparr>"]
        n(3) s'(2,3,4) by auto
    then show "\<exists>st mk. run_events fmt c input (events_of spell ?v) ld = push_node fmt c input ?v st mk (ld\<lparr>ld_meter := m\<rparr>)"
      using s(1) s'(1) by (auto simp: run_events_append and_then_stop)
  qed
next
  case (VMapping es)
  show ?case
    unfolding rebuilds_def
  proof (intro allI impI)
    fix ld :: loader and m
    let ?v = "VMapping es" and ?es = "concat (map (\<lambda>(k, v). quoted_event k # events_of spell v) es)"
    assume d: "ld_depth ld + value_height ?v \<le> depth_limit c"
      and ch: "charge_all c (events_of spell ?v) (ld_meter ld) = (m, Inr ())"
    obtain n n' where n: "charge_event (MappingStart None None no_span) c (ld_meter ld) = (n, Inr ())"
      "charge_all c ?es n = (n', Inr ())" "charge_event (MappingEnd no_span) c n' = (m, Inr ())"
      using ch by (auto simp: charge_all_append then_charge_ok)
    obtain b where b: "process_event fmt c input (MappingStart None None no_span) ld
        = Inr (ld\<lparr>ld_meter := n, ld_depth := Suc (ld_depth ld), ld_stack := FMappingKey b # ld_stack ld\<rparr>)"
      "mp_map b = []" "mp_anchor b = None" "mp_tag b = None" "mp_merge_values b = []"
      using apply_mapping_start[of "ld\<lparr>ld_meter := n\<rparr>" c fmt input] process_charged[OF n(1)] d by auto
    let ?ld = "ld\<lparr>ld_meter := n, ld_depth := Suc (ld_depth ld), ld_stack := FMappingKey b # ld_stack ld\<rparr>"
    have "\<And>k v. (k, v) \<in> set es \<Longrightarrow> rebuilds spell fmt c input v \<and> ld_depth ?ld + value_height v \<le> depth_limit c"
    proof -
      fix k v assume x: "(k, v) \<in> set es"
      then have "value_height v \<le> max_of (map (\<lambda>(k, v). value_height v) es)" by (force intro: max_of_member)
      then show "rebuilds spell fmt c input v \<and> ld_depth ?ld + value_height v \<le> depth_limit c"
        using VMapping d x by (fastforce simp: list_all_iff)
    qed
    then obtain b' where b': "run_events fmt c input ?es ?ld
        = Inr (?ld\<lparr>ld_meter := n', ld_stack := FMappingKey b' # ld_stack ld\<rparr>)"
      "mp_map b' = es" "mp_anchor b' = None" "mp_tag b' = None" "mp_merge_values b' = []"
      using run_entries[of es spell fmt c input ?ld b "ld_stack ld" n'] b VMapping.prems n(2) by auto
    obtain st where "process_event fmt c input (MappingEnd no_span)
          (?ld\<lparr>ld_meter := n', ld_stack := FMappingKey b' # ld_stack ld\<rparr>)
        = push_node fmt c input ?v st False (ld\<lparr>ld_meter := m\<rparr>)"
      using apply_mapping_end[of "?ld\<lparr>ld_meter := n', ld_stack := FMappingKey b' # ld_stack ld\<rparr>\<lparr>ld_meter := m\<rparr>" b' "ld_stack ld" fmt c input]
        process_charged[of "MappingEnd no_span" c "?ld\<lparr>ld_meter := n', ld_stack := FMappingKey b' # ld_stack ld\<rparr>"]
        n(3) b'(2-5) by auto
    then show "\<exists>st mk. run_events fmt c input (events_of spell ?v) ld = push_node fmt c input ?v st mk (ld\<lparr>ld_meter := m\<rparr>)"
      using b(1) b'(1) by (auto simp: run_events_append and_then_stop)
  qed
next
  case (VTagged t v)
  then show ?case by simp
qed

section \<open>The document of a value\<close>

definition document_of :: "(f64 \<Rightarrow> string) \<Rightarrow> value \<Rightarrow> event list" where
  "document_of spell v = [StreamStart, DocumentStart] @ events_of spell v @ [DocumentEnd, StreamEnd]"

text \<open>
  C22. A value without tags survives the trip through its events: on the events of the document that
  spells the value out (strings and keys quoted; null, booleans, integers and floats plain), a loader
  whose budgets admit the events and whose limits admit the value ends with that single document,
  holding exactly the value.  Integers must fit 64 bits; a float must have a spelling that the plain
  resolution reads as that float; under \<open>no_schema\<close>, which turns the schema off, this is about trees
  of strings.
\<close>

theorem loader_rebuilds_document:
  assumes "spelled spell c v" and "value_height v \<le> depth_limit c"
    and "snd (charge_all c (document_of spell v) (meter_new c)) = Inr ()"
  shows "\<exists>ld. run_events fmt c input (document_of spell v) (loader_new c) = Inr ld \<and> map fst (ld_docs ld) = [v]
    \<and> ld_stack ld = [] \<and> ld_depth ld = 0"
proof -
  obtain m where "charge_all c (document_of spell v) (meter_new c) = (m, Inr ())"
    using assms(3) by (metis (full_types) old.unit.exhaust prod.collapse)
  then obtain m1 m2 m3 m4 where m: "charge_event StreamStart c (meter_new c) = (m1, Inr ())"
      "charge_event DocumentStart c m1 = (m2, Inr ())" "charge_all c (events_of spell v) m2 = (m3, Inr ())"
      "charge_event DocumentEnd c m3 = (m4, Inr ())" "charge_event StreamEnd c m4 = (m, Inr ())"
    by (auto simp: document_of_def charge_all_append then_charge_ok)
  let ?ld = "(loader_new c)\<lparr>ld_meter := m2, ld_in_document := True\<rparr>"
  have r: "rebuilds spell fmt c input v" using rebuilds_spelled[OF assms(1)] .
  obtain st mk where "run_events fmt c input (events_of spell v) ?ld = push_node fmt c input v st mk (?ld\<lparr>ld_meter := m3\<rparr>)"
    using rebuildsD[OF r, of ?ld m3] m(3) assms(2) by (auto simp: loader_new_def)
  then show ?thesis
    using m
    by (simp add: document_of_def run_events_append process_event_def charged_def loader_new_def
        apply_event_def push_node_def imap_extend_def)
qed

theorem loader_rebuilds_document_witness:
  "\<exists>ld. run_events (\<lambda>f. []) (default_config 40) []
      (document_of (\<lambda>f. ''.inf'')
        (VMapping [(''a'', VSequence [VNumber (Integer (- 7)), VNull, VNumber (Float f64_infinity)]), (''<<'', VBool True)]))
      (loader_new (default_config 40)) = Inr ld
    \<and> map fst (ld_docs ld)
        = [VMapping [(''a'', VSequence [VNumber (Integer (- 7)), VNull, VNumber (Float f64_infinity)]), (''<<'', VBool True)]]
    \<and> ld_stack ld = [] \<and> ld_depth ld = 0"
proof (rule loader_rebuilds_document)
  let ?v = "VMapping [(''a'', VSequence [VNumber (Integer (- 7)), VNull, VNumber (Float f64_infinity)]), (''<<'', VBool True)]"
  show "snd (charge_all (default_config 40) (document_of (\<lambda>f. ''.inf'') ?v) (meter_new (default_config 40))) = Inr ()"
    by (subst charge_all_within)
      (simp_all add: default_config_def finite_limits_def usize_max_def within_def meter_new_def document_of_def
        quoted_event_def plain_event_def show_int_def show_nat.simps)
  have "resolve_untagged_scalar ''.inf'' Plain (default_config 40) = VNumber (Float f64_infinity)"
    by (simp add: resolve_untagged_scalar_def resolve_plain_ext_def default_config_def
        is_leading_zero_decimal_def strip_sign_def starts_with_def parse_legacy_binary_def is_inf_spelling_def)
  moreover have "\<not> overflows_u64_decimal ''.inf''"
    by (simp add: overflows_u64_decimal_def is_ascii_digit_def byte_def)
  ultimately show "spelled (\<lambda>f. ''.inf'') (default_config 40) ?v"
    by (simp add: default_config_def fits_i64_def i64_min_def i64_max_def imap_valid_def)
qed (simp_all add: default_config_def depth_limit_def effective_max_depth_def max_depth_ceiling_def)

end
