(* ===== verification/Interpolate.thy ===== *)
theory Interpolate
  imports Merge
begin

text \<open>
  Model of the placeholder interpolation of \<open>value.rs\<close>: the token parser of \<open>${name:-default}\<close>,
  the expansion of one scalar, and the walk over a value that charges the expanded bytes against
  a budget.  The resolver is the caller's closure, a function argument.  The walk works in place;
  an error keeps what was already replaced, so it is returned beside the value.
\<close>

section \<open>Definitions\<close>

datatype resolve_outcome = Found string | Missing | ResolveError error

datatype missing_action = EmptyText | MissingError bool

abbreviation dollar :: char where "dollar \<equiv> CHR ''$''"
abbreviation lbrace :: char where "lbrace \<equiv> CHR ''{''"
abbreviation rbrace :: char where "rbrace \<equiv> CHR ''}''"

definition check_interpolated_scalar_budget :: "nat \<Rightarrow> nat option \<Rightarrow> unit result" where
  "check_interpolated_scalar_budget observed max_scalar_bytes =
     (case max_scalar_bytes of
        None \<Rightarrow> Inr ()
      | Some limit \<Rightarrow>
          if observed > limit then Inl (Budget (MaxTotalScalarBytes limit observed)) else Inr ())"

text \<open>
  The debug form \<open>{:?}\<close> of a byte read as a Latin-1 character: the named escapes, a hexadecimal
  escape for the unprintable ones, the two UTF-8 bytes for the rest of the upper half.
\<close>

definition hex_char :: "nat \<Rightarrow> char" where
  "hex_char d = (if d < 10 then digit_char d else char_of (87 + d))"

definition unicode_escape :: "nat \<Rightarrow> string" where
  "unicode_escape n =
     [backslash_char] @ ''u{'' @ (if n < 16 then [hex_char n] else [hex_char (n div 16), hex_char (n mod 16)])
     @ ''}''"

definition char_debug :: "char \<Rightarrow> string" where
  "char_debug c =
     (let n = byte c
      in [apostrophe_char]
         @ (if n = 0 then [backslash_char, CHR ''0'']
            else if n = 9 then [backslash_char, CHR ''t'']
            else if n = 10 then [backslash_char, CHR ''n'']
            else if n = 13 then [backslash_char, CHR ''r'']
            else if c = apostrophe_char \<or> c = backslash_char then [backslash_char, c]
            else if n < 32 \<or> (127 \<le> n \<and> n \<le> 160) \<or> n = 173 then unicode_escape n
            else if n < 127 then [c]
            else [char_of (192 + n div 64), char_of (128 + n mod 64)])
         @ [apostrophe_char])"

definition name_char :: "char \<Rightarrow> bool" where
  "name_char c \<longleftrightarrow> is_ascii_alphanumeric c \<or> c = CHR ''_'' \<or> c = CHR ''.''"

fun read_name :: "string \<Rightarrow> string \<Rightarrow> (string \<times> string) result" where
  "read_name acc [] =
     Inl (Custom (''interpolate_properties: unterminated '' @ [backtick] @ ''${...}'' @ [backtick]
       @ '' placeholder''))"
| "read_name acc (c # cs) =
     (if c = rbrace \<or> c = CHR '':'' then Inr (acc, c # cs)
      else if \<not> name_char c
      then Inl (Custom (''interpolate_properties: invalid character '' @ char_debug c @ '' in placeholder''))
      else read_name (acc @ [c]) cs)"

text \<open>
  \<open>parse_placeholder_token s name_start\<close>, on the text from \<open>name_start\<close>: the name, the default,
  and the text after the closing brace.
\<close>

definition parse_placeholder_token ::
  "string \<Rightarrow> (string \<times> string option \<times> string) result" where
  "parse_placeholder_token s =
     and_then (read_name [] s) (\<lambda>(name, rest).
       if name = []
       then Inl (Custom (''interpolate_properties: empty placeholder '' @ [backtick] @ ''${}'' @ [backtick]))
       else if hd rest = CHR '':'' then
         (if tl rest = [] \<or> hd (tl rest) \<noteq> CHR ''-''
          then Inl (Custom (''interpolate_properties: expected '' @ [backtick] @ '':-default'' @ [backtick]
                 @ '' after '' @ [backtick] @ ''${name:'' @ [backtick]))
          else let body = drop 2 rest in
            if rbrace \<in> set body
            then Inr (name, Some (takeWhile (\<lambda>c. c \<noteq> rbrace) body),
                      tl (dropWhile (\<lambda>c. c \<noteq> rbrace) body))
            else Inl (Custom (''interpolate_properties: unterminated '' @ [backtick]
                   @ ''${name:-default}'' @ [backtick])))
       else Inr (name, None, tl rest))"

definition resolve_placeholder_value ::
  "string \<Rightarrow> string option \<Rightarrow> (string \<Rightarrow> resolve_outcome) \<Rightarrow> missing_action \<Rightarrow> string result" where
  "resolve_placeholder_value name dflt resolve missing_action =
     (case resolve name of
        Found v \<Rightarrow> Inr v
      | Missing \<Rightarrow>
          (case dflt of
             Some d \<Rightarrow> Inr d
           | None \<Rightarrow>
               (case missing_action of
                  EmptyText \<Rightarrow> Inr []
                | MissingError redact \<Rightarrow>
                    Inl (Custom (''interpolate_properties: unknown placeholder '' @ [backtick]
                      @ (if redact then ''${<redacted>}'' else ''${'' @ name @ ''}'') @ [backtick]))))
      | ResolveError e \<Rightarrow> Inl e)"

lemma read_name_length: "read_name acc s = Inr (name, rest) \<Longrightarrow> length rest \<le> length s \<and> rest \<noteq> []"
  by (induction acc s rule: read_name.induct) (auto split: if_splits)

lemma parse_placeholder_token_length:
  "parse_placeholder_token s = Inr (name, d, rest) \<Longrightarrow> length rest < length s"
proof -
  assume a: "parse_placeholder_token s = Inr (name, d, rest)"
  then obtain n r where r: "read_name [] s = Inr (n, r)"
    by (auto simp: parse_placeholder_token_def res_simps)
  have "length (tl (dropWhile (\<lambda>c. c \<noteq> rbrace) (drop 2 r))) \<le> length r - 1"
    using length_dropWhile_le[of "\<lambda>c. c \<noteq> rbrace" "drop 2 r"] by simp
  with a r read_name_length[OF r] show ?thesis
    by (cases r) (auto simp: parse_placeholder_token_def Let_def split: if_splits)
qed

text \<open>
  The loop of \<open>expand_placeholders\<close> with its variables \<open>out\<close> and \<open>touched\<close>; the last branch
  copies one byte where the code copies one character, which is the same text.
\<close>

function expand_loop ::
  "(string \<Rightarrow> resolve_outcome) \<Rightarrow> missing_action \<Rightarrow> nat option \<Rightarrow> nat \<Rightarrow>
   string \<Rightarrow> bool \<Rightarrow> string \<Rightarrow> (string \<times> bool) result" where
  "expand_loop resolve missing_action max_scalar_bytes base out touched s =
     (case s of
        [] \<Rightarrow> Inr (out, touched)
      | b # cs \<Rightarrow>
          if b = dollar \<and> cs \<noteq> [] \<and> hd cs = dollar
          then expand_loop resolve missing_action max_scalar_bytes base (out @ [dollar]) True (tl cs)
          else if b = dollar \<and> cs \<noteq> [] \<and> hd cs = lbrace then
            (if tl cs \<noteq> [] \<and> hd (tl cs) = lbrace
             then expand_loop resolve missing_action max_scalar_bytes base (out @ ''${'') True (tl (tl cs))
             else case parse_placeholder_token (tl cs) of
                    Inl e \<Rightarrow> Inl e
                  | Inr (name, dflt, rest) \<Rightarrow>
                      and_then (resolve_placeholder_value name dflt resolve missing_action) (\<lambda>v.
                      and_then (check_interpolated_scalar_budget
                                  (sat_add (sat_add base (length out)) (length v)) max_scalar_bytes)
                        (\<lambda>_. expand_loop resolve missing_action max_scalar_bytes base
                               (out @ v) True rest)))
          else if b = rbrace \<and> cs \<noteq> [] \<and> hd cs = rbrace
          then expand_loop resolve missing_action max_scalar_bytes base (out @ [rbrace]) True (tl cs)
          else expand_loop resolve missing_action max_scalar_bytes base (out @ [b]) touched cs)"
  by pat_completeness auto

termination
proof (relation "measure (\<lambda>(_, _, _, _, _, _, s). length s)", goal_cases)
  case (4 resolve missing_action max_scalar_bytes base out touched s b cs x y name z dflt rest)
  then show ?case using parse_placeholder_token_length[of "tl cs"] by (cases cs) fastforce+
qed auto

declare expand_loop.simps [simp del]

definition expand_placeholders ::
  "string \<Rightarrow> (string \<Rightarrow> resolve_outcome) \<Rightarrow> missing_action \<Rightarrow> nat option \<Rightarrow> nat \<Rightarrow>
   string option result" where
  "expand_placeholders s resolve missing_action max_scalar_bytes observed_base =
     (if dollar \<notin> set s \<and> rbrace \<notin> set s then Inr None
      else and_then (expand_loop resolve missing_action max_scalar_bytes observed_base [] False s)
             (\<lambda>(out, touched). Inr (if touched then Some out else None)))"

fun interpolate_walk ::
  "(string \<Rightarrow> resolve_outcome) \<Rightarrow> missing_action \<Rightarrow> nat option \<Rightarrow> value \<Rightarrow> nat \<Rightarrow>
   value \<times> nat \<times> error option"
  and interpolate_items ::
  "(string \<Rightarrow> resolve_outcome) \<Rightarrow> missing_action \<Rightarrow> nat option \<Rightarrow> value list \<Rightarrow> nat \<Rightarrow>
   value list \<times> nat \<times> error option"
  and interpolate_entries ::
  "(string \<Rightarrow> resolve_outcome) \<Rightarrow> missing_action \<Rightarrow> nat option \<Rightarrow> (string \<times> value) list \<Rightarrow> nat \<Rightarrow>
   (string \<times> value) list \<times> nat \<times> error option" where
  "interpolate_walk res act lim (VString s) observed =
     (case expand_placeholders s res act lim observed of
        Inl e \<Rightarrow> (VString s, observed, Some e)
      | Inr updated \<Rightarrow>
          let s' = (case updated of Some u \<Rightarrow> u | None \<Rightarrow> s);
              observed' = sat_add observed (length s')
          in (VString s', observed',
              case check_interpolated_scalar_budget observed' lim of Inl e \<Rightarrow> Some e | Inr _ \<Rightarrow> None))"
| "interpolate_walk res act lim (VSequence vs) observed =
     (case interpolate_items res act lim vs observed of (vs', o', e) \<Rightarrow> (VSequence vs', o', e))"
| "interpolate_walk res act lim (VMapping m) observed =
     (case interpolate_entries res act lim m observed of (m', o', e) \<Rightarrow> (VMapping m', o', e))"
| "interpolate_walk res act lim (VTagged t v) observed =
     (case interpolate_walk res act lim v observed of (v', o', e) \<Rightarrow> (VTagged t v', o', e))"
| "interpolate_walk res act lim v observed = (v, observed, None)"
| "interpolate_items res act lim [] observed = ([], observed, None)"
| "interpolate_items res act lim (v # vs) observed =
     (case interpolate_walk res act lim v observed of
        (v', o', Some e) \<Rightarrow> (v' # vs, o', Some e)
      | (v', o', None) \<Rightarrow>
          (case interpolate_items res act lim vs o' of (vs', o'', e) \<Rightarrow> (v' # vs', o'', e)))"
| "interpolate_entries res act lim [] observed = ([], observed, None)"
| "interpolate_entries res act lim ((k, v) # m) observed =
     (let o1 = sat_add observed (length k) in
      case check_interpolated_scalar_budget o1 lim of
        Inl e \<Rightarrow> ((k, v) # m, o1, Some e)
      | Inr _ \<Rightarrow>
          (case interpolate_walk res act lim v o1 of
             (v', o', Some e) \<Rightarrow> ((k, v') # m, o', Some e)
           | (v', o', None) \<Rightarrow>
               (case interpolate_entries res act lim m o' of (m', o'', e) \<Rightarrow> ((k, v') # m', o'', e))))"

definition interpolate_inner_bounded ::
  "value \<Rightarrow> (string \<Rightarrow> resolve_outcome) \<Rightarrow> missing_action \<Rightarrow> nat option \<Rightarrow> value \<times> error option" where
  "interpolate_inner_bounded v resolve missing_action max_scalar_bytes =
     (case interpolate_walk resolve missing_action max_scalar_bytes v 0 of (v', _, e) \<Rightarrow> (v', e))"

definition interpolate_inner ::
  "value \<Rightarrow> (string \<Rightarrow> resolve_outcome) \<Rightarrow> missing_action \<Rightarrow> value \<times> error option" where
  "interpolate_inner v resolve missing_action =
     interpolate_inner_bounded v resolve missing_action None"

definition property_resolver :: "(string \<Rightarrow> string option) \<Rightarrow> string \<Rightarrow> resolve_outcome" where
  "property_resolver properties name =
     (case properties name of Some v \<Rightarrow> Found v | None \<Rightarrow> Missing)"

definition interpolate_properties :: "value \<Rightarrow> (string \<Rightarrow> string option) \<Rightarrow> value \<times> error option" where
  "interpolate_properties v properties =
     interpolate_inner v (property_resolver properties) (MissingError False)"

definition interpolate_properties_redacted ::
  "value \<Rightarrow> (string \<Rightarrow> string option) \<Rightarrow> value \<times> error option" where
  "interpolate_properties_redacted v properties =
     interpolate_inner v (property_resolver properties) (MissingError True)"

definition interpolate_properties_lossy :: "value \<Rightarrow> (string \<Rightarrow> string option) \<Rightarrow> value" where
  "interpolate_properties_lossy v properties =
     fst (interpolate_inner v (property_resolver properties) EmptyText)"

section \<open>Templates\<close>

text \<open>
  The specification of the expansion: a template is literal text, holes, the escape of an opening
  brace, and a lone dollar or brace before an ordinary character.  The text of a template doubles
  every dollar and every closing brace of a literal; its meaning is the literals and the resolved
  values in their order, where a resolved value that takes the bytes rendered so far over the
  limit is an error.
\<close>

datatype piece = Lit string | Hole string "string option" | Opening | Lone char char

definition escape_char :: "char \<Rightarrow> string" where
  "escape_char c = (if c = dollar \<or> c = rbrace then [c, c] else [c])"

fun piece_text :: "piece \<Rightarrow> string" where
  "piece_text (Lit s) = concat (map escape_char s)"
| "piece_text (Hole name dflt) =
     ''${'' @ name @ (case dflt of None \<Rightarrow> [] | Some d \<Rightarrow> '':-'' @ d) @ [rbrace]"
| "piece_text Opening = ''${{''"
| "piece_text (Lone c d) = [c, d]"

fun piece_ok :: "piece \<Rightarrow> bool" where
  "piece_ok (Hole name dflt) \<longleftrightarrow>
     name \<noteq> [] \<and> list_all name_char name \<and> (case dflt of None \<Rightarrow> True | Some d \<Rightarrow> rbrace \<notin> set d)"
| "piece_ok (Lone c d) \<longleftrightarrow>
     (c = dollar \<or> c = rbrace) \<and> d \<noteq> dollar \<and> d \<noteq> lbrace \<and> d \<noteq> rbrace"
| "piece_ok p \<longleftrightarrow> True"

fun over_limit :: "nat option \<Rightarrow> nat \<Rightarrow> error option" where
  "over_limit None n = None"
| "over_limit (Some limit) n =
     (if min usize_max n \<le> limit then None
      else Some (Budget (MaxTotalScalarBytes limit (min usize_max n))))"

fun piece_value ::
  "(string \<Rightarrow> resolve_outcome) \<Rightarrow> missing_action \<Rightarrow> nat option \<Rightarrow> nat \<Rightarrow> piece \<Rightarrow> string result" where
  "piece_value resolve act limit used (Lit s) = Inr s"
| "piece_value resolve act limit used Opening = Inr ''${''"
| "piece_value resolve act limit used (Lone c d) = Inr [c, d]"
| "piece_value resolve act limit used (Hole name dflt) =
     and_then (resolve_placeholder_value name dflt resolve act) (\<lambda>v.
       case over_limit limit (used + length v) of None \<Rightarrow> Inr v | Some e \<Rightarrow> Inl e)"

fun template_value ::
  "(string \<Rightarrow> resolve_outcome) \<Rightarrow> missing_action \<Rightarrow> nat option \<Rightarrow> nat \<Rightarrow> piece list \<Rightarrow>
   string result" where
  "template_value resolve act limit used [] = Inr []"
| "template_value resolve act limit used (p # ps) =
     and_then (piece_value resolve act limit used p) (\<lambda>v.
       and_then (template_value resolve act limit (used + length v) ps) (\<lambda>w. Inr (v @ w)))"

lemma budget_over_limit:
  "check_interpolated_scalar_budget (sat_add (sat_add base m) n) limit =
     (case over_limit limit (base + m + n) of None \<Rightarrow> Inr () | Some e \<Rightarrow> Inl e)"
proof -
  have "sat_add (sat_add base m) n = min usize_max (base + m + n)"
    by (auto simp: sat_add_def min_def)
  then show ?thesis
    by (cases limit) (simp_all add: check_interpolated_scalar_budget_def flip: not_le)
qed

lemma expand_escaped_char:
  "expand_loop res act lim base out touched (escape_char c @ s) =
     expand_loop res act lim base (out @ [c]) (touched \<or> c = dollar \<or> c = rbrace) s"
  by (subst expand_loop.simps) (auto simp: escape_char_def)

lemma expand_literal:
  "\<exists>t. expand_loop res act lim base out touched (concat (map escape_char l) @ s) =
     expand_loop res act lim base (out @ l) t s
     \<and> (touched \<longrightarrow> t) \<and> (\<not> t \<longrightarrow> concat (map escape_char l) = l)"
proof (induction l arbitrary: out touched)
  case (Cons c l)
  obtain t where t: "expand_loop res act lim base (out @ [c]) (touched \<or> c = dollar \<or> c = rbrace)
      (concat (map escape_char l) @ s) = expand_loop res act lim base ((out @ [c]) @ l) t s"
    "touched \<or> c = dollar \<or> c = rbrace \<longrightarrow> t" "\<not> t \<longrightarrow> concat (map escape_char l) = l"
    using Cons.IH by blast
  have "\<not> t \<longrightarrow> escape_char c = [c]" using t(2) by (simp add: escape_char_def)
  with t show ?case by (intro exI[of _ t]) (simp add: expand_escaped_char)
qed auto

lemma name_char_not_special:
  "name_char c \<Longrightarrow> c \<noteq> rbrace \<and> c \<noteq> CHR '':'' \<and> c \<noteq> lbrace \<and> c \<noteq> dollar"
  by (auto simp: name_char_def is_ascii_alphanumeric_def is_ascii_digit_def is_ascii_upper_def
      is_ascii_lower_def byte_def)

lemma read_name_name:
  "\<lbrakk>list_all name_char name; c = rbrace \<or> c = CHR '':''\<rbrakk> \<Longrightarrow>
   read_name acc (name @ c # rest) = Inr (acc @ name, c # rest)"
  by (induction name arbitrary: acc) (auto dest: name_char_not_special)

lemma parse_hole:
  assumes "piece_ok (Hole name dflt)"
  shows "parse_placeholder_token
      (name @ (case dflt of None \<Rightarrow> [] | Some d \<Rightarrow> '':-'' @ d) @ rbrace # s) = Inr (name, dflt, s)"
proof (cases dflt)
  case None
  then show ?thesis using assms
    by (simp add: parse_placeholder_token_def read_name_name)
next
  case (Some d)
  then have "rbrace \<notin> set d" using assms by simp
  then have "takeWhile (\<lambda>c. c \<noteq> rbrace) (d @ rbrace # s) = d"
    "dropWhile (\<lambda>c. c \<noteq> rbrace) (d @ rbrace # s) = rbrace # s"
    by (induction d) auto
  with Some assms show ?thesis
    by (simp add: parse_placeholder_token_def read_name_name Let_def)
qed

lemma expand_hole:
  assumes "piece_ok (Hole name dflt)"
  shows "expand_loop res act lim base out touched (piece_text (Hole name dflt) @ s) =
     and_then (piece_value res act lim (base + length out) (Hole name dflt))
       (\<lambda>v. expand_loop res act lim base (out @ v) True s)"
proof -
  obtain c cs where name: "name = c # cs" "c \<noteq> lbrace"
    using assms by (cases name) (auto dest: name_char_not_special)
  show ?thesis
    using parse_hole[OF assms, of s] name
    by (cases "resolve_placeholder_value name dflt res act";
        cases "over_limit lim (base + length out + length (projr (resolve_placeholder_value name dflt res act)))";
        subst expand_loop.simps)
      (simp_all add: budget_over_limit)
qed

lemma expand_opening:
  "expand_loop res act lim base out touched (piece_text Opening @ s) =
     expand_loop res act lim base (out @ ''${'') True s"
  by (subst expand_loop.simps) simp

lemma expand_lone:
  assumes "piece_ok (Lone c d)"
  shows "expand_loop res act lim base out touched (piece_text (Lone c d) @ s) =
     expand_loop res act lim base (out @ [c, d]) touched s"
proof -
  have "expand_loop res act lim base out touched (c # d # s) =
      expand_loop res act lim base (out @ [c]) touched (d # s)"
    using assms by (subst expand_loop.simps) auto
  also have "\<dots> = expand_loop res act lim base ((out @ [c]) @ [d]) touched s"
    using assms by (subst expand_loop.simps) auto
  finally show ?thesis by simp
qed

text \<open>
  One piece in front of any text: it fails with the piece's error, or appends the piece's value;
  the \<open>touched\<close> flag stays only over a piece that is its own value.
\<close>

lemma expand_piece:
  assumes "piece_ok p"
  shows "(\<exists>e. piece_value res act lim (base + length out) p = Inl e
        \<and> expand_loop res act lim base out touched (piece_text p @ s) = Inl e)
   \<or> (\<exists>v t. piece_value res act lim (base + length out) p = Inr v
        \<and> expand_loop res act lim base out touched (piece_text p @ s)
            = expand_loop res act lim base (out @ v) t s
        \<and> (touched \<longrightarrow> t) \<and> (\<not> t \<longrightarrow> piece_text p = v))"
proof (cases p)
  case (Lit l)
  then show ?thesis using expand_literal[of res act lim base out touched l s] by auto
next
  case (Hole name dflt)
  then show ?thesis
    using expand_hole[OF assms[unfolded Hole], of res act lim base out touched s]
    by (cases "piece_value res act lim (base + length out) (Hole name dflt)") auto
next
  case Opening
  then show ?thesis using expand_opening[of res act lim base out touched s] by auto
next
  case (Lone c d)
  then show ?thesis
    using expand_lone[OF assms[unfolded Lone], of res act lim base out touched s] by auto
qed

lemma expand_template:
  "list_all piece_ok ps \<Longrightarrow>
   (\<exists>e. template_value res act lim (base + length out) ps = Inl e
        \<and> expand_loop res act lim base out touched (concat (map piece_text ps)) = Inl e)
   \<or> (\<exists>w t. template_value res act lim (base + length out) ps = Inr w
        \<and> expand_loop res act lim base out touched (concat (map piece_text ps)) = Inr (out @ w, t)
        \<and> (touched \<longrightarrow> t) \<and> (\<not> t \<longrightarrow> concat (map piece_text ps) = w))"
proof (induction ps arbitrary: out touched)
  case Nil
  then show ?case by (simp add: expand_loop.simps)
next
  case (Cons p ps)
  then have ok: "piece_ok p" "list_all piece_ok ps" by simp_all
  from expand_piece[OF ok(1), of res act lim base out touched "concat (map piece_text ps)"]
  consider (fails) e where "piece_value res act lim (base + length out) p = Inl e"
      "expand_loop res act lim base out touched (concat (map piece_text (p # ps))) = Inl e"
    | (goes_on) v t where "piece_value res act lim (base + length out) p = Inr v"
      "expand_loop res act lim base out touched (concat (map piece_text (p # ps)))
         = expand_loop res act lim base (out @ v) t (concat (map piece_text ps))"
      "touched \<longrightarrow> t" "\<not> t \<longrightarrow> piece_text p = v"
    by (simp del: piece_text.simps) blast
  then show ?case
  proof cases
    case fails
    then show ?thesis by simp
  next
    case (goes_on v t)
    with Cons.IH[OF ok(2), of "out @ v" t] show ?thesis by (auto simp: add.assoc)
  qed
qed

lemma expand_plain:
  "\<lbrakk>dollar \<notin> set s; rbrace \<notin> set s\<rbrakk> \<Longrightarrow>
   expand_loop res act lim base out touched s = Inr (out @ s, touched)"
proof (induction s arbitrary: out)
  case Nil
  then show ?case by (simp add: expand_loop.simps)
next
  case (Cons c s)
  then show ?case by (subst expand_loop.simps) auto
qed



section \<open>The walk\<close>

text \<open>The bytes of every string scalar and mapping key.\<close>

fun text_bytes :: "value \<Rightarrow> nat" where
  "text_bytes (VString s) = length s"
| "text_bytes (VSequence vs) = sum_list (map text_bytes vs)"
| "text_bytes (VMapping m) = sum_list (map (\<lambda>(k, v). length k + text_bytes v) m)"
| "text_bytes (VTagged t v) = text_bytes v"
| "text_bytes _ = 0"

text \<open>A value with the text of its string scalars erased.\<close>

fun skeleton :: "value \<Rightarrow> value" where
  "skeleton (VString s) = VString []"
| "skeleton (VSequence vs) = VSequence (map skeleton vs)"
| "skeleton (VMapping m) = VMapping (map (\<lambda>(k, v). (k, skeleton v)) m)"
| "skeleton (VTagged t v) = VTagged t (skeleton v)"
| "skeleton v = v"

lemma sat_add_assoc: "sat_add (sat_add a b) c = sat_add a (b + c)"
  by (auto simp: sat_add_def min_def)

lemma interpolate_walk_skeleton:
  "interpolate_walk res act lim v o1 = (v', o2, e) \<Longrightarrow> skeleton v' = skeleton v"
  "interpolate_items res act lim vs o1 = (vs', o2, e) \<Longrightarrow> map skeleton vs' = map skeleton vs"
  "interpolate_entries res act lim m o1 = (m', o2, e) \<Longrightarrow>
     map (\<lambda>(k, v). (k, skeleton v)) m' = map (\<lambda>(k, v). (k, skeleton v)) m"
proof (induction res act lim v o1 and res act lim vs o1 and res act lim m o1
    arbitrary: v' o2 e and vs' o2 e and m' o2 e
    rule: interpolate_walk_interpolate_items_interpolate_entries.induct)
  case (1 res act lim s observed)
  then show ?case by (auto simp: Let_def split: sum.splits)
next
  case (7 res act lim v vs observed)
  obtain w o' x where w: "interpolate_walk res act lim v observed = (w, o', x)" by (metis prod_cases3)
  show ?case
  proof (cases x)
    case None
    obtain ws o'' y where ws: "interpolate_items res act lim vs o' = (ws, o'', y)" by (metis prod_cases3)
    show ?thesis
      using "7.prems" "7.IH"(1)[OF w] "7.IH"(2)[OF w[symmetric] refl None ws] w None ws by auto
  next
    case (Some err)
    then show ?thesis using "7.prems" "7.IH"(1)[OF w] w by auto
  qed
next
  case (9 res act lim k v m observed)
  define o1 where "o1 = sat_add observed (length k)"
  show ?case
  proof (cases "check_interpolated_scalar_budget o1 lim")
    case (Inl err)
    then show ?thesis using "9.prems" by (auto simp: o1_def[symmetric])
  next
    case (Inr u)
    obtain w o' x where w: "interpolate_walk res act lim v o1 = (w, o', x)" by (metis prod_cases3)
    show ?thesis
    proof (cases x)
      case None
      obtain m1 o'' y where m1: "interpolate_entries res act lim m o' = (m1, o'', y)"
        by (metis prod_cases3)
      show ?thesis
        using "9.prems" "9.IH"(1)[OF o1_def Inr w] "9.IH"(2)[OF o1_def Inr w[symmetric] refl None m1]
          Inr w None m1 by (auto simp: o1_def[symmetric])
    next
      case (Some err)
      then show ?thesis using "9.prems" "9.IH"(1)[OF o1_def Inr w] Inr w
        by (auto simp: o1_def[symmetric])
    qed
  qed
qed (auto split: prod.splits)

text \<open>
   Interpolation rewrites string scalars only: keys, their order, tags, numbers and the shape
  of the tree are the same afterwards, on an error as well.
\<close>

theorem interpolation_keeps_structure:
  assumes "interpolate_inner_bounded v resolve act lim = (v', e)"
  shows "skeleton v' = skeleton v"
  using assms interpolate_walk_skeleton(1)[of resolve act lim v 0]
  by (auto simp: interpolate_inner_bounded_def split: prod.splits)

theorem interpolation_keeps_structure_witness:
  "skeleton (VMapping [(''${k}'', VString ''v'')]) = skeleton (VMapping [(''${k}'', VString ''${a}'')])"
proof -
  have "expand_loop (\<lambda>_. Found ''v'') EmptyText None base [] False ''${a}'' = Inr (''v'', True)" for base
    by (simp add: expand_loop.simps parse_placeholder_token_def resolve_placeholder_value_def
        name_char_def is_ascii_alphanumeric_def is_ascii_lower_def byte_def
        check_interpolated_scalar_budget_def)
  then have "interpolate_inner_bounded (VMapping [(''${k}'', VString ''${a}'')]) (\<lambda>_. Found ''v'')
      EmptyText None = (VMapping [(''${k}'', VString ''v'')], None)"
    by (simp add: interpolate_inner_bounded_def expand_placeholders_def sat_add_def usize_max_def
        check_interpolated_scalar_budget_def Let_def)
  from interpolation_keeps_structure[OF this] show ?thesis .
qed

lemma check_budget_ok:
  "check_interpolated_scalar_budget n (Some limit) = Inr u \<longleftrightarrow> n \<le> limit"
  by (cases u) (simp add: check_interpolated_scalar_budget_def)

lemma interpolate_walk_charge:
  "interpolate_walk res act lim v o1 = (v', o2, None) \<Longrightarrow> lim = Some limit \<Longrightarrow> o1 \<le> limit \<Longrightarrow>
     o1 \<le> usize_max \<Longrightarrow> o2 = sat_add o1 (text_bytes v') \<and> o2 \<le> limit"
  "interpolate_items res act lim vs o1 = (vs', o2, None) \<Longrightarrow> lim = Some limit \<Longrightarrow> o1 \<le> limit \<Longrightarrow>
     o1 \<le> usize_max \<Longrightarrow> o2 = sat_add o1 (sum_list (map text_bytes vs')) \<and> o2 \<le> limit"
  "interpolate_entries res act lim m o1 = (m', o2, None) \<Longrightarrow> lim = Some limit \<Longrightarrow> o1 \<le> limit \<Longrightarrow>
     o1 \<le> usize_max \<Longrightarrow>
     o2 = sat_add o1 (sum_list (map (\<lambda>(k, v). length k + text_bytes v) m')) \<and> o2 \<le> limit"
proof (induction res act lim v o1 and res act lim vs o1 and res act lim m o1
    arbitrary: v' o2 and vs' o2 and m' o2
    rule: interpolate_walk_interpolate_items_interpolate_entries.induct)
  case (1 res act lim s observed)
  then show ?case
    by (auto simp: Let_def check_budget_ok split: sum.splits)
next
  case (7 res act lim v vs observed)
  obtain w o' x where w: "interpolate_walk res act lim v observed = (w, o', x)" by (metis prod_cases3)
  have x: "x = None" using "7.prems"(1) w by (cases x) auto
  obtain ws o'' y where ws: "interpolate_items res act lim vs o' = (ws, o'', y)" by (metis prod_cases3)
  have r: "vs' = w # ws" "o2 = o''" "y = None" using "7.prems"(1) w x ws by auto
  have o': "o' = sat_add observed (text_bytes w)" "o' \<le> limit"
    using "7.IH"(1)[OF w[unfolded x] "7.prems"(2-4)] by simp_all
  then have "o' \<le> usize_max" by simp
  from "7.IH"(2)[OF w[symmetric] refl x ws[unfolded r(3)] "7.prems"(2) o'(2) this]
  show ?case using o'(1) r by (simp add: sat_add_assoc)
next
  case (9 res act lim k v m observed)
  define o1 where "o1 = sat_add observed (length k)"
  have c: "check_interpolated_scalar_budget o1 lim = Inr ()"
    using "9.prems"(1) by (auto simp: o1_def[symmetric] split: sum.splits)
  have o1: "o1 \<le> limit" "o1 \<le> usize_max"
    using c "9.prems"(2) by (simp_all add: check_budget_ok o1_def)
  obtain w o' x where w: "interpolate_walk res act lim v o1 = (w, o', x)" by (metis prod_cases3)
  have x: "x = None" using "9.prems"(1) w c by (cases x) (auto simp: o1_def[symmetric])
  obtain ws o'' y where ws: "interpolate_entries res act lim m o' = (ws, o'', y)" by (metis prod_cases3)
  have r: "m' = (k, w) # ws" "o2 = o''" "y = None"
    using "9.prems"(1) w x ws c by (auto simp: o1_def[symmetric])
  have o': "o' = sat_add o1 (text_bytes w)" "o' \<le> limit"
    using "9.IH"(1)[OF o1_def c w[unfolded x] "9.prems"(2) o1] by simp_all
  then have "o' \<le> usize_max" by simp
  from "9.IH"(2)[OF o1_def c w[symmetric] refl x ws[unfolded r(3)] "9.prems"(2) o'(2) this]
  show ?case using o'(1) r by (simp add: sat_add_assoc o1_def add.assoc)
qed (auto simp: sat_add_def split: prod.splits)

text \<open>
  The scalar budget holds after expansion: when the bounded interpolation succeeds, the keys
  and string scalars of the whole resulting tree have at most \<open>limit\<close> bytes, whatever the
  placeholders expanded to.
\<close>

theorem interpolation_within_budget:
  assumes "interpolate_inner_bounded v resolve act (Some limit) = (v', None)"
    and "limit < usize_max"
  shows "text_bytes v' \<le> limit"
proof -
  obtain n where "interpolate_walk resolve act (Some limit) v 0 = (v', n, None)"
    using assms(1) by (auto simp: interpolate_inner_bounded_def split: prod.splits)
  from interpolate_walk_charge(1)[OF this refl]
  have "sat_add 0 (text_bytes v') \<le> limit" by simp
  then show ?thesis using assms(2) by (auto simp: sat_add_def min_def split: if_splits)
qed

theorem interpolation_within_budget_witness:
  "text_bytes (VSequence [VString ''ab'', VString ''c'']) \<le> 3"
proof -
  have "interpolate_inner_bounded (VSequence [VString ''ab'', VString ''c'']) (\<lambda>_. Missing) EmptyText
      (Some 3) = (VSequence [VString ''ab'', VString ''c''], None)"
    by (simp add: interpolate_inner_bounded_def expand_placeholders_def sat_add_def usize_max_def
        check_interpolated_scalar_budget_def Let_def)
  from interpolation_within_budget[OF this] show ?thesis by (simp add: usize_max_def)
qed

text \<open>
  The lossy form is not total, as its documentation says: a malformed placeholder stops the walk
  silently, and the scalars after it keep their placeholders.
\<close>

lemma lossy_stops_at_malformed:
  "interpolate_properties_lossy (VSequence [VString ''${'', VString ''${a}'']) (\<lambda>_. Some ''v'')
     = VSequence [VString ''${'', VString ''${a}'']"
  by (simp add: interpolate_properties_lossy_def interpolate_inner_def interpolate_inner_bounded_def
      expand_placeholders_def expand_loop.simps parse_placeholder_token_def)

end
