(* ===== verification/Scan_Lossless.thy ===== *)
theory Scan_Lossless
  imports Scan_Stream
begin

text \<open>
  Every byte the scanner reads is recorded once: the trivia, the comments and the leaf tokens it
  records under \<open>enable_recording\<close> have the length of the text together.
\<close>

section \<open>The readers leave the record alone\<close>

definition log_of :: "scanner \<Rightarrow> bool \<times> bool \<times> trivia list \<times> scanned_comment list \<times> recorded_token list" where
  "log_of s = (sc_recording s, sc_capture_comments s, sc_trivia s, sc_comments s, sc_recorded_tokens s)"

named_theorems log_simps \<open>steps that record nothing\<close>

lemma log_updates [log_simps]:
  "log_of (s\<lparr>sc_pos := a\<rparr>) = log_of s" "log_of (s\<lparr>sc_col := a\<rparr>) = log_of s" "log_of (s\<lparr>sc_mark := a\<rparr>) = log_of s"
  "log_of (s\<lparr>sc_tokens := ts\<rparr>) = log_of s" "log_of (s\<lparr>sc_indent := i\<rparr>) = log_of s"
  "log_of (s\<lparr>sc_indents := is\<rparr>) = log_of s" "log_of (s\<lparr>sc_simple_keys := ks\<rparr>) = log_of s"
  "log_of (s\<lparr>sc_live_key_floor := a\<rparr>) = log_of s" "log_of (s\<lparr>sc_simple_key_allowed := b\<rparr>) = log_of s"
  "log_of (s\<lparr>sc_flow_level := a\<rparr>) = log_of s" "log_of (s\<lparr>sc_flow_stack := bs\<rparr>) = log_of s"
  "log_of (s\<lparr>sc_adjacent_value_allowed := b\<rparr>) = log_of s" "log_of (s\<lparr>sc_last_token_opens_block := b\<rparr>) = log_of s"
  "log_of (s\<lparr>sc_explicit_key_pending := b\<rparr>) = log_of s" "log_of (s\<lparr>sc_stream_started := b\<rparr>) = log_of s"
  "log_of (s\<lparr>sc_stream_ended := b\<rparr>) = log_of s" "log_of (s\<lparr>sc_line_end_memo := m\<rparr>) = log_of s"
  "log_of (s\<lparr>sc_last_token_end := a\<rparr>) = log_of s" "log_of (s\<lparr>sc_produced := a\<rparr>) = log_of s"
  "log_of (s\<lparr>sc_doc_start_inline := b\<rparr>) = log_of s" "log_of (s\<lparr>sc_last_emitted_kind := l\<rparr>) = log_of s"
  "log_of (s\<lparr>sc_pending_directive := b\<rparr>) = log_of s" "log_of (s\<lparr>sc_in_document_body := b\<rparr>) = log_of s"
  "log_of (s\<lparr>sc_yaml_directive_seen := b\<rparr>) = log_of s" "log_of (s\<lparr>sc_tag_handles := h\<rparr>) = log_of s"
  "log_of (s\<lparr>sc_pending_property_col := c\<rparr>) = log_of s"
  by (simp_all add: log_of_def)

lemma log_cursor [log_simps]:
  "log_of (advance s) = log_of s" "log_of (advance_by n s) = log_of s" "log_of (advance_while p s) = log_of s"
  "log_of (skip_blank s) = log_of s" "log_of (skip_line s) = log_of s" "log_of (take_break s) = log_of s"
  by (simp_all add: advance_def advance_by_def advance_while_def skip_blank_def skip_line_def take_break_def Let_def log_simps)

lemma log_emit [log_simps]: "log_of (emit k s) = log_of s"
  by (simp add: emit_def log_of_def)

lemma log_insert [log_simps]: "log_of (insert_token i k sp s) = log_of s"
  by (simp add: insert_token_def log_simps)

lemma log_line_end: "plain_line_end s = (r, t) \<Longrightarrow> log_of t = log_of s"
  by (auto simp: plain_line_end_def log_simps split: prod.splits if_splits)

lemma log_break_run: "break_run s = (n, t) \<Longrightarrow> log_of t = log_of s"
  by (induction s arbitrary: n t rule: break_run.induct)
    (subst (asm) (2) break_run.simps, auto simp: Let_def log_simps split: if_splits prod.splits)

lemma log_plain_separation: "skip_plain_separation f i s = (b, g, t) \<Longrightarrow> log_of t = log_of s"
  by (auto simp: skip_plain_separation_def Let_def log_simps dest!: log_break_run split: if_splits prod.splits)

lemma log_plain_loop: "plain_loop i fl f ce s = (g, ce', t) \<Longrightarrow> log_of t = log_of s"
proof (induction i fl f ce s rule: plain_loop.induct)
  case (1 i fl f ce s)
  then show ?case
    by (subst (asm) (2) plain_loop.simps)
      (auto simp: Let_def log_simps dest!: log_plain_separation split: if_splits prod.splits bool.splits)
qed

lemma log_single_break: "single_break w l s = Inr (v, t) \<Longrightarrow> log_of t = log_of s"
  by (auto simp: single_break_def Let_def res_simps log_simps)

lemma log_single_loop: "single_loop str w l s = Inr (v, t) \<Longrightarrow> log_of t = log_of s"
proof (induction str w l s rule: single_loop.induct)
  case (1 str w l s)
  show ?case using "1.prems" "1.IH"
    by (subst (asm) single_loop.simps)
      (auto simp: Let_def log_simps dest!: log_single_break split: if_splits sum.splits)
qed

lemma log_hex: "read_hex n e s = Inr (c, t) \<Longrightarrow> log_of t = log_of s"
  "scan_hex_escape n s = Inr (c, t) \<Longrightarrow> log_of t = log_of s"
  by (auto simp: scan_hex_escape_def read_hex_def Let_def log_simps res_simps split: if_splits)

lemma log_unicode: "scan_unicode_4 s = Inr (c, t) \<Longrightarrow> log_of t = log_of s"
  by (auto simp: scan_unicode_4_def res_simps log_simps dest!: log_hex split: if_splits)

lemma log_double_escape: "scan_double_escape str s = Inr (r, t) \<Longrightarrow> log_of t = log_of s"
  by (auto simp: scan_double_escape_def Let_def res_simps log_simps dest!: log_hex log_unicode split: if_splits option.splits)

lemma log_double_break: "scan_double_break f s = Inr (g, t) \<Longrightarrow> log_of t = log_of s"
  by (auto simp: scan_double_break_def Let_def res_simps log_simps)

lemma log_double_content: "scan_double_content str s = Inr (r, t) \<Longrightarrow> log_of t = log_of s"
  by (auto simp: scan_double_content_def Let_def log_simps split: if_splits)

lemma log_double_loop: "double_loop str f s = Inr (v, t) \<Longrightarrow> log_of t = log_of s"
proof (induction str f s rule: double_loop.induct)
  case (1 str f s)
  show ?case using "1.prems" "1.IH"
    by (subst (asm) double_loop.simps)
      (auto simp: log_simps dest!: log_double_escape log_double_break log_double_content split: if_splits sum.splits)
qed

lemma log_block_indicators: "block_indicators n c i s = (r, t) \<Longrightarrow> log_of t = log_of s"
  by (induction n c i s rule: block_indicators.induct) (auto simp: Let_def log_simps split: if_splits)

lemma log_block_header: "scan_block_header s = Inr (r, t) \<Longrightarrow> log_of t = log_of s"
  by (auto simp: scan_block_header_def scan_block_indicators_def skip_header_comment_def Let_def res_simps log_simps
      dest!: log_block_indicators split: prod.splits if_splits)

lemma log_block_line: "scan_block_line b l bi inc s = Inr (go, c, t) \<Longrightarrow> log_of t = log_of s"
  by (auto simp: scan_block_line_def Let_def log_simps dest!: scan_block_blank_line_end scan_block_content_line_end
      split: if_splits prod.splits)

lemma log_block_lines: "block_lines l bi inc b s = Inr (c, t) \<Longrightarrow> log_of t = log_of s"
proof (induction l bi inc b s rule: block_lines.induct)
  case (1 l bi inc b s)
  show ?case using "1.prems" "1.IH"
    by (subst (asm) block_lines.simps) (auto dest!: log_block_line split: if_splits sum.splits)
qed

section \<open>Bytes accounted for\<close>

definition leaf_bytes :: "recorded_token_kind option \<Rightarrow> nat \<Rightarrow> nat" where
  "leaf_bytes k n = (case k of Some kind \<Rightarrow> if is_leaf kind then n else 0 | None \<Rightarrow> 0)"

definition token_bytes :: "token \<Rightarrow> nat" where
  "token_bytes t = (let n = span_end (tok_span t) - span_start (tok_span t) in leaf_bytes (recorded_kind (tok_kind t) n) n)"

definition recorded_bytes :: "recorded_token \<Rightarrow> nat" where
  "recorded_bytes r = leaf_bytes (Some (rt_kind r)) (rt_end r - rt_start r)"

definition log_bytes :: "scanner \<Rightarrow> nat" where
  "log_bytes s = sum_list (map (\<lambda>t. tv_end t - tv_start t) (sc_trivia s))
     + sum_list (map (\<lambda>c. cm_end c - cm_start c) (sc_comments s)) + sum_list (map recorded_bytes (sc_recorded_tokens s))"

definition queue_bytes :: "scanner \<Rightarrow> nat" where
  "queue_bytes s = sum_list (map token_bytes (sc_tokens s))"

definition holds_end :: "scanner \<Rightarrow> bool" where
  "holds_end s \<longleftrightarrow> (\<exists>t \<in> set (sc_tokens s). tok_kind t = TStreamEnd)"

text \<open>The record and the queue hold \<open>n\<close> bytes of a text that goes on.\<close>

definition accounted :: "nat \<Rightarrow> scanner \<Rightarrow> bool" where
  "accounted n s \<longleftrightarrow> sc_recording s \<and> sc_capture_comments s \<and> log_bytes s + queue_bytes s = n
     \<and> sc_pos s \<le> length (sc_input s) \<and> \<not> holds_end s"

text \<open>Steps that leave the record, the queue's bytes, the cursor and the text alone.\<close>

definition still :: "scanner \<Rightarrow> scanner \<Rightarrow> bool" where
  "still s t \<longleftrightarrow> log_of t = log_of s \<and> queue_bytes t = queue_bytes s \<and> holds_end t = holds_end s
     \<and> sc_pos t = sc_pos s \<and> sc_input t = sc_input s"

text \<open>Readers: they move the cursor and leave the record, the queue and the mark alone.\<close>

definition reads :: "scanner \<Rightarrow> scanner \<Rightarrow> bool" where
  "reads s t \<longleftrightarrow> log_of t = log_of s \<and> sc_tokens t = sc_tokens s \<and> sc_mark t = sc_mark s \<and> sc_input t = sc_input s
     \<and> sc_pos s \<le> sc_pos t \<and> sc_pos t \<le> length (sc_input s)"

lemma log_bytes_of: "log_of t = log_of s \<Longrightarrow> log_bytes t = log_bytes s"
  by (simp add: log_of_def log_bytes_def)

lemma still_refl: "still s s" by (simp add: still_def)

lemma still_trans: "still s t \<Longrightarrow> still t u \<Longrightarrow> still s u"
  by (simp add: still_def)

lemma accounted_still: "still s t \<Longrightarrow> accounted n s \<Longrightarrow> accounted n t"
  using log_bytes_of[of t s] by (simp add: still_def accounted_def log_of_def)

lemma accounted_reads: "reads s t \<Longrightarrow> accounted n s \<Longrightarrow> accounted n t"
  using log_bytes_of[of t s] by (simp add: reads_def accounted_def queue_bytes_def holds_end_def log_of_def)

lemma reads_trans: "reads s t \<Longrightarrow> reads t u \<Longrightarrow> reads s u"
  by (auto simp: reads_def)

lemma forward_reads: "forward s t \<Longrightarrow> log_of t = log_of s \<Longrightarrow> sc_pos s \<le> length (sc_input s) \<Longrightarrow> reads s t"
  by (auto simp: forward_def frame_of_def reads_def)

lemma reads_onward:
  assumes "reads s t" and "forward t u" and "log_of u = log_of t"
  shows "reads s u"
proof -
  have "sc_pos t \<le> length (sc_input t)" using assms(1) by (simp add: reads_def)
  from reads_trans[OF assms(1) forward_reads[OF assms(2,3) this]] show ?thesis .
qed

text \<open>The kinds whose tokens are leaves whenever they have bytes.\<close>

definition leafy :: "token_kind \<Rightarrow> bool" where
  "leafy k \<longleftrightarrow> k \<notin> {TStreamStart, TStreamEnd, TBlockSequenceStart, TBlockMappingStart, TBlockEnd}"

lemma leaf_bytes_leafy: "leafy k \<Longrightarrow> leaf_bytes (recorded_kind k n) n = n"
  by (cases k) (auto simp: leafy_def leaf_bytes_def is_leaf_def split: scalar_style.splits)

lemma leaf_bytes_other: "\<not> leafy k \<or> n = 0 \<Longrightarrow> leaf_bytes (recorded_kind k n) n = 0"
  by (cases k) (auto simp: leafy_def leaf_bytes_def is_leaf_def split: option.splits)

lemma emit_accounted:
  assumes "accounted n s" and "sc_mark s = n" and "n \<le> sc_pos s" and "leafy k"
  shows "accounted (sc_pos s) (emit k s)"
proof -
  have "token_bytes \<lparr>tok_kind = k, tok_span = \<lparr>span_start = n, span_end = sc_pos s\<rparr>\<rparr> = sc_pos s - n"
    by (simp add: token_bytes_def leaf_bytes_leafy[OF assms(4)])
  then have "queue_bytes (emit k s) = queue_bytes s + (sc_pos s - n)"
    using assms(2) by (simp add: queue_bytes_def emit_def)
  moreover have "log_bytes (emit k s) = log_bytes s" using log_bytes_of[OF log_emit[of k s]] .
  moreover have "log_bytes s + queue_bytes s = n" using assms(1) by (simp add: accounted_def)
  ultimately have "log_bytes (emit k s) + queue_bytes (emit k s) = sc_pos s" using assms(3) by linarith
  moreover have "\<not> holds_end (emit k s)" using assms(1,4) by (auto simp: accounted_def holds_end_def emit_def leafy_def)
  ultimately show ?thesis using assms(1) log_emit[of k s] by (simp add: accounted_def log_of_def)
qed

lemma emit_still: "\<not> leafy k \<or> sc_mark s = sc_pos s \<Longrightarrow> k \<noteq> TStreamEnd \<Longrightarrow> still s (emit k s)"
  by (simp add: still_def log_simps) (auto simp: queue_bytes_def holds_end_def emit_def token_bytes_def leaf_bytes_other)

lemma insert_still:
  assumes "span_start sp = span_end sp" and "k \<noteq> TStreamEnd" shows "still s (insert_token i k sp s)"
proof -
  have "span_start sp = span_end sp" by (rule assms(1))
  then have "token_bytes \<lparr>tok_kind = k, tok_span = sp\<rparr> = 0" by (simp add: token_bytes_def leaf_bytes_other)
  moreover have "sum_list (map token_bytes (take i (sc_tokens s))) + sum_list (map token_bytes (drop i (sc_tokens s)))
      = sum_list (map token_bytes (sc_tokens s))"
    by (metis append_take_drop_id map_append sum_list_append)
  moreover have "set (sc_tokens s) = set (take i (sc_tokens s)) \<union> set (drop i (sc_tokens s))"
    by (metis append_take_drop_id set_append)
  ultimately show ?thesis using assms(2)
    by (auto simp: still_def log_simps queue_bytes_def insert_token_def holds_end_def)
qed

lemma still_keys:
  "still s (update_last_key f s)" "still s (forget_simple_key s)" "still s (save_simple_key_ext j s)"
  "still s (save_simple_key s)"
  by (simp_all add: still_def update_last_key_def forget_simple_key_def save_simple_key_ext_def save_simple_key_def
      Let_def log_simps queue_bytes_def holds_end_def)

lemma still_remove: "remove_simple_key s = Inr t \<Longrightarrow> still s t"
  using still_keys(2)[of s] by (auto simp: remove_simple_key_def Let_def split: if_splits)

lemma still_stale: "still s (stale_simple_keys s)"
proof (induction s rule: stale_simple_keys.induct)
  case (1 s)
  show ?case
  proof (cases "sc_live_key_floor s < length (sc_simple_keys s)
      \<and> \<not> (is_live (sc_simple_keys s ! sc_live_key_floor s)
            \<and> \<not> simple_key_is_stale (sc_live_key_floor s) (sc_simple_keys s ! sc_live_key_floor s) s)")
    case True
    let ?t = "s\<lparr>sc_simple_keys := (if is_live (sc_simple_keys s ! sc_live_key_floor s)
          then (sc_simple_keys s)[sc_live_key_floor s := (sc_simple_keys s ! sc_live_key_floor s)\<lparr>sk_stale := True\<rparr>]
          else sc_simple_keys s), sc_live_key_floor := sc_live_key_floor s + 1\<rparr>"
    have "stale_simple_keys s = stale_simple_keys ?t" by (subst stale_simple_keys.simps) (use True in \<open>auto simp: Let_def\<close>)
    moreover have "still ?t (stale_simple_keys ?t)" using 1[OF refl refl] True by simp
    moreover have "still s ?t" by (simp add: still_def log_simps queue_bytes_def holds_end_def)
    ultimately show ?thesis by (simp only: still_trans[of s ?t "stale_simple_keys ?t"])
  next
    case False
    then have "stale_simple_keys s = s" by (subst stale_simple_keys.simps) (auto simp: Let_def)
    then show ?thesis by (simp add: still_refl)
  qed
qed

lemma still_roll:
  assumes "k \<in> {TBlockSequenceStart, TBlockMappingStart}" shows "still s (roll_indent c n k m s)"
proof (cases "sc_flow_level s > 0 \<or> \<not> sc_indent s < c")
  case True
  then show ?thesis by (simp add: roll_indent_def still_refl)
next
  case False
  let ?u = "s\<lparr>sc_indents := sc_indent s # sc_indents s, sc_indent := c\<rparr>"
  have u: "still s ?u" by (simp add: still_def log_simps queue_bytes_def holds_end_def)
  show ?thesis
  proof (cases n)
    case None
    then show ?thesis using False assms
      by (auto simp: roll_indent_def Let_def still_def log_simps queue_bytes_def holds_end_def token_bytes_def
          leaf_bytes_def is_leaf_def)
  next
    case (Some i)
    have "still ?u (insert_token (i - sc_produced ?u) k \<lparr>span_start = m, span_end = m\<rparr> ?u)"
      by (rule insert_still) (use assms in auto)
    from still_trans[OF u this] show ?thesis using False Some by (simp add: roll_indent_def Let_def)
  qed
qed

lemma still_block_ends: "still s ((emit TBlockEnd ^^ n) s)"
proof (induction n)
  case (Suc n)
  then show ?case using still_trans[OF Suc emit_still] by (simp add: leafy_def)
qed (simp add: still_refl)

lemma still_unroll: "still s (unroll_indent c s)"
proof -
  have "still s (s\<lparr>sc_indent := i, sc_indents := ins\<rparr>)" for i ins by (simp add: still_def log_simps queue_bytes_def holds_end_def)
  then show ?thesis using still_trans[OF _ still_block_ends]
    by (auto simp: unroll_indent_def still_refl split: prod.splits)
qed

section \<open>One fetch\<close>

lemma reads_cursor:
  "sc_pos s \<le> length (sc_input s) \<Longrightarrow> reads s (advance s)"
  "sc_pos s \<le> length (sc_input s) \<Longrightarrow> reads s (advance_by n s)"
  "sc_pos s \<le> length (sc_input s) \<Longrightarrow> reads s (advance_while p s)"
  "sc_pos s \<le> length (sc_input s) \<Longrightarrow> reads s (skip_blank s)"
  by (simp_all add: forward_reads forward_intros log_simps)

text \<open>The shape of a fetch: nothing, then a token or a stretch of trivia from the mark to the cursor.\<close>

lemma accounted_emit:
  assumes "accounted (sc_pos s) s" and "still s m" and "reads (m\<lparr>sc_mark := sc_pos m\<rparr>) t" and "leafy k"
  shows "accounted (sc_pos t) (emit k t)"
proof -
  let ?m = "m\<lparr>sc_mark := sc_pos m\<rparr>"
  have "still m ?m" by (simp add: still_def log_simps queue_bytes_def holds_end_def)
  then have "accounted (sc_pos m) ?m" "sc_pos m = sc_pos s"
    using accounted_still[OF still_trans[OF assms(2)] assms(1)] assms(2) by (simp_all add: still_def)
  then have "accounted (sc_pos m) t" using accounted_reads[OF assms(3)] by simp
  moreover have "sc_mark t = sc_pos m" "sc_pos m \<le> sc_pos t" using assms(3) by (simp_all add: reads_def)
  ultimately show ?thesis by (rule emit_accounted[OF _ _ _ assms(4)])
qed

lemma accounted_later: "accounted n s \<Longrightarrow> log_of t = log_of s \<Longrightarrow> sc_tokens t = sc_tokens s \<Longrightarrow>
    sc_pos t = sc_pos s \<Longrightarrow> sc_input t = sc_input s \<Longrightarrow> accounted n t"
  by (rule accounted_still) (simp_all add: still_def queue_bytes_def holds_end_def)

lemma record_trivia_accounted:
  assumes "accounted n s" and "reads s t" and "n = sc_pos s"
  shows "accounted (sc_pos t) (record_trivia n k t)"
proof -
  have t: "accounted n t" using accounted_reads[OF assms(2,1)] .
  then have "log_bytes (record_trivia n k t) = log_bytes t + (sc_pos t - n)" "queue_bytes (record_trivia n k t) = queue_bytes t"
    by (simp_all add: record_trivia_def accounted_def log_bytes_def queue_bytes_def)
  moreover have "n \<le> sc_pos t" "log_bytes t + queue_bytes t = n" using assms(2,3) t by (simp_all add: reads_def accounted_def)
  ultimately have "log_bytes (record_trivia n k t) + queue_bytes (record_trivia n k t) = sc_pos t" by linarith
  then show ?thesis using t by (simp add: accounted_def) (simp add: record_trivia_def holds_end_def)
qed

lemma skip_comment_accounted:
  assumes "skip_comment i s = Inr t" and "accounted (sc_pos s) s"
  shows "accounted (sc_pos t) t"
  using assms length_takeWhile_rest[of "\<lambda>b. \<not> is_break b" s]
  by (auto simp: skip_comment_def Let_def accounted_def log_bytes_def queue_bytes_def holds_end_def split: if_splits)

lemma skip_separation_accounted:
  assumes "skip_separation s = Inr t" and "accounted (sc_pos s) s"
  shows "accounted (sc_pos t) t"
proof -
  let ?b = "if sc_pos (skip_blank s) > sc_pos s then record_trivia (sc_pos s) Whitespace (skip_blank s) else skip_blank s"
  have r: "reads s (skip_blank s)" using assms(2) by (intro reads_cursor) (simp add: accounted_def)
  have "accounted (sc_pos ?b) ?b"
  proof (cases "sc_pos (skip_blank s) > sc_pos s")
    case True
    then show ?thesis using record_trivia_accounted[OF assms(2) r refl] by simp
  next
    case False
    then have "sc_pos (skip_blank s) = sc_pos s" using r by (auto simp: reads_def)
    then show ?thesis using False accounted_reads[OF r assms(2)] by simp
  qed
  moreover have "t = ?b \<or> (\<exists>i. skip_comment i ?b = Inr t)"
    using assms(1) by (auto simp: skip_separation_def res_simps Let_def split: if_splits)
  ultimately show ?thesis using skip_comment_accounted by blast
qed

lemma cross_line_break_accounted:
  assumes "cross_line_break s = Inr t" and "accounted (sc_pos s) s"
  shows "accounted (sc_pos t) t"
proof -
  let ?u = "record_trivia (sc_pos s) Newline (skip_line s)"
  have "reads s (skip_line s)" using assms(2) by (simp add: forward_reads forward_skip_line log_simps accounted_def)
  from record_trivia_accounted[OF assms(2) this refl, of Newline] have u: "accounted (sc_pos ?u) ?u" by simp
  have "log_of t = log_of ?u \<and> sc_tokens t = sc_tokens ?u \<and> sc_pos t = sc_pos ?u \<and> sc_input t = sc_input ?u"
    using assms(1) by (auto simp: cross_line_break_def Let_def res_simps log_simps split: if_splits)
  then show ?thesis using accounted_later[OF u] by auto
qed

lemma skip_to_next_token_accounted:
  "skip_to_next_token s = Inr t \<Longrightarrow> accounted (sc_pos s) s \<Longrightarrow> accounted (sc_pos t) t"
proof (induction s rule: skip_to_next_token.induct)
  case (1 s)
  obtain u where u: "skip_separation s = Inr u" and t: "(if is_break (sc_peek u)
       then (case cross_line_break u of Inl e \<Rightarrow> Inl e | Inr v \<Rightarrow> skip_to_next_token v) else Inr u) = Inr t"
    using "1.prems"(1) by (subst (asm) skip_to_next_token.simps) (auto simp: res_simps)
  have au: "accounted (sc_pos u) u" by (rule skip_separation_accounted[OF u "1.prems"(2)])
  show ?case
  proof (cases "is_break (sc_peek u)")
    case True
    then obtain v where v: "cross_line_break u = Inr v" "skip_to_next_token v = Inr t"
      using t by (auto split: sum.splits)
    show ?thesis by (rule "1.IH"[OF u True v(1) v(2) cross_line_break_accounted[OF v(1) au]])
  next
    case False
    then show ?thesis using t au by simp
  qed
qed

lemma accounted_updates [simp]:
  "accounted n (s\<lparr>sc_mark := a\<rparr>) = accounted n s" "accounted n (s\<lparr>sc_simple_key_allowed := b\<rparr>) = accounted n s"
  "accounted n (s\<lparr>sc_last_token_opens_block := b\<rparr>) = accounted n s"
  "accounted n (s\<lparr>sc_adjacent_value_allowed := b\<rparr>) = accounted n s"
  "accounted n (s\<lparr>sc_flow_stack := f\<rparr>) = accounted n s" "accounted n (s\<lparr>sc_flow_level := a\<rparr>) = accounted n s"
  "accounted n (s\<lparr>sc_stream_ended := b\<rparr>) = accounted n s" "accounted n (s\<lparr>sc_stream_started := b\<rparr>) = accounted n s"
  "accounted n (s\<lparr>sc_simple_keys := ks\<rparr>) = accounted n s" "accounted n (s\<lparr>sc_doc_start_inline := b\<rparr>) = accounted n s"
  "accounted n (s\<lparr>sc_in_document_body := b\<rparr>) = accounted n s" "accounted n (s\<lparr>sc_pending_directive := b\<rparr>) = accounted n s"
  "accounted n (s\<lparr>sc_yaml_directive_seen := b\<rparr>) = accounted n s" "accounted n (s\<lparr>sc_tag_handles := h\<rparr>) = accounted n s"
  "accounted n (s\<lparr>sc_explicit_key_pending := b\<rparr>) = accounted n s" "accounted n (s\<lparr>sc_live_key_floor := a\<rparr>) = accounted n s"
  by (simp_all add: accounted_def log_bytes_def queue_bytes_def holds_end_def)

named_theorems fetch_accounted \<open>the fetchers account for every byte they read\<close>

text \<open>A fetcher that adds no byte of its own before the mark, reads on and emits.\<close>

lemma accounted_at: "accounted (sc_pos s) s \<Longrightarrow> sc_pos s \<le> length (sc_input s)"
  by (simp add: accounted_def)

lemma still_keeps:
  "still s t \<Longrightarrow> accounted (sc_pos s) s \<Longrightarrow> accounted (sc_pos t) t"
  using accounted_still[of s t "sc_pos s"] by (simp add: still_def)

lemma emit_here:
  assumes "accounted (sc_pos s) s" and "sc_mark s = sc_pos s" and "reads s t" and "leafy k"
  shows "accounted (sc_pos t) (emit k t)"
  using emit_accounted[OF accounted_reads[OF assms(3,1)] _ _ assms(4)] assms(2,3) by (simp add: reads_def)

lemma begin_node_still: "\<exists>m. still s m \<and> sc_mark m = sc_pos m \<and> begin_node s = advance m"
proof -
  let ?m = "(save_simple_key s)\<lparr>sc_simple_key_allowed := False\<rparr>"
  have "still ?m (?m\<lparr>sc_mark := sc_pos ?m\<rparr>)" "still (save_simple_key s) ?m"
    by (simp_all add: still_def log_simps queue_bytes_def holds_end_def)
  then have "still s (?m\<lparr>sc_mark := sc_pos ?m\<rparr>)" using still_keys(4)[of s] still_trans by blast
  then show ?thesis by (intro exI[of _ "?m\<lparr>sc_mark := sc_pos ?m\<rparr>"]) (simp add: begin_node_def Let_def)
qed

lemma accounted_node:
  assumes "accounted (sc_pos s) s" and "reads (begin_node s) u" and "leafy k"
  shows "accounted (sc_pos u) (emit k u)"
proof -
  obtain m where m: "still s m" "sc_mark m = sc_pos m" "begin_node s = advance m" using begin_node_still by blast
  have am: "accounted (sc_pos m) m" using still_keeps[OF m(1) assms(1)] .
  then have "reads m u" using reads_trans[OF reads_cursor(1)[of m] assms(2)[unfolded m(3)]] by (simp add: accounted_at)
  then show ?thesis using emit_here[OF am m(2) _ assms(3)] by blast
qed

lemma begin_node_bounded: "accounted (sc_pos s) s \<Longrightarrow> sc_pos (begin_node s) \<le> length (sc_input (begin_node s))"
proof -
  assume a: "accounted (sc_pos s) s"
  obtain m where m: "still s m" "begin_node s = advance m" using begin_node_still by blast
  then show ?thesis using accounted_at[OF still_keeps[OF m(1) a]] by simp
qed

lemma anchor_name_reads: "scan_anchor_name s = Inr (n, t) \<Longrightarrow> sc_pos s \<le> length (sc_input s) \<Longrightarrow> reads s t"
  by (auto simp: scan_anchor_name_def reads_cursor split: sum.splits if_splits)

lemma fetch_anchor_accounted [fetch_accounted]:
  "fetch_anchor s = Inr t \<Longrightarrow> accounted (sc_pos s) s \<Longrightarrow> accounted (sc_pos t) t"
  by (auto simp: fetch_anchor_def res_simps leafy_def dest!: anchor_name_reads intro!: accounted_node begin_node_bounded)

lemma fetch_alias_accounted [fetch_accounted]:
  "fetch_alias s = Inr t \<Longrightarrow> accounted (sc_pos s) s \<Longrightarrow> accounted (sc_pos t) t"
  by (auto simp: fetch_alias_def res_simps leafy_def dest!: anchor_name_reads intro!: accounted_node begin_node_bounded
      split: if_splits)

lemma tag_run_log: "scan_tag_run e r m s = Inr (v, t) \<Longrightarrow> log_of t = log_of s"
  by (auto simp: scan_tag_run_def log_simps split: sum.splits)

lemma fetch_tag_accounted [fetch_accounted]:
  assumes "fetch_tag s = Inr t" and a: "accounted (sc_pos s) s"
  shows "accounted (sc_pos t) t"
proof -
  let ?s = "begin_node s"
  obtain h x u where u: "(if sc_peek ?s = CHR ''<'' then scan_verbatim_tag (advance ?s)
               else if sc_peek ?s = CHR ''!'' then scan_secondary_tag (advance ?s)
               else scan_primary_tag ?s) = Inr ((h, x), u)" and t: "finish_tag h x u = Inr t"
    using assms(1) by (auto simp: fetch_tag_def Let_def and_then_Inr)
  have "log_of u = log_of ?s" using u
    by (auto simp: scan_verbatim_tag_def scan_secondary_tag_def scan_primary_tag_def scan_suffix_def res_simps Let_def
        log_simps dest!: tag_run_log split: if_splits)
  then have "reads ?s u" using forward_reads[OF scan_tag_parts_moves[OF u]] begin_node_bounded[OF a] by blast
  then show ?thesis using finish_tag_emits[OF t] accounted_node[OF a, of u] by (auto simp: leafy_def)
qed

text \<open>An update that keeps the record, the queue and the cursor, as most of them do.\<close>

lemma still_update:
  "still s t \<Longrightarrow> log_of u = log_of t \<Longrightarrow> sc_tokens u = sc_tokens t \<Longrightarrow> sc_pos u = sc_pos t \<Longrightarrow> sc_input u = sc_input t \<Longrightarrow>
   still s u"
  by (simp add: still_def queue_bytes_def holds_end_def)

text \<open>A fetcher that settles the keys, sets the mark, reads and emits.\<close>

lemma accounted_token:
  assumes "accounted (sc_pos s) s" and "still s m" and "sc_mark m = sc_pos m" and "reads m u" and "leafy k"
  shows "accounted (sc_pos u) (emit k u)"
  using emit_here[OF still_keeps[OF assms(2,1)] assms(3-5)] .

lemma fetch_quoted_accounted [fetch_accounted]:
  assumes "fetch_quoted_scalar d s = Inr t" and a: "accounted (sc_pos s) s"
  shows "accounted (sc_pos t) t"
proof -
  let ?s = "(save_simple_key_ext True s)\<lparr>sc_simple_key_allowed := False\<rparr>"
  let ?m = "?s\<lparr>sc_mark := sc_pos ?s\<rparr>"
  have m: "still s ?m" by (rule still_update[OF still_keys(3)[of s True]]) (simp_all add: log_simps)
  obtain v u where r: "(if d then scan_double_quoted_scalar ?m = Inr (v, u) else scan_single_quoted_scalar ?m = Inr (v, u))"
    and t: "let x = (emit (TScalar (if d then DoubleQuoted else SingleQuoted) v) u)\<lparr>sc_last_token_opens_block := False\<rparr>
            in t = (if sc_flow_level x > 0 then x\<lparr>sc_adjacent_value_allowed := True\<rparr> else x)"
    using assms(1) unfolding fetch_quoted_scalar_def Let_def and_then_Inr
    by (cases d) (auto simp: and_then_Inr)
  have b: "sc_pos ?m \<le> length (sc_input ?m)" using accounted_at[OF still_keeps[OF m a]] .
  have "forward (advance ?m) u" "log_of u = log_of (advance ?m)"
    using r double_loop_forward single_loop_forward log_double_loop log_single_loop
    by (auto simp: scan_double_quoted_scalar_def scan_single_quoted_scalar_def split: if_splits)
  then have "reads (advance ?m) u" using forward_reads b by simp
  then have "reads ?m u" using reads_trans[OF reads_cursor(1)[OF b]] by blast
  then have "accounted (sc_pos u) (emit (TScalar (if d then DoubleQuoted else SingleQuoted) v) u)"
    by (intro accounted_token[OF a m]) (simp_all add: leafy_def)
  then show ?thesis using t by (simp add: Let_def split: if_splits)
qed

lemma block_scalar_reads:
  assumes "scan_block_scalar l s = Inr (v, t)" and "sc_pos s \<le> length (sc_input s)"
  shows "reads s t"
proof -
  obtain c inc u bi b where u: "scan_block_header (advance s) = Inr ((c, inc), u)"
    and t: "block_lines l bi inc block_body_new u = Inr (b, t)"
    using assms(1) by (auto simp: scan_block_scalar_def res_simps)
  have "forward (advance s) u" using u by (rule scan_block_header_moves)
  moreover have "forward u t" using t block_lines_forward by blast
  moreover have "log_of t = log_of (advance s)" using t log_block_lines log_block_header[OF u] by fastforce
  ultimately have "reads (advance s) t" using forward_trans forward_reads assms(2) by simp
  then show ?thesis using reads_trans[OF reads_cursor(1)[OF assms(2)]] by blast
qed

lemma fetch_block_scalar_accounted [fetch_accounted]:
  assumes "fetch_block_scalar l s = Inr t" and a: "accounted (sc_pos s) s"
  shows "accounted (sc_pos t) t"
proof -
  obtain r where r: "remove_simple_key s = Inr r" using assms(1) by (auto simp: fetch_block_scalar_def res_simps)
  let ?m = "r\<lparr>sc_simple_key_allowed := True, sc_mark := sc_pos r\<rparr>"
  have m: "still s ?m" by (rule still_update[OF still_remove[OF r]]) (simp_all add: log_simps)
  obtain v u where u: "scan_block_scalar l ?m = Inr (v, u)"
    and t: "t = (emit (TScalar (if l then Literal else Folded) v) u)\<lparr>sc_last_token_opens_block := False\<rparr>"
    using assms(1) r by (auto simp: fetch_block_scalar_def res_simps Let_def)
  have "reads ?m u" using block_scalar_reads[OF u accounted_at[OF still_keeps[OF m a]]] .
  then show ?thesis using accounted_token[OF a m, of u] by (simp add: t leafy_def)
qed

lemma fetch_plain_accounted [fetch_accounted]:
  assumes "fetch_plain_scalar s = Inr t" and a: "accounted (sc_pos s) s"
  shows "accounted (sc_pos t) t"
proof -
  let ?s = "(save_simple_key s)\<lparr>sc_simple_key_allowed := False\<rparr>"
  let ?m = "?s\<lparr>sc_mark := sc_pos ?s\<rparr>"
  have m: "still s ?m" by (rule still_update[OF still_keys(4)[of s]]) (simp_all add: log_simps)
  have b: "sc_pos ?m \<le> length (sc_input ?m)" using accounted_at[OF still_keeps[OF m a]] .
  obtain le m' where le: "plain_line_end ?m = (le, m')" by fastforce
  have m': "still s m'" "sc_mark m' = sc_pos m'" "sc_pos m' \<le> length (sc_input m')"
    using still_update[OF m log_line_end[OF le]] le b
    by (auto simp: plain_line_end_def split: prod.splits if_splits)
  obtain e u where tr: "try_plain_single_line ?m = Inr (e, u)" and t: "if e then t = u else scan_plain_multiline u = Inr t"
    using assms(1) by (auto simp: fetch_plain_scalar_def Let_def res_simps split: if_splits)
  show ?thesis
  proof (cases e)
    case True
    obtain n v where "u = (emit (TScalar Plain v) (advance_by n m'))\<lparr>sc_last_token_opens_block := False\<rparr>"
      using tr le True by (auto simp: try_plain_single_line_def Let_def res_simps split: if_splits prod.splits)
    then show ?thesis using t True accounted_token[OF a m'(1,2) reads_cursor(2)[OF m'(3)]] by (simp add: leafy_def)
  next
    case False
    then have u: "u = m'" using tr le by (auto simp: try_plain_single_line_def Let_def res_simps split: if_splits prod.splits)
    obtain f ce w where w: "plain_loop (sc_indent m' + 1) (sc_flow_level m' > 0) plain_fold_new (sc_pos m') m' = (f, ce, w)"
      by (metis prod_cases3)
    obtain v x where "x = w \<or> x = w\<lparr>sc_simple_key_allowed := True\<rparr>"
      and tx: "t = (emit (TScalar Plain v) x)\<lparr>sc_last_token_opens_block := False\<rparr>"
      using t False u w by (auto simp: scan_plain_multiline_def Let_def res_simps split: if_splits)
    moreover have "reads m' w"
      using forward_reads[OF conjunct1[OF plain_loop_forward[OF w]] log_plain_loop[OF w] m'(3)] .
    ultimately have "reads m' x" by (auto simp: reads_def log_simps)
    then show ?thesis using accounted_token[OF a m'(1,2)] by (simp add: tx leafy_def)
  qed
qed

text \<open>The indicators of one byte.\<close>

lemma accounted_indicator:
  assumes "accounted (sc_pos s) s" and "still s m" and "sc_mark m = sc_pos m" and "leafy k"
  shows "accounted (sc_pos (emit k (advance m))) (emit k (advance m))"
  using accounted_token[OF assms(1-3) reads_cursor(1)[OF accounted_at[OF still_keeps[OF assms(2,1)]]] assms(4)] by simp

lemma fetch_flow_start_accounted [fetch_accounted]:
  assumes "fetch_flow_collection_start q s = Inr t" and a: "accounted (sc_pos s) s"
  shows "accounted (sc_pos t) t"
proof -
  let ?r = "save_simple_key_ext True s"
  let ?m = "?r\<lparr>sc_flow_level := sc_flow_level ?r + 1, sc_simple_keys := sc_simple_keys ?r @ [no_simple_key],
      sc_simple_key_allowed := True, sc_mark := sc_pos ?r\<rparr>"
  have m: "still s ?m" by (rule still_update[OF still_keys(3)[of s True]]) (simp_all add: log_simps)
  let ?k = "if q then TFlowSequenceStart else TFlowMappingStart"
  have "accounted (sc_pos (emit ?k (advance ?m))) (emit ?k (advance ?m))"
    by (rule accounted_indicator[OF a m]) (simp_all add: leafy_def)
  moreover have "t = (emit ?k (advance ?m))\<lparr>sc_flow_stack := sc_flow_stack (emit ?k (advance ?m)) @ [q], sc_last_token_opens_block := False\<rparr>"
    using assms(1) by (simp add: fetch_flow_collection_start_def Let_def)
  ultimately show ?thesis by (simp del: advance_pos)
qed

lemma fetch_flow_end_accounted [fetch_accounted]:
  assumes "fetch_flow_collection_end q s = Inr t" and a: "accounted (sc_pos s) s"
  shows "accounted (sc_pos t) t"
proof -
  let ?k = "if q then TFlowSequenceEnd else TFlowMappingEnd"
  obtain r where r: "remove_simple_key s = Inr r"
    using assms(1) by (auto simp: fetch_flow_collection_end_def res_simps split: if_splits)
  let ?ks = "butlast (sc_simple_keys r)"
  let ?m = "r\<lparr>sc_simple_keys := ?ks, sc_live_key_floor := min (sc_live_key_floor r) (length ?ks),
                  sc_flow_level := sc_flow_level r - 1, sc_flow_stack := butlast (sc_flow_stack r),
                  sc_simple_key_allowed := False, sc_mark := sc_pos r\<rparr>"
  have m: "still s ?m" by (rule still_update[OF still_remove[OF r]]) (simp_all add: log_simps)
  have "accounted (sc_pos (emit ?k (advance ?m))) (emit ?k (advance ?m))"
    by (rule accounted_indicator[OF a m]) (simp_all add: leafy_def)
  moreover have "t = emit ?k (advance ?m) \<or> t = (emit ?k (advance ?m))\<lparr>sc_adjacent_value_allowed := True\<rparr>"
    using assms(1) r by (simp add: fetch_flow_collection_end_def Let_def split: if_splits)
  ultimately show ?thesis by (auto simp del: advance_pos)
qed

lemma fetch_flow_entry_accounted [fetch_accounted]:
  assumes "fetch_flow_entry s = Inr t" and a: "accounted (sc_pos s) s"
  shows "accounted (sc_pos t) t"
proof -
  obtain r where r: "remove_simple_key s = Inr r" "t = emit TFlowEntry (advance (r\<lparr>sc_simple_key_allowed := True, sc_mark := sc_pos r\<rparr>))"
    using assms(1) by (auto simp: fetch_flow_entry_def res_simps)
  have "still s (r\<lparr>sc_simple_key_allowed := True, sc_mark := sc_pos r\<rparr>)"
    by (rule still_update[OF still_remove[OF r(1)]]) (simp_all add: log_simps)
  then show ?thesis unfolding r(2) by (intro accounted_indicator[OF a]) (simp_all add: leafy_def)
qed

lemma fetch_block_entry_accounted [fetch_accounted]:
  assumes "fetch_block_entry s = Inr t" and a: "accounted (sc_pos s) s"
  shows "accounted (sc_pos t) t"
  using assms(1)
proof (rule fetch_block_entry_parts)
  fix q r
  assume q: "q = s \<or> q = roll_indent (int (sc_col s)) None TBlockSequenceStart (sc_pos s) s"
    and r: "remove_simple_key q = Inr r"
    and t: "t = (emit TBlockEntry (advance (r\<lparr>sc_simple_key_allowed := True, sc_mark := sc_pos r\<rparr>)))\<lparr>sc_last_token_opens_block := True\<rparr>"
  have "still s q" using q still_roll still_refl by auto
  then have "still s r" using still_trans still_remove[OF r] by blast
  then have "still s (r\<lparr>sc_simple_key_allowed := True, sc_mark := sc_pos r\<rparr>)"
    by (rule still_update) (simp_all add: log_simps)
  from accounted_indicator[OF a this, of TBlockEntry] show ?thesis by (simp add: t leafy_def)
qed

lemma fetch_key_accounted [fetch_accounted]:
  assumes "fetch_key s = Inr t" and a: "accounted (sc_pos s) s"
  shows "accounted (sc_pos t) t"
  using assms(1)
proof (rule fetch_key_parts)
  fix q r p
  assume q: "q = s \<or> q = roll_indent (int (sc_col s)) None TBlockMappingStart (sc_pos s) s"
    and r: "remove_simple_key q = Inr r"
    and p: "p = (if sc_flow_level r = 0 then r\<lparr>sc_simple_key_allowed := True, sc_explicit_key_pending := True\<rparr>
              else r\<lparr>sc_simple_key_allowed := False\<rparr>)"
    and t: "t = (emit TKey (advance (p\<lparr>sc_mark := sc_pos p\<rparr>)))\<lparr>sc_last_token_opens_block := True\<rparr>"
  have "still s q" using q still_roll still_refl by auto
  then have "still s r" using still_trans still_remove[OF r] by blast
  then have "still s (p\<lparr>sc_mark := sc_pos p\<rparr>)"
    by (rule still_update) (simp_all add: p log_simps)
  from accounted_indicator[OF a this, of TKey] show ?thesis by (simp add: t leafy_def)
qed

lemma emit_value_accounted:
  assumes "emit_value s = Inr t" and a: "accounted (sc_pos s) s"
  shows "accounted (sc_pos t) t"
proof -
  let ?m = "s\<lparr>sc_explicit_key_pending := False, sc_mark := sc_pos s\<rparr>"
  have m: "still s ?m" by (rule still_update[OF still_refl]) (simp_all add: log_simps)
  have t: "t = (emit TValue (skip_blank (advance ?m)))\<lparr>sc_last_token_opens_block := True\<rparr>"
    using assms(1) by (auto simp: emit_value_def Let_def res_simps split: if_splits)
  have b: "sc_pos ?m \<le> length (sc_input ?m)" using accounted_at[OF a] by simp
  have "reads ?m (skip_blank (advance ?m))"
    by (rule reads_trans[OF reads_cursor(1)[OF b] reads_cursor(4)]) (use b in simp)
  from accounted_token[OF a m _ this, of TValue] show ?thesis by (simp add: t leafy_def del: skip_blank_pos)
qed

lemma still_promote: "promote_simple_key k s = Inr t \<Longrightarrow> still s t"
proof -
  assume p: "promote_simple_key k s = Inr t"
  let ?i = "insert_token (sk_token_number k - sc_produced s) TKey \<lparr>span_start = sk_index k, span_end = sk_index k\<rparr> s"
  have i: "still s ?i" by (rule insert_still) simp_all
  obtain u where "u = ?i \<or> (\<exists>c n. u = roll_indent c n TBlockMappingStart (sk_index k) ?i)"
    and t: "t = (forget_simple_key u)\<lparr>sc_simple_key_allowed := False\<rparr>"
    using p by (auto simp: promote_simple_key_def roll_indent_for_simple_key_def Let_def res_simps split: if_splits)
  then have "still s u" using i still_trans[OF i still_roll] by auto
  then have "still s (forget_simple_key u)" using still_trans still_keys(2) by blast
  then show ?thesis unfolding t by (rule still_update) (simp_all add: log_simps)
qed

lemma fetch_value_accounted [fetch_accounted]:
  assumes "fetch_value s = Inr t" and a: "accounted (sc_pos s) s"
  shows "accounted (sc_pos t) t"
proof -
  let ?sk = "last (sc_simple_keys s)"
  consider u where "still s u" "t = u" | u where "still s u" "emit_value u = Inr t"
  proof (cases "sc_simple_keys s \<noteq> [] \<and> sk_possible ?sk")
    case True
    obtain b u where bu: "check_implicit_key_lines ?sk s = Inr (b, u)"
        "if b then t = u else \<exists>v. promote_simple_key ?sk u = Inr v \<and> emit_value v = Inr t"
      using assms(1) True by (auto simp: fetch_value_def Let_def res_simps split: if_splits)
    have "still s u" using bu(1) still_refl still_keys(2)
      by (auto simp: check_implicit_key_lines_def Let_def split: if_splits)
    show ?thesis
    proof (cases b)
      case True
      then show ?thesis using bu(2) \<open>still s u\<close> that(1) by simp
    next
      case False
      then obtain v where "promote_simple_key ?sk u = Inr v" "emit_value v = Inr t" using bu(2) by auto
      then show ?thesis using that(2) still_trans[OF \<open>still s u\<close> still_promote] by blast
    qed
  next
    case False
    then obtain u where u: "complex_value s = Inr u" "emit_value u = Inr t"
      using assms(1) by (auto simp: fetch_value_def Let_def res_simps)
    obtain r b where r: "r = s \<or> r = roll_indent (int (sc_col s)) None TBlockMappingStart (sc_pos s) s"
      "u = r\<lparr>sc_simple_key_allowed := b\<rparr>"
      using u(1) by (fastforce simp: complex_value_def Let_def split: if_splits)
    have "still s r" using r(1) still_roll still_refl by auto
    then have "still s u" unfolding r(2) by (rule still_update) (simp_all add: log_simps)
    then show ?thesis using that(2) u(2) by blast
  qed
  then show ?thesis using still_keeps[OF _ a] emit_value_accounted by cases auto
qed

lemma log_directives:
  "log_of (tag_directive s) = log_of s" "yaml_directive s = Inr t \<Longrightarrow> log_of t = log_of s"
  by (simp add: tag_directive_def Let_def log_simps) (auto simp: yaml_directive_def Let_def log_simps split: if_splits)

lemma fetch_document_indicator_accounted [fetch_accounted]:
  assumes "fetch_document_indicator b s = Inr t" and a: "accounted (sc_pos s) s"
  shows "accounted (sc_pos t) t"
proof -
  let ?k = "if b then TDocumentStart else TDocumentEnd"
  obtain r where r: "remove_simple_key (unroll_indent (- 1) s) = Inr r"
    using assms(1) by (auto simp: fetch_document_indicator_def res_simps)
  let ?m = "r\<lparr>sc_simple_key_allowed := False, sc_mark := sc_pos r\<rparr>"
  have m: "still s ?m"
    by (rule still_update[OF still_trans[OF still_unroll still_remove[OF r]]]) (simp_all add: log_simps)
  have "accounted (sc_pos (advance_by 3 ?m)) (emit ?k (advance_by 3 ?m))"
    by (rule accounted_token[OF a m])
      (use accounted_at[OF still_keeps[OF m a]] in \<open>simp_all add: reads_cursor leafy_def\<close>)
  moreover have "still (emit ?k (advance_by 3 ?m)) t"
    using assms(1) r
    by (cases b)
      (auto simp: fetch_document_indicator_def Let_def still_def log_simps queue_bytes_def holds_end_def simp del: advance_by_pos
        split: if_splits)
  ultimately show ?thesis using still_keeps by (simp del: advance_by_pos)
qed

lemma fetch_directive_accounted [fetch_accounted]:
  assumes "fetch_directive s = Inr t" and a: "accounted (sc_pos s) s"
  shows "accounted (sc_pos t) t"
proof -
  obtain k where k: "remove_simple_key (unroll_indent (- 1) s) = Inr k"
    using assms(1) by (auto simp: fetch_directive_def res_simps split: if_splits)
  let ?k = "k\<lparr>sc_simple_key_allowed := False, sc_pending_directive := True\<rparr>"
  let ?a = "advance_while directive_char (advance ?k)"
  have m: "still s ?k"
    by (rule still_update[OF still_trans[OF still_unroll still_remove[OF k]]]) (simp_all add: log_simps)
  then have ak: "accounted (sc_pos ?k) ?k" by (rule still_keeps[OF _ a])
  have b: "sc_pos ?k \<le> length (sc_input ?k)" using accounted_at[OF ak] .
  obtain u where u: "u = tag_directive ?a \<or> yaml_directive ?a = Inr u \<or> u = ?a"
    and f: "finish_directive_line (sc_pos k) u = Inr t"
    using assms(1) k by (auto simp: fetch_directive_def Let_def res_simps split: if_splits)
  have "reads ?k ?a" by (rule reads_trans[OF reads_cursor(1)[OF b] reads_cursor(3)]) (use b in simp)
  moreover have "forward ?a u" "log_of u = log_of ?a"
    using u tag_directive_moves yaml_directive_moves log_directives by (auto simp: forward_refl)
  ultimately have ku: "reads ?k u" by (rule reads_onward)
  let ?line = "takeWhile (\<lambda>b. \<not> is_break b) (rest u)"
  let ?v = "if length ?line < length (rest u) then advance_by (length ?line) u else u\<lparr>sc_pos := length (sc_input u)\<rparr>"
  have "sc_pos u \<le> length (sc_input u)" using ku by (auto simp: reads_def)
  then have "reads u ?v" by (auto simp: reads_cursor) (auto simp: reads_def log_simps)
  then have "reads ?k ?v" using reads_trans[OF ku] by blast
  from record_trivia_accounted[OF ak this refl, of Directive]
  have "accounted (sc_pos ?v) (record_trivia (sc_pos k) Directive ?v)" by simp
  moreover have "t = record_trivia (sc_pos k) Directive ?v" using f by (simp add: finish_directive_line_def Let_def split: if_splits)
  ultimately show ?thesis by simp
qed

lemma fetch_stream_start_accounted:
  assumes "fetch_stream_start s = Inr t" and a: "accounted (sc_pos s) s"
  shows "accounted (sc_pos t) t"
proof -
  let ?c = "s\<lparr>sc_stream_started := True, sc_simple_key_allowed := True, sc_simple_keys := sc_simple_keys s @ [no_simple_key]\<rparr>"
  let ?v = "(advance_by 3 ?c)\<lparr>sc_col := 0\<rparr>"
  let ?d = "if take 3 (rest ?c) = bom then record_trivia (sc_pos ?c) Bom ?v else ?c"
  have c: "still s ?c" by (rule still_update[OF still_refl]) (simp_all add: log_simps)
  have "reads ?c (advance_by 3 ?c)" using reads_cursor(2)[of ?c 3] accounted_at[OF a] by simp
  then have v: "reads ?c ?v" by (simp add: reads_def log_simps)
  have d: "accounted (sc_pos ?d) ?d"
    using record_trivia_accounted[OF still_keeps[OF c a] v refl, of Bom] still_keeps[OF c a] by simp
  have t: "t = emit TStreamStart (?d\<lparr>sc_mark := sc_pos ?d\<rparr>)"
    using assms(1) by (auto simp: fetch_stream_start_def Let_def)
  have "still ?d (?d\<lparr>sc_mark := sc_pos ?d\<rparr>)" by (rule still_update[OF still_refl]) (simp_all add: log_simps)
  from still_trans[OF this emit_still] show ?thesis unfolding t by (intro still_keeps[OF _ d]) (simp_all add: leafy_def)
qed

text \<open>The end of the stream: the queue closes with its token and the record with the text.\<close>

definition closed :: "scanner \<Rightarrow> bool" where
  "closed s \<longleftrightarrow> sc_recording s \<and> sc_stream_ended s \<and> log_bytes s + queue_bytes s = length (sc_input s)
     \<and> (\<exists>ts e. sc_tokens s = ts @ [e] \<and> tok_kind e = TStreamEnd \<and> (\<forall>t \<in> set ts. tok_kind t \<noteq> TStreamEnd))"

lemma fetch_stream_end_closes:
  assumes "fetch_stream_end s = Inr t" and a: "accounted (sc_pos s) s" and "is_eof s"
  shows "closed t \<and> sc_input t = sc_input s"
proof -
  obtain u where u: "remove_simple_key (unroll_indent (- 1) s) = Inr u"
    and t: "t = emit TStreamEnd (u\<lparr>sc_simple_key_allowed := False, sc_stream_ended := True\<rparr>)"
    using assms(1) by (auto simp: fetch_stream_end_def and_then_Inr split: if_splits)
  have s: "still s u" by (rule still_trans[OF still_unroll still_remove[OF u]])
  have au: "accounted (sc_pos u) u" by (rule still_keeps[OF s a])
  have "queue_bytes t = queue_bytes u" "log_bytes t = log_bytes u"
    using log_bytes_of[of t u]
    by (simp_all add: t log_simps) (simp add: queue_bytes_def emit_def token_bytes_def leaf_bytes_def)
  moreover have "sc_pos u = length (sc_input u)" using s assms(3) accounted_at[OF au] by (simp add: still_def is_eof_def)
  ultimately show ?thesis using au s unfolding closed_def accounted_def holds_end_def t still_def
    by (auto simp: emit_def)
qed

lemma dispatch_accounted:
  assumes "dispatch adj s = Inr t" and "accounted (sc_pos s) s" and "sc_pos s \<noteq> 0 \<or> take 3 (rest s) \<noteq> bom"
  shows "accounted (sc_pos t) t"
  using assms(1) unfolding dispatch_def Let_def
  by (elim if_elim) (use assms(2,3) in \<open>auto dest: fetch_accounted\<close>)

section \<open>The whole text\<close>

text \<open>The books of a scanner that records, between two fetches.\<close>

definition past_mark :: "scanner \<Rightarrow> bool" where
  "past_mark s \<longleftrightarrow> sc_stream_started s \<longrightarrow> take 3 (sc_input s) = bom \<longrightarrow> 0 < sc_pos s"

definition books :: "scanner \<Rightarrow> bool" where
  "books s \<longleftrightarrow> closed s \<or> (accounted (sc_pos s) s \<and> \<not> sc_stream_ended s \<and> past_mark s)"

lemma at_token_still: "still u (at_token u)"
proof -
  let ?w = "unroll_indent (int (sc_col (stale_simple_keys u))) (stale_simple_keys u)"
  have "still u ?w" by (rule still_trans[OF still_stale still_unroll])
  then show ?thesis unfolding at_token_def Let_def by (rule still_update) (simp_all add: log_simps)
qed

lemma fetch_keeps_books:
  assumes "fetch_next_token s = Inr t" and "accounted (sc_pos s) s" and "\<not> sc_stream_ended s" and "past_mark s"
  shows "books t \<and> sc_input t = sc_input s"
proof (cases "sc_stream_started s")
  case False
  then have f: "fetch_stream_start s = Inr t" using assms(1) by (simp add: fetch_next_token_def)
  have "past_mark t"
  proof -
    have "take 3 (sc_input s) = bom \<Longrightarrow> sc_input s \<noteq> []" by (auto simp: bom_def)
    moreover have "take 3 (sc_input s) = bom \<Longrightarrow> sc_pos s = 0 \<Longrightarrow> sc_pos t = min 3 (length (sc_input s))"
      "sc_input t = sc_input s" "sc_pos s \<le> sc_pos t"
      using f accounted_at[OF assms(2)] by (auto simp: fetch_stream_start_def Let_def rest_def)
    ultimately show ?thesis by (cases "sc_pos s = 0") (auto simp: past_mark_def)
  qed
  then show ?thesis using fetch_stream_start_accounted[OF f assms(2)] fetch_stream_start_starts[OF f] assms(3)
    by (simp add: books_def)
next
  case True
  let ?s = "s\<lparr>sc_adjacent_value_allowed := False\<rparr>"
  obtain u adj where u: "skip_to_next_token ?s = Inr u"
    and t: "(if is_eof (at_token u) then fetch_stream_end (at_token u) else dispatch adj (at_token u)) = Inr t"
    using assms(1) True by (rule fetch_next_token_parts)
  have au: "accounted (sc_pos u) u" using skip_to_next_token_accounted[OF u] assms(2) by simp
  have av: "accounted (sc_pos (at_token u)) (at_token u)" by (rule still_keeps[OF at_token_still au])
  have f: "forward ?s u" using skip_to_next_token_forward[OF u] .
  have st: "stays u (at_token u)" by (rule stays_at_token)
  show ?thesis
  proof (cases "is_eof (at_token u)")
    case eof: True
    then have "fetch_stream_end (at_token u) = Inr t" using t by simp
    from fetch_stream_end_closes[OF this av eof] have "closed t" "sc_input t = sc_input (at_token u)" by simp_all
    moreover have "sc_input (at_token u) = sc_input u" "sc_input u = sc_input s"
      using st f by (simp_all add: stays_def forward_def)
    ultimately show ?thesis by (simp only: books_def simp_thms)
  next
    case False
    then have d: "dispatch adj (at_token u) = Inr t" using t by simp
    have "0 < sc_pos u \<or> take 3 (sc_input u) \<noteq> bom"
      using f assms(4) True accounted_at[OF assms(2)] by (auto simp: past_mark_def forward_def)
    then have "sc_pos (at_token u) \<noteq> 0 \<or> take 3 (rest (at_token u)) \<noteq> bom" using st by (auto simp: stays_def rest_def)
    from dispatch_accounted[OF d av this] have "accounted (sc_pos t) t" .
    moreover have a: "ahead (at_token u) t"
      using dispatch_moves[OF d False] stays_ahead[OF stays_forget_simple_key] by (auto simp: progress_def gives_up_key_def)
    then have "\<not> sc_stream_ended t" "past_mark t" "sc_input t = sc_input s"
      using st f assms(3,4) True accounted_at[OF av] accounted_at[OF assms(2)]
      by (auto simp: ahead_def stays_def forward_def frame_of_def past_mark_def)
    ultimately show ?thesis by (simp add: books_def)
  qed
qed

lemma fetch_more_books:
  "fetch_more s = Inr t \<Longrightarrow> books s \<Longrightarrow> books t \<and> sc_input t = sc_input s"
proof (induction s rule: fetch_more.induct)
  case (1 s)
  show ?case
  proof (cases "needs_more_tokens s")
    case True
    then obtain u where u: "fetch_next_token s = Inr u" "\<not> queue_over_budget u" "fetch_more u = Inr t"
      using "1.prems" by (subst (asm) fetch_more.simps) (auto split: sum.splits if_splits)
    have "\<not> sc_stream_ended s" using True by (simp add: needs_more_tokens_def)
    then have "books u \<and> sc_input u = sc_input s"
      using fetch_keeps_books[OF u(1)] "1.prems"(2) by (auto simp: books_def closed_def)
    then show ?thesis using "1.IH"[OF True u(1,2,3)] by simp
  next
    case False
    then show ?thesis using "1.prems" by (subst (asm) fetch_more.simps) simp
  qed
qed

lemma next_token_books:
  assumes "next_token s = Inr (t, u)" and "books s"
  shows "(if tok_kind t = TStreamEnd then log_bytes u = length (sc_input u) else books u) \<and> sc_input u = sc_input s"
proof -
  obtain v where v: "fetch_more s = Inr v" and n: "(case sc_tokens v of
         [] \<Rightarrow> Inl (scan_err ''unexpected end of token stream'' v)
       | t # ts \<Rightarrow> Inr (t, (record_token t v)\<lparr>sc_tokens := ts, sc_produced := sc_produced v + 1\<rparr>)) = Inr (t, u)"
    using assms(1) unfolding next_token_def and_then_Inr by blast
  then obtain ts where ts: "sc_tokens v = t # ts"
    and u: "u = (record_token t v)\<lparr>sc_tokens := ts, sc_produced := sc_produced v + 1\<rparr>"
    by (cases "sc_tokens v") simp_all
  have b: "books v" and i: "sc_input v = sc_input s" using fetch_more_books[OF v assms(2)] by blast+
  then have "sc_recording v" by (auto simp: books_def closed_def accounted_def)
  then have l: "log_bytes u + queue_bytes u = log_bytes v + queue_bytes v"
    by (auto simp: u record_token_def log_bytes_def queue_bytes_def ts token_bytes_def recorded_bytes_def leaf_bytes_def
        Let_def split: option.splits)
  have k: "sc_recording u = sc_recording v" "sc_capture_comments u = sc_capture_comments v" "sc_pos u = sc_pos v"
      "sc_input u = sc_input v" "sc_stream_ended u = sc_stream_ended v" "sc_stream_started u = sc_stream_started v"
      "sc_tokens u = ts"
    by (simp_all add: u record_token_def Let_def split: option.splits)
  show ?thesis
  proof (cases "closed v")
    case True
    then obtain qs e where q: "sc_tokens v = qs @ [e]" "tok_kind e = TStreamEnd" "\<forall>t \<in> set qs. tok_kind t \<noteq> TStreamEnd"
      and c: "log_bytes v + queue_bytes v = length (sc_input v)" by (auto simp: closed_def)
    show ?thesis
    proof (cases qs)
      case Nil
      then have "t = e" "ts = []" using q ts by simp_all
      then show ?thesis using q l c k i by (simp add: queue_bytes_def)
    next
      case (Cons x xs)
      then have "t = x" "ts = xs @ [e]" using q ts by simp_all
      then show ?thesis using q l c k i True Cons by (auto simp: books_def closed_def)
    qed
  next
    case False
    then show ?thesis using b l k i ts by (auto simp: books_def accounted_def holds_end_def past_mark_def)
  qed
qed

lemma books_recording: "books (enable_recording (scanner_new input))"
  by (simp add: books_def accounted_def enable_recording_def scanner_new_def log_bytes_def queue_bytes_def holds_end_def
      past_mark_def)

end
