(* ===== verification/Green.thy ===== *)
theory Green
  imports Scan_Lossless Loader "HOL-Library.Code_Target_Nat"
begin

text \<open>
  The lossless syntax tree (\<open>cst/syntax.rs\<close>, \<open>cst/green.rs\<close>, \<open>cst/builder.rs\<close>): nodes that carry
  lengths only, built from the tokens, trivia and comments that the scanner records.  \<open>Arc\<close> sharing and
  the iterative \<open>Drop\<close> have no counterpart.
\<close>

section \<open>Kinds\<close>

datatype syntax_kind =
    SWhitespace | SNewline | SComment | SBom | SDirective
  | SDashIndicator | SQuestionIndicator | SColonIndicator | SComma
  | SOpenBracket | SCloseBracket | SOpenBrace | SCloseBrace
  | SAnchorMark | SAliasMark | STagMark | SDocStart | SDocEnd
  | SPlainScalar | SSingleQuotedScalar | SDoubleQuotedScalar | SLiteralScalar | SFoldedScalar
  | SStream | SDocument | SBlockMapping | SBlockSequence | SFlowMapping | SFlowSequence
  | SMappingEntry | SSequenceItem

definition kind_is_token :: "syntax_kind \<Rightarrow> bool" where
  "kind_is_token k \<longleftrightarrow>
     k \<notin> {SStream, SDocument, SBlockMapping, SBlockSequence, SFlowMapping, SFlowSequence, SMappingEntry, SSequenceItem}"

section \<open>Nodes\<close>

datatype green_node = GreenNode (gn_kind: syntax_kind) (gn_text_len: nat) (gn_children: "green_child list")
  and green_child = ChildNode green_node | ChildToken syntax_kind nat

fun child_text_len :: "green_child \<Rightarrow> nat" where
  "child_text_len (ChildNode n) = gn_text_len n"
| "child_text_len (ChildToken k len) = len"

definition token_text :: "green_child \<Rightarrow> string \<Rightarrow> nat \<Rightarrow> string option" where
  "token_text c source offset =
     (case c of ChildToken k len \<Rightarrow> Some (take len (drop offset source)) | ChildNode n \<Rightarrow> None)"

text \<open>Appends the text to \<open>out\<close> and returns the offset past it.\<close>

fun write_node_text :: "green_node \<Rightarrow> string \<Rightarrow> string \<Rightarrow> nat \<Rightarrow> string \<times> nat"
  and write_child_text :: "green_child \<Rightarrow> string \<Rightarrow> string \<Rightarrow> nat \<Rightarrow> string \<times> nat"
  and write_children_text :: "green_child list \<Rightarrow> string \<Rightarrow> string \<Rightarrow> nat \<Rightarrow> string \<times> nat" where
  "write_node_text (GreenNode k len cms) out source offset = write_children_text cms out source offset"
| "write_child_text (ChildNode n) out source offset = write_node_text n out source offset"
| "write_child_text (ChildToken k len) out source offset = (out @ take len (drop offset source), offset + len)"
| "write_children_text [] out source pos = (out, pos)"
| "write_children_text (c # cms) out source pos =
     (case write_child_text c out source pos of (out, pos) \<Rightarrow> write_children_text cms out source pos)"

definition green_text :: "green_node \<Rightarrow> string \<Rightarrow> string" where
  "green_text n source = fst (write_node_text n [] source 0)"

definition u32_max :: nat where "u32_max = 2 ^ 32 - 1"

definition green_try_new :: "syntax_kind \<Rightarrow> green_child list \<Rightarrow> green_node option" where
  "green_try_new kind children =
     (let total = sum_list (map child_text_len children)
      in if total > usize_max \<or> total > u32_max then None else Some (GreenNode kind total children))"

section \<open>The builder\<close>

record tree_frame =
  fr_kind :: syntax_kind
  fr_children :: "green_child list"

text \<open>The stack of open frames, the top first; the document's frame is at the bottom.\<close>

record tree_builder =
  tb_stack :: "tree_frame list"
  tb_max_depth :: nat

definition too_long :: error where
  "too_long = Parse ''CST input exceeds the 4 GiB green-tree length limit''"

definition token_child :: "syntax_kind \<Rightarrow> nat \<Rightarrow> (error, green_child) res" where
  "token_child kind len = (if len > u32_max then Inl too_long else Inr (ChildToken kind len))"

definition frame_stack_limit :: "nat \<Rightarrow> nat" where
  "frame_stack_limit levels = sat_add (sat_mul (effective_max_depth levels) 2) 4"

definition builder_new :: "nat \<Rightarrow> tree_builder" where
  "builder_new levels = \<lparr>tb_stack = [\<lparr>fr_kind = SDocument, fr_children = []\<rparr>], tb_max_depth = levels\<rparr>"

definition top_kind :: "tree_builder \<Rightarrow> syntax_kind" where
  "top_kind b = fr_kind (hd (tb_stack b))"

definition push_leaf :: "green_child \<Rightarrow> tree_builder \<Rightarrow> tree_builder" where
  "push_leaf c b =
     (case tb_stack b of
        [] \<Rightarrow> b
      | f # fs \<Rightarrow> b\<lparr>tb_stack := f\<lparr>fr_children := fr_children f @ [c]\<rparr> # fs\<rparr>)"

definition push_frame :: "syntax_kind \<Rightarrow> tree_builder \<Rightarrow> (error, tree_builder) res" where
  "push_frame kind b =
     (if length (tb_stack b) \<ge> frame_stack_limit (tb_max_depth b)
      then Inl (RecursionLimitExceeded (length (tb_stack b)))
      else Inr (b\<lparr>tb_stack := \<lparr>fr_kind = kind, fr_children = []\<rparr> # tb_stack b\<rparr>))"

definition pop_frame :: "tree_builder \<Rightarrow> (error, tree_builder) res" where
  "pop_frame b =
     (case tb_stack b of
        f # g # fs \<Rightarrow>
          (case green_try_new (fr_kind f) (fr_children f) of
             None \<Rightarrow> Inl too_long
           | Some n \<Rightarrow> Inr (push_leaf (ChildNode n) (b\<lparr>tb_stack := g # fs\<rparr>)))
      | _ \<Rightarrow> Inr b)"

definition close_open_entry :: "tree_builder \<Rightarrow> (error, tree_builder) res" where
  "close_open_entry b = (if top_kind b \<in> {SMappingEntry, SSequenceItem} then pop_frame b else Inr b)"

definition is_container :: "syntax_kind \<Rightarrow> bool" where
  "is_container k \<longleftrightarrow> k \<in> {SBlockMapping, SBlockSequence, SFlowMapping, SFlowSequence, SDocument}"

definition nearest_container_kind :: "tree_builder \<Rightarrow> syntax_kind" where
  "nearest_container_kind b =
     (case find (\<lambda>f. is_container (fr_kind f)) (tb_stack b) of Some f \<Rightarrow> fr_kind f | None \<Rightarrow> SDocument)"

definition open_entry_in :: "syntax_kind \<Rightarrow> syntax_kind \<Rightarrow> tree_builder \<Rightarrow> (error, tree_builder) res" where
  "open_entry_in container item_kind b =
     (if nearest_container_kind b = container then and_then (close_open_entry b) (push_frame item_kind) else Inr b)"

definition close_flow :: "syntax_kind \<Rightarrow> green_child \<Rightarrow> tree_builder \<Rightarrow> (error, tree_builder) res" where
  "close_flow frame leaf b =
     (let b = push_leaf leaf b in if top_kind b = frame then pop_frame b else Inr b)"

fun leaf_kind :: "recorded_token_kind \<Rightarrow> syntax_kind" where
  "leaf_kind RQuestionIndicator = SQuestionIndicator"
| "leaf_kind RDashIndicator = SDashIndicator"
| "leaf_kind ROpenBrace = SOpenBrace"
| "leaf_kind RCloseBrace = SCloseBrace"
| "leaf_kind ROpenBracket = SOpenBracket"
| "leaf_kind RCloseBracket = SCloseBracket"
| "leaf_kind RDocStart = SDocStart"
| "leaf_kind RDocEnd = SDocEnd"
| "leaf_kind RColonIndicator = SColonIndicator"
| "leaf_kind RComma = SComma"
| "leaf_kind RAnchorMark = SAnchorMark"
| "leaf_kind RAliasMark = SAliasMark"
| "leaf_kind RTagMark = STagMark"
| "leaf_kind RPlainScalar = SPlainScalar"
| "leaf_kind RSingleQuotedScalar = SSingleQuotedScalar"
| "leaf_kind RDoubleQuotedScalar = SDoubleQuotedScalar"
| "leaf_kind RLiteralScalar = SLiteralScalar"
| "leaf_kind RFoldedScalar = SFoldedScalar"
| "leaf_kind _ = SDocument"

definition handle_token :: "recorded_token \<Rightarrow> tree_builder \<Rightarrow> (error, tree_builder) res" where
  "handle_token tok b =
     (let leaf = token_child (leaf_kind (rt_kind tok)) (rt_end tok - rt_start tok)
      in case rt_kind tok of
           RBlockMapStart \<Rightarrow> push_frame SBlockMapping b
         | RBlockSeqStart \<Rightarrow> push_frame SBlockSequence b
         | RBlockEnd \<Rightarrow>
             and_then (close_open_entry b) (\<lambda>b.
               if top_kind b \<in> {SBlockMapping, SBlockSequence} then pop_frame b else Inr b)
         | RSyntheticKey \<Rightarrow> open_entry_in SBlockMapping SMappingEntry b
         | RQuestionIndicator \<Rightarrow>
             and_then (open_entry_in SBlockMapping SMappingEntry b) (\<lambda>b. and_then leaf (\<lambda>l. Inr (push_leaf l b)))
         | RDashIndicator \<Rightarrow>
             and_then (open_entry_in SBlockSequence SSequenceItem b) (\<lambda>b. and_then leaf (\<lambda>l. Inr (push_leaf l b)))
         | ROpenBrace \<Rightarrow> and_then (push_frame SFlowMapping b) (\<lambda>b. and_then leaf (\<lambda>l. Inr (push_leaf l b)))
         | ROpenBracket \<Rightarrow> and_then (push_frame SFlowSequence b) (\<lambda>b. and_then leaf (\<lambda>l. Inr (push_leaf l b)))
         | RCloseBrace \<Rightarrow> and_then leaf (\<lambda>l. close_flow SFlowMapping l b)
         | RCloseBracket \<Rightarrow> and_then leaf (\<lambda>l. close_flow SFlowSequence l b)
         | _ \<Rightarrow> and_then leaf (\<lambda>l. Inr (push_leaf l b)))"

fun trivia_syntax :: "trivia_kind \<Rightarrow> syntax_kind" where
  "trivia_syntax Whitespace = SWhitespace"
| "trivia_syntax Newline = SNewline"
| "trivia_syntax Bom = SBom"
| "trivia_syntax Directive = SDirective"

definition child_from_trivia :: "trivia \<Rightarrow> (error, green_child) res" where
  "child_from_trivia t = token_child (trivia_syntax (tv_kind t)) (tv_end t - tv_start t)"

lemma pop_frame_shrinks: "pop_frame b = Inr b' \<Longrightarrow> length (tb_stack b) > 1 \<Longrightarrow> length (tb_stack b') < length (tb_stack b)"
  by (auto simp: pop_frame_def push_leaf_def split: list.splits option.splits)

function finish_frames :: "tree_builder \<Rightarrow> (error, tree_builder) res" where
  "finish_frames b =
     (if length (tb_stack b) > 1
      then (case pop_frame b of Inl e \<Rightarrow> Inl e | Inr b' \<Rightarrow> finish_frames b')
      else Inr b)"
  by pat_completeness auto

termination
  by (relation "measure (\<lambda>b. length (tb_stack b))") (auto dest: pop_frame_shrinks)

declare finish_frames.simps [simp del]

definition builder_finish :: "tree_builder \<Rightarrow> (error, green_node) res" where
  "builder_finish b =
     and_then (finish_frames b) (\<lambda>b.
       case green_try_new SDocument (fr_children (hd (tb_stack b))) of None \<Rightarrow> Inl too_long | Some n \<Rightarrow> Inr n)"

text \<open>
  The three recordings merged by where they start: a token before trivia and comments at the same
  place, trivia before comments.
\<close>

definition none_before :: "('a \<Rightarrow> nat) \<Rightarrow> 'a list \<Rightarrow> nat \<Rightarrow> bool" where
  "none_before start xs n \<longleftrightarrow> (case xs of [] \<Rightarrow> True | x # _ \<Rightarrow> start x \<ge> n)"

function assemble_loop ::
  "trivia list \<Rightarrow> recorded_token list \<Rightarrow> scanned_comment list \<Rightarrow> tree_builder \<Rightarrow> (error, tree_builder) res" where
  "assemble_loop ts toks cms b =
     (if toks \<noteq> [] \<and> none_before cm_start cms (rt_start (hd toks)) \<and> none_before tv_start ts (rt_start (hd toks))
      then and_then (handle_token (hd toks) b) (assemble_loop ts (tl toks) cms)
      else if ts \<noteq> [] \<and> none_before cm_start cms (tv_start (hd ts))
      then and_then (child_from_trivia (hd ts)) (\<lambda>l. assemble_loop (tl ts) toks cms (push_leaf l b))
      else case cms of
             c # cms \<Rightarrow> and_then (token_child SComment (cm_end c - cm_start c)) (\<lambda>l. assemble_loop ts toks cms (push_leaf l b))
           | [] \<Rightarrow> Inr b)"
  by pat_completeness auto

termination
  by (relation "measure (\<lambda>(ts, toks, cms, b). length ts + length toks + length cms)") auto

declare assemble_loop.simps [simp del]

definition assemble ::
  "trivia list \<Rightarrow> recorded_token list \<Rightarrow> scanned_comment list \<Rightarrow> nat \<Rightarrow> (error, green_node) res" where
  "assemble ts toks cms levels = and_then (assemble_loop ts toks cms (builder_new levels)) builder_finish"

text \<open>The scanner run to the end of the stream.\<close>

function drain :: "scanner \<Rightarrow> scanner scan" where
  "drain s =
     (case next_token s of
        Inl e \<Rightarrow> Inl e
      | Inr (t, u) \<Rightarrow> if tok_kind t = TStreamEnd then Inr u else drain u)"
  by pat_completeness auto

termination
  by (relation "measures [scan_fuel, \<lambda>s. length (sc_tokens s)]") (auto dest: next_token_decreases)

declare drain.simps [simp del]

definition record_all :: "(token_kind \<Rightarrow> string) \<Rightarrow> string \<Rightarrow> (error, scanner) res" where
  "record_all node_text source =
     (case drain (enable_recording (scanner_new source)) of
        Inl e \<Rightarrow> Inl (parse_at (case scan_message e of Text m \<Rightarrow> m | ExpectedNode k \<Rightarrow> node_text k) source (scan_index e))
      | Inr s \<Rightarrow> Inr s)"

definition build_green_tree :: "(token_kind \<Rightarrow> string) \<Rightarrow> string \<Rightarrow> nat \<Rightarrow> (error, green_node) res" where
  "build_green_tree node_text source levels =
     and_then (record_all node_text source) (\<lambda>s.
       assemble (sc_trivia s) (sc_recorded_tokens s) (sc_comments s) levels)"

section \<open>Documents of a stream\<close>

record boundary_state =
  bs_out :: "(nat \<times> nat) list"
  bs_start :: nat
  bs_content :: bool
  bs_ended :: bool

definition past_break :: "string \<Rightarrow> nat \<Rightarrow> nat" where
  "past_break input i =
     (let i = (if i < length input \<and> byte (input ! i) = 0x0D then i + 1 else i)
      in if i < length input \<and> byte (input ! i) = 0x0A then i + 1 else i)"

definition boundary_step :: "string \<Rightarrow> recorded_token \<Rightarrow> boundary_state \<Rightarrow> boundary_state" where
  "boundary_step input t b =
     (case rt_kind t of
        RDocStart \<Rightarrow>
          (if bs_content b \<and> \<not> bs_ended b
           then b\<lparr>bs_out := bs_out b @ [(bs_start b, rt_start t)], bs_start := rt_start t,
                  bs_content := True, bs_ended := False\<rparr>
           else b\<lparr>bs_content := True, bs_ended := False\<rparr>)
      | RDocEnd \<Rightarrow>
          (if \<not> bs_content b then b\<lparr>bs_ended := True\<rparr>
           else let close = past_break input (rt_end t)
                in b\<lparr>bs_out := bs_out b @ [(bs_start b, close)], bs_start := close, bs_content := False, bs_ended := True\<rparr>)
      | _ \<Rightarrow> b\<lparr>bs_content := True, bs_ended := False\<rparr>)"

definition close_boundaries :: "string \<Rightarrow> boundary_state \<Rightarrow> (nat \<times> nat) list" where
  "close_boundaries input b =
     (let out = (if bs_start b < length input
                 then if bs_content b \<or> bs_out b = [] then bs_out b @ [(bs_start b, length input)]
                      else butlast (bs_out b) @ [(fst (last (bs_out b)), length input)]
                 else bs_out b)
      in if out = [] then [(0, length input)] else out)"

definition document_boundaries :: "(token_kind \<Rightarrow> string) \<Rightarrow> string \<Rightarrow> (error, (nat \<times> nat) list) res" where
  "document_boundaries node_text input =
     and_then (record_all node_text input) (\<lambda>s.
       Inr (close_boundaries input (fold (boundary_step input) (sc_recorded_tokens s)
              \<lparr>bs_out = [], bs_start = 0, bs_content = False, bs_ended = False\<rparr>)))"

section \<open>The text of a tree\<close>

text \<open>A node whose length is that of its children, all the way down, and its leaves from left to right.\<close>

fun wf_node :: "green_node \<Rightarrow> bool"
  and wf_child :: "green_child \<Rightarrow> bool"
  and wf_children :: "green_child list \<Rightarrow> bool" where
  "wf_node (GreenNode k len cs) \<longleftrightarrow> len = sum_list (map child_text_len cs) \<and> wf_children cs"
| "wf_child (ChildNode n) \<longleftrightarrow> wf_node n"
| "wf_child (ChildToken k len) \<longleftrightarrow> True"
| "wf_children [] \<longleftrightarrow> True"
| "wf_children (c # cs) \<longleftrightarrow> wf_child c \<and> wf_children cs"

fun node_leaves :: "green_node \<Rightarrow> (syntax_kind \<times> nat) list"
  and child_leaves :: "green_child \<Rightarrow> (syntax_kind \<times> nat) list"
  and children_leaves :: "green_child list \<Rightarrow> (syntax_kind \<times> nat) list" where
  "node_leaves (GreenNode k len cs) = children_leaves cs"
| "child_leaves (ChildNode n) = node_leaves n"
| "child_leaves (ChildToken k len) = [(k, len)]"
| "children_leaves [] = []"
| "children_leaves (c # cs) = child_leaves c @ children_leaves cs"

lemma wf_children_iff [simp]: "wf_children cs \<longleftrightarrow> list_all wf_child cs"
  by (induction cs) simp_all

lemma children_leaves_concat [simp]: "children_leaves cs = concat (map child_leaves cs)"
  by (induction cs) simp_all

definition leaves_len :: "(syntax_kind \<times> nat) list \<Rightarrow> nat" where
  "leaves_len ls = sum_list (map snd ls)"

lemma leaves_len_append [simp]: "leaves_len (a @ b) = leaves_len a + leaves_len b" "leaves_len [] = 0"
  by (simp_all add: leaves_len_def)

lemma text_len_leaves:
  "wf_node n \<Longrightarrow> gn_text_len n = leaves_len (node_leaves n)"
  "wf_child c \<Longrightarrow> child_text_len c = leaves_len (child_leaves c)"
  "list_all wf_child cs \<Longrightarrow> sum_list (map child_text_len cs) = leaves_len (concat (map child_leaves cs))"
  by (induction n and c and cs rule: wf_node_wf_child_wf_children.induct) (simp_all add: leaves_len_def)

lemma take_add_drop: "take m (drop off s) @ take n (drop (off + m) s) = take (m + n) (drop off s)"
  by (simp add: take_add add.commute)

text \<open>
  The text of a tree is the part of the source its length covers: a tree as long as the source
  spells the source, whatever its shape.
\<close>

lemma write_text_takes:
  "wf_node n \<Longrightarrow> write_node_text n out source off = (out @ take (gn_text_len n) (drop off source), off + gn_text_len n)"
  "wf_child c \<Longrightarrow> write_child_text c out source off = (out @ take (child_text_len c) (drop off source), off + child_text_len c)"
  "list_all wf_child cs \<Longrightarrow> write_children_text cs out source off
     = (out @ take (sum_list (map child_text_len cs)) (drop off source), off + sum_list (map child_text_len cs))"
  by (induction n out source off and c out source off and cs out source off
      rule: write_node_text_write_child_text_write_children_text.induct) (simp_all add: take_add_drop add.assoc)

lemma green_text_takes: "wf_node n \<Longrightarrow> green_text n source = take (gn_text_len n) source"
  using write_text_takes(1)[of n "[]" source 0] by (simp add: green_text_def)

section \<open>What the builder keeps\<close>

text \<open>The leaves of the open frames, from the document's on.\<close>

definition frames_leaves :: "tree_frame list \<Rightarrow> (syntax_kind \<times> nat) list" where
  "frames_leaves fs = concat (map (\<lambda>f. concat (map child_leaves (fr_children f))) (rev fs))"

text \<open>The depth of a tree in frames: its nodes above the leaves.\<close>

fun node_depth :: "green_node \<Rightarrow> nat"
  and child_depth :: "green_child \<Rightarrow> nat"
  and children_depth :: "green_child list \<Rightarrow> nat" where
  "node_depth (GreenNode k len cs) = Suc (children_depth cs)"
| "child_depth (ChildNode n) = node_depth n"
| "child_depth (ChildToken k len) = 0"
| "children_depth [] = 0"
| "children_depth (c # cs) = max (child_depth c) (children_depth cs)"

lemma children_depth_le: "children_depth cs \<le> d \<longleftrightarrow> (\<forall>c \<in> set cs. child_depth c \<le> d)"
  by (induction cs) auto

lemma children_depth_append [simp]: "children_depth (cs @ ds) = max (children_depth cs) (children_depth ds)"
  by (induction cs) auto

text \<open>Every open frame leaves room below the limit for the nodes it holds.\<close>

fun frames_fit :: "nat \<Rightarrow> tree_frame list \<Rightarrow> bool" where
  "frames_fit limit [] \<longleftrightarrow> True"
| "frames_fit limit (f # fs) \<longleftrightarrow>
     children_depth (fr_children f) + length fs + 1 \<le> limit \<and> list_all wf_child (fr_children f) \<and> frames_fit limit fs"

definition builder_ok :: "nat \<Rightarrow> (syntax_kind \<times> nat) list \<Rightarrow> tree_builder \<Rightarrow> bool" where
  "builder_ok limit ls b \<longleftrightarrow> tb_stack b \<noteq> [] \<and> frames_leaves (tb_stack b) = ls \<and> frames_fit limit (tb_stack b)
     \<and> limit = frame_stack_limit (tb_max_depth b)"

lemma frames_leaves_Cons:
  "frames_leaves (f # fs) = frames_leaves fs @ concat (map child_leaves (fr_children f))"
  by (simp add: frames_leaves_def)

lemma builder_new_ok: "builder_ok (frame_stack_limit levels) [] (builder_new levels)"
  by (simp add: builder_ok_def builder_new_def frames_leaves_def frame_stack_limit_def sat_add_def usize_max_def min_def)

lemma push_leaf_ok:
  assumes "builder_ok limit ls b" and "wf_child c" and "child_depth c + length (tb_stack b) \<le> limit"
  shows "builder_ok limit (ls @ child_leaves c) (push_leaf c b)"
  using assms by (cases "tb_stack b") (auto simp: builder_ok_def push_leaf_def frames_leaves_Cons)

lemma token_child_ok:
  assumes "token_child k n = Inr c" and "builder_ok limit ls b"
  shows "builder_ok limit (ls @ [(k, n)]) (push_leaf c b)"
proof -
  have c: "c = ChildToken k n" using assms(1) by (auto simp: token_child_def split: if_splits)
  have "length (tb_stack b) \<le> limit" using assms(2) by (cases "tb_stack b") (auto simp: builder_ok_def)
  then show ?thesis using push_leaf_ok[OF assms(2), of c] c by simp
qed

lemma push_frame_ok: "push_frame k b = Inr b' \<Longrightarrow> builder_ok limit ls b \<Longrightarrow> builder_ok limit ls b'"
  by (auto simp: push_frame_def builder_ok_def frames_leaves_Cons split: if_splits)

lemma green_try_new_wf:
  "green_try_new k cs = Some n \<Longrightarrow> list_all wf_child cs \<Longrightarrow>
   wf_node n \<and> node_leaves n = concat (map child_leaves cs) \<and> node_depth n = Suc (children_depth cs)"
  by (auto simp: green_try_new_def Let_def split: if_splits)

lemma pop_frame_ok:
  assumes "pop_frame b = Inr b'" and "builder_ok limit ls b"
  shows "builder_ok limit ls b'"
proof (cases "length (tb_stack b) \<le> 1")
  case True
  then show ?thesis using assms by (auto simp: pop_frame_def split: list.splits)
next
  case False
  then obtain f g fs where b: "tb_stack b = f # g # fs" by (cases "tb_stack b" rule: remdups_adj.cases) auto
  then obtain n where n: "green_try_new (fr_kind f) (fr_children f) = Some n"
    and b': "b' = push_leaf (ChildNode n) (b\<lparr>tb_stack := g # fs\<rparr>)"
    using assms(1) by (auto simp: pop_frame_def split: option.splits)
  have w: "wf_node n" "node_leaves n = concat (map child_leaves (fr_children f))" "node_depth n = Suc (children_depth (fr_children f))"
    using green_try_new_wf[OF n] assms(2) b by (auto simp: builder_ok_def)
  show ?thesis using assms(2) b w by (auto simp: b' builder_ok_def push_leaf_def frames_leaves_Cons)
qed

lemma close_open_entry_ok: "close_open_entry b = Inr b' \<Longrightarrow> builder_ok limit ls b \<Longrightarrow> builder_ok limit ls b'"
  using pop_frame_ok by (auto simp: close_open_entry_def split: if_splits)

lemma open_entry_in_ok: "open_entry_in c k b = Inr b' \<Longrightarrow> builder_ok limit ls b \<Longrightarrow> builder_ok limit ls b'"
  using push_frame_ok close_open_entry_ok by (fastforce simp: open_entry_in_def res_simps split: if_splits)

text \<open>The leaf of a recorded token; the tokens that only shape the tree have none.\<close>

definition token_leaves :: "recorded_token \<Rightarrow> (syntax_kind \<times> nat) list" where
  "token_leaves t = (if is_leaf (rt_kind t) then [(leaf_kind (rt_kind t), rt_end t - rt_start t)] else [])"

lemma handle_token_ok:
  assumes "handle_token t b = Inr b'" and "builder_ok limit ls b"
  shows "builder_ok limit (ls @ token_leaves t) b'"
proof -
  have flow: "close_flow k c d = Inr e \<Longrightarrow> token_child l n = Inr c \<Longrightarrow> builder_ok limit ls d \<Longrightarrow> builder_ok limit (ls @ [(l, n)]) e"
    for k c d e l n
    using pop_frame_ok token_child_ok by (fastforce simp: close_flow_def Let_def split: if_splits)
  show ?thesis using assms(1)
    by (cases "rt_kind t")
      (use assms(2) in \<open>auto simp: handle_token_def Let_def res_simps token_leaves_def is_leaf_def
        dest: push_frame_ok open_entry_in_ok close_open_entry_ok pop_frame_ok intro: token_child_ok flow split: if_splits\<close>)
qed

lemma finish_frames_ok:
  "finish_frames b = Inr b' \<Longrightarrow> builder_ok limit ls b \<Longrightarrow> builder_ok limit ls b' \<and> length (tb_stack b') = 1"
proof (induction b rule: finish_frames.induct)
  case (1 b)
  show ?case
  proof (cases "length (tb_stack b) > 1")
    case True
    then obtain c where c: "pop_frame b = Inr c" "finish_frames c = Inr b'"
      using "1.prems"(1) by (subst (asm) finish_frames.simps) (auto split: sum.splits)
    show ?thesis by (rule "1.IH"[OF True c(1,2) pop_frame_ok[OF c(1) "1.prems"(2)]])
  next
    case False
    then have "b' = b" using "1.prems"(1) by (subst (asm) finish_frames.simps) simp
    then show ?thesis using False "1.prems"(2) by (cases "tb_stack b") (auto simp: builder_ok_def)
  qed
qed

lemma builder_finish_ok:
  assumes "builder_finish b = Inr g" and "builder_ok limit ls b"
  shows "wf_node g \<and> node_leaves g = ls \<and> node_depth g \<le> limit"
proof -
  obtain c where c: "finish_frames b = Inr c" and n: "green_try_new SDocument (fr_children (hd (tb_stack c))) = Some g"
    using assms(1) by (auto simp: builder_finish_def res_simps split: option.splits)
  obtain f where f: "tb_stack c = [f]" and ok: "builder_ok limit ls c"
    using finish_frames_ok[OF c assms(2)] by (auto simp: length_Suc_conv)
  then show ?thesis using green_try_new_wf[OF n] by (simp add: builder_ok_def frames_leaves_def)
qed

text \<open>
  What the scanner recorded, one item at a time: where it starts, what comes first of items at one
  place, and the leaf it becomes.
\<close>

datatype recorded_item = RecToken recorded_token | RecTrivia trivia | RecComment scanned_comment

fun item_start :: "recorded_item \<Rightarrow> nat" where
  "item_start (RecToken r) = rt_start r"
| "item_start (RecTrivia t) = tv_start t"
| "item_start (RecComment c) = cm_start c"

fun item_rank :: "recorded_item \<Rightarrow> nat" where
  "item_rank (RecToken r) = 0"
| "item_rank (RecTrivia t) = 1"
| "item_rank (RecComment c) = 2"

fun item_leaves :: "recorded_item \<Rightarrow> (syntax_kind \<times> nat) list" where
  "item_leaves (RecToken r) = token_leaves r"
| "item_leaves (RecTrivia t) = [(trivia_syntax (tv_kind t), tv_end t - tv_start t)]"
| "item_leaves (RecComment c) = [(SComment, cm_end c - cm_start c)]"

definition goes_before :: "recorded_item \<Rightarrow> recorded_item \<Rightarrow> bool" where
  "goes_before x y \<longleftrightarrow> item_start x < item_start y \<or> item_start x = item_start y \<and> item_rank x \<le> item_rank y"

fun token_of :: "recorded_item \<Rightarrow> recorded_token option" where
  "token_of (RecToken r) = Some r" | "token_of _ = None"

fun trivia_of :: "recorded_item \<Rightarrow> trivia option" where
  "trivia_of (RecTrivia t) = Some t" | "trivia_of _ = None"

fun comment_of :: "recorded_item \<Rightarrow> scanned_comment option" where
  "comment_of (RecComment c) = Some c" | "comment_of _ = None"

text \<open>
  The three recordings merged into one: each kept whole and in its own order, and wherever the merge
  goes over from one recording to another it goes forward in the text.
\<close>

definition merged ::
  "trivia list \<Rightarrow> recorded_token list \<Rightarrow> scanned_comment list \<Rightarrow> recorded_item list \<Rightarrow> bool" where
  "merged ts toks cms items \<longleftrightarrow>
     List.map_filter trivia_of items = ts \<and> List.map_filter token_of items = toks
     \<and> List.map_filter comment_of items = cms
     \<and> successively (\<lambda>x y. item_rank x = item_rank y \<or> goes_before x y) items"

lemma merged_Nil: "merged [] [] [] []"
  by (simp add: merged_def map_filter_simps)

lemma merged_token:
  assumes "merged ts toks cms items" and "none_before cm_start cms (rt_start t)" and "none_before tv_start ts (rt_start t)"
  shows "merged ts (t # toks) cms (RecToken t # items)"
proof (cases items)
  case (Cons y ys)
  then show ?thesis using assms by (cases y) (auto simp: merged_def map_filter_simps none_before_def goes_before_def)
qed (use assms in \<open>simp add: merged_def map_filter_simps\<close>)

lemma merged_trivia:
  assumes "merged ts toks cms items" and "none_before cm_start cms (tv_start t)"
    and "\<not> (toks \<noteq> [] \<and> none_before cm_start cms (rt_start (hd toks)) \<and> none_before tv_start (t # ts) (rt_start (hd toks)))"
  shows "merged (t # ts) toks cms (RecTrivia t # items)"
proof (cases items)
  case (Cons y ys)
  then show ?thesis using assms
    by (cases y) (auto simp: merged_def map_filter_simps none_before_def goes_before_def split: list.splits)
qed (use assms in \<open>simp add: merged_def map_filter_simps\<close>)

lemma merged_comment:
  assumes "merged ts toks cms items"
    and "\<not> (toks \<noteq> [] \<and> none_before cm_start (c # cms) (rt_start (hd toks)) \<and> none_before tv_start ts (rt_start (hd toks)))"
    and "\<not> (ts \<noteq> [] \<and> none_before cm_start (c # cms) (tv_start (hd ts)))"
  shows "merged ts toks (c # cms) (RecComment c # items)"
proof (cases items)
  case (Cons y ys)
  then show ?thesis using assms
    by (cases y) (auto simp: merged_def map_filter_simps none_before_def goes_before_def split: list.splits)
qed (use assms in \<open>simp add: merged_def map_filter_simps\<close>)

text \<open>Recordings each in the order of the text are merged in the order of the text.\<close>

lemma merged_in_order:
  assumes "merged ts toks cms items"
    and "sorted (map tv_start ts)" and "sorted (map rt_start toks)" and "sorted (map cm_start cms)"
  shows "sorted (map item_start items)"
  using assms
proof (induction items arbitrary: ts toks cms)
  case (Cons x xs)
  let ?ts = "if trivia_of x = None then ts else tl ts" and ?toks = "if token_of x = None then toks else tl toks"
    and ?cms = "if comment_of x = None then cms else tl cms"
  have "merged ?ts ?toks ?cms xs" using Cons.prems(1)
    by (cases x; cases xs) (auto simp: merged_def map_filter_simps)
  then have s: "sorted (map item_start xs)"
    by (rule Cons.IH) (use Cons.prems in \<open>auto simp: sorted_tl map_tl\<close>)
  show ?case
  proof (cases xs)
    case (Cons y ys)
    then have "item_start x \<le> item_start y" using Cons.prems
      by (cases x; cases y) (auto simp: merged_def map_filter_simps goes_before_def)
    then show ?thesis using s Cons by auto
  qed simp
qed simp

lemma assemble_loop_ok:
  "assemble_loop ts toks cms b = Inr b' \<Longrightarrow> builder_ok limit ls b \<Longrightarrow>
   \<exists>items. merged ts toks cms items \<and> builder_ok limit (ls @ concat (map item_leaves items)) b'"
proof (induction ts toks cms b arbitrary: ls rule: assemble_loop.induct)
  case (1 ts toks cms b)
  let ?tok = "toks \<noteq> [] \<and> none_before cm_start cms (rt_start (hd toks)) \<and> none_before tv_start ts (rt_start (hd toks))"
  let ?trivia = "ts \<noteq> [] \<and> none_before cm_start cms (tv_start (hd ts))"
  note un = "1.prems"(1)[unfolded assemble_loop.simps[of ts toks cms b]]
  consider (tok) "?tok" | (trivia) "\<not> ?tok" "?trivia" | (comment) c cs where "\<not> ?tok" "\<not> ?trivia" "cms = c # cs"
    | (over) "\<not> ?tok" "\<not> ?trivia" "cms = []" by (cases cms) blast+
  then show ?case
  proof cases
    case tok
    then obtain c where c: "handle_token (hd toks) b = Inr c" "assemble_loop ts (tl toks) cms c = Inr b'"
      using un by (auto simp: and_then_Inr)
    from "1.IH"(1)[OF tok c(1) c(2) handle_token_ok[OF c(1) "1.prems"(2)]] obtain items where
      m: "merged ts (tl toks) cms items"
      and "builder_ok limit ((ls @ token_leaves (hd toks)) @ concat (map item_leaves items)) b'" by blast
    then show ?thesis using merged_token[OF m, of "hd toks"] tok
      by (intro exI[of _ "RecToken (hd toks) # items"]) simp
  next
    case trivia
    then obtain l where l: "child_from_trivia (hd ts) = Inr l" "assemble_loop (tl ts) toks cms (push_leaf l b) = Inr b'"
      using un by (auto simp: and_then_Inr)
    have "builder_ok limit (ls @ item_leaves (RecTrivia (hd ts))) (push_leaf l b)"
      using token_child_ok[OF l(1)[unfolded child_from_trivia_def] "1.prems"(2)] by simp
    from "1.IH"(2)[OF trivia(1,2) l(1) l(2) this] obtain items where
      m: "merged (tl ts) toks cms items"
      and "builder_ok limit ((ls @ item_leaves (RecTrivia (hd ts))) @ concat (map item_leaves items)) b'" by blast
    then show ?thesis using merged_trivia[OF m, of "hd ts"] trivia
      by (intro exI[of _ "RecTrivia (hd ts) # items"]) simp
  next
    case comment
    then obtain l where l: "token_child SComment (cm_end c - cm_start c) = Inr l"
        "assemble_loop ts toks cs (push_leaf l b) = Inr b'"
      using un by (auto simp: and_then_Inr split: if_splits)
    have "builder_ok limit (ls @ item_leaves (RecComment c)) (push_leaf l b)"
      using token_child_ok[OF l(1) "1.prems"(2)] by simp
    from "1.IH"(3)[OF comment(1,2,3) l(1) l(2) this] obtain items where
      m: "merged ts toks cs items"
      and "builder_ok limit ((ls @ item_leaves (RecComment c)) @ concat (map item_leaves items)) b'" by blast
    then show ?thesis using merged_comment[OF m, of c] comment
      by (intro exI[of _ "RecComment c # items"]) simp
  next
    case over
    then have "b' = b" "ts = []" "toks = []"
      using un by (auto simp: none_before_def split: if_splits)
    then show ?thesis using "1.prems"(2) over merged_Nil by (intro exI[of _ "[]"]) simp
  qed
qed

lemma drain_accounts:
  "drain s = Inr t \<Longrightarrow> books s \<Longrightarrow> log_bytes t = length (sc_input t) \<and> sc_input t = sc_input s"
proof (induction s rule: drain.induct)
  case (1 s)
  obtain tok u where u: "next_token s = Inr (tok, u)" "(if tok_kind tok = TStreamEnd then Inr u else drain u) = Inr t"
    using "1.prems"(1) by (subst (asm) drain.simps) (auto split: sum.splits)
  note b = next_token_books[OF u(1) "1.prems"(2)]
  show ?case
  proof (cases "tok_kind tok = TStreamEnd")
    case True
    then show ?thesis using b u(2) by simp
  next
    case False
    then show ?thesis using "1.IH"[OF u(1) refl False] b u(2) by simp
  qed
qed

lemma record_all_accounts:
  "record_all node_text source = Inr s \<Longrightarrow> log_bytes s = length source"
  using drain_accounts[OF _ books_recording[of source]]
  by (auto simp: record_all_def enable_recording_def scanner_new_def split: sum.splits)

lemma merged_len:
  assumes "merged (sc_trivia s) (sc_recorded_tokens s) (sc_comments s) items"
  shows "leaves_len (concat (map item_leaves items)) = log_bytes s"
proof -
  have "leaves_len (concat (map item_leaves items))
      = sum_list (map (\<lambda>t. tv_end t - tv_start t) (List.map_filter trivia_of items))
        + sum_list (map (\<lambda>c. cm_end c - cm_start c) (List.map_filter comment_of items))
        + sum_list (map recorded_bytes (List.map_filter token_of items))"
  proof (induction items)
    case (Cons x xs)
    then show ?case
      by (cases x) (simp_all add: leaves_len_def map_filter_simps token_leaves_def recorded_bytes_def leaf_bytes_def)
  qed (simp add: leaves_len_def map_filter_simps)
  then show ?thesis using assms by (simp add: merged_def log_bytes_def)
qed

lemma build_green_tree_ok:
  assumes "build_green_tree node_text source levels = Inr g"
  obtains s items where "record_all node_text source = Inr s" and "wf_node g" and "gn_text_len g = length source"
    and "merged (sc_trivia s) (sc_recorded_tokens s) (sc_comments s) items"
    and "node_leaves g = concat (map item_leaves items)" and "node_depth g \<le> frame_stack_limit levels"
proof -
  obtain s b where s: "record_all node_text source = Inr s"
    and b: "assemble_loop (sc_trivia s) (sc_recorded_tokens s) (sc_comments s) (builder_new levels) = Inr b"
    and g: "builder_finish b = Inr g"
    using assms by (auto simp: build_green_tree_def assemble_def and_then_Inr)
  obtain items where m: "merged (sc_trivia s) (sc_recorded_tokens s) (sc_comments s) items"
    and ok: "builder_ok (frame_stack_limit levels) (concat (map item_leaves items)) b"
    using assemble_loop_ok[OF b builder_new_ok] by auto
  have w: "wf_node g" "node_leaves g = concat (map item_leaves items)" "node_depth g \<le> frame_stack_limit levels"
    using builder_finish_ok[OF g ok] by blast+
  moreover have "gn_text_len g = length source"
    using text_len_leaves(1)[OF w(1)] merged_len[OF m] record_all_accounts[OF s] w(2) by simp
  ultimately show thesis using that s m by blast
qed

text \<open>
  C31. The syntax tree of a text is lossless: it is as long as the text and spells it back byte for byte.
\<close>

theorem green_tree_lossless:
  assumes "build_green_tree node_text source levels = Inr g"
  shows "gn_text_len g = length source \<and> green_text g source = source"
  using assms by (rule build_green_tree_ok) (simp add: green_text_takes)

text \<open>
  C32. Its leaves, from left to right, are the tokens, the trivia and the comments the scanner recorded,
  each once and in the order they were recorded; wherever the leaves go over from one of the three
  recordings to another they go forward in the text, at one place from a token to trivia to a comment.
  The tree is no deeper than the frames the depth limit allows.
\<close>

theorem green_tree_leaves:
  assumes "build_green_tree node_text source levels = Inr g"
  shows "\<exists>s items. record_all node_text source = Inr s
     \<and> merged (sc_trivia s) (sc_recorded_tokens s) (sc_comments s) items
     \<and> node_leaves g = concat (map item_leaves items)
     \<and> node_depth g \<le> frame_stack_limit levels"
  using assms by (rule build_green_tree_ok) blast

section \<open>Witnesses\<close>

definition sample_source :: string where
  "sample_source = ''a: 1 # c'' @ [CHR 0x0A]"

definition sample_tree :: green_node where
  "sample_tree =
     GreenNode SDocument 9
       [ChildNode (GreenNode SBlockMapping 9
         [ChildNode (GreenNode SMappingEntry 9
           [ChildToken SPlainScalar 1, ChildToken SColonIndicator 2, ChildToken SPlainScalar 1,
            ChildToken SWhitespace 1, ChildToken SComment 3, ChildToken SNewline 1])])]"

lemma sample_builds: "build_green_tree (\<lambda>k. []) sample_source 9 = Inr sample_tree"
  by code_simp

lemma green_tree_lossless_witness: "gn_text_len sample_tree = 9 \<and> green_text sample_tree sample_source = sample_source"
  using green_tree_lossless[OF sample_builds] by (simp add: sample_source_def)

lemma green_tree_leaves_witness: "\<exists>s items. record_all (\<lambda>k. []) sample_source = Inr s
    \<and> merged (sc_trivia s) (sc_recorded_tokens s) (sc_comments s) items
    \<and> concat (map item_leaves items) =
        [(SPlainScalar, 1), (SColonIndicator, 2), (SPlainScalar, 1), (SWhitespace, 1), (SComment, 3), (SNewline, 1)]"
  using green_tree_leaves[OF sample_builds] by (auto simp: sample_tree_def)

end
