(* ===== verification/Green_Splice.thy ===== *)
theory Green_Splice
  imports Green
begin

text \<open>
  Subtrees (\<open>cst/builder.rs\<close>): the re-parse of a fragment in the place of a node, and the splice of the
  rebuilt node into the old tree.  The sharing of siblings has no counterpart.
\<close>

section \<open>Re-parsing a fragment\<close>

definition kind_text :: "syntax_kind \<Rightarrow> string" where
  "kind_text k =
     (case k of
        SWhitespace \<Rightarrow> ''Whitespace'' | SNewline \<Rightarrow> ''Newline'' | SComment \<Rightarrow> ''Comment'' | SBom \<Rightarrow> ''Bom''
      | SDirective \<Rightarrow> ''Directive'' | SDashIndicator \<Rightarrow> ''DashIndicator'' | SQuestionIndicator \<Rightarrow> ''QuestionIndicator''
      | SColonIndicator \<Rightarrow> ''ColonIndicator'' | SComma \<Rightarrow> ''Comma'' | SOpenBracket \<Rightarrow> ''OpenBracket''
      | SCloseBracket \<Rightarrow> ''CloseBracket'' | SOpenBrace \<Rightarrow> ''OpenBrace'' | SCloseBrace \<Rightarrow> ''CloseBrace''
      | SAnchorMark \<Rightarrow> ''AnchorMark'' | SAliasMark \<Rightarrow> ''AliasMark'' | STagMark \<Rightarrow> ''TagMark'' | SDocStart \<Rightarrow> ''DocStart''
      | SDocEnd \<Rightarrow> ''DocEnd'' | SPlainScalar \<Rightarrow> ''PlainScalar'' | SSingleQuotedScalar \<Rightarrow> ''SingleQuotedScalar''
      | SDoubleQuotedScalar \<Rightarrow> ''DoubleQuotedScalar'' | SLiteralScalar \<Rightarrow> ''LiteralScalar'' | SFoldedScalar \<Rightarrow> ''FoldedScalar''
      | SStream \<Rightarrow> ''Stream'' | SDocument \<Rightarrow> ''Document'' | SBlockMapping \<Rightarrow> ''BlockMapping''
      | SBlockSequence \<Rightarrow> ''BlockSequence'' | SFlowMapping \<Rightarrow> ''FlowMapping'' | SFlowSequence \<Rightarrow> ''FlowSequence''
      | SMappingEntry \<Rightarrow> ''MappingEntry'' | SSequenceItem \<Rightarrow> ''SequenceItem'')"

definition spaces :: "nat \<Rightarrow> string" where "spaces n = replicate n (CHR '' '')"

definition prepend_first_line_indent :: "string \<Rightarrow> nat \<Rightarrow> string" where
  "prepend_first_line_indent s indent = (if indent = 0 \<or> starts_with '' '' s then s else spaces indent @ s)"

fun first_node_of_kind :: "green_child list \<Rightarrow> syntax_kind \<Rightarrow> green_node option" where
  "first_node_of_kind [] kind = None"
| "first_node_of_kind (ChildNode n # cs) kind = (if gn_kind n = kind then Some n else first_node_of_kind cs kind)"
| "first_node_of_kind (ChildToken k len # cs) kind = first_node_of_kind cs kind"

definition no_subtree :: "string \<Rightarrow> error" where
  "no_subtree what = Parse (''parse_subtree: '' @ what)"

definition found_or :: "error \<Rightarrow> 'a option \<Rightarrow> (error, 'a) res" where
  "found_or e r = (case r of Some x \<Rightarrow> Inr x | None \<Rightarrow> Inl e)"

definition parse_block_collection ::
  "(token_kind \<Rightarrow> string) \<Rightarrow> string \<Rightarrow> nat \<Rightarrow> syntax_kind \<Rightarrow> nat \<Rightarrow> (error, green_node) res" where
  "parse_block_collection node_text fragment indent expected levels =
     and_then (build_green_tree node_text (prepend_first_line_indent fragment indent) levels) (\<lambda>parsed.
       found_or (no_subtree (''re-parsed fragment did not contain a '' @ kind_text expected @ '' at root''))
         (first_node_of_kind (gn_children parsed) expected))"

definition is_yaml_blank :: "string \<Rightarrow> bool" where
  "is_yaml_blank s \<longleftrightarrow> list_all (\<lambda>c. c \<in> {CHR '' '', CHR 0x09, CHR 0x0A, CHR 0x0D}) s"

definition sentinel :: "syntax_kind \<Rightarrow> string" where
  "sentinel expected = (if expected = SMappingEntry then ''__noyalib_x__: 0'' else ''- 0'') @ [CHR 0x0A]"

definition entry_parent :: "syntax_kind \<Rightarrow> syntax_kind" where
  "entry_parent expected = (if expected = SMappingEntry then SBlockMapping else SBlockSequence)"

definition parse_block_entry ::
  "(token_kind \<Rightarrow> string) \<Rightarrow> string \<Rightarrow> nat \<Rightarrow> syntax_kind \<Rightarrow> nat \<Rightarrow> (error, green_node) res" where
  "parse_block_entry node_text fragment indent expected levels =
     (if is_yaml_blank fragment then Inl (no_subtree ''empty fragment cannot stand as a block entry'')
      else
        let wrapped = prepend_first_line_indent fragment indent;
            wrapped = (if wrapped \<noteq> [] \<and> last wrapped = CHR 0x0A then wrapped else wrapped @ [CHR 0x0A]);
            wrapped = wrapped @ spaces indent @ sentinel expected
        in and_then (build_green_tree node_text wrapped levels) (\<lambda>parsed.
           and_then (found_or (no_subtree (''re-parsed entry did not produce a '' @ kind_text (entry_parent expected)))
             (first_node_of_kind (gn_children parsed) (entry_parent expected))) (\<lambda>parent.
           found_or (no_subtree (''extraction failed for '' @ kind_text expected))
             (first_node_of_kind (gn_children parent) expected))))"

definition parse_subtree ::
  "(token_kind \<Rightarrow> string) \<Rightarrow> string \<Rightarrow> nat \<Rightarrow> syntax_kind \<Rightarrow> nat \<Rightarrow> (error, green_node) res" where
  "parse_subtree node_text fragment indent expected levels =
     (if expected \<in> {SBlockMapping, SBlockSequence} then parse_block_collection node_text fragment indent expected levels
      else if expected \<in> {SMappingEntry, SSequenceItem} then parse_block_entry node_text fragment indent expected levels
      else if expected = SDocument then build_green_tree node_text fragment levels
      else Inl (no_subtree (''unsupported expected kind '' @ kind_text expected)))"

section \<open>Splicing\<close>

text \<open>
  The children of a node with the target replaced.  \<open>spliced\<close> is the replacement while it is not placed
  yet: \<open>None\<close> is the \<open>consumed\<close> flag.  The outer \<open>None\<close> is a tree that grew past the length limit.
\<close>

fun splice_recursive :: "green_node \<Rightarrow> nat \<Rightarrow> nat \<Rightarrow> green_node \<Rightarrow> nat \<Rightarrow> green_node option"
  and splice_child :: "green_child \<Rightarrow> nat \<Rightarrow> nat \<Rightarrow> green_node \<Rightarrow> nat \<Rightarrow> (green_child \<times> bool) option"
  and splice_children :: "green_child list \<Rightarrow> nat \<Rightarrow> nat \<Rightarrow> green_node \<Rightarrow> nat \<Rightarrow> green_child list option" where
  "splice_recursive (GreenNode kind len cs) start stop spliced base =
     (case splice_children cs start stop spliced base of
        None \<Rightarrow> None
      | Some ds \<Rightarrow> green_try_new kind ds)"
| "splice_child (ChildNode n) start stop spliced pos =
     (if pos = start \<and> pos + gn_text_len n = stop \<and> gn_kind n = gn_kind spliced then Some (ChildNode spliced, True)
      else if pos \<le> start \<and> pos + gn_text_len n \<ge> stop
      then (case splice_recursive n start stop spliced pos of None \<Rightarrow> None | Some m \<Rightarrow> Some (ChildNode m, True))
      else Some (ChildNode n, False))"
| "splice_child (ChildToken k len) start stop spliced pos = Some (ChildToken k len, False)"
| "splice_children [] start stop spliced pos = Some []"
| "splice_children (c # cs) start stop spliced pos =
     (case splice_child c start stop spliced pos of
        None \<Rightarrow> None
      | Some (d, True) \<Rightarrow> Some (d # cs)
      | Some (d, False) \<Rightarrow> map_option (Cons d) (splice_children cs start stop spliced (pos + child_text_len c)))"

definition rebuild_with_splice :: "green_node \<Rightarrow> nat \<Rightarrow> nat \<Rightarrow> green_node \<Rightarrow> green_node option" where
  "rebuild_with_splice root start stop spliced = splice_recursive root start stop spliced 0"

text \<open>The ancestors of an edit, the outermost first.\<close>

record candidate =
  cd_kind :: syntax_kind
  cd_start :: nat
  cd_end :: nat

fun collect_ancestors :: "green_node \<Rightarrow> nat \<Rightarrow> nat \<Rightarrow> nat \<Rightarrow> candidate list"
  and collect_in_children :: "green_child list \<Rightarrow> nat \<Rightarrow> nat \<Rightarrow> nat \<Rightarrow> candidate list" where
  "collect_ancestors (GreenNode kind len cs) start stop base =
     (if start \<ge> base \<and> stop \<le> base + len
      then \<lparr>cd_kind = kind, cd_start = base, cd_end = base + len\<rparr> # collect_in_children cs start stop base
      else [])"
| "collect_in_children [] start stop pos = []"
| "collect_in_children (c # cs) start stop pos =
     (if start \<ge> pos \<and> stop \<le> pos + child_text_len c
      then (case c of ChildNode n \<Rightarrow> collect_ancestors n start stop pos | ChildToken k len \<Rightarrow> [])
      else collect_in_children cs start stop (pos + child_text_len c))"

definition ancestor_candidates :: "green_node \<Rightarrow> nat \<Rightarrow> nat \<Rightarrow> candidate list" where
  "ancestor_candidates root start stop = rev (collect_ancestors root start stop 0)"

section \<open>What a splice keeps\<close>

lemma collected_around:
  "d \<in> set (collect_ancestors n start stop base) \<Longrightarrow> base \<le> cd_start d \<and> cd_start d \<le> start \<and> stop \<le> cd_end d"
  "d \<in> set (collect_in_children cs start stop pos) \<Longrightarrow> pos \<le> cd_start d \<and> cd_start d \<le> start \<and> stop \<le> cd_end d"
  by (induction n start stop base and cs start stop pos rule: collect_ancestors_collect_in_children.induct)
    (auto split: if_splits green_child.splits)

text \<open>\<open>new\<close> is \<open>old\<close> with the bytes from \<open>a\<close> to \<open>b\<close> as the leaves \<open>mid\<close>.\<close>

definition leaves_replaced ::
  "(syntax_kind \<times> nat) list \<Rightarrow> nat \<Rightarrow> nat \<Rightarrow> (syntax_kind \<times> nat) list \<Rightarrow> (syntax_kind \<times> nat) list \<Rightarrow> bool" where
  "leaves_replaced old a b mid new \<longleftrightarrow>
     (\<exists>pre gone post. old = pre @ gone @ post \<and> new = pre @ mid @ post \<and> leaves_len pre = a \<and> leaves_len pre + leaves_len gone = b)"

lemma replacedI:
  "old = pre @ gone @ post \<Longrightarrow> new = pre @ mid @ post \<Longrightarrow> leaves_len pre = a \<Longrightarrow> leaves_len pre + leaves_len gone = b \<Longrightarrow>
   leaves_replaced old a b mid new"
  unfolding leaves_replaced_def by blast

lemma replaced_front: "leaves_len old = b \<Longrightarrow> leaves_replaced (old @ xs) 0 b mid (mid @ xs)"
  by (rule replacedI[of _ "[]" old xs]) simp_all

lemma replaced_later:
  assumes "leaves_replaced old a b mid new"
  shows "leaves_replaced (xs @ old) (leaves_len xs + a) (leaves_len xs + b) mid (xs @ new)"
proof -
  obtain pre gone post where "old = pre @ gone @ post" "new = pre @ mid @ post" "leaves_len pre = a" "leaves_len pre + leaves_len gone = b"
    using assms unfolding leaves_replaced_def by blast
  then show ?thesis by (intro replacedI[of _ "xs @ pre" gone post]) simp_all
qed

lemma replaced_before:
  assumes "leaves_replaced old a b mid new"
  shows "leaves_replaced (old @ xs) a b mid (new @ xs)"
proof -
  obtain pre gone post where "old = pre @ gone @ post" "new = pre @ mid @ post" "leaves_len pre = a" "leaves_len pre + leaves_len gone = b"
    using assms unfolding leaves_replaced_def by blast
  then show ?thesis by (intro replacedI[of _ pre gone "post @ xs"]) simp_all
qed

lemma replaced_len: "leaves_replaced old a b mid new \<Longrightarrow> leaves_len new + b = leaves_len old + leaves_len mid + a"
  by (auto simp: leaves_replaced_def)

lemma collected_within:
  "d \<in> set (collect_ancestors n start stop base) \<Longrightarrow> wf_node n \<Longrightarrow> cd_end d \<le> base + gn_text_len n"
  "d \<in> set (collect_in_children cs start stop pos) \<Longrightarrow> list_all wf_child cs \<Longrightarrow>
   cd_end d \<le> pos + sum_list (map child_text_len cs)"
  by (induction n start stop base and cs start stop pos rule: collect_ancestors_collect_in_children.induct)
    (fastforce split: if_splits green_child.splits)+

lemma splice_at_candidate:
  assumes "gn_kind sp = cd_kind d" and "wf_node sp"
  shows "d \<in> set (collect_ancestors n start stop base) \<Longrightarrow> d \<noteq> \<lparr>cd_kind = gn_kind n, cd_start = base, cd_end = base + gn_text_len n\<rparr> \<Longrightarrow>
      wf_node n \<Longrightarrow> splice_recursive n (cd_start d) (cd_end d) sp base = Some m \<Longrightarrow>
      wf_node m \<and> leaves_replaced (node_leaves n) (cd_start d - base) (cd_end d - base) (node_leaves sp) (node_leaves m)"
    and "d \<in> set (collect_in_children cs start stop pos) \<Longrightarrow> list_all wf_child cs \<Longrightarrow>
      splice_children cs (cd_start d) (cd_end d) sp pos = Some ds \<Longrightarrow>
      list_all wf_child ds \<and> leaves_replaced (concat (map child_leaves cs)) (cd_start d - pos) (cd_end d - pos)
        (node_leaves sp) (concat (map child_leaves ds))"
proof (induction n start stop base and cs start stop pos arbitrary: m and ds
    rule: collect_ancestors_collect_in_children.induct)
  case (1 kind len cs start stop base)
  then have c: "start \<ge> base \<and> stop \<le> base + len" "d \<in> set (collect_in_children cs start stop base)"
    by (auto split: if_splits)
  obtain ds where ds: "splice_children cs (cd_start d) (cd_end d) sp base = Some ds" "green_try_new kind ds = Some m"
    using "1.prems"(4) by (auto split: option.splits)
  have "list_all wf_child ds \<and> leaves_replaced (concat (map child_leaves cs)) (cd_start d - base) (cd_end d - base)
        (node_leaves sp) (concat (map child_leaves ds))"
    using "1.IH"[OF c(1,2) _ ds(1)] "1.prems"(3) by simp
  then show ?case using green_try_new_wf[OF ds(2)] by simp
next
  case (2 start stop pos)
  then show ?case by simp
next
  case (3 c cs start stop pos)
  show ?case
  proof (cases "start \<ge> pos \<and> stop \<le> pos + child_text_len c")
    case True
    then obtain n where c: "c = ChildNode n" and d: "d \<in> set (collect_ancestors n start stop pos)"
      using "3.prems"(1) by (auto split: green_child.splits)
    show ?thesis
    proof (cases "pos = cd_start d \<and> pos + gn_text_len n = cd_end d \<and> gn_kind n = gn_kind sp")
      case hit: True
      then have ds: "ds = ChildNode sp # cs" using "3.prems"(3) c by simp
      have "leaves_replaced (node_leaves n @ concat (map child_leaves cs)) 0 (gn_text_len n) (node_leaves sp)
          (node_leaves sp @ concat (map child_leaves cs))"
        using text_len_leaves(1)[of n] "3.prems"(2) c by (intro replaced_front) simp
      moreover have "cd_start d - pos = 0" "cd_end d - pos = gn_text_len n" using hit by auto
      ultimately show ?thesis using "3.prems"(2) ds c assms(2) by simp
    next
      case False
      have w: "wf_node n" "list_all wf_child cs" using "3.prems"(2) c by simp_all
      have around: "pos \<le> cd_start d" "cd_end d \<le> pos + gn_text_len n"
        using collected_around(1)[OF d] collected_within(1)[OF d w(1)] by simp_all
      have self: "d \<noteq> \<lparr>cd_kind = gn_kind n, cd_start = pos, cd_end = pos + gn_text_len n\<rparr>" using False assms(1) by auto
      obtain m where m: "splice_recursive n (cd_start d) (cd_end d) sp pos = Some m" "ds = ChildNode m # cs"
        using "3.prems"(3) c False around by (auto split: option.splits)
      show ?thesis using "3.IH"(1)[OF True c d self w(1) m(1)] w(2) c m(2) replaced_before by auto
    qed
  next
    case False
    then have d: "d \<in> set (collect_in_children cs start stop (pos + child_text_len c))" using "3.prems"(1) by (auto split: if_splits)
    have around: "pos + child_text_len c \<le> cd_start d" "cd_start d \<le> start" "stop \<le> cd_end d"
      using collected_around(2)[OF d] by simp_all
    have keep: "splice_child c (cd_start d) (cd_end d) sp pos = Some (c, False)"
      using around False by (cases c) auto
    obtain es where es: "splice_children cs (cd_start d) (cd_end d) sp (pos + child_text_len c) = Some es" "ds = c # es"
      using "3.prems"(3) keep by (auto split: option.splits)
    have w: "wf_child c" "list_all wf_child cs" using "3.prems"(2) by simp_all
    let ?n = "child_text_len c"
    have "list_all wf_child es" and r: "leaves_replaced (concat (map child_leaves cs)) (cd_start d - (pos + ?n)) (cd_end d - (pos + ?n))
        (node_leaves sp) (concat (map child_leaves es))"
      using "3.IH"(2)[OF False d w(2) es(1)] by simp_all
    moreover have "leaves_len (child_leaves c) + (cd_start d - (pos + ?n)) = cd_start d - pos"
      "leaves_len (child_leaves c) + (cd_end d - (pos + ?n)) = cd_end d - pos"
      using text_len_leaves(2)[OF w(1)] around False by auto
    ultimately show ?thesis using replaced_later[OF r, of "child_leaves c"] w es(2) by simp
  qed
qed

section \<open>One node swapped\<close>

text \<open>
  \<open>swapped n at old sp m\<close>: the tree \<open>m\<close> is the tree \<open>n\<close> with its node \<open>old\<close>, which begins \<open>at\<close> bytes
  into it, exchanged for \<open>sp\<close>.  On the way down to it every sibling is the same, and the lengths of the
  nodes above it are the sums of their children.
\<close>

inductive swapped :: "green_node \<Rightarrow> nat \<Rightarrow> green_node \<Rightarrow> green_node \<Rightarrow> green_node \<Rightarrow> bool" where
  swapped_here: "swapped n 0 n sp sp"
| swapped_below: "swapped c at old sp c' \<Longrightarrow>
    swapped (GreenNode kind len (xs @ ChildNode c # ys)) (sum_list (map child_text_len xs) + at) old sp
      (GreenNode kind (sum_list (map child_text_len (xs @ ChildNode c' # ys))) (xs @ ChildNode c' # ys))"

lemma swapped_leaves:
  assumes "swapped n at old sp m" and "wf_node n"
  obtains pre post where "node_leaves n = pre @ node_leaves old @ post"
    and "node_leaves m = pre @ node_leaves sp @ post" and "leaves_len pre = at"
  using assms
proof (induction arbitrary: thesis rule: swapped.induct)
  case (swapped_here n sp)
  then show ?case by (metis append_Nil append_Nil2 leaves_len_append(2))
next
  case (swapped_below c at old sp c' kind len xs ys)
  have w: "wf_node c" "list_all wf_child xs" using swapped_below.prems(2) by simp_all
  obtain pre post where c: "node_leaves c = pre @ node_leaves old @ post"
      "node_leaves c' = pre @ node_leaves sp @ post" "leaves_len pre = at"
    using swapped_below.IH[OF _ w(1)] by blast
  have "leaves_len (concat (map child_leaves xs)) = sum_list (map child_text_len xs)"
    using w(2) by (induction xs) (simp_all add: text_len_leaves(2))
  then show ?case
    using c
    by (intro swapped_below.prems(1)[of "concat (map child_leaves xs) @ pre" "post @ concat (map child_leaves ys)"]) simp_all
qed

text \<open>What the splice at a candidate exchanges is a node of the candidate's kind and place.\<close>

definition swaps_candidate :: "candidate \<Rightarrow> green_node \<Rightarrow> green_node \<Rightarrow> nat \<Rightarrow> green_node \<Rightarrow> green_node \<Rightarrow> bool" where
  "swaps_candidate d old n base sp m \<longleftrightarrow>
     swapped n (cd_start d - base) old sp m \<and> base \<le> cd_start d \<and> gn_kind old = cd_kind d
     \<and> cd_end d = cd_start d + gn_text_len old"

lemma green_try_new_node:
  "green_try_new kind ds = Some m \<Longrightarrow> m = GreenNode kind (sum_list (map child_text_len ds)) ds"
  by (auto simp: green_try_new_def Let_def split: if_splits)

lemma swaps_below:
  assumes "swaps_candidate d old c (base + sum_list (map child_text_len xs)) sp c'"
    and "green_try_new kind (xs @ ChildNode c' # ys) = Some m"
  shows "swaps_candidate d old (GreenNode kind len (xs @ ChildNode c # ys)) base sp m"
  using swapped_below[of c "cd_start d - (base + sum_list (map child_text_len xs))" old sp c' kind len xs ys]
    assms green_try_new_node[OF assms(2)]
  by (auto simp: swaps_candidate_def)

lemma splice_swaps_candidate:
  assumes "gn_kind sp = cd_kind d"
  shows "d \<in> set (collect_ancestors n start stop base) \<Longrightarrow> d \<noteq> \<lparr>cd_kind = gn_kind n, cd_start = base, cd_end = base + gn_text_len n\<rparr> \<Longrightarrow>
      wf_node n \<Longrightarrow> splice_recursive n (cd_start d) (cd_end d) sp base = Some m \<Longrightarrow>
      \<exists>old. swaps_candidate d old n base sp m"
    and "d \<in> set (collect_in_children cs start stop pos) \<Longrightarrow> list_all wf_child cs \<Longrightarrow>
      splice_children cs (cd_start d) (cd_end d) sp pos = Some ds \<Longrightarrow>
      \<exists>xs c c' ys old. cs = xs @ ChildNode c # ys \<and> ds = xs @ ChildNode c' # ys
        \<and> swaps_candidate d old c (pos + sum_list (map child_text_len xs)) sp c'"
proof (induction n start stop base and cs start stop pos arbitrary: m and ds
    rule: collect_ancestors_collect_in_children.induct)
  case (1 kind len cs start stop base)
  then have c: "start \<ge> base \<and> stop \<le> base + len" "d \<in> set (collect_in_children cs start stop base)"
    by (auto split: if_splits)
  obtain ds where ds: "splice_children cs (cd_start d) (cd_end d) sp base = Some ds" "green_try_new kind ds = Some m"
    using "1.prems"(4) by (auto split: option.splits)
  obtain xs c c' ys old where p: "cs = xs @ ChildNode c # ys" "ds = xs @ ChildNode c' # ys"
      "swaps_candidate d old c (base + sum_list (map child_text_len xs)) sp c'"
    using "1.IH"[OF c(1,2) _ ds(1)] "1.prems"(3) by auto
  show ?case using swaps_below[OF p(3) ds(2)[unfolded p(2)]] p(1) by blast
next
  case (2 start stop pos)
  then show ?case by simp
next
  case (3 c cs start stop pos)
  show ?case
  proof (cases "start \<ge> pos \<and> stop \<le> pos + child_text_len c")
    case True
    then obtain n where c: "c = ChildNode n" and d: "d \<in> set (collect_ancestors n start stop pos)"
      using "3.prems"(1) by (auto split: green_child.splits)
    have w: "wf_node n" using "3.prems"(2) c by simp
    have around: "pos \<le> cd_start d" "cd_end d \<le> pos + gn_text_len n"
      using collected_around(1)[OF d] collected_within(1)[OF d w] by simp_all
    obtain m where m: "ds = ChildNode m # cs" and "\<exists>old. swaps_candidate d old n pos sp m"
    proof (cases "pos = cd_start d \<and> pos + gn_text_len n = cd_end d \<and> gn_kind n = gn_kind sp")
      case hit: True
      then have "ds = ChildNode sp # cs" using "3.prems"(3) c by simp
      moreover have "swaps_candidate d n n pos sp sp"
        using hit assms swapped_here[of n sp] by (auto simp: swaps_candidate_def)
      ultimately show thesis using that by blast
    next
      case False
      have self: "d \<noteq> \<lparr>cd_kind = gn_kind n, cd_start = pos, cd_end = pos + gn_text_len n\<rparr>" using False assms by auto
      obtain m where m: "splice_recursive n (cd_start d) (cd_end d) sp pos = Some m" "ds = ChildNode m # cs"
        using "3.prems"(3) c False around by (auto split: option.splits)
      show thesis using that[OF m(2)] "3.IH"(1)[OF True c d self w m(1)] by blast
    qed
    then show ?thesis using c by (intro exI[of _ "[]"]) simp
  next
    case False
    then have d: "d \<in> set (collect_in_children cs start stop (pos + child_text_len c))" using "3.prems"(1) by (auto split: if_splits)
    have around: "pos + child_text_len c \<le> cd_start d" "cd_start d \<le> start" "stop \<le> cd_end d"
      using collected_around(2)[OF d] by simp_all
    have keep: "splice_child c (cd_start d) (cd_end d) sp pos = Some (c, False)"
      using around False by (cases c) auto
    obtain es where es: "splice_children cs (cd_start d) (cd_end d) sp (pos + child_text_len c) = Some es" "ds = c # es"
      using "3.prems"(3) keep by (auto split: option.splits)
    obtain xs b b' ys old where "cs = xs @ ChildNode b # ys" "es = xs @ ChildNode b' # ys"
        "swaps_candidate d old b (pos + child_text_len c + sum_list (map child_text_len xs)) sp b'"
      using "3.IH"(2)[OF False d _ es(1)] "3.prems"(2) by auto
    then show ?thesis using es(2) by (intro exI[of _ "c # xs"]) (auto simp: add.assoc)
  qed
qed

end
