(* ===== verification/Green_Path.thy ===== *)
theory Green_Path
  imports Green Query
begin

text \<open>
  Path resolution in the green tree (\<open>cst/document/path.rs\<close>): the byte range of the value at a path,
  found without loading the document.
\<close>

section \<open>Kinds\<close>

definition is_trivia_kind :: "syntax_kind \<Rightarrow> bool" where
  "is_trivia_kind k \<longleftrightarrow> k \<in> {SWhitespace, SNewline, SComment, SBom, SDirective}"

definition is_value_property_kind :: "syntax_kind \<Rightarrow> bool" where
  "is_value_property_kind k \<longleftrightarrow> k \<in> {SAnchorMark, STagMark}"

definition is_block_collection :: "syntax_kind \<Rightarrow> bool" where
  "is_block_collection k \<longleftrightarrow> k \<in> {SBlockMapping, SBlockSequence}"

section \<open>Keys\<close>

text \<open>\<open>str::replace\<close> of a doubled quote by one.\<close>

fun undouble_quotes :: "string \<Rightarrow> string" where
  "undouble_quotes (a # b # s) =
     (if a = single_quote \<and> b = single_quote then single_quote # undouble_quotes s else a # undouble_quotes (b # s))"
| "undouble_quotes s = s"

definition decode_single_quoted :: "string \<Rightarrow> string option" where
  "decode_single_quoted raw =
     (if length raw \<ge> 2 \<and> hd raw = single_quote \<and> last raw = single_quote
      then Some (undouble_quotes (butlast (tl raw))) else None)"

fun entry_key_text :: "green_child list \<Rightarrow> string \<Rightarrow> nat \<Rightarrow> string option" where
  "entry_key_text [] source pos = None"
| "entry_key_text (ChildNode n # cs) source pos = None"
| "entry_key_text (ChildToken kind len # cs) source pos =
     (if kind \<in> {SQuestionIndicator, SWhitespace, SNewline, SComment, SAnchorMark, STagMark}
      then entry_key_text cs source (pos + len)
      else if kind = SPlainScalar then Some (take len (drop pos source))
      else if kind = SSingleQuotedScalar then decode_single_quoted (take len (drop pos source))
      else None)"

section \<open>Values\<close>

text \<open>The kind, the span with its properties, and the node of a composite with its own offset.\<close>

type_synonym resolved_value = "syntax_kind \<times> (nat \<times> nat) \<times> (green_node \<times> nat) option"

definition or_start :: "nat option \<Rightarrow> nat \<Rightarrow> nat" where
  "or_start prefix start = (case prefix of Some p \<Rightarrow> p | None \<Rightarrow> start)"

fun entry_value_from :: "green_child list \<Rightarrow> nat \<Rightarrow> bool \<Rightarrow> nat option \<Rightarrow> resolved_value option" where
  "entry_value_from [] pos after_colon prefix = map_option (\<lambda>start. (SPlainScalar, (start, pos), None)) prefix"
| "entry_value_from (ChildToken kind len # cs) pos after_colon prefix =
     (if \<not> after_colon then entry_value_from cs (pos + len) (kind = SColonIndicator) prefix
      else if kind = SAliasMark then None
      else if is_value_property_kind kind then entry_value_from cs (pos + len) True (Some (or_start prefix pos))
      else if kind = SDashIndicator then None
      else if \<not> is_trivia_kind kind then Some (kind, (or_start prefix pos, pos + len), None)
      else entry_value_from cs (pos + len) True prefix)"
| "entry_value_from (ChildNode n # cs) pos after_colon prefix =
     (if after_colon then Some (gn_kind n, (or_start prefix pos, pos + gn_text_len n), Some (n, pos))
      else entry_value_from cs (pos + gn_text_len n) after_colon prefix)"

definition entry_value :: "green_node \<Rightarrow> nat \<Rightarrow> resolved_value option" where
  "entry_value e base = entry_value_from (gn_children e) base False None"

fun item_value_from :: "green_child list \<Rightarrow> nat \<Rightarrow> bool \<Rightarrow> nat option \<Rightarrow> resolved_value option" where
  "item_value_from [] pos after_dash prefix = map_option (\<lambda>start. (SPlainScalar, (start, pos), None)) prefix"
| "item_value_from (ChildToken kind len # cs) pos after_dash prefix =
     (if \<not> after_dash then item_value_from cs (pos + len) (kind = SDashIndicator) prefix
      else if kind = SAliasMark then None
      else if is_value_property_kind kind then item_value_from cs (pos + len) True (Some (or_start prefix pos))
      else if \<not> is_trivia_kind kind then Some (kind, (or_start prefix pos, pos + len), None)
      else item_value_from cs (pos + len) True prefix)"
| "item_value_from (ChildNode n # cs) pos after_dash prefix =
     (if after_dash then Some (gn_kind n, (or_start prefix pos, pos + gn_text_len n), Some (n, pos))
      else item_value_from cs (pos + gn_text_len n) after_dash prefix)"

definition item_value :: "green_node \<Rightarrow> nat \<Rightarrow> resolved_value option" where
  "item_value item base = item_value_from (gn_children item) base False None"

definition extend_to_line_start :: "string \<Rightarrow> nat \<Rightarrow> nat" where
  "extend_to_line_start source start =
     (let i = start - length (takeWhile is_blank (rev (take start source)))
      in if i = 0 \<or> is_break (source ! (i - 1)) then i else start)"

section \<open>The walk\<close>

text \<open>
  The entry of a mapping that a key names: the last one, unless a key of the mapping cannot be decoded.
\<close>

fun find_entry :: "green_child list \<Rightarrow> string \<Rightarrow> string \<Rightarrow> nat \<Rightarrow> (green_node \<times> nat) option \<Rightarrow> (green_node \<times> nat) option" where
  "find_entry [] key source pos found = found"
| "find_entry (ChildNode n # cs) key source pos found =
     (if gn_kind n = SMappingEntry
      then (case entry_key_text (gn_children n) source pos of
              None \<Rightarrow> None
            | Some k \<Rightarrow> find_entry cs key source (pos + gn_text_len n) (if k = key then Some (n, pos) else found))
      else find_entry cs key source (pos + gn_text_len n) found)"
| "find_entry (ChildToken k len # cs) key source pos found = find_entry cs key source (pos + len) found"

fun find_item :: "green_child list \<Rightarrow> nat \<Rightarrow> nat \<Rightarrow> (green_node \<times> nat) option" where
  "find_item [] i pos = None"
| "find_item (ChildNode n # cs) i pos =
     (if gn_kind n = SSequenceItem
      then if i = 0 then Some (n, pos) else find_item cs (i - 1) (pos + gn_text_len n)
      else find_item cs i (pos + gn_text_len n))"
| "find_item (ChildToken k len # cs) i pos = find_item cs i (pos + len)"

definition value_span :: "string \<Rightarrow> resolved_value \<Rightarrow> nat \<times> nat" where
  "value_span source r =
     (case r of (kind, (start, stop), _) \<Rightarrow> (if is_block_collection kind then extend_to_line_start source start else start, stop))"

definition resolve_segment :: "green_node \<Rightarrow> query_segment \<Rightarrow> nat \<Rightarrow> string \<Rightarrow> resolved_value option" where
  "resolve_segment node seg base source =
     (case seg of
        Key k \<Rightarrow>
          (if gn_kind node \<in> {SBlockMapping, SFlowMapping}
           then Option.bind (find_entry (gn_children node) k source base None) (\<lambda>(e, pos). entry_value e pos)
           else None)
      | Index i \<Rightarrow>
          (if gn_kind node \<in> {SBlockSequence, SFlowSequence}
           then Option.bind (find_item (gn_children node) i base) (\<lambda>(item, pos). item_value item pos)
           else None)
      | _ \<Rightarrow> None)"

fun walk_path_green :: "green_node \<Rightarrow> query_segment list \<Rightarrow> nat \<Rightarrow> string \<Rightarrow> (nat \<times> nat) option" where
  "walk_path_green node [] base source = Some (base, base + gn_text_len node)"
| "walk_path_green node (seg # tail) base source =
     (case resolve_segment node seg base source of
        None \<Rightarrow> None
      | Some r \<Rightarrow>
          if tail = [] then Some (value_span source r)
          else (case snd (snd r) of None \<Rightarrow> None | Some (n, pos) \<Rightarrow> walk_path_green n tail pos source))"

fun first_collection_child :: "green_child list \<Rightarrow> nat \<Rightarrow> (green_node \<times> nat) option" where
  "first_collection_child [] pos = None"
| "first_collection_child (ChildNode n # cs) pos =
     (if gn_kind n \<in> {SBlockMapping, SBlockSequence, SFlowMapping, SFlowSequence} then Some (n, pos)
      else first_collection_child cs (pos + gn_text_len n))"
| "first_collection_child (ChildToken k len # cs) pos = first_collection_child cs (pos + len)"

definition resolve_path_in_green :: "green_node \<Rightarrow> query_segment list \<Rightarrow> string \<Rightarrow> (nat \<times> nat) option" where
  "resolve_path_in_green root segments source =
     Option.bind (first_collection_child (gn_children root) 0) (\<lambda>(collection, base). walk_path_green collection segments base source)"

section \<open>Spans stay inside the tree\<close>

text \<open>A node that lies between two positions, and a value whose span and node do.\<close>

definition placed :: "nat \<Rightarrow> nat \<Rightarrow> green_node \<times> nat \<Rightarrow> bool" where
  "placed a b place \<longleftrightarrow> wf_node (fst place) \<and> a \<le> snd place \<and> snd place + gn_text_len (fst place) \<le> b"

definition value_placed :: "nat \<Rightarrow> nat \<Rightarrow> resolved_value \<Rightarrow> bool" where
  "value_placed a b r \<longleftrightarrow>
     (case r of (kind, (start, stop), node) \<Rightarrow> a \<le> start \<and> start \<le> stop \<and> stop \<le> b \<and> (\<forall>p. node = Some p \<longrightarrow> placed a b p))"

lemma placed_mono: "placed a b p \<Longrightarrow> a' \<le> a \<Longrightarrow> b \<le> b' \<Longrightarrow> placed a' b' p"
  by (auto simp: placed_def)

lemma value_placed_mono: "value_placed a b r \<Longrightarrow> a' \<le> a \<Longrightarrow> b \<le> b' \<Longrightarrow> value_placed a' b' r"
  by (auto simp: value_placed_def placed_mono split: prod.splits)

lemma entry_value_from_placed:
  "entry_value_from cs pos after_colon prefix = Some r \<Longrightarrow> list_all wf_child cs \<Longrightarrow> a \<le> or_start prefix pos \<Longrightarrow> or_start prefix pos \<le> pos \<Longrightarrow>
   a \<le> pos \<Longrightarrow> value_placed a (pos + sum_list (map child_text_len cs)) r"
proof (induction cs pos after_colon prefix rule: entry_value_from.induct)
  case (1 pos after_colon prefix)
  then show ?case by (auto simp: value_placed_def or_start_def)
next
  case (2 kind len cs pos after_colon prefix)
  then show ?case
    by (auto simp: or_start_def value_placed_def add.assoc split: if_splits option.splits)
next
  case (3 n cs pos after_colon prefix)
  then show ?case
    by (auto simp: or_start_def value_placed_def placed_def add.assoc split: if_splits option.splits)
qed

lemma item_value_from_placed:
  "item_value_from cs pos after_dash prefix = Some r \<Longrightarrow> list_all wf_child cs \<Longrightarrow> a \<le> or_start prefix pos \<Longrightarrow> or_start prefix pos \<le> pos \<Longrightarrow>
   a \<le> pos \<Longrightarrow> value_placed a (pos + sum_list (map child_text_len cs)) r"
proof (induction cs pos after_dash prefix rule: item_value_from.induct)
  case (1 pos after_dash prefix)
  then show ?case by (auto simp: value_placed_def or_start_def)
next
  case (2 kind len cs pos after_dash prefix)
  then show ?case
    by (auto simp: or_start_def value_placed_def add.assoc split: if_splits option.splits)
next
  case (3 n cs pos after_dash prefix)
  then show ?case
    by (auto simp: or_start_def value_placed_def placed_def add.assoc split: if_splits option.splits)
qed

lemma wf_node_parts: "wf_node n \<Longrightarrow> list_all wf_child (gn_children n) \<and> gn_text_len n = sum_list (map child_text_len (gn_children n))"
  by (cases n) auto

lemma values_placed:
  assumes "placed a b (n, pos)"
  shows "entry_value n pos = Some r \<Longrightarrow> value_placed a b r" "item_value n pos = Some r \<Longrightarrow> value_placed a b r"
  using entry_value_from_placed[of "gn_children n" pos False None r pos]
    item_value_from_placed[of "gn_children n" pos False None r pos] wf_node_parts[of n] assms
  by (auto simp: entry_value_def item_value_def placed_def or_start_def intro: value_placed_mono)

lemma find_entry_placed:
  "find_entry cs key source pos found = Some p \<Longrightarrow> list_all wf_child cs \<Longrightarrow> a \<le> pos \<Longrightarrow>
   (\<forall>q. found = Some q \<longrightarrow> placed a b q) \<Longrightarrow> pos + sum_list (map child_text_len cs) \<le> b \<Longrightarrow> placed a b p"
proof (induction cs key source pos found rule: find_entry.induct)
  case (2 n cs key source pos found)
  show ?case
  proof (cases "gn_kind n = SMappingEntry")
    case True
    then obtain k where k: "entry_key_text (gn_children n) source pos = Some k"
      and go: "find_entry cs key source (pos + gn_text_len n) (if k = key then Some (n, pos) else found) = Some p"
      using "2.prems"(1) by (auto split: option.splits)
    show ?thesis
      using "2.IH"(1)[OF True k go] "2.prems" by (auto simp: placed_def)
  next
    case False
    then show ?thesis using "2.IH"(2) "2.prems" by simp
  qed
qed simp_all

lemma find_item_placed:
  "find_item cs i pos = Some p \<Longrightarrow> list_all wf_child cs \<Longrightarrow> a \<le> pos \<Longrightarrow> pos + sum_list (map child_text_len cs) \<le> b \<Longrightarrow> placed a b p"
  by (induction cs i pos rule: find_item.induct) (auto simp: placed_def split: if_splits)

lemma first_collection_placed:
  "first_collection_child cs pos = Some p \<Longrightarrow> list_all wf_child cs \<Longrightarrow> a \<le> pos \<Longrightarrow> pos + sum_list (map child_text_len cs) \<le> b \<Longrightarrow> placed a b p"
  by (induction cs pos rule: first_collection_child.induct) (auto simp: placed_def split: if_splits)

lemma resolve_segment_placed:
  assumes "resolve_segment node seg base source = Some r" and "placed a b (node, base)"
  shows "value_placed a b r"
proof -
  have parts: "list_all wf_child (gn_children node)" "a \<le> base" "base + sum_list (map child_text_len (gn_children node)) \<le> b"
    using assms(2) wf_node_parts[of node] by (auto simp: placed_def)
  show ?thesis
  proof (cases seg)
    case (Key k)
    then obtain p where "find_entry (gn_children node) k source base None = Some p" "entry_value (fst p) (snd p) = Some r"
      using assms(1) by (auto simp: resolve_segment_def Option.bind_eq_Some_conv split: if_splits)
    then show ?thesis
      using find_entry_placed[OF _ parts(1,2) _ parts(3)] values_placed(1)[of a b "fst p" "snd p" r] by simp
  next
    case (Index i)
    then obtain p where "find_item (gn_children node) i base = Some p" "item_value (fst p) (snd p) = Some r"
      using assms(1) by (auto simp: resolve_segment_def Option.bind_eq_Some_conv split: if_splits)
    then show ?thesis
      using find_item_placed[OF _ parts] values_placed(2)[of a b "fst p" "snd p" r] by simp
  qed (use assms(1) in \<open>simp_all add: resolve_segment_def\<close>)
qed

lemma extend_to_line_start_le: "extend_to_line_start source start \<le> start"
  by (simp add: extend_to_line_start_def Let_def)

lemma walk_path_green_bounds:
  "walk_path_green node segments base source = Some (s, e) \<Longrightarrow> placed a b (node, base) \<Longrightarrow> s \<le> e \<and> e \<le> b"
proof (induction node segments base source rule: walk_path_green.induct)
  case (1 node base source)
  then show ?case by (auto simp: placed_def)
next
  case (2 node seg tail base source)
  then obtain r where r: "resolve_segment node seg base source = Some r" by (auto split: option.splits)
  have placed: "value_placed a b r" by (rule resolve_segment_placed[OF r "2.prems"(2)])
  show ?case
  proof (cases "tail = []")
    case True
    then have span: "value_span source r = (s, e)" using "2.prems"(1) r by simp
    obtain kind start stop nd where p: "r = (kind, (start, stop), nd)" by (metis prod.exhaust)
    have "s \<le> start" using span p extend_to_line_start_le[of source start] by (auto simp: value_span_def split: if_splits)
    then show ?thesis using span placed p by (auto simp: value_span_def value_placed_def)
  next
    case False
    then obtain n pos where n: "snd (snd r) = Some (n, pos)" "walk_path_green n tail pos source = Some (s, e)"
      using "2.prems"(1) r by (auto split: option.splits)
    moreover have "placed a b (n, pos)" using placed n(1) by (auto simp: value_placed_def split: prod.splits)
    ultimately show ?thesis using "2.IH"[OF r False n(1) refl] by simp
  qed
qed

text \<open>
  C40. A span a path resolves to in the syntax tree of a text lies in the text.
\<close>

theorem green_span_in_source:
  assumes "build_green_tree node_text source levels = Inr g"
    and "resolve_path_in_green g segments source = Some (s, e)"
  shows "s \<le> e \<and> e \<le> length source"
proof -
  obtain w: "wf_node g" and len: "gn_text_len g = length source"
    using build_green_tree_ok[OF assms(1)] by metis
  obtain c base where c: "first_collection_child (gn_children g) 0 = Some (c, base)" "walk_path_green c segments base source = Some (s, e)"
    using assms(2) by (auto simp: resolve_path_in_green_def Option.bind_eq_Some_conv)
  have "placed 0 (length source) (c, base)"
    using first_collection_placed[OF c(1), of 0 "length source"] wf_node_parts[OF w] len by simp
  then show ?thesis by (rule walk_path_green_bounds[OF c(2)])
qed

lemma sample_resolves: "resolve_path_in_green sample_tree [Key ''a''] sample_source = Some (3, 4)"
  by code_simp

lemma green_span_in_source_witness: "(3::nat) \<le> 4 \<and> 4 \<le> length sample_source"
  using green_span_in_source[OF sample_builds sample_resolves] by simp

end
