(* ===== verification/Cst_Document.thy ===== *)
theory Cst_Document
  imports Green_Splice Green_Path Scan_Stream "HOL-Library.Multiset"
begin

text \<open>
  Editable documents (\<open>cst/document.rs\<close> with \<open>validation.rs\<close>, \<open>edit.rs\<close> and \<open>transaction.rs\<close>): a document
  holds its source, the lossless tree, the loaded value with its spans and the configuration.  A mutator
  returns its result with the document it leaves.  A slice of the text at two positions is bytes \<open>take\<close>n
  and \<open>drop\<close>ped; the positions are ends of leaves of the tree or were checked to be character boundaries.
\<close>

section \<open>Documents\<close>

datatype repair_scope = RepairScalar | RepairEntry | RepairCollection | RepairDocument

record document =
  doc_source :: string
  doc_green :: green_node
  doc_cache :: "(value \<times> span_tree) option"
  doc_scope :: "repair_scope option"
  doc_config :: parse_config

definition parse_exactly_one ::
  "(f64 \<Rightarrow> string) \<Rightarrow> (token_kind \<Rightarrow> string) \<Rightarrow> string \<Rightarrow> parse_config \<Rightarrow> (value \<times> span_tree) result" where
  "parse_exactly_one fmt node_text input config =
     load_exactly_one fmt config node_text input (parser_with_max_events (max_events config) input)"

definition check_document_length :: "string \<Rightarrow> parse_config \<Rightarrow> unit result" where
  "check_document_length input config =
     (if length input > max_document_length config
      then Inl (Parse (''document exceeds maximum length of '' @ show_nat (max_document_length config) @ '' bytes''))
      else Inr ())"

text \<open>The value and its spans with the tree: a parsed document.\<close>

definition parse_full ::
  "(f64 \<Rightarrow> string) \<Rightarrow> (token_kind \<Rightarrow> string) \<Rightarrow> string \<Rightarrow> parse_config \<Rightarrow> (green_node \<times> value \<times> span_tree) result" where
  "parse_full fmt node_text input config =
     and_then (check_document_length input config) (\<lambda>_.
     and_then (parse_exactly_one fmt node_text input config) (\<lambda>parsed.
     and_then (check_document (policies config) (fst parsed)) (\<lambda>_.
     and_then (build_green_tree node_text input (max_depth config)) (\<lambda>green. Inr (green, parsed)))))"

definition parse_document_inner ::
  "(f64 \<Rightarrow> string) \<Rightarrow> (token_kind \<Rightarrow> string) \<Rightarrow> string \<Rightarrow> parse_config \<Rightarrow> document result" where
  "parse_document_inner fmt node_text input config =
     and_then (parse_full fmt node_text input config) (\<lambda>(green, parsed).
       Inr \<lparr>doc_source = input, doc_green = green, doc_cache = Some parsed, doc_scope = None, doc_config = config\<rparr>)"

section \<open>The typed view\<close>

text \<open>\<open>ensure_cache\<close> panics, \<open>None\<close>, when the source no longer parses.\<close>

definition ensure_cache :: "(f64 \<Rightarrow> string) \<Rightarrow> (token_kind \<Rightarrow> string) \<Rightarrow> document \<Rightarrow> document option" where
  "ensure_cache fmt node_text doc =
     (case doc_cache doc of
        Some _ \<Rightarrow> Some doc
      | None \<Rightarrow>
          (case parse_exactly_one fmt node_text (doc_source doc) (doc_config doc) of
             Inl e \<Rightarrow> None
           | Inr parsed \<Rightarrow> Some (doc\<lparr>doc_cache := Some parsed\<rparr>)))"

definition as_value :: "(f64 \<Rightarrow> string) \<Rightarrow> (token_kind \<Rightarrow> string) \<Rightarrow> document \<Rightarrow> (value \<times> document) option" where
  "as_value fmt node_text doc =
     Option.bind (ensure_cache fmt node_text doc) (\<lambda>doc.
       map_option (\<lambda>parsed. (fst parsed, doc)) (doc_cache doc))"

definition validate :: "(f64 \<Rightarrow> string) \<Rightarrow> (token_kind \<Rightarrow> string) \<Rightarrow> document \<Rightarrow> unit result \<times> document" where
  "validate fmt node_text doc =
     (if doc_cache doc \<noteq> None then (Inr (), doc)
      else (case and_then (parse_exactly_one fmt node_text (doc_source doc) (doc_config doc)) (\<lambda>parsed.
                  and_then (check_document (policies (doc_config doc)) (fst parsed)) (\<lambda>_. Inr parsed)) of
              Inl e \<Rightarrow> (Inl e, doc)
            | Inr parsed \<Rightarrow> (Inr (), doc\<lparr>doc_cache := Some parsed\<rparr>)))"

definition commit_source ::
  "(f64 \<Rightarrow> string) \<Rightarrow> (token_kind \<Rightarrow> string) \<Rightarrow> string \<Rightarrow> repair_scope \<Rightarrow> document \<Rightarrow> unit result \<times> document" where
  "commit_source fmt node_text candidate scope doc =
     (case parse_full fmt node_text candidate (doc_config doc) of
        Inl e \<Rightarrow> (Inl e, doc)
      | Inr (green, parsed) \<Rightarrow>
          (Inr (), doc\<lparr>doc_source := candidate, doc_green := green, doc_cache := Some parsed, doc_scope := Some scope\<rparr>))"

section \<open>Local repair\<close>

text \<open>The leaves of a tree with the bytes they cover.\<close>

fun walk_tokens :: "green_child list \<Rightarrow> nat \<Rightarrow> (syntax_kind \<times> nat \<times> nat) list"
  and walk_token :: "green_child \<Rightarrow> nat \<Rightarrow> (syntax_kind \<times> nat \<times> nat) list"
  and walk_node :: "green_node \<Rightarrow> nat \<Rightarrow> (syntax_kind \<times> nat \<times> nat) list" where
  "walk_tokens [] pos = []"
| "walk_tokens (c # cs) pos = walk_token c pos @ walk_tokens cs (pos + child_text_len c)"
| "walk_token (ChildToken kind len) pos = [(kind, pos, pos + len)]"
| "walk_token (ChildNode n) pos = walk_node n pos"
| "walk_node (GreenNode kind len cs) pos = walk_tokens cs pos"

definition region_has_anchor_alias_or_tag :: "green_node \<Rightarrow> nat \<Rightarrow> nat \<Rightarrow> bool" where
  "region_has_anchor_alias_or_tag root start stop \<longleftrightarrow>
     list_ex (\<lambda>(kind, s, e). \<not> (s \<ge> stop \<or> e \<le> start) \<and> kind \<in> {SAnchorMark, SAliasMark, STagMark}) (walk_node root 0)"

definition replacement_introduces_anchor_alias_or_tag :: "string \<Rightarrow> bool" where
  "replacement_introduces_anchor_alias_or_tag replacement \<longleftrightarrow>
     list_ex (\<lambda>b. b \<in> {CHR ''&'', CHR ''*'', CHR ''!''}) replacement"

definition line_start :: "string \<Rightarrow> nat \<Rightarrow> nat" where
  "line_start source pos =
     (let pos = min pos (length source) in pos - length (takeWhile (\<lambda>c. c \<noteq> CHR 0x0A) (rev (take pos source))))"

definition entry_indent_column :: "string \<Rightarrow> nat \<Rightarrow> nat" where
  "entry_indent_column source pos =
     length (takeWhile (\<lambda>c. c = CHR '' '' \<or> c = CHR 0x09) (drop (line_start source pos) source))"

fun scope_for_kind :: "syntax_kind \<Rightarrow> repair_scope" where
  "scope_for_kind SMappingEntry = RepairEntry"
| "scope_for_kind SSequenceItem = RepairEntry"
| "scope_for_kind SBlockMapping = RepairCollection"
| "scope_for_kind SBlockSequence = RepairCollection"
| "scope_for_kind SFlowMapping = RepairCollection"
| "scope_for_kind SFlowSequence = RepairCollection"
| "scope_for_kind _ = RepairDocument"

definition is_phase_a_repairable :: "syntax_kind \<Rightarrow> bool" where
  "is_phase_a_repairable kind \<longleftrightarrow> kind \<in> {SBlockMapping, SBlockSequence, SMappingEntry, SSequenceItem}"

text \<open>
  One candidate: the fragment it covers after the edit, re-parsed in its place.  \<open>None\<close> is the next candidate.
\<close>

definition repair_fragment ::
  "(token_kind \<Rightarrow> string) \<Rightarrow> document \<Rightarrow> int \<Rightarrow> string \<Rightarrow> candidate \<Rightarrow> green_node option" where
  "repair_fragment node_text doc delta new_source cand =
     (let new_end = int (cd_end cand) + delta
      in if \<not> is_phase_a_repairable (cd_kind cand) \<or> new_end < int (cd_start cand) \<or> nat new_end > length new_source
         then None
         else let fragment = drop (cd_start cand) (take (nat new_end) new_source);
                  indent = entry_indent_column (doc_source doc) (cd_start cand)
              in case parse_subtree node_text fragment indent (cd_kind cand) (max_depth (doc_config doc)) of
                   Inl e \<Rightarrow> None
                 | Inr sub \<Rightarrow> if gn_kind sub = cd_kind cand \<and> gn_text_len sub = length fragment then Some sub else None)"

fun repair_loop ::
  "(token_kind \<Rightarrow> string) \<Rightarrow> document \<Rightarrow> int \<Rightarrow> string \<Rightarrow> candidate list \<Rightarrow> (green_node \<times> repair_scope) option" where
  "repair_loop node_text doc delta new_source [] = None"
| "repair_loop node_text doc delta new_source (cand # cands) =
     (case repair_fragment node_text doc delta new_source cand of
        None \<Rightarrow> repair_loop node_text doc delta new_source cands
      | Some sub \<Rightarrow>
          map_option (\<lambda>root. (root, scope_for_kind (cd_kind cand)))
            (rebuild_with_splice (doc_green doc) (cd_start cand) (cd_end cand) sub))"

definition try_local_repair_green ::
  "(token_kind \<Rightarrow> string) \<Rightarrow> document \<Rightarrow> nat \<Rightarrow> nat \<Rightarrow> string \<Rightarrow> string \<Rightarrow> (green_node \<times> repair_scope) option" where
  "try_local_repair_green node_text doc start stop replacement new_source =
     (if region_has_anchor_alias_or_tag (doc_green doc) start stop
         \<or> replacement_introduces_anchor_alias_or_tag replacement then None
      else
        let delta = int (length replacement) - (int stop - int start);
            candidates = ancestor_candidates (doc_green doc) start stop
        in if list_ex (\<lambda>c. cd_kind c \<in> {SFlowMapping, SFlowSequence}) candidates then None
           else repair_loop node_text doc delta new_source candidates)"

section \<open>Replacing a span\<close>

definition splice_text :: "string \<Rightarrow> nat \<Rightarrow> nat \<Rightarrow> string \<Rightarrow> string" where
  "splice_text source start stop replacement = take start source @ replacement @ drop stop source"

definition span_error :: "string \<Rightarrow> nat \<Rightarrow> nat \<Rightarrow> string \<Rightarrow> error" where
  "span_error what start stop why = Parse (what @ '' range '' @ show_nat start @ ''..'' @ show_nat stop @ why)"

definition check_span :: "string \<Rightarrow> string \<Rightarrow> nat \<Rightarrow> nat \<Rightarrow> unit result" where
  "check_span what source start stop =
     (if start > stop \<or> stop > length source
      then Inl (span_error what start stop ('' out of bounds (source length '' @ show_nat (length source) @ '')''))
      else if \<not> char_boundary source start \<or> \<not> char_boundary source stop
      then Inl (span_error what start stop '' is not a character boundary'')
      else Inr ())"

definition replace_span ::
  "(f64 \<Rightarrow> string) \<Rightarrow> (token_kind \<Rightarrow> string) \<Rightarrow> nat \<Rightarrow> nat \<Rightarrow> string \<Rightarrow> document \<Rightarrow> unit result \<times> document" where
  "replace_span fmt node_text start stop replacement doc =
     (case check_span ''replace_span'' (doc_source doc) start stop of
        Inl e \<Rightarrow> (Inl e, doc)
      | Inr _ \<Rightarrow>
          let new_source = splice_text (doc_source doc) start stop replacement
          in case check_document_length new_source (doc_config doc) of
               Inl e \<Rightarrow> (Inl e, doc)
             | Inr _ \<Rightarrow>
                 (case try_local_repair_green node_text doc start stop replacement new_source of
                    None \<Rightarrow> commit_source fmt node_text new_source RepairDocument doc
                  | Some (new_green, scope) \<Rightarrow>
                      (case and_then (parse_exactly_one fmt node_text new_source (doc_config doc)) (\<lambda>parsed.
                              and_then (check_document (policies (doc_config doc)) (fst parsed)) (\<lambda>_. Inr parsed)) of
                         Inl e \<Rightarrow> (Inl e, doc)
                       | Inr parsed \<Rightarrow>
                           (Inr (), doc\<lparr>doc_source := new_source, doc_green := new_green, doc_cache := Some parsed,
                                      doc_scope := Some scope\<rparr>))))"

section \<open>Edit sessions\<close>

record planned_edit =
  pd_start :: nat
  pd_end :: nat
  pd_text :: string

record edit_session =
  es_document :: document
  es_edits :: "planned_edit list"

definition edit :: "document \<Rightarrow> edit_session" where
  "edit doc = \<lparr>es_document = doc, es_edits = []\<rparr>"

definition conflicts :: "planned_edit \<Rightarrow> nat \<Rightarrow> nat \<Rightarrow> bool" where
  "conflicts queued start stop \<longleftrightarrow> pd_start queued = start \<or> (start < pd_end queued \<and> pd_start queued < stop)"

definition session_replace_span :: "nat \<Rightarrow> nat \<Rightarrow> string \<Rightarrow> edit_session \<Rightarrow> unit result \<times> edit_session" where
  "session_replace_span start stop replacement s =
     (case check_span ''edit-session'' (doc_source (es_document s)) start stop of
        Inl e \<Rightarrow> (Inl e, s)
      | Inr _ \<Rightarrow>
          (if list_ex (\<lambda>q. conflicts q start stop) (es_edits s)
           then (Inl (span_error ''edit-session'' start stop '' conflicts with a queued edit''), s)
           else (Inr (), s\<lparr>es_edits := es_edits s @ [\<lparr>pd_start = start, pd_end = stop, pd_text = replacement\<rparr>]\<rparr>)))"

text \<open>The length of the candidate, \<open>None\<close> past the width of \<open>usize\<close>.\<close>

fun final_len :: "planned_edit list \<Rightarrow> nat \<Rightarrow> nat option" where
  "final_len [] len = Some len"
| "final_len (e # es) len =
     (if pd_end e - pd_start e > len \<or> len - (pd_end e - pd_start e) + length (pd_text e) > usize_max then None
      else final_len es (len - (pd_end e - pd_start e) + length (pd_text e)))"

fun candidate_text :: "planned_edit list \<Rightarrow> string \<Rightarrow> nat \<Rightarrow> string" where
  "candidate_text [] source pos = drop pos source"
| "candidate_text (e # es) source pos = drop pos (take (pd_start e) source) @ pd_text e @ candidate_text es source (pd_end e)"

definition candidate_too_long :: error where
  "candidate_too_long = Parse ''edit-session candidate length exceeds addressable memory''"

text \<open>No two queued edits start at one place, so the unstable sort of the code has one outcome.\<close>

definition session_commit :: "(f64 \<Rightarrow> string) \<Rightarrow> (token_kind \<Rightarrow> string) \<Rightarrow> edit_session \<Rightarrow> unit result \<times> document" where
  "session_commit fmt node_text s =
     (if es_edits s = [] then (Inr (), es_document s)
      else let edits = sort_key pd_start (es_edits s); source = doc_source (es_document s)
           in case final_len edits (length source) of
                None \<Rightarrow> (Inl candidate_too_long, es_document s)
              | Some _ \<Rightarrow> commit_source fmt node_text (candidate_text edits source 0) RepairDocument (es_document s))"

section \<open>What a repair keeps\<close>

lemma first_node_of_kind_wf:
  "first_node_of_kind cs kind = Some n \<Longrightarrow> list_all wf_child cs \<Longrightarrow> wf_node n \<and> gn_kind n = kind"
  by (induction cs kind rule: first_node_of_kind.induct) (auto split: if_splits)

lemma found_or_Inr [res_simps]: "found_or e r = Inr x \<longleftrightarrow> r = Some x"
  by (simp add: found_or_def split: option.splits)

lemma built_children_wf:
  assumes "build_green_tree node_text source levels = Inr g"
  shows "list_all wf_child (gn_children g)"
  using build_green_tree_ok[OF assms] wf_node_parts by metis

lemma parse_subtree_wf:
  assumes "parse_subtree node_text fragment indent kind levels = Inr n"
  shows "wf_node n"
proof -
  consider (collection) "parse_block_collection node_text fragment indent kind levels = Inr n"
    | (item) "parse_block_entry node_text fragment indent kind levels = Inr n"
    | (tree) "build_green_tree node_text fragment levels = Inr n"
    using assms by (auto simp: parse_subtree_def split: if_splits)
  then show ?thesis
  proof cases
    case collection
    then show ?thesis
      by (auto simp: parse_block_collection_def res_simps dest!: built_children_wf first_node_of_kind_wf)
  next
    case item
    then obtain g parent where g: "list_all wf_child (gn_children g)"
      "first_node_of_kind (gn_children g) (entry_parent kind) = Some parent" "first_node_of_kind (gn_children parent) kind = Some n"
      by (auto simp: parse_block_entry_def res_simps Let_def dest!: built_children_wf split: if_splits)
    then have "list_all wf_child (gn_children parent)" using first_node_of_kind_wf wf_node_parts by blast
    then show ?thesis using first_node_of_kind_wf[OF g(3)] by simp
  next
    case tree
    then show ?thesis by (rule build_green_tree_ok)
  qed
qed

lemma built_kind: "build_green_tree node_text source levels = Inr g \<Longrightarrow> gn_kind g = SDocument"
  by (auto simp: build_green_tree_def assemble_def builder_finish_def res_simps green_try_new_def Let_def
      split: option.splits if_splits)

lemma splice_root_kind: "rebuild_with_splice root s e sub = Some root' \<Longrightarrow> gn_kind root' = gn_kind root"
  by (cases root) (auto simp: rebuild_with_splice_def green_try_new_def Let_def split: option.splits if_splits)

text \<open>A tree that spells a text of its length.\<close>

definition spells :: "green_node \<Rightarrow> string \<Rightarrow> bool" where
  "spells g source \<longleftrightarrow> wf_node g \<and> gn_kind g = SDocument \<and> gn_text_len g = length source"

lemma spells_text: "spells g source \<Longrightarrow> green_text g source = source"
  by (simp add: spells_def green_text_takes)

lemma built_spells: "build_green_tree node_text source levels = Inr g \<Longrightarrow> spells g source"
  unfolding spells_def using build_green_tree_ok built_kind by metis

lemma repair_loop_finds:
  "repair_loop node_text doc delta new_source cands = Some (root, scope) \<Longrightarrow>
   \<exists>earlier cand later sub. cands = earlier @ cand # later
     \<and> list_all (\<lambda>c. repair_fragment node_text doc delta new_source c = None) earlier
     \<and> repair_fragment node_text doc delta new_source cand = Some sub \<and> scope = scope_for_kind (cd_kind cand)
     \<and> rebuild_with_splice (doc_green doc) (cd_start cand) (cd_end cand) sub = Some root"
proof (induction cands)
  case (Cons c cands)
  show ?case
  proof (cases "repair_fragment node_text doc delta new_source c")
    case None
    then obtain earlier cand later sub where "cands = earlier @ cand # later"
        "list_all (\<lambda>c. repair_fragment node_text doc delta new_source c = None) earlier"
        "repair_fragment node_text doc delta new_source cand = Some sub" "scope = scope_for_kind (cd_kind cand)"
        "rebuild_with_splice (doc_green doc) (cd_start cand) (cd_end cand) sub = Some root"
      using Cons by auto
    then show ?thesis using None by (intro exI[of _ "c # earlier"]) auto
  next
    case (Some sub)
    then show ?thesis using Cons.prems by (intro exI[of _ "[]"]) auto
  qed
qed simp

text \<open>What is spliced at a candidate: as long as the candidate after the edit.\<close>

lemma repair_fragmentD:
  assumes "repair_fragment node_text doc delta new_source cand = Some sub"
  shows "wf_node sub" and "gn_kind sub = cd_kind cand" and "is_phase_a_repairable (cd_kind cand)"
    and "int (cd_start cand) + int (gn_text_len sub) = int (cd_end cand) + delta"
  using assms
  by (auto simp: repair_fragment_def Let_def dest: parse_subtree_wf split: if_splits sum.splits)

lemma repair_splices:
  assumes "spells (doc_green doc) (doc_source doc)" and "start \<le> stop" and "stop \<le> length (doc_source doc)"
    and "try_local_repair_green node_text doc start stop replacement (splice_text (doc_source doc) start stop replacement)
      = Some (root, scope)"
  obtains earlier cand later sub old where "ancestor_candidates (doc_green doc) start stop = earlier @ cand # later"
    and "list_all (\<lambda>c. repair_fragment node_text doc (int (length replacement) - (int stop - int start))
          (splice_text (doc_source doc) start stop replacement) c = None) earlier"
    and "repair_fragment node_text doc (int (length replacement) - (int stop - int start))
          (splice_text (doc_source doc) start stop replacement) cand = Some sub"
    and "scope = scope_for_kind (cd_kind cand)"
    and "swaps_candidate cand old (doc_green doc) 0 sub root"
    and "spells root (splice_text (doc_source doc) start stop replacement)"
proof -
  let ?new = "splice_text (doc_source doc) start stop replacement"
  let ?delta = "int (length replacement) - (int stop - int start)"
  obtain earlier cand later sub where first_one: "ancestor_candidates (doc_green doc) start stop = earlier @ cand # later"
      "list_all (\<lambda>c. repair_fragment node_text doc ?delta ?new c = None) earlier"
    and sub: "repair_fragment node_text doc ?delta ?new cand = Some sub"
    and scope: "scope = scope_for_kind (cd_kind cand)"
    and root: "rebuild_with_splice (doc_green doc) (cd_start cand) (cd_end cand) sub = Some root"
    using assms(4) by (auto simp: try_local_repair_green_def Let_def dest!: repair_loop_finds split: if_splits)
  have cand: "cand \<in> set (ancestor_candidates (doc_green doc) start stop)" using first_one(1) by simp
  note s = repair_fragmentD[OF sub]
  have old: "wf_node (doc_green doc)" "gn_kind (doc_green doc) = SDocument" "gn_text_len (doc_green doc) = length (doc_source doc)"
    using assms(1) by (simp_all add: spells_def)
  have "cd_kind cand \<noteq> SDocument" using s(3) by (auto simp: is_phase_a_repairable_def)
  then have inner: "cand \<noteq> \<lparr>cd_kind = gn_kind (doc_green doc), cd_start = 0, cd_end = 0 + gn_text_len (doc_green doc)\<rparr>"
    using old(2) by auto
  have mem: "cand \<in> set (collect_ancestors (doc_green doc) start stop 0)" using cand by (simp add: ancestor_candidates_def)
  have splice: "wf_node root \<and> leaves_replaced (node_leaves (doc_green doc)) (cd_start cand - 0) (cd_end cand - 0) (node_leaves sub) (node_leaves root)"
    using splice_at_candidate(1)[OF s(2,1) mem inner old(1)] root by (simp add: rebuild_with_splice_def)
  have "cd_end cand \<le> length (doc_source doc)" using collected_within(1)[OF mem old(1)] old(3) by simp
  moreover have "leaves_len (node_leaves root) + cd_end cand = length (doc_source doc) + gn_text_len sub + cd_start cand"
    using replaced_len[OF conjunct2[OF splice]] text_len_leaves(1)[OF old(1)] text_len_leaves(1)[OF s(1)] old(3) by simp
  ultimately have "gn_text_len root = length ?new"
    using s(4) text_len_leaves(1)[OF conjunct1[OF splice]] assms(2,3) by (simp add: splice_text_def)
  then have "spells root ?new" using splice splice_root_kind[OF root] old(2) by (simp add: spells_def)
  moreover obtain prev where "swaps_candidate cand prev (doc_green doc) 0 sub root"
    using splice_swaps_candidate(1)[OF s(2) mem inner old(1)] root by (auto simp: rebuild_with_splice_def)
  ultimately show thesis using that first_one sub scope by blast
qed

section \<open>Documents stay valid\<close>

text \<open>
  A document whose source is within the length limit, loads to what the cache holds, passes the
  policies and is spelt by the tree.
\<close>

definition admitted :: "(f64 \<Rightarrow> string) \<Rightarrow> (token_kind \<Rightarrow> string) \<Rightarrow> parse_config \<Rightarrow> string \<Rightarrow> value \<times> span_tree \<Rightarrow> bool" where
  "admitted fmt node_text config source parsed \<longleftrightarrow>
     length source \<le> max_document_length config \<and> parse_exactly_one fmt node_text source config = Inr parsed
     \<and> check_document (policies config) (fst parsed) = Inr ()"

definition document_ok :: "(f64 \<Rightarrow> string) \<Rightarrow> (token_kind \<Rightarrow> string) \<Rightarrow> document \<Rightarrow> bool" where
  "document_ok fmt node_text doc \<longleftrightarrow>
     (\<exists>parsed. doc_cache doc = Some parsed \<and> admitted fmt node_text (doc_config doc) (doc_source doc) parsed)
     \<and> spells (doc_green doc) (doc_source doc)"

lemma parse_full_Inr:
  "parse_full fmt node_text input config = Inr (green, parsed) \<longleftrightarrow>
     admitted fmt node_text config input parsed \<and> build_green_tree node_text input (max_depth config) = Inr green"
  by (cases parsed) (auto simp: parse_full_def admitted_def check_document_length_def res_simps not_less)

lemma commit_source_cases:
  obtains e where "commit_source fmt node_text candidate scope doc = (Inl e, doc)" "parse_full fmt node_text candidate (doc_config doc) = Inl e"
  | green parsed where "admitted fmt node_text (doc_config doc) candidate parsed"
      and "build_green_tree node_text candidate (max_depth (doc_config doc)) = Inr green"
      and "commit_source fmt node_text candidate scope doc
        = (Inr (), doc\<lparr>doc_source := candidate, doc_green := green, doc_cache := Some parsed, doc_scope := Some scope\<rparr>)"
proof (cases "parse_full fmt node_text candidate (doc_config doc)")
  case (Inl e)
  then show ?thesis using that(1) by (simp add: commit_source_def)
next
  case (Inr r)
  then obtain green parsed where "parse_full fmt node_text candidate (doc_config doc) = Inr (green, parsed)" by (cases r) simp
  then show ?thesis using that(2)[of parsed green] parse_full_Inr[of fmt node_text candidate "doc_config doc" green parsed] by (simp add: commit_source_def)
qed

text \<open>What a replaced span leaves: an error and the same document, or the spliced source with its load and a tree that spells it.\<close>

lemma replace_span_cases:
  assumes "spells (doc_green doc) (doc_source doc)"
  obtains e where "replace_span fmt node_text start stop replacement doc = (Inl e, doc)"
  | green parsed scope where "check_span ''replace_span'' (doc_source doc) start stop = Inr ()"
      and "admitted fmt node_text (doc_config doc) (splice_text (doc_source doc) start stop replacement) parsed"
      and "spells green (splice_text (doc_source doc) start stop replacement)"
      and "replace_span fmt node_text start stop replacement doc
        = (Inr (), doc\<lparr>doc_source := splice_text (doc_source doc) start stop replacement, doc_green := green,
             doc_cache := Some parsed, doc_scope := Some scope\<rparr>)"
proof -
  let ?new = "splice_text (doc_source doc) start stop replacement"
  let ?r = "replace_span fmt node_text start stop replacement doc"
  show thesis
  proof (cases "check_span ''replace_span'' (doc_source doc) start stop")
    case (Inl e)
    then show thesis using that(1) by (simp add: replace_span_def)
  next
    case span: (Inr u)
    then have range: "start \<le> stop" "stop \<le> length (doc_source doc)" by (auto simp: check_span_def split: if_splits)
    show thesis
    proof (cases "check_document_length ?new (doc_config doc)")
      case (Inl e)
      then show thesis using that(1) span by (simp add: replace_span_def)
    next
      case fits: (Inr v)
      show thesis
      proof (cases "try_local_repair_green node_text doc start stop replacement ?new")
        case None
        then have "?r = commit_source fmt node_text ?new RepairDocument doc" using span fits by (simp add: replace_span_def)
        then show thesis
          using that span by (cases rule: commit_source_cases[of fmt node_text ?new RepairDocument doc]) (auto dest: built_spells)
      next
        case (Some repaired)
        then obtain root scope where rep: "try_local_repair_green node_text doc start stop replacement ?new = Some (root, scope)"
          by (cases repaired) simp
        have root: "spells root ?new" by (rule repair_splices[OF assms range rep])
        have len: "length ?new \<le> max_document_length (doc_config doc)"
          using fits by (auto simp: check_document_length_def split: if_splits)
        show thesis
        proof (cases "and_then (parse_exactly_one fmt node_text ?new (doc_config doc)) (\<lambda>parsed.
                              and_then (check_document (policies (doc_config doc)) (fst parsed)) (\<lambda>_. Inr parsed))")
          case (Inl e)
          then show thesis using that(1) span fits rep by (simp add: replace_span_def)
        next
          case (Inr parsed)
          then have "admitted fmt node_text (doc_config doc) ?new parsed" using len by (auto simp: admitted_def res_simps)
          moreover have "?r = (Inr (), doc\<lparr>doc_source := ?new, doc_green := root, doc_cache := Some parsed, doc_scope := Some scope\<rparr>)"
            using span Inr fits rep by (simp add: replace_span_def)
          ultimately show thesis using that(2) span root by simp
        qed
      qed
    qed
  qed
qed

text \<open>The requests of a session, one after the other, and the commit.\<close>

definition queue_edits :: "(nat \<times> nat \<times> string) list \<Rightarrow> document \<Rightarrow> edit_session" where
  "queue_edits requests doc = fold (\<lambda>(start, stop, text) s. snd (session_replace_span start stop text s)) requests (edit doc)"

inductive document_step :: "(f64 \<Rightarrow> string) \<Rightarrow> (token_kind \<Rightarrow> string) \<Rightarrow> document \<Rightarrow> document \<Rightarrow> bool"
  for fmt node_text where
  step_replace: "document_step fmt node_text doc (snd (replace_span fmt node_text start stop replacement doc))"
| step_session: "document_step fmt node_text doc (snd (session_commit fmt node_text (queue_edits requests doc)))"
| step_validate: "document_step fmt node_text doc (snd (validate fmt node_text doc))"
| step_read: "as_value fmt node_text doc = Some (v, doc') \<Longrightarrow> document_step fmt node_text doc doc'"

inductive document_reachable :: "(f64 \<Rightarrow> string) \<Rightarrow> (token_kind \<Rightarrow> string) \<Rightarrow> parse_config \<Rightarrow> document \<Rightarrow> bool"
  for fmt node_text config where
  opened: "parse_document_inner fmt node_text input config = Inr doc \<Longrightarrow> document_reachable fmt node_text config doc"
| stepped: "document_reachable fmt node_text config doc \<Longrightarrow> document_step fmt node_text doc doc' \<Longrightarrow>
    document_reachable fmt node_text config doc'"

lemma session_replace_span_document: "es_document (snd (session_replace_span start stop text s)) = es_document s"
  by (auto simp: session_replace_span_def split: sum.splits)

lemma queue_edits_document [simp]: "es_document (queue_edits requests doc) = doc"
proof -
  have "es_document (fold (\<lambda>(start, stop, text) s. snd (session_replace_span start stop text s)) requests s) = es_document s" for s
    by (induction requests arbitrary: s) (auto simp: session_replace_span_document)
  then show ?thesis by (simp add: queue_edits_def edit_def)
qed

lemma document_ok_cached: "document_ok fmt node_text doc \<Longrightarrow> doc_cache doc \<noteq> None"
  by (auto simp: document_ok_def)

lemma session_commit_cases:
  obtains r where "session_commit fmt node_text s = (r, es_document s)"
  | candidate where "session_commit fmt node_text s = commit_source fmt node_text candidate RepairDocument (es_document s)"
proof (cases "es_edits s = []")
  case True
  then show ?thesis using that(1) by (simp add: session_commit_def)
next
  case False
  then show ?thesis
    using that by (cases "final_len (sort_key pd_start (es_edits s)) (length (doc_source (es_document s)))")
      (auto simp: session_commit_def Let_def)
qed

lemma document_step_ok:
  assumes "document_step fmt node_text doc doc'" and "document_ok fmt node_text doc"
  shows "document_ok fmt node_text doc' \<and> doc_config doc' = doc_config doc"
  using assms
proof cases
  case (step_replace start stop replacement)
  have "spells (doc_green doc) (doc_source doc)" using assms(2) by (simp add: document_ok_def)
  then show ?thesis
    using step_replace assms(2) by (cases rule: replace_span_cases[of doc fmt node_text start stop replacement]) (auto simp: document_ok_def)
next
  case (step_session requests)
  show ?thesis
  proof (cases rule: session_commit_cases[of fmt node_text "queue_edits requests doc"])
    case (1 r)
    then show ?thesis using step_session assms(2) by simp
  next
    case (2 candidate)
    then show ?thesis
      using step_session assms(2)
      by (cases rule: commit_source_cases[of fmt node_text candidate RepairDocument doc]) (auto simp: document_ok_def dest: built_spells)
  qed
next
  case step_validate
  then show ?thesis using assms(2) document_ok_cached by (auto simp: validate_def)
next
  case (step_read v)
  then show ?thesis using assms(2) document_ok_cached[OF assms(2)]
    by (auto simp: as_value_def ensure_cache_def Option.bind_eq_Some_conv split: option.splits)
qed

lemma document_reachable_ok:
  "document_reachable fmt node_text config doc \<Longrightarrow> document_ok fmt node_text doc \<and> doc_config doc = config"
proof (induction rule: document_reachable.induct)
  case (opened input doc)
  then show ?case
    by (auto simp: parse_document_inner_def res_simps parse_full_Inr document_ok_def intro: built_spells)
next
  case (stepped doc doc')
  then show ?case using document_step_ok by metis
qed

text \<open>
  C33. Whatever edits, sessions, validations and reads a document has been through, refused ones included,
  its tree spells its source byte for byte, its source loads under its own configuration and passes the
  policies, and the typed view is that load: reading it never panics and never parses again.
\<close>

theorem reachable_documents_valid:
  assumes "document_reachable fmt node_text config doc"
  shows "green_text (doc_green doc) (doc_source doc) = doc_source doc
     \<and> (\<exists>v spans. parse_exactly_one fmt node_text (doc_source doc) config = Inr (v, spans)
          \<and> check_document (policies config) v = Inr () \<and> as_value fmt node_text doc = Some (v, doc))"
  using document_reachable_ok[OF assms]
  by (auto simp: document_ok_def admitted_def as_value_def ensure_cache_def spells_text)

text \<open>
  C34. An edit either replaces the span and nothing else, or reports an error and leaves the document as it was.
\<close>

theorem replace_span_atomic:
  assumes "document_reachable fmt node_text config doc"
  shows "case replace_span fmt node_text start stop replacement doc of
           (Inl e, doc') \<Rightarrow> doc' = doc
         | (Inr _, doc') \<Rightarrow>
             start \<le> stop \<and> stop \<le> length (doc_source doc) \<and> char_boundary (doc_source doc) start \<and> char_boundary (doc_source doc) stop
             \<and> doc_source doc' = take start (doc_source doc) @ replacement @ drop stop (doc_source doc)
             \<and> doc_scope doc' \<noteq> None \<and> document_reachable fmt node_text config doc'"
proof -
  have s: "spells (doc_green doc) (doc_source doc)" using document_reachable_ok[OF assms] by (simp add: document_ok_def)
  note go = stepped[OF assms step_replace[of fmt node_text doc start stop replacement]]
  show ?thesis
    by (cases rule: replace_span_cases[OF s, of fmt node_text start stop replacement])
      (use go in \<open>auto simp: check_span_def splice_text_def split: if_splits\<close>)
qed

text \<open>
  C35. An edit whose result is within the length limit, loads, passes the policies and has a tree is never
  refused, whichever way it is repaired.
\<close>

theorem valid_edits_commit:
  assumes "document_reachable fmt node_text config doc"
    and "start \<le> stop" and "stop \<le> length (doc_source doc)"
    and "char_boundary (doc_source doc) start" and "char_boundary (doc_source doc) stop"
    and "parse_full fmt node_text (take start (doc_source doc) @ replacement @ drop stop (doc_source doc)) config = Inr (green, parsed)"
  shows "\<exists>doc'. replace_span fmt node_text start stop replacement doc = (Inr (), doc')
     \<and> doc_source doc' = take start (doc_source doc) @ replacement @ drop stop (doc_source doc)
     \<and> doc_cache doc' = Some parsed"
proof -
  let ?new = "splice_text (doc_source doc) start stop replacement"
  have config: "doc_config doc = config" using document_reachable_ok[OF assms(1)] by simp
  have full: "parse_full fmt node_text ?new config = Inr (green, parsed)" using assms(6) by (simp add: splice_text_def)
  then have adm: "admitted fmt node_text config ?new parsed" by (simp add: parse_full_Inr)
  have span: "check_span ''replace_span'' (doc_source doc) start stop = Inr ()" using assms(2-5) by (simp add: check_span_def)
  have fits: "check_document_length ?new config = Inr ()" using adm by (simp add: check_document_length_def admitted_def)
  have loads: "and_then (parse_exactly_one fmt node_text ?new config) (\<lambda>parsed.
      and_then (check_document (policies config) (fst parsed)) (\<lambda>_. Inr parsed)) = Inr parsed"
    using adm by (simp add: admitted_def)
  show ?thesis
  proof (cases "try_local_repair_green node_text doc start stop replacement ?new")
    case None
    then show ?thesis using full config span fits by (simp add: replace_span_def commit_source_def splice_text_def)
  next
    case (Some repaired)
    then show ?thesis
      using loads config span fits by (cases repaired) (simp add: replace_span_def splice_text_def)
  qed
qed

text \<open>
  C36. A local repair exchanges one node of the tree and nothing else.  It takes the innermost candidate
  around the edit whose text after the edit re-parses in its place, a block collection or entry.  The
  new tree is the old one with that very node swapped for the re-parsed fragment: every sibling on the
  way down to it is the same, the leaves before and behind it are those of the tree before, in the same
  places, and the whole spells the new source.
\<close>

theorem repair_keeps_other_leaves:
  assumes "document_reachable fmt node_text config doc" and "start \<le> stop" and "stop \<le> length (doc_source doc)"
    and "try_local_repair_green node_text doc start stop replacement (splice_text (doc_source doc) start stop replacement)
      = Some (root, scope)"
  shows "\<exists>earlier cand later old sub pre post.
      ancestor_candidates (doc_green doc) start stop = earlier @ cand # later
    \<and> list_all (\<lambda>c. repair_fragment node_text doc (int (length replacement) - (int stop - int start))
          (splice_text (doc_source doc) start stop replacement) c = None) earlier
    \<and> repair_fragment node_text doc (int (length replacement) - (int stop - int start))
          (splice_text (doc_source doc) start stop replacement) cand = Some sub
    \<and> cd_kind cand \<in> {SBlockMapping, SBlockSequence, SMappingEntry, SSequenceItem}
    \<and> scope = scope_for_kind (cd_kind cand) \<and> gn_kind old = cd_kind cand \<and> gn_kind sub = cd_kind cand
    \<and> cd_start cand \<le> start \<and> stop \<le> cd_end cand \<and> cd_end cand = cd_start cand + gn_text_len old
    \<and> swapped (doc_green doc) (cd_start cand) old sub root
    \<and> node_leaves (doc_green doc) = pre @ node_leaves old @ post
    \<and> node_leaves root = pre @ node_leaves sub @ post \<and> leaves_len pre = cd_start cand
    \<and> green_text root (splice_text (doc_source doc) start stop replacement) = splice_text (doc_source doc) start stop replacement"
proof -
  have s: "spells (doc_green doc) (doc_source doc)" using document_reachable_ok[OF assms(1)] by (simp add: document_ok_def)
  from repair_splices[OF s assms(2-4)] obtain earlier cand later sub old where
      c: "ancestor_candidates (doc_green doc) start stop = earlier @ cand # later"
    and fails: "list_all (\<lambda>c. repair_fragment node_text doc (int (length replacement) - (int stop - int start))
          (splice_text (doc_source doc) start stop replacement) c = None) earlier"
    and sub: "repair_fragment node_text doc (int (length replacement) - (int stop - int start))
          (splice_text (doc_source doc) start stop replacement) cand = Some sub"
    and scope: "scope = scope_for_kind (cd_kind cand)"
    and swap: "swaps_candidate cand old (doc_green doc) 0 sub root"
    and new: "spells root (splice_text (doc_source doc) start stop replacement)" by metis
  have "cand \<in> set (collect_ancestors (doc_green doc) start stop 0)"
    using c by (metis ancestor_candidates_def in_set_conv_decomp set_rev)
  then have around: "cd_start cand \<le> start" "stop \<le> cd_end cand" using collected_around(1) by blast+
  have sw: "swapped (doc_green doc) (cd_start cand) old sub root" "gn_kind old = cd_kind cand"
      "cd_end cand = cd_start cand + gn_text_len old" using swap by (simp_all add: swaps_candidate_def)
  obtain pre post where "node_leaves (doc_green doc) = pre @ node_leaves old @ post"
      "node_leaves root = pre @ node_leaves sub @ post" "leaves_len pre = cd_start cand"
    using swapped_leaves[OF sw(1)] s by (auto simp: spells_def)
  then show ?thesis
    using c fails sub scope around sw repair_fragmentD(2,3)[OF sub] spells_text[OF new]
    unfolding is_phase_a_repairable_def by blast
qed

section \<open>Sessions\<close>

text \<open>Queued edits do not overlap, and each lies in the source.\<close>

definition session_ok :: "edit_session \<Rightarrow> bool" where
  "session_ok s \<longleftrightarrow> distinct (map pd_start (es_edits s))
     \<and> (\<forall>e \<in> set (es_edits s). pd_start e \<le> pd_end e \<and> pd_end e \<le> length (doc_source (es_document s)))
     \<and> (\<forall>e \<in> set (es_edits s). \<forall>f \<in> set (es_edits s). pd_start e < pd_start f \<longrightarrow> pd_end e \<le> pd_start f)"

lemma session_replace_span_ok:
  assumes "session_ok s"
  shows "session_ok (snd (session_replace_span start stop text s))"
proof (cases "fst (session_replace_span start stop text s)")
  case (Inl e)
  then have "snd (session_replace_span start stop text s) = s"
    by (auto simp: session_replace_span_def split: sum.splits if_splits)
  then show ?thesis using assms by simp
next
  case (Inr u)
  then have span: "start \<le> stop" "stop \<le> length (doc_source (es_document s))"
    and free: "\<forall>q \<in> set (es_edits s). \<not> conflicts q start stop"
    and result: "snd (session_replace_span start stop text s)
      = s\<lparr>es_edits := es_edits s @ [\<lparr>pd_start = start, pd_end = stop, pd_text = text\<rparr>]\<rparr>"
    by (auto simp: session_replace_span_def check_span_def list_ex_iff split: sum.splits if_splits)
  show ?thesis
    using assms span free unfolding result session_ok_def conflicts_def by fastforce
qed

lemma queue_edits_ok: "session_ok (queue_edits requests doc)"
proof -
  have "session_ok s \<Longrightarrow> session_ok (fold (\<lambda>(start, stop, text) s. snd (session_replace_span start stop text s)) requests s)" for s
    by (induction requests arbitrary: s) (auto intro: session_replace_span_ok)
  moreover have "session_ok (edit doc)" by (simp add: session_ok_def edit_def)
  ultimately show ?thesis by (simp add: queue_edits_def)
qed

text \<open>Edits in the order of the text.\<close>

fun laid_out :: "planned_edit list \<Rightarrow> nat \<Rightarrow> nat \<Rightarrow> bool" where
  "laid_out [] pos len \<longleftrightarrow> pos \<le> len"
| "laid_out (e # es) pos len \<longleftrightarrow> pos \<le> pd_start e \<and> pd_start e \<le> pd_end e \<and> laid_out es (pd_end e) len"

lemma laid_out_sorted:
  assumes "sorted (map pd_start es)" and "distinct (map pd_start es)"
    and "\<forall>e \<in> set es. pd_start e \<le> pd_end e \<and> pd_end e \<le> len"
    and "\<forall>e \<in> set es. \<forall>f \<in> set es. pd_start e < pd_start f \<longrightarrow> pd_end e \<le> pd_start f"
    and "pos \<le> len" and "\<forall>e \<in> set es. pos \<le> pd_start e"
  shows "laid_out es pos len"
  using assms
proof (induction es arbitrary: pos)
  case Nil
  then show ?case by simp
next
  case (Cons e es)
  have "\<forall>f \<in> set es. pd_start e < pd_start f" using Cons.prems(1,2) by (fastforce simp: less_le)
  then have "\<forall>f \<in> set es. pd_end e \<le> pd_start f" using Cons.prems(4) by auto
  then show ?case using Cons by simp
qed

lemma laid_out_le: "laid_out es pos len \<Longrightarrow> pos \<le> len"
  by (induction es arbitrary: pos) (auto intro: le_trans)

definition apply_edit :: "planned_edit \<Rightarrow> string \<Rightarrow> string" where
  "apply_edit e source = splice_text source (pd_start e) (pd_end e) (pd_text e)"

lemma candidate_text_applies:
  "laid_out es pos (length source) \<Longrightarrow> take pos source @ candidate_text es source pos = fold apply_edit (rev es) source"
proof (induction es arbitrary: pos)
  case Nil
  then show ?case by simp
next
  case (Cons e es)
  have IH: "fold apply_edit (rev es) source = take (pd_end e) source @ candidate_text es source (pd_end e)"
    using Cons by simp
  have le: "pos \<le> pd_start e" "pd_start e \<le> pd_end e" "pd_end e \<le> length source"
    using Cons.prems laid_out_le[of es] by auto
  have "take pos source @ drop pos (take (pd_start e) source) = take (pd_start e) source"
    using le by (metis append_take_drop_id min.absorb1 take_take)
  then have "take pos source @ candidate_text (e # es) source pos
      = take (pd_start e) source @ pd_text e @ candidate_text es source (pd_end e)"
    by (metis append.assoc candidate_text.simps(2))
  also have "\<dots> = apply_edit e (fold apply_edit (rev es) source)"
    using le by (simp add: IH apply_edit_def splice_text_def min_def)
  finally show ?case by simp
qed

lemma sorted_edits_unique:
  assumes "distinct (map pd_start es)" and "mset es = mset fs"
  shows "sort_key pd_start es = sort_key pd_start fs"
proof (rule map_sorted_distinct_set_unique[where f = pd_start])
  have s: "set es = set fs" using assms(2) by (metis set_mset_mset)
  show "inj_on pd_start (set (sort_key pd_start es) \<union> set (sort_key pd_start fs))"
    using assms(1) s by (simp add: distinct_map)
  show "distinct (map pd_start (sort_key pd_start es))" using assms(1) by (simp add: distinct_map)
  show "distinct (map pd_start (sort_key pd_start fs))"
    using assms s by (metis distinct_map distinct_sort set_sort mset_eq_imp_distinct_iff)
  show "set (sort_key pd_start es) = set (sort_key pd_start fs)" using s by simp
qed simp_all

lemma session_commit_text:
  assumes "session_commit fmt node_text s = (Inr (), doc')" and "es_edits s \<noteq> []"
  shows "doc_source doc' = candidate_text (sort_key pd_start (es_edits s)) (doc_source (es_document s)) 0"
proof -
  let ?text = "candidate_text (sort_key pd_start (es_edits s)) (doc_source (es_document s)) 0"
  have "commit_source fmt node_text ?text RepairDocument (es_document s) = (Inr (), doc')"
    using assms unfolding session_commit_def Let_def by (simp split: option.splits)
  then show ?thesis
    by (cases rule: commit_source_cases[of fmt node_text ?text RepairDocument "es_document s"]) auto
qed

text \<open>
  C37. A committed session leaves the text its edits leave when they are applied one at a time from the
  last to the first, each at the positions of the first text: none of them moves another.  The order in
  which they were queued does not matter.
\<close>

theorem session_applies_edits:
  assumes "session_commit fmt node_text (queue_edits requests doc) = (Inr (), doc')"
  shows "doc_source doc' = fold apply_edit (rev (sort_key pd_start (es_edits (queue_edits requests doc)))) (doc_source doc)
     \<and> (\<forall>t. es_document t = doc \<longrightarrow> mset (es_edits t) = mset (es_edits (queue_edits requests doc))
          \<longrightarrow> session_commit fmt node_text t = (Inr (), doc'))"
proof -
  let ?s = "queue_edits requests doc"
  let ?es = "sort_key pd_start (es_edits ?s)"
  have ok: "session_ok ?s" by (rule queue_edits_ok)
  then have distinct: "distinct (map pd_start (es_edits ?s))" by (simp add: session_ok_def)
  have "laid_out ?es 0 (length (doc_source doc))"
    using ok by (intro laid_out_sorted) (simp_all add: session_ok_def distinct_map)
  then have result: "candidate_text ?es (doc_source doc) 0 = fold apply_edit (rev ?es) (doc_source doc)"
    using candidate_text_applies[of ?es 0 "doc_source doc"] by simp
  have "doc_source doc' = fold apply_edit (rev ?es) (doc_source doc)"
  proof (cases "es_edits ?s = []")
    case True
    then show ?thesis using assms by (simp add: session_commit_def)
  next
    case False
    then show ?thesis using session_commit_text[OF assms] result by simp
  qed
  moreover have "session_commit fmt node_text t = session_commit fmt node_text ?s"
    if t: "es_document t = doc" "mset (es_edits t) = mset (es_edits ?s)" for t
  proof -
    have "sort_key pd_start (es_edits t) = ?es" by (rule sorted_edits_unique[OF distinct t(2)[symmetric], symmetric])
    moreover have "es_edits t = [] \<longleftrightarrow> es_edits ?s = []" using t(2) by (metis mset_zero_iff)
    ultimately show ?thesis using t(1) by (simp only: session_commit_def Let_def queue_edits_document)
  qed
  ultimately show ?thesis using assms by simp
qed

section \<open>Witnesses\<close>

definition open_document :: "string \<Rightarrow> green_node \<times> value \<times> span_tree \<Rightarrow> document" where
  "open_document source p =
     \<lparr>doc_source = source, doc_green = fst p, doc_cache = Some (snd p), doc_scope = None, doc_config = default_config 72\<rparr>"

lemma open_document_fields [simp]:
  "doc_source (open_document source p) = source" "doc_green (open_document source p) = fst p"
  "doc_cache (open_document source p) = Some (snd p)" "doc_config (open_document source p) = default_config 72"
  by (simp_all add: open_document_def)

lemma open_document_opens:
  "parse_full fmt node_text source (default_config 72) = Inr p \<Longrightarrow>
   parse_document_inner fmt node_text source (default_config 72) = Inr (open_document source p)"
  by (cases p) (simp add: parse_document_inner_def open_document_def)

text \<open>A one-entry text, its parse, and the document opened from it.\<close>

definition entry_source :: "char \<Rightarrow> char \<Rightarrow> string" where
  "entry_source k v = [k, CHR '':'', CHR '' '', v]"

definition entry_parse :: "char \<Rightarrow> int \<Rightarrow> green_node \<times> value \<times> span_tree" where
  "entry_parse k n =
     (GreenNode SDocument 4 [ChildNode (GreenNode SBlockMapping 4 [ChildNode (GreenNode SMappingEntry 4
        [ChildToken SPlainScalar 1, ChildToken SColonIndicator 2, ChildToken SPlainScalar 1])])],
      VMapping [([k], VNumber (Integer n))], SpanMapping 0 4 [((0, 1), Leaf 3 4)])"

definition entry_document :: document where
  "entry_document = open_document (entry_source CHR ''a'' CHR ''1'') (entry_parse CHR ''a'' 1)"

lemma entry_full:
  "parse_full (\<lambda>f. []) (\<lambda>k. []) (entry_source CHR ''a'' CHR ''1'') (default_config 72) = Inr (entry_parse CHR ''a'' 1)"
  "parse_full (\<lambda>f. []) (\<lambda>k. []) (entry_source CHR ''b'' CHR ''2'') (default_config 72) = Inr (entry_parse CHR ''b'' 2)"
  by code_simp+

lemma entry_reachable: "document_reachable (\<lambda>f. []) (\<lambda>k. []) (default_config 72) entry_document"
  unfolding entry_document_def by (rule opened[OF open_document_opens[OF entry_full(1)]])

lemma entry_fields [simp]:
  "doc_source entry_document = entry_source CHR ''a'' CHR ''1''" "doc_green entry_document = fst (entry_parse CHR ''a'' 1)"
  "doc_config entry_document = default_config 72"
  by (simp_all add: entry_document_def)

lemma reachable_documents_valid_witness:
  "\<exists>v spans. parse_exactly_one (\<lambda>f. []) (\<lambda>k. []) (entry_source CHR ''a'' CHR ''1'') (default_config 72) = Inr (v, spans)
     \<and> as_value (\<lambda>f. []) (\<lambda>k. []) entry_document = Some (v, entry_document)"
  using reachable_documents_valid[OF entry_reachable] by auto

lemma replace_span_atomic_witness:
  "case replace_span (\<lambda>f. []) (\<lambda>k. []) 3 2 [] entry_document of
     (Inl e, doc') \<Rightarrow> doc' = entry_document | (Inr _, doc') \<Rightarrow> False"
  using replace_span_atomic[OF entry_reachable, of 3 2 "[]"] by (auto split: prod.splits sum.splits)

lemma valid_edits_commit_witness:
  "\<exists>doc'. replace_span (\<lambda>f. []) (\<lambda>k. []) 0 4 ''b: 2'' entry_document = (Inr (), doc') \<and> doc_source doc' = ''b: 2''"
  using valid_edits_commit[OF entry_reachable, of 0 4 "''b: 2''" "fst (entry_parse CHR ''b'' 2)" "snd (entry_parse CHR ''b'' 2)"]
    entry_full(2)
  by (auto simp: char_boundary_def entry_source_def is_continuation_def byte_def)

lemma entry_repair:
  "try_local_repair_green (\<lambda>k. []) entry_document 3 4 ''2'' (splice_text (doc_source entry_document) 3 4 ''2'')
   = Some (fst (entry_parse CHR ''a'' 2), RepairCollection)"
  by code_simp

lemma repair_keeps_other_leaves_witness:
  "\<exists>at old sub. swapped (doc_green entry_document) at old sub (fst (entry_parse CHR ''a'' 2))
     \<and> at \<le> 3 \<and> 4 \<le> at + gn_text_len old \<and> gn_kind sub = gn_kind old"
proof -
  have span: "(3::nat) \<le> 4" "4 \<le> length (doc_source entry_document)"
    by (simp_all add: entry_document_def entry_source_def)
  show ?thesis
    using repair_keeps_other_leaves[OF entry_reachable span entry_repair]
    by (elim exE conjE) (rule exI, rule exI, rule exI, intro conjI, assumption, assumption, simp, simp)
qed

text \<open>Two edits, the last of the text queued first.\<close>

definition two_requests :: "(nat \<times> nat \<times> string) list" where
  "two_requests = [(3, 4, ''2''), (0, 1, ''b'')]"

lemma two_edits:
  "es_edits (queue_edits two_requests entry_document)
   = [\<lparr>pd_start = 3, pd_end = 4, pd_text = ''2''\<rparr>, \<lparr>pd_start = 0, pd_end = 1, pd_text = ''b''\<rparr>]"
  by code_simp

lemma two_edits_commit: "fst (session_commit (\<lambda>f. []) (\<lambda>k. []) (queue_edits two_requests entry_document)) = Inr ()"
proof -
  have "candidate_text [\<lparr>pd_start = 0, pd_end = 1, pd_text = ''b''\<rparr>, \<lparr>pd_start = 3, pd_end = 4, pd_text = ''2''\<rparr>]
      (entry_source CHR ''a'' CHR ''1'') 0 = entry_source CHR ''b'' CHR ''2''"
    by code_simp
  moreover have "final_len [\<lparr>pd_start = 0, pd_end = 1, pd_text = ''b''\<rparr>, \<lparr>pd_start = 3, pd_end = 4, pd_text = ''2''\<rparr>]
      (length (entry_source CHR ''a'' CHR ''1'')) = Some 4"
    by (simp add: entry_source_def usize_max_def)
  ultimately show ?thesis
    by (simp add: session_commit_def two_edits commit_source_def entry_full(2) split: prod.splits)
qed

lemma session_applies_edits_witness:
  "doc_source (snd (session_commit (\<lambda>f. []) (\<lambda>k. []) (queue_edits two_requests entry_document))) = ''b: 2''"
proof -
  have "session_commit (\<lambda>f. []) (\<lambda>k. []) (queue_edits two_requests entry_document)
      = (Inr (), snd (session_commit (\<lambda>f. []) (\<lambda>k. []) (queue_edits two_requests entry_document)))"
    using two_edits_commit by (metis prod.collapse)
  note conjunct1[OF session_applies_edits[OF this]]
  also have "fold apply_edit (rev (sort_key pd_start (es_edits (queue_edits two_requests entry_document)))) (doc_source entry_document)
      = ''b: 2''"
    unfolding two_edits entry_fields by code_simp
  finally show ?thesis .
qed

section \<open>Where the tree and the typed view part\<close>

text \<open>
  The fragment of a repair is re-parsed at the indent of its line, not at its own column: the block mapping
  of a sequence item starts past the dash, so emptying its first value makes its second key a child of
  the first.  The tree then finds a value where the typed view has null.
\<close>

definition item_source :: string where
  "item_source = ''- a: 1'' @ [CHR 0x0A] @ ''  b:''"

definition emptied_source :: string where
  "emptied_source = ''- a: '' @ [CHR 0x0A] @ ''  b:''"

definition item_parse :: "green_node \<times> value \<times> span_tree" where
  "item_parse =
     (GreenNode SDocument 11 [ChildNode (GreenNode SBlockSequence 11 [ChildNode (GreenNode SSequenceItem 11
        [ChildToken SDashIndicator 1, ChildToken SWhitespace 1,
         ChildNode (GreenNode SBlockMapping 9
           [ChildNode (GreenNode SMappingEntry 7 [ChildToken SPlainScalar 1, ChildToken SColonIndicator 2, ChildToken SPlainScalar 4]),
            ChildNode (GreenNode SMappingEntry 2 [ChildToken SPlainScalar 1, ChildToken SColonIndicator 1])])])])],
      VSequence [VMapping [(''a'', VNumber (Integer 1)), (''b'', VNull)]],
      SpanSequence 0 11 [SpanMapping 2 11 [((2, 3), Leaf 5 9), ((9, 10), Leaf 10 10)]])"

definition repaired_tree :: green_node where
  "repaired_tree =
     GreenNode SDocument 10 [ChildNode (GreenNode SBlockSequence 10 [ChildNode (GreenNode SSequenceItem 10
       [ChildToken SDashIndicator 1, ChildToken SWhitespace 1,
        ChildNode (GreenNode SBlockMapping 8
          [ChildNode (GreenNode SMappingEntry 8
             [ChildToken SPlainScalar 1, ChildToken SColonIndicator 2, ChildToken SNewline 1, ChildToken SWhitespace 2,
              ChildNode (GreenNode SBlockMapping 2
                [ChildNode (GreenNode SMappingEntry 2 [ChildToken SPlainScalar 1, ChildToken SColonIndicator 1])])])])])])]"

definition emptied_parsed :: "value \<times> span_tree" where
  "emptied_parsed =
     (VSequence [VMapping [(''a'', VNull), (''b'', VNull)]],
      SpanSequence 0 10 [SpanMapping 2 10 [((2, 3), Leaf 3 3), ((8, 9), Leaf 9 9)]])"

definition item_document :: document where
  "item_document = open_document item_source item_parse"

definition emptied_document :: document where
  "emptied_document = item_document\<lparr>doc_source := emptied_source, doc_green := repaired_tree, doc_cache := Some emptied_parsed,
     doc_scope := Some RepairCollection\<rparr>"

lemma item_full: "parse_full (\<lambda>f. []) (\<lambda>k. []) item_source (default_config 72) = Inr item_parse"
  by code_simp

lemma emptied_loads: "parse_exactly_one (\<lambda>f. []) (\<lambda>k. []) emptied_source (default_config 72) = Inr emptied_parsed"
  by code_simp

lemma item_repair:
  "try_local_repair_green (\<lambda>k. []) item_document 5 6 [] emptied_source = Some (repaired_tree, RepairCollection)"
  by code_simp

lemma item_span: "check_span ''replace_span'' item_source 5 6 = Inr ()" "splice_text item_source 5 6 [] = emptied_source"
  by code_simp+

lemma item_edited: "replace_span (\<lambda>f. []) (\<lambda>k. []) 5 6 [] item_document = (Inr (), emptied_document)"
proof -
  have fields: "doc_source item_document = item_source" "doc_config item_document = default_config 72"
    by (simp_all add: item_document_def)
  have "length emptied_source \<le> max_document_length (default_config 72)" by (simp add: emptied_source_def default_config_def)
  moreover have "policies (default_config 72) = []" by (simp add: default_config_def)
  ultimately show ?thesis
    by (simp add: replace_span_def fields item_span check_document_length_def item_repair emptied_loads check_document_def
        emptied_document_def)
qed

theorem repair_nests_sibling_keys:
  "parse_document_inner (\<lambda>f. []) (\<lambda>k. []) item_source (default_config 72) = Inr item_document
   \<and> replace_span (\<lambda>f. []) (\<lambda>k. []) 5 6 [] item_document = (Inr (), emptied_document)
   \<and> as_value (\<lambda>f. []) (\<lambda>k. []) emptied_document = Some (VSequence [VMapping [(''a'', VNull), (''b'', VNull)]], emptied_document)
   \<and> resolve_path_in_green (doc_green emptied_document) [Index 0, Key ''a''] (doc_source emptied_document) = Some (6, 10)"
proof (intro conjI)
  show "parse_document_inner (\<lambda>f. []) (\<lambda>k. []) item_source (default_config 72) = Inr item_document"
    unfolding item_document_def by (rule open_document_opens[OF item_full])
  show "as_value (\<lambda>f. []) (\<lambda>k. []) emptied_document = Some (VSequence [VMapping [(''a'', VNull), (''b'', VNull)]], emptied_document)"
    by (simp add: as_value_def ensure_cache_def emptied_document_def emptied_parsed_def)
  have "resolve_path_in_green repaired_tree [Index 0, Key ''a''] emptied_source = Some (6, 10)" by code_simp
  then show "resolve_path_in_green (doc_green emptied_document) [Index 0, Key ''a''] (doc_source emptied_document) = Some (6, 10)"
    by (simp add: emptied_document_def)
qed (rule item_edited)

text \<open>
  The tree compares keys as they are written: of two keys the loader reads as one, it finds the entry the
  typed view dropped.
\<close>

definition signed_source :: string where
  "signed_source = ''1: a'' @ [CHR 0x0A] @ ''+1: b''"

definition signed_parse :: "green_node \<times> value \<times> span_tree" where
  "signed_parse =
     (GreenNode SDocument 10 [ChildNode (GreenNode SBlockMapping 10
        [ChildNode (GreenNode SMappingEntry 5 [ChildToken SPlainScalar 1, ChildToken SColonIndicator 2, ChildToken SPlainScalar 2]),
         ChildNode (GreenNode SMappingEntry 5 [ChildToken SPlainScalar 2, ChildToken SColonIndicator 2, ChildToken SPlainScalar 1])])],
      VMapping [(''1'', VString ''b'')], SpanMapping 0 10 [((5, 7), Leaf 9 10)])"

theorem green_path_finds_dropped_entry:
  "parse_full (\<lambda>f. []) (\<lambda>k. []) signed_source (default_config 72) = Inr signed_parse"
  "resolve_path_in_green (fst signed_parse) [Key ''1''] signed_source = Some (3, 5)"
  by code_simp+

end
