(* ===== verification/Cst_Spans.thy ===== *)
theory Cst_Spans
  imports Cst_Document Doc_Boundary Loader_Invariant No_Span_Loader
begin

text \<open>
  Paths of a document (\<open>cst/document.rs\<close>): the span of the value at a path, in the tree or in the typed
  view, the span a write may replace, and \<open>Document::set\<close> with its checks.
\<close>

section \<open>Trimming a span to its value\<close>

definition yaml_blank :: "char \<Rightarrow> bool" where
  "yaml_blank c \<longleftrightarrow> c \<in> {CHR '' '', CHR 0x09, CHR 0x0A, CHR 0x0D}"

definition inline_blank :: "char \<Rightarrow> bool" where
  "inline_blank c \<longleftrightarrow> c = CHR '' '' \<or> c = CHR 0x09"

definition trim_trailing_blank :: "string \<Rightarrow> nat \<Rightarrow> nat \<Rightarrow> nat \<times> nat" where
  "trim_trailing_blank source start stop =
     (start, stop - length (takeWhile yaml_blank (rev (slice source start stop))))"

lemma dropWhile_shorter: "dropWhile p s = c # tail_bytes \<Longrightarrow> length (dropWhile q tail_bytes) < length s"
  using length_dropWhile_le[of p s] length_dropWhile_le[of q tail_bytes] by simp

text \<open>What follows the leading \<open>&anchor\<close> and \<open>!tag\<close> tokens of a value.\<close>

function skip_value_property_prefix :: "string \<Rightarrow> string" where
  "skip_value_property_prefix s =
     (case dropWhile inline_blank s of
        [] \<Rightarrow> []
      | c # tail_bytes \<Rightarrow>
          if c = CHR ''&'' \<or> c = CHR ''!'' then skip_value_property_prefix (dropWhile (\<lambda>c. \<not> yaml_blank c) tail_bytes)
          else c # tail_bytes)"
  by pat_completeness auto

termination
  by (relation "measure length") (auto dest: dropWhile_shorter)

declare skip_value_property_prefix.simps [simp del]

definition is_break_byte :: "char \<Rightarrow> bool" where
  "is_break_byte c \<longleftrightarrow> c = CHR 0x0A \<or> c = CHR 0x0D"

definition is_keep_chomped_block_scalar :: "string \<Rightarrow> nat \<Rightarrow> nat \<Rightarrow> bool" where
  "is_keep_chomped_block_scalar source start stop =
     (case skip_value_property_prefix (slice source start stop) of
        [] \<Rightarrow> False
      | c # header \<Rightarrow> (c = CHR ''|'' \<or> c = CHR ''>'') \<and> CHR ''+'' \<in> set (takeWhile (\<lambda>c. \<not> is_break_byte c) header))"

definition trim_value_span :: "string \<Rightarrow> nat \<Rightarrow> nat \<Rightarrow> nat \<times> nat" where
  "trim_value_span source start stop =
     (if is_keep_chomped_block_scalar source start stop then (start, stop) else trim_trailing_blank source start stop)"

definition implicit_null_insertion_point :: "string \<Rightarrow> nat \<Rightarrow> (nat \<times> nat) option" where
  "implicit_null_insertion_point source pos =
     (if pos < length source \<and> (source ! pos = CHR '':'' \<or> source ! pos = CHR ''-'') then Some (pos + 1, pos + 1) else None)"

definition fill_in :: "string \<Rightarrow> string" where
  "fill_in fragment = CHR '' '' # fragment"

text \<open>The start of a value past its properties: the rest of the span from there, \<open>None\<close> when only properties are left.\<close>

lemma dropWhile_le_Suc: "length s \<le> n \<Longrightarrow> length (dropWhile p s) < Suc n"
  using length_dropWhile_le[of p s] by simp

function content_from :: "string \<Rightarrow> string option" where
  "content_from [] = None"
| "content_from (c # tail_bytes) =
     (if c = CHR ''!'' \<and> tail_bytes \<noteq> [] \<and> hd tail_bytes = CHR ''<''
      then content_from (dropWhile is_ascii_whitespace (drop 1 (dropWhile (\<lambda>c. c \<noteq> CHR ''>'') tail_bytes)))
      else if c = CHR ''&'' \<or> c = CHR ''!''
      then content_from (dropWhile is_ascii_whitespace (dropWhile (\<lambda>c. \<not> is_ascii_whitespace c) tail_bytes))
      else Some (c # tail_bytes))"
  by pat_completeness auto

termination
  by (relation "measure length") (auto intro!: dropWhile_le_Suc length_dropWhile_le intro: le_trans[OF diff_le_self])

definition content_start :: "string \<Rightarrow> nat \<Rightarrow> nat \<Rightarrow> nat" where
  "content_start source start stop =
     (case content_from (slice source start stop) of None \<Rightarrow> start | Some tail_bytes \<Rightarrow> stop - length tail_bytes)"

section \<open>The typed view\<close>

fun typed_value_at :: "value \<Rightarrow> query_segment list \<Rightarrow> value option" where
  "typed_value_at v [] = Some v"
| "typed_value_at (VMapping m) (Key k # segs) = Option.bind (imap_get m k) (\<lambda>v. typed_value_at v segs)"
| "typed_value_at (VSequence s) (Index i # segs) = (if i < length s then typed_value_at (s ! i) segs else None)"
| "typed_value_at v (seg # segs) = None"

fun find_entry_tree :: "mapping \<Rightarrow> ((nat \<times> nat) \<times> span_tree) list \<Rightarrow> string \<Rightarrow> (value \<times> span_tree) option" where
  "find_entry_tree ((mk, mv) # m) ((ks, t) # entries) k = (if mk = k then Some (mv, t) else find_entry_tree m entries k)"
| "find_entry_tree m entries k = None"

definition child_tree :: "value \<Rightarrow> span_tree \<Rightarrow> query_segment \<Rightarrow> (value \<times> span_tree) option" where
  "child_tree v t seg =
     (case (seg, v, t) of
        (Key k, VMapping m, SpanMapping s e entries) \<Rightarrow> find_entry_tree m entries k
      | (Index i, VSequence xs, SpanSequence s e items) \<Rightarrow>
          (if i < length xs \<and> i < length items then Some (xs ! i, items ! i) else None)
      | _ \<Rightarrow> None)"

function resolve_tree :: "value \<Rightarrow> span_tree \<Rightarrow> query_segment list \<Rightarrow> (value \<times> span_tree) option" where
  "resolve_tree v t segs =
     (case t of
        SpanAlias at target \<Rightarrow> resolve_tree v target segs
      | _ \<Rightarrow>
          (case segs of
             [] \<Rightarrow> Some (v, t)
           | seg # tail \<Rightarrow> (case child_tree v t seg of None \<Rightarrow> None | Some (w, u) \<Rightarrow> resolve_tree w u tail)))"
  by pat_completeness auto

termination
  by (relation "measures [\<lambda>(v, t, segs). length segs, \<lambda>(v, t, segs). size t]") auto

declare resolve_tree.simps [simp del]

datatype alias_hit = NoAlias | AliasTarget "nat \<times> nat" | ThroughAlias

function resolve_span :: "value \<Rightarrow> span_tree \<Rightarrow> query_segment list \<Rightarrow> ((nat \<times> nat) \<times> alias_hit) option" where
  "resolve_span v t segs =
     (case t of
        SpanAlias at target \<Rightarrow>
          map_option (\<lambda>(span, _). (span, if segs = [] then AliasTarget at else ThroughAlias)) (resolve_span v target segs)
      | _ \<Rightarrow>
          (case segs of
             [] \<Rightarrow> Some ((span_tree_start t, span_tree_end t), NoAlias)
           | seg # tail \<Rightarrow> (case child_tree v t seg of None \<Rightarrow> None | Some (w, u) \<Rightarrow> resolve_span w u tail)))"
  by pat_completeness auto

termination
  by (relation "measures [\<lambda>(v, t, segs). length segs, \<lambda>(v, t, segs). size t]") auto

declare resolve_span.simps [simp del]

section \<open>Reading at a path\<close>

text \<open>The outer \<open>None\<close> is the panic of \<open>ensure_cache\<close>; a read may fill the cache.\<close>

definition span_at ::
  "(f64 \<Rightarrow> string) \<Rightarrow> (token_kind \<Rightarrow> string) \<Rightarrow> string \<Rightarrow> document \<Rightarrow> ((nat \<times> nat) option \<times> document) option" where
  "span_at fmt node_text path doc =
     (let segments = parse_query_path path; source = doc_source doc
      in case resolve_path_in_green (doc_green doc) segments source of
           Some (s, e) \<Rightarrow> Some (Some (trim_value_span source s e), doc)
         | None \<Rightarrow>
             Option.bind (ensure_cache fmt node_text doc) (\<lambda>doc.
             Option.bind (doc_cache doc) (\<lambda>(v, spans).
               Some (case resolve_span v spans segments of
                       None \<Rightarrow> None
                     | Some ((s, e), _) \<Rightarrow>
                         let s = content_start source s e in if s = e then None else Some (trim_value_span source s e), doc))))"

definition get_at ::
  "(f64 \<Rightarrow> string) \<Rightarrow> (token_kind \<Rightarrow> string) \<Rightarrow> string \<Rightarrow> document \<Rightarrow> (string option \<times> document) option" where
  "get_at fmt node_text path doc =
     map_option (\<lambda>(span, doc). (map_option (\<lambda>(s, e). slice (doc_source doc) s e) span, doc)) (span_at fmt node_text path doc)"

section \<open>Writing at a path\<close>

definition path_not_found :: "string \<Rightarrow> error" where
  "path_not_found path = Parse (''path not found: '' @ path)"

definition through_alias :: "string \<Rightarrow> error" where
  "through_alias path =
     Parse (''cannot set '' @ [backtick] @ path @ [backtick] @ '': its value resolves through an alias ''
       @ ''reference to the anchor's bytes, which belong to a different key; edit the anchor definition instead'')"

definition write_span_resolved ::
  "(f64 \<Rightarrow> string) \<Rightarrow> (token_kind \<Rightarrow> string) \<Rightarrow> string \<Rightarrow> document \<Rightarrow> (((nat \<times> nat) \<times> bool) result \<times> document) option" where
  "write_span_resolved fmt node_text path doc =
     (let segments = parse_query_path path; source = doc_source doc
      in case resolve_path_in_green (doc_green doc) segments source of
           Some (s, e) \<Rightarrow> Some (Inr (trim_value_span source s e, False), doc)
         | None \<Rightarrow>
             Option.bind (ensure_cache fmt node_text doc) (\<lambda>doc.
             Option.bind (doc_cache doc) (\<lambda>(v, spans).
               Some (case resolve_span v spans segments of
                       None \<Rightarrow> Inl (path_not_found path)
                     | Some (_, AliasTarget at) \<Rightarrow> Inr (at, True)
                     | Some (_, ThroughAlias) \<Rightarrow> Inl (through_alias path)
                     | Some ((s, e), NoAlias) \<Rightarrow>
                         let s = content_start source s e
                         in if s = e
                            then (case implicit_null_insertion_point source s of
                                    None \<Rightarrow> Inl (path_not_found path) | Some span \<Rightarrow> Inr (span, False))
                            else Inr (trim_value_span source s e, False), doc))))"

definition write_span ::
  "(f64 \<Rightarrow> string) \<Rightarrow> (token_kind \<Rightarrow> string) \<Rightarrow> string \<Rightarrow> document \<Rightarrow> ((nat \<times> nat) result \<times> document) option" where
  "write_span fmt node_text path doc =
     map_option (\<lambda>(r, doc). (and_then r (\<lambda>(span, _). Inr span), doc)) (write_span_resolved fmt node_text path doc)"

text \<open>The fingerprint of a value with the part at a path left out.\<close>

fun shape_all :: "value \<Rightarrow> string"
  and shape_all_entries :: "mapping \<Rightarrow> string"
  and shape_all_items :: "value list \<Rightarrow> string" where
  "shape_all (VMapping m) = ''{'' @ shape_all_entries m @ ''}''"
| "shape_all (VSequence s) = ''['' @ shape_all_items s @ '']''"
| "shape_all v = ''_''"
| "shape_all_entries [] = []"
| "shape_all_entries ((k, v) # m) = k @ '':'' @ shape_all v @ '','' @ shape_all_entries m"
| "shape_all_items [] = []"
| "shape_all_items (v # s) = shape_all v @ '','' @ shape_all_items s"

fun shape_walk :: "value \<Rightarrow> query_segment list \<Rightarrow> string"
  and shape_entries :: "mapping \<Rightarrow> query_segment \<Rightarrow> query_segment list \<Rightarrow> string"
  and shape_items :: "value list \<Rightarrow> nat \<Rightarrow> query_segment \<Rightarrow> query_segment list \<Rightarrow> string" where
  "shape_walk v [] = ''<target>''"
| "shape_walk (VMapping m) (seg # segs) = ''{'' @ shape_entries m seg segs @ ''}''"
| "shape_walk (VSequence s) (seg # segs) = ''['' @ shape_items s 0 seg segs @ '']''"
| "shape_walk v (seg # segs) = ''_''"
| "shape_entries [] seg segs = []"
| "shape_entries ((k, v) # m) seg segs =
     k @ '':'' @ (if seg = Key k then shape_walk v segs else shape_all v) @ '','' @ shape_entries m seg segs"
| "shape_items [] i seg segs = []"
| "shape_items (v # s) i seg segs =
     (if seg = Index i then shape_walk v segs else shape_all v) @ '','' @ shape_items s (i + 1) seg segs"

definition shape_excluding :: "value \<Rightarrow> query_segment list \<Rightarrow> string" where
  "shape_excluding v segs = shape_walk v segs"

definition duplicate_keys_present ::
  "(f64 \<Rightarrow> string) \<Rightarrow> (token_kind \<Rightarrow> string) \<Rightarrow> string \<Rightarrow> parse_config \<Rightarrow> bool" where
  "duplicate_keys_present fmt node_text source base =
     (let config = base\<lparr>dup_key_policy := DuplicateError\<rparr>
      in case load_exactly_one_no_spans fmt config node_text source (parser_with_max_events (max_events config) source) of
           Inl e \<Rightarrow> error_kind e \<in> {KindDuplicateKey, KindKeyCollision}
         | Inr _ \<Rightarrow> False)"

definition set_changed_shape :: "string \<Rightarrow> error" where
  "set_changed_shape path =
     Parse (''set: the fragment for '' @ [backtick] @ path @ [backtick] @ '' added or removed entries ''
       @ ''elsewhere in the document '' @ [CHR 0xE2, CHR 0x80, CHR 0x94] @ '' it was left unchanged. Use ''
       @ [backtick] @ ''set_value'' @ [backtick] @ '' to write a value without splicing YAML.'')"

definition set_shadowed :: "string \<Rightarrow> error" where
  "set_shadowed path =
     Parse (''set: the fragment for '' @ [backtick] @ path @ [backtick] @ '' introduced a duplicate key, ''
       @ ''shadowing an entry elsewhere in the document '' @ [CHR 0xE2, CHR 0x80, CHR 0x94] @ '' it was left unchanged. Use ''
       @ [backtick] @ ''set_value'' @ [backtick] @ '' to write a value without splicing YAML.'')"

definition document_set ::
  "(f64 \<Rightarrow> string) \<Rightarrow> (token_kind \<Rightarrow> string) \<Rightarrow> string \<Rightarrow> string \<Rightarrow> document \<Rightarrow> (unit result \<times> document) option" where
  "document_set fmt node_text path fragment doc =
     Option.bind (write_span fmt node_text path doc) (\<lambda>(span, doc).
       case span of
         Inl e \<Rightarrow> Some (Inl e, doc)
       | Inr (s, e) \<Rightarrow>
           Option.bind (as_value fmt node_text doc) (\<lambda>(before, doc).
             let segments = parse_query_path path;
                 before_shape = shape_excluding before segments;
                 snapshot = doc;
                 fragment = (if s = e then fill_in fragment else fragment)
             in case replace_span fmt node_text s e fragment doc of
                  (Inl err, doc) \<Rightarrow> Some (Inl err, doc)
                | (Inr _, doc) \<Rightarrow>
                    Option.bind (as_value fmt node_text doc) (\<lambda>(after, doc).
                      if shape_excluding after segments \<noteq> before_shape then Some (Inl (set_changed_shape path), snapshot)
                      else if \<not> duplicate_keys_present fmt node_text (doc_source snapshot) (doc_config doc)
                        \<and> duplicate_keys_present fmt node_text (doc_source doc) (doc_config doc)
                      then Some (Inl (set_shadowed path), snapshot)
                      else Some (Inr (), doc))))"

section \<open>What a path finds\<close>

text \<open>Aliases unwrapped: what a resolution does past them.\<close>

fun unalias :: "span_tree \<Rightarrow> span_tree" where
  "unalias (SpanAlias at target) = unalias target"
| "unalias t = t"

lemma unalias_mirrors [simp]: "mirrors (unalias t) v = mirrors t v"
  by (induction t) auto

text \<open>
  The place of a value by positions: which entry or item is taken at each step, read from the value
  alone, and the subtree at these positions, read from the span tree alone.  An alias is passed
  without a step.
\<close>

fun child_index :: "value \<Rightarrow> query_segment \<Rightarrow> nat option" where
  "child_index (VMapping m) (Key k) = imap_index_of m k"
| "child_index (VSequence xs) (Index i) = (if i < length xs then Some i else None)"
| "child_index v seg = None"

fun child_values :: "value \<Rightarrow> value list" where
  "child_values (VMapping m) = map snd m"
| "child_values (VSequence xs) = xs"
| "child_values v = []"

fun child_trees :: "span_tree \<Rightarrow> span_tree list" where
  "child_trees (SpanSequence s e items) = items"
| "child_trees (SpanMapping s e entries) = map snd entries"
| "child_trees (SpanAlias at target) = child_trees target"
| "child_trees (Leaf s e) = []"

fun index_path :: "value \<Rightarrow> query_segment list \<Rightarrow> nat list option" where
  "index_path v [] = Some []"
| "index_path v (seg # segs) =
     (case child_index v seg of
        None \<Rightarrow> None
      | Some i \<Rightarrow> map_option ((#) i) (index_path (child_values v ! i) segs))"

fun value_at_positions :: "value \<Rightarrow> nat list \<Rightarrow> value" where
  "value_at_positions v [] = v"
| "value_at_positions v (i # positions) = value_at_positions (child_values v ! i) positions"

fun subtree :: "span_tree \<Rightarrow> nat list \<Rightarrow> span_tree option" where
  "subtree t [] = Some t"
| "subtree t (i # positions) =
     (if i < length (child_trees t) then subtree (child_trees t ! i) positions else None)"

text \<open>The first alias met on the way to a place, told apart by whether it is the place itself.\<close>

fun alias_on :: "span_tree \<Rightarrow> nat list \<Rightarrow> alias_hit" where
  "alias_on (SpanAlias at target) positions = (if positions = [] then AliasTarget at else ThroughAlias)"
| "alias_on t [] = NoAlias"
| "alias_on t (i # positions) = alias_on (child_trees t ! i) positions"

lemma find_entry_tree_at:
  "find_entry_tree m entries k =
     (case imap_index_of m k of
        Some i \<Rightarrow> if i < length entries then Some (snd (m ! i), snd (entries ! i)) else None
      | None \<Rightarrow> None)"
  by (induction m entries k rule: find_entry_tree.induct) (auto split: option.splits)

lemma child_tree_at:
  assumes "mirrors t v"
  shows "child_tree v (unalias t) seg =
     (case child_index v seg of
        Some i \<Rightarrow> if i < length (child_trees t) then Some (child_values v ! i, child_trees t ! i) else None
      | None \<Rightarrow> None)"
  using assms
proof (induction t)
  case (SpanMapping s e entries)
  then show ?case
    by (cases v; cases seg)
      (auto simp: child_tree_def find_entry_tree_at dest: imap_index_of_Some split: option.splits)
next
  case (SpanSequence s e items)
  then show ?case
    by (cases v; cases seg) (auto simp: child_tree_def dest: list_all2_lengthD)
next
  case (Leaf s e)
  then show ?case by (cases v; cases seg) (auto simp: child_tree_def split: option.splits)
next
  case (SpanAlias at t)
  then show ?case by (simp split: option.split)
qed

lemma child_index_value:
  "typed_value_at v (seg # segs) =
     (case child_index v seg of Some i \<Rightarrow> typed_value_at (child_values v ! i) segs | None \<Rightarrow> None)"
  by (cases v; cases seg)
    (auto simp: imap_index_of_None dest: imap_index_of_Some split: option.splits)

lemma child_mirrors:
  assumes "mirrors t v" and "child_index v seg = Some i" and "i < length (child_trees t)"
  shows "mirrors (child_trees t ! i) (child_values v ! i)"
  using assms
proof (induction t)
  case (SpanMapping s e entries)
  then show ?case
    by (cases v; cases seg) (auto simp: list_all2_conv_all_nth case_prod_unfold dest: imap_index_of_Some)
next
  case (SpanSequence s e items)
  then show ?case
    by (cases v; cases seg) (auto simp: list_all2_conv_all_nth split: if_splits)
qed auto

lemma unalias_bounds [simp]:
  "span_tree_start (unalias t) = span_tree_start t" "span_tree_end (unalias t) = span_tree_end t"
  "child_trees (unalias t) = child_trees t"
  by (induction t) auto

lemma resolve_span_plain:
  "resolve_span v (unalias t) segs =
     (case segs of
        [] \<Rightarrow> Some ((span_tree_start t, span_tree_end t), NoAlias)
      | seg # tail \<Rightarrow> (case child_tree v (unalias t) seg of None \<Rightarrow> None | Some (w, u) \<Rightarrow> resolve_span w u tail))"
proof (induction t)
  case (SpanAlias at t)
  then show ?case by (simp only: unalias.simps span_tree_start.simps span_tree_end.simps)
qed (subst resolve_span.simps, simp split: list.split)+

lemma typed_value_positions:
  "typed_value_at v segs = map_option (value_at_positions v) (index_path v segs)"
  by (induction v segs rule: index_path.induct)
    (auto simp: child_index_value option.map_comp comp_def split: option.split)

text \<open>An alias on the way changes the hit that is reported and nothing else.\<close>

definition through :: "span_tree \<Rightarrow> query_segment list \<Rightarrow> alias_hit \<Rightarrow> alias_hit" where
  "through t segs hit =
     (case t of
        SpanAlias at target \<Rightarrow> if segs = [] then AliasTarget at else ThroughAlias
      | _ \<Rightarrow> hit)"

lemma resolve_span_through:
  "resolve_span v t segs =
     map_option (\<lambda>(span, hit). (span, through t segs hit)) (resolve_span v (unalias t) segs)"
proof (induction t)
  case (SpanAlias at t)
  have "resolve_span v (SpanAlias at t) segs =
      map_option (\<lambda>(span, hit). (span, if segs = [] then AliasTarget at else ThroughAlias)) (resolve_span v t segs)"
    by (subst resolve_span.simps) simp
  also have "\<dots> = map_option (\<lambda>(span, hit). (span, if segs = [] then AliasTarget at else ThroughAlias))
      (resolve_span v (unalias t) segs)"
    by (simp add: SpanAlias.IH option.map_comp comp_def case_prod_unfold)
  finally show ?case by (simp add: through_def)
qed (simp_all add: through_def option.map_ident case_prod_unfold)

lemma resolve_span_step:
  "resolve_span v t (seg # segs) =
     (case child_tree v (unalias t) seg of
        None \<Rightarrow> None
      | Some (w, u) \<Rightarrow> map_option (\<lambda>(span, hit). (span, through t (seg # segs) hit)) (resolve_span w u segs))"
  by (simp add: resolve_span_through[of v t] resolve_span_plain split: option.split)

lemma alias_on_through:
  "alias_on t [] = through t [] NoAlias"
  "segs \<noteq> [] \<Longrightarrow> alias_on t (i # positions) = through t segs (alias_on (child_trees t ! i) positions)"
  by (cases t; simp add: through_def)+

lemma index_path_length: "index_path v segs = Some positions \<Longrightarrow> length positions = length segs"
  by (induction v segs arbitrary: positions rule: index_path.induct) (auto split: option.splits)

text \<open>
  C39. A path resolved against the value and the span tree of a load finds exactly the place of the path.
  The positions of the path are read from the value alone.  When the span tree has a subtree at these
  positions, the span reported is the span of that very subtree, which mirrors the typed value at
  the path, and the alias reported is the first one on the way.  Nothing is reported only when the
  path leads nowhere, or leads past the entries that have a span (keys a merge provided).
\<close>

theorem resolved_span_denotes_value:
  assumes "mirrors t v"
  shows "case index_path v segs of
           None \<Rightarrow> resolve_span v t segs = None \<and> typed_value_at v segs = None
         | Some positions \<Rightarrow>
             typed_value_at v segs = Some (value_at_positions v positions)
             \<and> (case subtree t positions of
                  None \<Rightarrow> resolve_span v t segs = None
                | Some u \<Rightarrow>
                    mirrors u (value_at_positions v positions)
                    \<and> resolve_span v t segs
                        = Some ((span_tree_start u, span_tree_end u), alias_on t positions))"
  using assms
proof (induction segs arbitrary: v t)
  case Nil
  then show ?case
    by (simp add: resolve_span_through[of v t] resolve_span_plain alias_on_through)
next
  case (Cons seg segs)
  note hit = resolve_span_step[of v t seg segs]
  show ?case
  proof (cases "child_index v seg")
    case None
    then show ?thesis using hit child_tree_at[OF Cons.prems] by (simp add: child_index_value)
  next
    case (Some i)
    let ?w = "child_values v ! i" and ?u = "child_trees t ! i"
    show ?thesis
    proof (cases "i < length (child_trees t)")
      case True
      have h: "resolve_span v t (seg # segs) =
          map_option (\<lambda>(span, hit). (span, through t (seg # segs) hit)) (resolve_span ?w ?u segs)"
        using hit child_tree_at[OF Cons.prems, of seg] Some True by simp
      note IH = Cons.IH[OF child_mirrors[OF Cons.prems Some True]]
      show ?thesis
      proof (cases "index_path ?w segs")
        case None
        then show ?thesis using IH h Some by (simp add: child_index_value)
      next
        case p: (Some positions)
        show ?thesis
          using IH h Some True p
          by (cases "subtree ?u positions")
            (simp_all add: child_index_value alias_on_through(2)[of "seg # segs"])
      qed
    next
      case False
      then have "resolve_span v t (seg # segs) = None"
        using hit child_tree_at[OF Cons.prems, of seg] Some by simp
      moreover have "typed_value_at ?w segs = map_option (value_at_positions ?w) (index_path ?w segs)"
        by (rule typed_value_positions)
      ultimately show ?thesis using Some False
        by (cases "index_path ?w segs") (simp_all add: child_index_value)
    qed
  qed
qed

section \<open>What \<open>set\<close> keeps\<close>

lemma well_built_wf: "well_built limit v \<Longrightarrow> wf_value v"
  by (induction limit v rule: well_built.induct) (auto simp: list_all_iff)

lemma reachable_cached:
  assumes "document_reachable fmt node_text config doc"
  obtains v spans where "doc_cache doc = Some (v, spans)" and "ensure_cache fmt node_text doc = Some doc"
    and "as_value fmt node_text doc = Some (v, doc)" and "mirrors spans v" and "wf_value v"
proof -
  obtain parsed where cache: "doc_cache doc = Some parsed"
    and load: "parse_exactly_one fmt node_text (doc_source doc) (doc_config doc) = Inr parsed"
    using document_reachable_ok[OF assms] by (auto simp: document_ok_def admitted_def)
  obtain docs where docs: "load fmt (doc_config doc) node_text (doc_source doc)
      (parser_with_max_events (max_events (doc_config doc)) (doc_source doc)) = Inr docs"
    and parsed: "parsed = (case docs of [] \<Rightarrow> (VNull, Leaf 0 0) | d # _ \<Rightarrow> d)"
    using load by (auto simp: parse_exactly_one_def load_exactly_one_def res_simps split: if_splits)
  have "mirrors (snd parsed) (fst parsed)" and "wf_value (fst parsed)"
    using load_ok[OF docs] parsed by (auto simp: node_ok_def intro: well_built_wf split: list.splits)
  then show thesis
    using that[of "fst parsed" "snd parsed"] cache by (simp add: ensure_cache_def as_value_def)
qed

lemma replace_span_outcome:
  assumes "document_reachable fmt node_text config doc" and "replace_span fmt node_text start stop replacement doc = (r, doc')"
  shows "document_reachable fmt node_text config doc'"
    and "r = Inl e \<Longrightarrow> doc' = doc"
    and "r = Inr u \<Longrightarrow> doc_source doc' = splice_text (doc_source doc) start stop replacement"
proof -
  have s: "spells (doc_green doc) (doc_source doc)" using document_reachable_ok[OF assms(1)] by (simp add: document_ok_def)
  show "document_reachable fmt node_text config doc'"
    using stepped[OF assms(1) step_replace[of fmt node_text doc start stop replacement]] assms(2) by simp
  show "r = Inl e \<Longrightarrow> doc' = doc" and "r = Inr u \<Longrightarrow> doc_source doc' = splice_text (doc_source doc) start stop replacement"
    by (cases rule: replace_span_cases[OF s, of fmt node_text start stop replacement]; use assms(2) in simp)+
qed

lemma write_span_keeps:
  assumes "document_reachable fmt node_text config doc"
  obtains r where "write_span fmt node_text path doc = Some (r, doc)"
proof -
  obtain v spans where c: "doc_cache doc = Some (v, spans)" "ensure_cache fmt node_text doc = Some doc"
    using reachable_cached[OF assms] by metis
  show thesis
  proof (cases "resolve_path_in_green (doc_green doc) (parse_query_path path) (doc_source doc)")
    case None
    then show thesis using that c by (simp add: write_span_def write_span_resolved_def Let_def)
  next
    case (Some span)
    then show thesis using that by (cases span) (simp add: write_span_def write_span_resolved_def)
  qed
qed

text \<open>
  Setting the value at a path of any reachable document never panics.  It either leaves the document as
  it was and says why, or replaces the span found for writing by the fragment, leaves the fingerprint
  of the value outside the path as it was, and introduces no duplicate key.
\<close>

theorem set_keeps_the_rest:
  assumes "document_reachable fmt node_text config doc"
  shows "case document_set fmt node_text path fragment doc of
           None \<Rightarrow> False
         | Some (Inl e, doc') \<Rightarrow> doc' = doc
         | Some (Inr _, doc') \<Rightarrow>
             document_reachable fmt node_text config doc'
             \<and> (\<exists>s e. write_span fmt node_text path doc = Some (Inr (s, e), doc)
                  \<and> doc_source doc' = take s (doc_source doc) @ (if s = e then fill_in fragment else fragment) @ drop e (doc_source doc))
             \<and> (\<exists>v w. as_value fmt node_text doc = Some (v, doc) \<and> as_value fmt node_text doc' = Some (w, doc')
                  \<and> shape_excluding w (parse_query_path path) = shape_excluding v (parse_query_path path))
             \<and> (duplicate_keys_present fmt node_text (doc_source doc') config \<longrightarrow> duplicate_keys_present fmt node_text (doc_source doc) config)"
proof -
  obtain r where r: "write_span fmt node_text path doc = Some (r, doc)" by (rule write_span_keeps[OF assms])
  obtain v where v: "as_value fmt node_text doc = Some (v, doc)" using reachable_cached[OF assms] by metis
  show ?thesis
  proof (cases r)
    case (Inl e)
    then show ?thesis using r by (simp add: document_set_def)
  next
    case (Inr span)
    obtain s e where span: "r = Inr (s, e)" using Inr by (cases span) simp
    let ?f = "if s = e then fill_in fragment else fragment"
    let ?new = "replace_span fmt node_text s e ?f doc"
    obtain out doc' where go: "?new = (out, doc')" by (meson surj_pair)
    note outcome = replace_span_outcome[OF assms go]
    show ?thesis
    proof (cases out)
      case (Inl err)
      then have "doc' = doc" using outcome(2) by simp
      then show ?thesis using r v span go Inl by (simp add: document_set_def Let_def)
    next
      case (Inr u)
      then have next_doc: "document_reachable fmt node_text config doc'"
        and source: "doc_source doc' = take s (doc_source doc) @ ?f @ drop e (doc_source doc)"
        using outcome(1,3) by (simp_all add: splice_text_def)
      obtain w where w: "as_value fmt node_text doc' = Some (w, doc')" using reachable_cached[OF next_doc] by metis
      have config: "doc_config doc' = config" using document_reachable_ok[OF next_doc] by simp
      then show ?thesis
        using r v span go Inr w config next_doc source by (auto simp: document_set_def Let_def)
    qed
  qed
qed

section \<open>Witnesses\<close>

lemma resolved_span_denotes_value_witness:
  "resolve_span (VMapping [(''k'', VNull), (''a'', VSequence [VNull, VNumber (Integer 1)])])
     (SpanMapping 0 20 [((0, 1), Leaf 3 7), ((8, 9), SpanAlias (11, 13) (SpanSequence 11 20 [Leaf 12 16, Leaf 18 19]))])
     [Key ''a'', Index 1] = Some ((18, 19), ThroughAlias)"
proof -
  have "mirrors (SpanMapping 0 20 [((0, 1), Leaf 3 7), ((8, 9), SpanAlias (11, 13) (SpanSequence 11 20 [Leaf 12 16, Leaf 18 19]))])
      (VMapping [(''k'', VNull), (''a'', VSequence [VNull, VNumber (Integer 1)])])" by simp
  from resolved_span_denotes_value[OF this, of "[Key ''a'', Index 1]"] show ?thesis by simp
qed

lemma set_keeps_the_rest_witness:
  "\<exists>e. document_set (\<lambda>f. []) (\<lambda>k. []) ''b'' ''2'' entry_document = Some (Inl e, entry_document)"
proof -
  have "resolve_path_in_green (doc_green entry_document) (parse_query_path ''b'') (doc_source entry_document) = None"
    "resolve_span (fst (snd (entry_parse CHR ''a'' 1))) (snd (snd (entry_parse CHR ''a'' 1))) (parse_query_path ''b'') = None"
    by code_simp+
  moreover have "doc_cache entry_document = Some (snd (entry_parse CHR ''a'' 1))" by (simp add: entry_document_def)
  moreover obtain v t where "snd (entry_parse CHR ''a'' 1) = (v, t)" by (meson surj_pair)
  ultimately have "document_set (\<lambda>f. []) (\<lambda>k. []) ''b'' ''2'' entry_document = Some (Inl (path_not_found ''b''), entry_document)"
    by (simp add: document_set_def write_span_def write_span_resolved_def ensure_cache_def Let_def)
  then show ?thesis using set_keeps_the_rest[OF entry_reachable, of "''b''" "''2''"] by auto
qed

section \<open>Departures\<close>

text \<open>After the repair of \<open>repair_nests_sibling_keys\<close> a null reads as the text of the entry below it.\<close>

theorem get_reads_sibling_of_null:
  "get_at (\<lambda>f. []) (\<lambda>k. []) ''[0].a'' emptied_document = Some (Some ''  b:'', emptied_document)"
proof -
  have "resolve_path_in_green repaired_tree (parse_query_path ''[0].a'') emptied_source = Some (6, 10)"
    "trim_value_span emptied_source 6 10 = (6, 10)" "slice emptied_source 6 10 = ''  b:''"
    by code_simp+
  then show ?thesis by (simp add: get_at_def span_at_def emptied_document_def)
qed

text \<open>The fingerprint writes keys as they are, so a key can spell what two entries do.\<close>

theorem shape_not_injective:
  "shape_excluding (VMapping [(''x'', VNull), (''a:_,b'', VNull)]) [Key ''x'']
   = shape_excluding (VMapping [(''x'', VNull), (''a'', VNull), (''b'', VNull)]) [Key ''x'']"
  by (simp add: shape_excluding_def)

end
