(* ===== verification/Cst_Anchors.thy ===== *)
theory Cst_Anchors
  imports Cst_Spans
begin

text \<open>
  Anchors and aliases of a document (\<open>cst/anchor.rs\<close>, and their guards in \<open>cst/document.rs\<close>): the marks in the
  tree, the bytes an anchor decorates, aliases replaced by their anchor's text, and renaming.
\<close>

section \<open>The marks of a tree\<close>

record mark =
  mk_name :: string
  mk_span :: "nat \<times> nat"

definition walk_marks :: "green_node \<Rightarrow> string \<Rightarrow> (syntax_kind \<times> mark) list" where
  "walk_marks node source =
     map (\<lambda>(kind, s, e). (kind, \<lparr>mk_name = slice source (s + 1) e, mk_span = (s, e)\<rparr>))
       (filter (\<lambda>(kind, s, e). kind \<in> {SAnchorMark, SAliasMark}) (walk_node node 0))"

definition marks_of :: "syntax_kind \<Rightarrow> document \<Rightarrow> mark list" where
  "marks_of kind doc = map snd (filter (\<lambda>(k, m). k = kind) (walk_marks (doc_green doc) (doc_source doc)))"

definition anchors :: "document \<Rightarrow> mark list" where
  "anchors doc = marks_of SAnchorMark doc"

definition aliases :: "document \<Rightarrow> mark list" where
  "aliases doc = marks_of SAliasMark doc"

definition aliases_of :: "string \<Rightarrow> document \<Rightarrow> mark list" where
  "aliases_of name doc = filter (\<lambda>a. mk_name a = name) (aliases doc)"

section \<open>What an anchor decorates\<close>

fun child_kind :: "green_child \<Rightarrow> syntax_kind" where
  "child_kind (ChildToken kind len) = kind"
| "child_kind (ChildNode n) = gn_kind n"

definition is_trivia_or_property :: "syntax_kind \<Rightarrow> bool" where
  "is_trivia_or_property kind \<longleftrightarrow> kind \<in> {SWhitespace, SNewline, SComment, SBom, SDirective, STagMark, SAnchorMark}"

fun decorated_value_span :: "green_child list \<Rightarrow> nat \<Rightarrow> nat \<Rightarrow> nat \<times> nat" where
  "decorated_value_span [] pos anchor_end = (anchor_end, anchor_end)"
| "decorated_value_span (c # cs) pos anchor_end =
     (if is_trivia_or_property (child_kind c) then decorated_value_span cs (pos + child_text_len c) anchor_end
      else (pos, pos + child_text_len c))"

text \<open>Every anchor mark with the value it decorates: the name's bytes follow the ampersand.\<close>

fun anchor_values :: "green_child list \<Rightarrow> nat \<Rightarrow> ((nat \<times> nat) \<times> (nat \<times> nat)) list"
  and anchor_value :: "green_child \<Rightarrow> green_child list \<Rightarrow> nat \<Rightarrow> ((nat \<times> nat) \<times> (nat \<times> nat)) list"
  and anchor_node_values :: "green_node \<Rightarrow> nat \<Rightarrow> ((nat \<times> nat) \<times> (nat \<times> nat)) list" where
  "anchor_values [] pos = []"
| "anchor_values (c # cs) pos = anchor_value c cs pos @ anchor_values cs (pos + child_text_len c)"
| "anchor_value (ChildToken kind len) cs pos =
     (if kind = SAnchorMark then [((pos, pos + len), decorated_value_span cs (pos + len) (pos + len))] else [])"
| "anchor_value (ChildNode n) cs pos = anchor_node_values n pos"
| "anchor_node_values (GreenNode kind len cs) pos = anchor_values cs pos"

definition em_dash :: string where
  "em_dash = [CHR 0xE2, CHR 0x80, CHR 0x94]"

definition ticked :: "string \<Rightarrow> string" where
  "ticked s = [backtick] @ s @ [backtick]"

definition anchored_scalar_text :: "string \<Rightarrow> nat \<Rightarrow> document \<Rightarrow> string result" where
  "anchored_scalar_text name limit doc =
     (let source = doc_source doc;
          found = filter (\<lambda>((s, e), value_span). slice source (s + 1) e = name \<and> s < limit) (anchor_node_values (doc_green doc) 0)
      in if found = []
         then Inl (Parse (''materialise_alias_at: no '' @ ticked (''&'' @ name) @ '' anchor declared before byte '' @ show_nat limit))
         else let (vs, ve) = snd (last found);
                  trimmed = rev (dropWhile yaml_blank (rev (slice source vs ve)))
              in if CHR 0x0A \<in> set trimmed
                 then Inl (Parse (''materialise_alias_at: anchor '' @ ticked (''&'' @ name) @ '' decorates a multi-line block value ''
                   @ em_dash @ '' only scalar-valued anchors are materialisable in this scope. Use ''
                   @ ticked ''Document::anchors()'' @ '' + '' @ ticked ''Document::replace_span()'' @ '' for manual block splicing.''))
                 else if trimmed = []
                 then Inl (Parse (''materialise_alias_at: anchor '' @ ticked (''&'' @ name) @ '' decorates an empty value''))
                 else Inr trimmed)"

section \<open>Aliases made independent\<close>

definition materialise_alias_at ::
  "(f64 \<Rightarrow> string) \<Rightarrow> (token_kind \<Rightarrow> string) \<Rightarrow> nat \<Rightarrow> document \<Rightarrow> unit result \<times> document" where
  "materialise_alias_at fmt node_text position doc =
     (case find (\<lambda>a. fst (mk_span a) = position) (aliases doc) of
        None \<Rightarrow> (Inl (Parse (''materialise_alias_at: no alias mark begins at byte '' @ show_nat position)), doc)
      | Some alias \<Rightarrow>
          (case anchored_scalar_text (mk_name alias) (fst (mk_span alias)) doc of
             Inl e \<Rightarrow> (Inl e, doc)
           | Inr anchored \<Rightarrow> replace_span fmt node_text (fst (mk_span alias)) (snd (mk_span alias)) anchored doc))"

text \<open>All aliases of a name, the last first; the first failure ends the batch and keeps what is done.\<close>

fun materialise_all ::
  "(f64 \<Rightarrow> string) \<Rightarrow> (token_kind \<Rightarrow> string) \<Rightarrow> nat list \<Rightarrow> document \<Rightarrow> unit result \<times> document" where
  "materialise_all fmt node_text [] doc = (Inr (), doc)"
| "materialise_all fmt node_text (pos # targets) doc =
     (case materialise_alias_at fmt node_text pos doc of
        (Inl e, doc) \<Rightarrow> (Inl e, doc)
      | (Inr _, doc) \<Rightarrow> materialise_all fmt node_text targets doc)"

definition materialise_aliases_of ::
  "(f64 \<Rightarrow> string) \<Rightarrow> (token_kind \<Rightarrow> string) \<Rightarrow> string \<Rightarrow> document \<Rightarrow> nat result \<times> document" where
  "materialise_aliases_of fmt node_text name doc =
     (let targets = rev (sort (map (\<lambda>a. fst (mk_span a)) (aliases_of name doc)))
      in case materialise_all fmt node_text targets doc of
           (Inl e, doc) \<Rightarrow> (Inl e, doc)
         | (Inr _, doc) \<Rightarrow> (Inr (length targets), doc))"

section \<open>Renaming an anchor\<close>

definition is_valid_anchor_name :: "string \<Rightarrow> bool" where
  "is_valid_anchor_name name \<longleftrightarrow>
     name \<noteq> [] \<and> list_all (\<lambda>b. b \<notin> {CHR '','', CHR ''['', CHR '']'', CHR ''{'', CHR ''}'', CHR '' '', CHR 0x09, CHR 0x0D, CHR 0x0A}) name"

definition rename_sites :: "string \<Rightarrow> document \<Rightarrow> (char \<times> nat \<times> nat) list" where
  "rename_sites old doc =
     sort_key (\<lambda>(marker, s, e). s)
       (map (\<lambda>a. (CHR ''&'', mk_span a)) (filter (\<lambda>a. mk_name a = old) (anchors doc))
        @ map (\<lambda>a. (CHR ''*'', mk_span a)) (filter (\<lambda>a. mk_name a = old) (aliases doc)))"

fun stitch :: "string \<Rightarrow> string \<Rightarrow> nat \<Rightarrow> (char \<times> nat \<times> nat) list \<Rightarrow> string" where
  "stitch source new_name cursor [] = drop cursor source"
| "stitch source new_name cursor ((marker, s, e) # sites) =
     slice source cursor s @ [marker] @ new_name @ stitch source new_name e sites"

definition rename_anchor ::
  "(f64 \<Rightarrow> string) \<Rightarrow> (token_kind \<Rightarrow> string) \<Rightarrow> string \<Rightarrow> string \<Rightarrow> document \<Rightarrow> nat result \<times> document" where
  "rename_anchor fmt node_text old new_name doc =
     (if \<not> is_valid_anchor_name new_name
      then (Inl (Parse (''rename_anchor: '' @ ticked new_name @ '' is not a valid YAML anchor name ''
        @ ''(must be non-empty and free of flow indicators / whitespace)'')), doc)
      else if new_name \<noteq> old \<and> list_ex (\<lambda>a. mk_name a = new_name) (anchors doc)
      then (Inl (Parse (''rename_anchor: '' @ ticked (''&'' @ new_name) @ '' already declares a different anchor; renaming ''
        @ ticked old @ '' onto it would change alias resolution'')), doc)
      else
        let sites = rename_sites old doc; original = doc_source doc
        in if sites = []
           then (Inl (Parse (''rename_anchor: no '' @ ticked (''&'' @ old) @ '' declaration or '' @ ticked (''*'' @ old)
             @ '' reference found in the document'')), doc)
           else (case replace_span fmt node_text 0 (length original) (stitch original new_name 0 sites) doc of
                   (Inl e, doc) \<Rightarrow> (Inl e, doc)
                 | (Inr _, doc) \<Rightarrow> (Inr (length sites), doc)))"

section \<open>Edits inside a shared value\<close>

text \<open>
  The content next to the mark among its siblings: \<open>None\<close> when the mark is not among them, \<open>Some None\<close> when
  nothing follows it.
\<close>

fun content_after_mark :: "green_child list \<Rightarrow> nat \<Rightarrow> nat \<Rightarrow> bool \<Rightarrow> (nat \<times> nat) option option" where
  "content_after_mark [] pos mark_start seen_mark = (if seen_mark then Some None else None)"
| "content_after_mark (c # cs) pos mark_start seen_mark =
     (let after = pos + child_text_len c
      in if seen_mark
         then (case c of
                 ChildToken kind len \<Rightarrow>
                   (if kind \<in> {SWhitespace, SNewline, SComment, STagMark} then content_after_mark cs after mark_start True
                    else Some (Some (pos, after)))
               | ChildNode n \<Rightarrow> Some (Some (pos, after)))
         else content_after_mark cs after mark_start
           (pos = mark_start \<and> (case c of ChildToken kind len \<Rightarrow> kind = SAnchorMark | ChildNode n \<Rightarrow> False)))"

fun anchored_content_span :: "green_node \<Rightarrow> nat \<Rightarrow> nat \<Rightarrow> (nat \<times> nat) option"
  and anchored_in_children :: "green_child list \<Rightarrow> nat \<Rightarrow> nat \<Rightarrow> (nat \<times> nat) option" where
  "anchored_content_span (GreenNode kind len cs) base mark_start =
     (case content_after_mark cs base mark_start False of
        Some r \<Rightarrow> r
      | None \<Rightarrow> anchored_in_children cs base mark_start)"
| "anchored_in_children [] pos mark_start = None"
| "anchored_in_children (ChildToken kind len # cs) pos mark_start = anchored_in_children cs (pos + len) mark_start"
| "anchored_in_children (ChildNode n # cs) pos mark_start =
     (if pos \<le> mark_start \<and> mark_start < pos + gn_text_len n then anchored_content_span n pos mark_start
      else anchored_in_children cs (pos + gn_text_len n) mark_start)"

fun covering_anchor :: "document \<Rightarrow> nat \<Rightarrow> mark list \<Rightarrow> (string \<times> nat) option" where
  "covering_anchor doc pos [] = None"
| "covering_anchor doc pos (anchor # as) =
     (case anchored_content_span (doc_green doc) 0 (fst (mk_span anchor)) of
        None \<Rightarrow> covering_anchor doc pos as
      | Some (s, e) \<Rightarrow>
          if pos < s \<or> pos \<ge> e then covering_anchor doc pos as
          else let count = length (aliases_of (mk_name anchor) doc)
               in if count > 0 then Some (mk_name anchor, count) else covering_anchor doc pos as)"

definition aliased_anchor_covering :: "nat \<Rightarrow> document \<Rightarrow> (string \<times> nat) option" where
  "aliased_anchor_covering pos doc = covering_anchor doc pos (anchors doc)"

definition refuse_inside_aliased_anchor :: "string \<Rightarrow> string \<Rightarrow> nat \<Rightarrow> document \<Rightarrow> unit result" where
  "refuse_inside_aliased_anchor what path pos doc =
     (case aliased_anchor_covering pos doc of
        None \<Rightarrow> Inr ()
      | Some (anchor, alias_count) \<Rightarrow>
          Inl (Parse (what @ '': '' @ ticked path @ '' is inside the value anchored by '' @ ticked (''&'' @ anchor) @ '', which has ''
            @ show_nat alias_count @ '' alias reference(s) '' @ em_dash @ '' inserting here would insert at every ''
            @ ticked (''*'' @ anchor) @ '' site too; call '' @ ticked (''materialise_aliases_of('' @ [CHR 0x22] @ anchor @ [CHR 0x22] @ '')'')
            @ '' first to give each site its own copy, then insert'')))"

section \<open>Atomicity\<close>

text \<open>What an operation may do to a document: report an error and leave it, or give one that was reached.\<close>

definition edits_or_leaves ::
  "(f64 \<Rightarrow> string) \<Rightarrow> (token_kind \<Rightarrow> string) \<Rightarrow> parse_config \<Rightarrow> document \<Rightarrow> 'a result \<times> document \<Rightarrow> bool" where
  "edits_or_leaves fmt node_text config doc out \<longleftrightarrow>
     document_reachable fmt node_text config (snd out) \<and> (\<forall>e. fst out = Inl e \<longrightarrow> snd out = doc)"

lemma replace_span_edits:
  assumes "document_reachable fmt node_text config doc"
  shows "edits_or_leaves fmt node_text config doc (replace_span fmt node_text start stop replacement doc)"
proof -
  obtain r doc' where go: "replace_span fmt node_text start stop replacement doc = (r, doc')" by (meson surj_pair)
  show ?thesis using replace_span_outcome(1,2)[OF assms go] by (simp add: go edits_or_leaves_def)
qed

lemma refusal_leaves: "document_reachable fmt node_text config doc \<Longrightarrow> edits_or_leaves fmt node_text config doc (Inl e, doc)"
  by (simp add: edits_or_leaves_def)

lemma materialise_alias_edits:
  assumes "document_reachable fmt node_text config doc"
  shows "edits_or_leaves fmt node_text config doc (materialise_alias_at fmt node_text position doc)"
  using refusal_leaves[OF assms] replace_span_edits[OF assms]
  by (auto simp: materialise_alias_at_def split: option.splits sum.splits)

lemma rename_anchor_edits:
  assumes "document_reachable fmt node_text config doc"
  shows "edits_or_leaves fmt node_text config doc (rename_anchor fmt node_text old new_name doc)"
proof -
  let ?new = "replace_span fmt node_text 0 (length (doc_source doc)) (stitch (doc_source doc) new_name 0 (rename_sites old doc)) doc"
  have "edits_or_leaves fmt node_text config doc ?new" by (rule replace_span_edits[OF assms])
  then show ?thesis
    using refusal_leaves[OF assms] by (auto simp: rename_anchor_def Let_def edits_or_leaves_def split: prod.splits sum.splits)
qed

lemma materialise_all_reachable:
  "document_reachable fmt node_text config doc \<Longrightarrow> document_reachable fmt node_text config (snd (materialise_all fmt node_text targets doc))"
proof (induction targets arbitrary: doc)
  case (Cons pos targets)
  obtain r doc' where go: "materialise_alias_at fmt node_text pos doc = (r, doc')" by (meson surj_pair)
  then have "document_reachable fmt node_text config doc'"
    using materialise_alias_edits[OF Cons.prems, of pos] by (simp add: edits_or_leaves_def)
  then show ?case using Cons.IH go by (cases r) simp_all
qed simp

lemma materialise_aliases_reachable:
  assumes "document_reachable fmt node_text config doc"
  shows "document_reachable fmt node_text config (snd (materialise_aliases_of fmt node_text name doc))"
  using materialise_all_reachable[OF assms, of "rev (sort (map (\<lambda>a. fst (mk_span a)) (aliases_of name doc)))"]
  by (auto simp: materialise_aliases_of_def Let_def split: prod.splits sum.splits)

end
