(* ===== verification/Cst_Remove.thy ===== *)
theory Cst_Remove
  imports Cst_Anchors "HOL-Library.Sublist"
begin

text \<open>
  Removing an entry of a document (\<open>Document::remove\<close> in \<open>cst/document.rs\<close>): the bytes the entry owns, the four
  shapes of the splice, and the comparison of the typed view with the value that should be left.  The debug
  text of a key in a message is a parameter, \<open>quote\<close>.
\<close>

section \<open>Lines\<close>

definition end_of_line :: "string \<Rightarrow> nat \<Rightarrow> nat" where
  "end_of_line source pos =
     (let i = pos + length (takeWhile (\<lambda>c. c \<noteq> CHR 0x0A) (drop pos source)) in if i < length source then i + 1 else i)"

definition skip_line_indent :: "string \<Rightarrow> nat \<Rightarrow> nat" where
  "skip_line_indent source start = start + length (takeWhile inline_blank (drop start source))"

definition locate_preceding_dash :: "string \<Rightarrow> nat \<Rightarrow> nat option" where
  "locate_preceding_dash source value_start =
     (case dropWhile inline_blank (rev (take value_start source)) of
        [] \<Rightarrow> None
      | c # earlier \<Rightarrow> if c = CHR ''-'' then Some (length earlier) else None)"

definition locate_dash_at_or_across_break :: "string \<Rightarrow> nat \<Rightarrow> nat option" where
  "locate_dash_at_or_across_break source value_start =
     (if value_start < length source \<and> source ! value_start = CHR ''-'' then Some value_start
      else
        let i = value_start;
            i = (if i > 0 \<and> source ! (i - 1) = CHR 0x0A
                 then (if i - 1 > 0 \<and> source ! (i - 2) = CHR 0x0D then i - 2 else i - 1)
                 else i)
        in locate_preceding_dash source i)"

definition column_of :: "string \<Rightarrow> nat \<Rightarrow> nat" where
  "column_of source offset =
     (let start = line_start source offset; bom = (if start = 0 then strip_bom source else 0) in offset - (start + bom))"

section \<open>The bytes an entry owns\<close>

lemma line_start_lt:
  assumes "slice source (line_start source stop) stop = c # tail_bytes"
  shows "line_start source stop < stop"
proof (rule ccontr)
  assume "\<not> line_start source stop < stop"
  then show False using assms by (simp add: slice_def)
qed

lemma line_start_le: "line_start source pos \<le> pos"
  by (simp add: line_start_def Let_def)

lemma comment_line_lt:
  assumes "starts_with ''#'' (dropWhile yaml_blank (slice source (line_start source stop) stop))"
  shows "line_start source stop < stop"
proof (cases "slice source (line_start source stop) stop")
  case Nil
  then show ?thesis using assms by (simp add: starts_with_def)
qed (rule line_start_lt)

function owned_end_loop :: "string \<Rightarrow> nat \<Rightarrow> nat \<Rightarrow> nat" where
  "owned_end_loop source value_start stop =
     (let stop = snd (trim_trailing_blank source value_start stop); start = line_start source stop
      in if start \<le> value_start \<or> \<not> starts_with ''#'' (dropWhile yaml_blank (slice source start stop)) then stop
         else owned_end_loop source value_start start)"
  by pat_completeness auto

termination
proof (relation "measure (\<lambda>(source, value_start, stop). stop)", goal_cases)
  case (2 source value_start stop stop' start)
  then show ?case using comment_line_lt[of source stop'] by (auto simp: trim_trailing_blank_def)
qed simp

declare owned_end_loop.simps [simp del]

definition owned_value_end :: "string \<Rightarrow> nat \<Rightarrow> nat \<Rightarrow> nat" where
  "owned_value_end source value_start raw_value_end =
     (if is_keep_chomped_block_scalar source value_start raw_value_end then raw_value_end
      else owned_end_loop source value_start raw_value_end)"

function absorb_head_comments :: "string \<Rightarrow> nat \<Rightarrow> nat \<Rightarrow> nat" where
  "absorb_head_comments source start indent =
     (if start = 0 then 0
      else
        let prev_line_start = line_start source (start - 1);
            line = rev (dropWhile (\<lambda>c. c = CHR 0x0D) (rev (slice source prev_line_start (start - 1))));
            content = dropWhile inline_blank line
        in if \<not> starts_with ''#'' content \<or> length line - length content \<noteq> indent then start
           else absorb_head_comments source prev_line_start indent)"
  by pat_completeness auto

termination
proof (relation "measure (\<lambda>(source, start, indent). start)", goal_cases)
  case (2 source start indent prev_line_start line content)
  then show ?case using line_start_le[of source "start - 1"] by simp
qed simp

declare absorb_head_comments.simps [simp del]

definition owned_entry_range :: "string \<Rightarrow> nat \<Rightarrow> nat \<Rightarrow> nat \<Rightarrow> nat \<times> nat \<times> bool" where
  "owned_entry_range source entry_start value_start raw_value_end =
     (let value_end = owned_value_end source value_start raw_value_end;
          stop = (if value_end > 0 \<and> source ! (value_end - 1) = CHR 0x0A then value_end else end_of_line source value_end);
          first_line_start = line_start source entry_start;
          indent = entry_indent_column source entry_start;
          start = absorb_head_comments source first_line_start indent;
          body = slice source start stop;
          body = (if body \<noteq> [] \<and> last body = CHR 0x0A then butlast body else body)
      in (start, stop, CHR 0x0A \<in> set body))"

definition absorb_emptied_line :: "string \<Rightarrow> nat \<Rightarrow> nat \<Rightarrow> nat \<times> nat" where
  "absorb_emptied_line source start stop =
     (let first_byte = start - length (takeWhile (\<lambda>c. c \<noteq> CHR 0x0A) (rev (take start source)))
      in if \<not> list_all inline_blank (slice source first_byte start) then (start, stop)
         else let i = skip_line_indent source stop
              in if i < length source \<and> source ! i = CHR 0x0A then (first_byte, i + 1)
                 else if i + 1 < length source \<and> source ! i = CHR 0x0D \<and> source ! (i + 1) = CHR 0x0A then (first_byte, i + 2)
                 else (start, stop))"

definition flow_member_range :: "string \<Rightarrow> nat \<Rightarrow> nat \<Rightarrow> nat \<times> nat" where
  "flow_member_range source start stop =
     (let i = skip_line_indent source stop
      in if i < length source \<and> source ! i = CHR '','' then absorb_emptied_line source start (skip_line_indent source (i + 1))
         else let j = start - length (takeWhile inline_blank (rev (take start source)))
              in if j > 0 \<and> source ! (j - 1) = CHR '','' then absorb_emptied_line source (j - 1) stop
                 else absorb_emptied_line source start stop)"

definition is_flow_collection :: "string \<Rightarrow> nat \<Rightarrow> bool" where
  "is_flow_collection source start \<longleftrightarrow> start < length source \<and> (source ! start = CHR ''{'' \<or> source ! start = CHR ''['')"

definition collection_span_trimmed :: "string \<Rightarrow> nat \<Rightarrow> nat \<Rightarrow> nat \<times> nat" where
  "collection_span_trimmed source start stop = (start, max (length (dropWhile yaml_blank (rev (take stop source)))) start)"

definition sole_entry_range :: "string \<Rightarrow> nat \<Rightarrow> nat \<Rightarrow> nat option \<Rightarrow> nat \<times> nat \<times> nat" where
  "sole_entry_range source coll_start coll_end parent_key =
     (let (start, stop) = collection_span_trimmed source coll_start coll_end
      in if is_flow_collection source coll_start then (start, stop, 0)
         else
           let first_byte = line_start source coll_start;
               own_indent = coll_start - first_byte;
               indent = (case parent_key of
                           None \<Rightarrow> own_indent
                         | Some key \<Rightarrow> if own_indent \<le> column_of source key then column_of source key + 2 else own_indent)
           in (absorb_head_comments source first_byte own_indent, stop, indent))"

section \<open>The splice of a removal\<close>

datatype removal =
    Line nat nat bool
  | FlowMember nat nat
  | SpanWithinLine nat nat
  | SoleEntry nat nat string nat

fun removal_start :: "removal \<Rightarrow> nat" where
  "removal_start (Line start stop multiline) = start"
| "removal_start (FlowMember start stop) = start"
| "removal_start (SpanWithinLine start stop) = start"
| "removal_start (SoleEntry start stop spelling indent) = start"

fun removal_splice :: "removal \<Rightarrow> nat \<times> nat \<times> bool \<times> string" where
  "removal_splice (Line start stop multiline) = (start, stop, multiline, [])"
| "removal_splice (FlowMember start stop) = (start, stop, True, [])"
| "removal_splice (SpanWithinLine start stop) = (start, stop, True, [])"
| "removal_splice (SoleEntry start stop spelling indent) = (start, stop, True, replicate indent CHR '' '' @ spelling)"

fun is_line :: "removal \<Rightarrow> bool" where
  "is_line (Line start stop multiline) = True"
| "is_line _ = False"

definition not_found :: error where
  "not_found = Parse ''path not found''"

definition missing_key :: "(string \<Rightarrow> string) \<Rightarrow> string \<Rightarrow> error" where
  "missing_key quote k = Parse (''path not found: missing key '' @ quote k)"

definition out_of_bounds :: "nat \<Rightarrow> error" where
  "out_of_bounds i = Parse (''path not found: index '' @ show_nat i @ '' out of bounds'')"

definition merge_provided_key :: "(string \<Rightarrow> string) \<Rightarrow> string \<Rightarrow> error" where
  "merge_provided_key quote k =
     Parse (''remove: key '' @ quote k @ '' was produced by a '' @ ticked ''<<'' @ '' merge key and has no entry of its own to remove ''
       @ ''in this mapping '' @ em_dash @ '' remove it at the anchor's definition, or override it here explicitly'')"

text \<open>One step down: the child with its tree, and the start of the key it is the value of.\<close>

definition descend_entry ::
  "(string \<Rightarrow> string) \<Rightarrow> value \<Rightarrow> span_tree \<Rightarrow> query_segment \<Rightarrow> (value \<times> span_tree \<times> nat option) result" where
  "descend_entry quote v t seg =
     (case (seg, v, t) of
        (Key k, VMapping m, SpanMapping s e entries) \<Rightarrow>
          (case imap_index_of m k of
             None \<Rightarrow> Inl (missing_key quote k)
           | Some pos \<Rightarrow>
               if pos \<ge> length entries then Inl (merge_provided_key quote k)
               else Inr (snd (m ! pos), snd (entries ! pos), Some (fst (fst (entries ! pos)))))
      | (Index i, VSequence xs, SpanSequence s e items) \<Rightarrow>
          if i \<ge> length xs \<or> i \<ge> length items then Inl (out_of_bounds i) else Inr (xs ! i, items ! i, None)
      | _ \<Rightarrow> Inl not_found)"

definition span_tree_bounds :: "span_tree \<Rightarrow> nat \<times> nat" where
  "span_tree_bounds t = (span_tree_start t, span_tree_end t)"

definition own_value_bounds :: "span_tree \<Rightarrow> nat \<times> nat" where
  "own_value_bounds t = (case t of SpanAlias at target \<Rightarrow> at | _ \<Rightarrow> span_tree_bounds t)"

text \<open>The removal of a key of a mapping.\<close>

definition mapping_removal ::
  "(string \<Rightarrow> string) \<Rightarrow> string \<Rightarrow> nat option \<Rightarrow> mapping \<Rightarrow> nat \<Rightarrow> nat \<Rightarrow> ((nat \<times> nat) \<times> span_tree) list \<Rightarrow> string \<Rightarrow> removal result" where
  "mapping_removal quote source parent_key m coll_start coll_end entries k =
     (case imap_index_of m k of
        None \<Rightarrow> Inl (missing_key quote k)
      | Some pos \<Rightarrow>
          if pos \<ge> length entries then Inl (merge_provided_key quote k)
          else
            let ((key_start, key_end), child) = entries ! pos;
                ((first_start, first_end), first_tree) = hd entries
            in if length m \<le> 1 \<and> \<not> is_flow_collection source coll_start \<and> locate_preceding_dash source first_start \<noteq> None
               then (let (vs, rve) = span_tree_bounds first_tree
                     in Inr (SoleEntry first_start (owned_value_end source vs rve) ''{}'' 0))
               else if length m \<le> 1
               then (let (start, stop, indent) = sole_entry_range source coll_start coll_end parent_key
                     in Inr (SoleEntry start stop ''{}'' indent))
               else
                 let (value_start, raw_value_end) = own_value_bounds child
                 in if is_flow_collection source coll_start
                    then (let (s, e) = flow_member_range source key_start (owned_value_end source value_start raw_value_end)
                          in Inr (FlowMember s e))
                    else
                      let (start, stop, multiline) = owned_entry_range source key_start value_start raw_value_end
                      in if locate_preceding_dash source key_start \<noteq> None
                         then Inr (SpanWithinLine key_start (skip_line_indent source stop))
                         else Inr (Line start stop multiline))"

text \<open>The removal of an item of a sequence.\<close>

definition sequence_removal ::
  "string \<Rightarrow> nat option \<Rightarrow> value list \<Rightarrow> nat \<Rightarrow> nat \<Rightarrow> span_tree list \<Rightarrow> nat \<Rightarrow> removal result" where
  "sequence_removal source parent_key xs coll_start coll_end items i =
     (if i \<ge> length xs then Inl (out_of_bounds i)
      else if length xs \<le> 1
      then (let (start, stop, indent) = sole_entry_range source coll_start coll_end parent_key
            in Inr (SoleEntry start stop ''[]'' indent))
      else if i \<ge> length items then Inl (out_of_bounds i)
      else
        let (value_start, raw_value_end) = own_value_bounds (items ! i)
        in if is_flow_collection source coll_start
           then (let (s, e) = flow_member_range source value_start (owned_value_end source value_start raw_value_end)
                 in Inr (FlowMember s e))
           else
             (case (case locate_preceding_dash source value_start of
                      Some d \<Rightarrow> Some d
                    | None \<Rightarrow> if value_start = raw_value_end then locate_dash_at_or_across_break source value_start else None) of
                None \<Rightarrow> Inl (Parse ''remove: could not locate '-' indicator preceding sequence item'')
              | Some dash_pos \<Rightarrow>
                  let (start, stop, multiline) = owned_entry_range source dash_pos value_start raw_value_end
                  in if locate_preceding_dash source dash_pos \<noteq> None
                     then Inr (SpanWithinLine dash_pos (skip_line_indent source stop))
                     else Inr (Line start stop multiline)))"

fun entry_line_span ::
  "(string \<Rightarrow> string) \<Rightarrow> value \<Rightarrow> span_tree \<Rightarrow> string \<Rightarrow> query_segment list \<Rightarrow> nat option \<Rightarrow> removal result" where
  "entry_line_span quote v t source [] parent_key =
     Inl (Parse ''remove requires a non-empty path (cannot remove the document root)'')"
| "entry_line_span quote v t source [seg] parent_key =
     (case (seg, v, t) of
        (Key k, VMapping m, SpanMapping s e entries) \<Rightarrow> mapping_removal quote source parent_key m s e entries k
      | (Index i, VSequence xs, SpanSequence s e items) \<Rightarrow> sequence_removal source parent_key xs s e items i
      | _ \<Rightarrow> Inl not_found)"
| "entry_line_span quote v t source (seg # segs) parent_key =
     and_then (descend_entry quote v t seg) (\<lambda>(w, u, key). entry_line_span quote w u source segs key)"

section \<open>The key of an entry\<close>

definition no_own_entry :: "(string \<Rightarrow> string) \<Rightarrow> string \<Rightarrow> error" where
  "no_own_entry quote k =
     Parse (''rename_key: key '' @ quote k @ '' was produced by a '' @ ticked ''<<'' @ '' merge key and has no entry of its own to rename ''
       @ ''in this mapping'')"

definition key_entry :: "(string \<Rightarrow> string) \<Rightarrow> mapping \<Rightarrow> ((nat \<times> nat) \<times> span_tree) list \<Rightarrow> string \<Rightarrow> nat result" where
  "key_entry quote m entries k =
     (case imap_index_of m k of
        None \<Rightarrow> Inl (missing_key quote k)
      | Some pos \<Rightarrow> if pos \<ge> length entries then Inl (no_own_entry quote k) else Inr pos)"

fun entry_key_site ::
  "(string \<Rightarrow> string) \<Rightarrow> value \<Rightarrow> span_tree \<Rightarrow> query_segment list \<Rightarrow> string \<Rightarrow> (nat \<times> nat) result" where
  "entry_key_site quote v (SpanAlias at target) segs new_key =
     Inl (Parse (''rename_key: the path addresses alias-expanded content '' @ em_dash @ '' an '' @ ticked ''*name''
       @ '' site reflects the anchor's entries and owns no key bytes of its own; rename the corresponding ''
       @ ''entry at the anchor's own definition instead''))"
| "entry_key_site quote v t [] new_key = Inl (Parse ''rename_key requires a non-empty path addressing a mapping entry'')"
| "entry_key_site quote v t [seg] new_key =
     (case (seg, v, t) of
        (Key k, VMapping m, SpanMapping s e entries) \<Rightarrow>
          (case imap_index_of m k of
             None \<Rightarrow> Inl (missing_key quote k)
           | Some pos \<Rightarrow>
               (case imap_index_of m new_key of
                  Some new_pos \<Rightarrow>
                    if k \<noteq> new_key
                    then Inl (Parse (if new_pos \<ge> length entries
                           then ''rename_key: '' @ quote new_key @ '' is provided by a '' @ ticked ''<<'' @ '' merge key in this mapping ''
                             @ em_dash @ '' renaming '' @ quote k @ '' to it would create an explicit entry that overrides the merged ''
                             @ ''value instead of renaming in place''
                           else ''rename_key: the mapping already has an entry named '' @ quote new_key @ '' '' @ em_dash
                             @ '' renaming '' @ quote k @ '' would create a duplicate key''))
                    else and_then (key_entry quote m entries k) (\<lambda>pos. Inr (fst (entries ! pos)))
                | None \<Rightarrow> and_then (key_entry quote m entries k) (\<lambda>pos. Inr (fst (entries ! pos)))))
      | (Index i, _, _) \<Rightarrow> Inl (Parse ''rename_key: path must address a mapping entry, not a sequence item'')
      | _ \<Rightarrow> Inl not_found)"
| "entry_key_site quote v t (seg # segs) new_key =
     (case (seg, v, t) of
        (Key k, VMapping m, SpanMapping s e entries) \<Rightarrow>
          and_then (key_entry quote m entries k) (\<lambda>pos. entry_key_site quote (snd (m ! pos)) (snd (entries ! pos)) segs new_key)
      | (Index i, VSequence xs, SpanSequence s e items) \<Rightarrow>
          if i \<ge> length xs \<or> i \<ge> length items then Inl (out_of_bounds i)
          else entry_key_site quote (xs ! i) (items ! i) segs new_key
      | _ \<Rightarrow> Inl not_found)"

definition key_span_sentinel :: string where
  "key_span_sentinel = [CHR 0x00, CHR 0x00] @ ''noyalib::key_span sentinel'' @ [CHR 0x00, CHR 0x00]"

definition key_span ::
  "(f64 \<Rightarrow> string) \<Rightarrow> (token_kind \<Rightarrow> string) \<Rightarrow> (string \<Rightarrow> string) \<Rightarrow> string \<Rightarrow> document \<Rightarrow> ((nat \<times> nat) option \<times> document) option" where
  "key_span fmt node_text quote path doc =
     (let segments = parse_query_path path
      in if segments = [] then Some (None, doc)
         else Option.bind (ensure_cache fmt node_text doc) (\<lambda>doc.
              Option.bind (doc_cache doc) (\<lambda>(v, spans).
                Some (case entry_key_site quote v spans segments key_span_sentinel of
                        Inr (s, e) \<Rightarrow> if s \<noteq> e then Some (s, e) else None
                      | Inl _ \<Rightarrow> None, doc))))"

section \<open>What should be left\<close>

text \<open>A change of the value at a path.\<close>

fun modify_at ::
  "(string \<Rightarrow> string) \<Rightarrow> error \<Rightarrow> (value \<Rightarrow> value result) \<Rightarrow> value \<Rightarrow> query_segment list \<Rightarrow> value result" where
  "modify_at quote mismatch f v [] = f v"
| "modify_at quote mismatch f (VMapping m) (Key k # segs) =
     (case imap_get m k of
        None \<Rightarrow> Inl (missing_key quote k)
      | Some child \<Rightarrow> and_then (modify_at quote mismatch f child segs) (\<lambda>w. Inr (VMapping (imap_insert k w m))))"
| "modify_at quote mismatch f (VSequence s) (Index i # segs) =
     (if i < length s then and_then (modify_at quote mismatch f (s ! i) segs) (\<lambda>w. Inr (VSequence (s[i := w])))
      else Inl (out_of_bounds i))"
| "modify_at quote mismatch f v (seg # segs) = Inl mismatch"

definition remove_entry :: "query_segment \<Rightarrow> value \<Rightarrow> value result" where
  "remove_entry seg v =
     (case (seg, v) of
        (Key k, VMapping m) \<Rightarrow> Inr (VMapping (imap_extend [] (filter (\<lambda>(mk, mv). mk \<noteq> k) m)))
      | (Index i, VSequence s) \<Rightarrow> if i \<ge> length s then Inl (out_of_bounds i) else Inr (VSequence (take i s @ drop (Suc i) s))
      | _ \<Rightarrow> Inl not_found)"

definition expected_after_remove :: "(string \<Rightarrow> string) \<Rightarrow> value \<Rightarrow> query_segment list \<Rightarrow> value result" where
  "expected_after_remove quote v segs =
     (if segs = [] then Inl (Parse ''remove requires a non-empty path'')
      else modify_at quote not_found (remove_entry (last segs)) v (butlast segs))"

definition oracle_rejects :: "value \<Rightarrow> value \<Rightarrow> bool" where
  "oracle_rejects actual expected \<longleftrightarrow> \<not> value_eq actual expected"

text \<open>An edited document is kept when it loads as the expected value, and is dropped for the snapshot otherwise.\<close>

definition keep_if_expected ::
  "(f64 \<Rightarrow> string) \<Rightarrow> (token_kind \<Rightarrow> string) \<Rightarrow> (error \<Rightarrow> error) \<Rightarrow> error \<Rightarrow> value \<Rightarrow> document \<Rightarrow> document
     \<Rightarrow> (unit result \<times> document) option" where
  "keep_if_expected fmt node_text unreadable rejected expected snapshot doc =
     (case validate fmt node_text doc of
        (Inl e, doc) \<Rightarrow> Some (Inl (unreadable e), snapshot)
      | (Inr _, doc) \<Rightarrow>
          Option.bind (as_value fmt node_text doc) (\<lambda>(actual, doc).
            if oracle_rejects actual expected then Some (Inl rejected, snapshot) else Some (Inr (), doc)))"

section \<open>Removing\<close>

definition removing :: "string \<Rightarrow> string \<Rightarrow> error" where
  "removing path what = Parse (''remove: removing '' @ ticked path @ what)"

definition guarded_remove ::
  "(f64 \<Rightarrow> string) \<Rightarrow> (token_kind \<Rightarrow> string) \<Rightarrow> (string \<Rightarrow> string) \<Rightarrow> string \<Rightarrow> query_segment list \<Rightarrow> nat \<Rightarrow> nat \<Rightarrow> string \<Rightarrow> document
     \<Rightarrow> (unit result \<times> document) option" where
  "guarded_remove fmt node_text quote path segments start stop replacement doc =
     Option.bind (doc_cache doc) (\<lambda>(v, spans).
       case expected_after_remove quote v segments of
         Inl e \<Rightarrow> Some (Inl e, doc)
       | Inr expected \<Rightarrow>
           let snapshot = doc
           in case replace_span fmt node_text start stop replacement doc of
                (Inl e, doc) \<Rightarrow>
                  Some (Inl (removing path ('' could not be spliced ('' @ error_display fmt e @ ''); the document was left unchanged'')), snapshot)
              | (Inr _, doc) \<Rightarrow>
                  keep_if_expected fmt node_text
                    (\<lambda>e. removing path ('' left the document unable to re-parse ('' @ error_display fmt e @ ''); the document was left unchanged''))
                    (removing path ('' failed the integrity check '' @ em_dash @ '' the edit would change data beyond the removed entry; ''
                       @ ''the document was left unchanged''))
                    expected snapshot doc)"

definition document_remove ::
  "(f64 \<Rightarrow> string) \<Rightarrow> (token_kind \<Rightarrow> string) \<Rightarrow> (string \<Rightarrow> string) \<Rightarrow> string \<Rightarrow> document \<Rightarrow> (unit result \<times> document) option" where
  "document_remove fmt node_text quote path doc =
     Option.bind (ensure_cache fmt node_text doc) (\<lambda>doc.
     Option.bind (doc_cache doc) (\<lambda>(v, spans).
       let segments = parse_query_path path; source = doc_source doc
       in case entry_line_span quote v spans source segments None of
            Inl e \<Rightarrow> Some (Inl e, doc)
          | Inr removal \<Rightarrow>
              let first_byte = removal_start removal;
                  probe = first_byte + length (takeWhile (\<lambda>c. c = CHR '' '') (drop first_byte source))
              in case refuse_inside_aliased_anchor ''remove'' path probe doc of
                   Inl e \<Rightarrow> Some (Inl e, doc)
                 | Inr _ \<Rightarrow>
                     let (start, stop, multiline, replacement) = removal_splice removal
                     in Option.bind (if is_line removal then key_span fmt node_text quote path doc else Some (None, doc)) (\<lambda>(key, doc).
                          let owns_its_line = (case key of None \<Rightarrow> False | Some (ks, ke) \<Rightarrow> list_all yaml_blank (slice source start ks))
                          in if \<not> multiline \<and> owns_its_line then Some (replace_span fmt node_text start stop [] doc)
                             else guarded_remove fmt node_text quote path segments start stop replacement doc)))"

section \<open>What is left is what should be\<close>

definition unchanged_outside :: "query_segment list \<Rightarrow> value \<Rightarrow> value \<Rightarrow> bool" where
  "unchanged_outside p v w \<longleftrightarrow> (\<forall>q. parallel q p \<longrightarrow> rel_option value_eq (typed_value_at w q) (typed_value_at v q))"

text \<open>The entry at a path is gone, its siblings and everything outside its collection are as they were.\<close>

definition entry_removed :: "query_segment list \<Rightarrow> value \<Rightarrow> value \<Rightarrow> bool" where
  "entry_removed segs v w \<longleftrightarrow>
     segs \<noteq> [] \<and> unchanged_outside (butlast segs) v w
     \<and> (case last segs of
          Key k \<Rightarrow>
            (\<exists>m m'. typed_value_at v (butlast segs) = Some (VMapping m) \<and> typed_value_at w (butlast segs) = Some (VMapping m')
               \<and> imap_get m' k = None \<and> (\<forall>j. j \<noteq> k \<longrightarrow> rel_option value_eq (imap_get m' j) (imap_get m j)))
        | Index i \<Rightarrow>
            (\<exists>xs ys. typed_value_at v (butlast segs) = Some (VSequence xs) \<and> typed_value_at w (butlast segs) = Some (VSequence ys)
               \<and> i < length xs \<and> list_all2 value_eq ys (take i xs @ drop (Suc i) xs))
        | _ \<Rightarrow> False)"

text \<open>A range that is one line, or part of one, with nothing but blanks before the key of the entry at a path.\<close>

definition owns_single_line ::
  "(f64 \<Rightarrow> string) \<Rightarrow> (token_kind \<Rightarrow> string) \<Rightarrow> (string \<Rightarrow> string) \<Rightarrow> string \<Rightarrow> nat \<Rightarrow> nat \<Rightarrow> document \<Rightarrow> bool" where
  "owns_single_line fmt node_text quote path start stop doc \<longleftrightarrow>
     CHR 0x0A \<notin> set (butlast (slice (doc_source doc) start stop))
     \<and> (\<exists>ks ke. key_span fmt node_text quote path doc = Some (Some (ks, ke), doc)
          \<and> start \<le> ks \<and> list_all yaml_blank (slice (doc_source doc) start ks))"

lemma wf_typed_value_at: "wf_value v \<Longrightarrow> typed_value_at v q = Some x \<Longrightarrow> wf_value x"
  by (induction v q rule: typed_value_at.induct)
    (auto simp: list_all_iff Option.bind_eq_Some_conv dest: imap_get_in_set split: if_splits)

lemma parallel_Cons_same [simp]: "parallel (seg # q) (seg # p) \<longleftrightarrow> parallel q p"
  by (simp add: parallel_def)

lemma wf_entry: "wf_value (VMapping m) \<Longrightarrow> imap_get m k = Some x \<Longrightarrow> wf_value x"
  by (auto dest!: imap_get_in_set simp: list_all_iff)

lemma value_eq_lookup:
  "value_eq w v \<Longrightarrow> wf_value w \<Longrightarrow> wf_value v \<Longrightarrow> rel_option value_eq (typed_value_at w q) (typed_value_at v q)"
proof (induction q arbitrary: w v)
  case (Cons seg q)
  show ?case
  proof (cases w)
    case (VMapping m)
    then obtain m' where v: "v = VMapping m'" using Cons.prems(1) by (cases v) simp_all
    show ?thesis
    proof (cases seg)
      case (Key k)
      have "rel_option value_eq (imap_get m k) (imap_get m' k)"
        using mapping_eq_lookup[of m m' k] Cons.prems VMapping v by simp
      then show ?thesis
        using Cons.IH Cons.prems VMapping v Key
        by (cases rule: option.rel_cases) (auto simp del: value_eq.simps wf_value.simps dest: wf_entry)
    qed (simp_all add: VMapping v)
  next
    case (VSequence s)
    then obtain s' where v: "v = VSequence s'" "list_all2 value_eq s s'" using Cons.prems(1) by (cases v) simp_all
    then show ?thesis
      using Cons.IH Cons.prems VSequence by (cases seg) (auto simp: list_all2_conv_all_nth list_all_length)
  qed (use Cons.prems(1) in \<open>cases v; cases seg; simp\<close>)+
qed simp

lemma modify_at_effect:
  assumes "modify_at quote mismatch f v p = Inr u" and "wf_value v"
  shows "\<exists>x y. typed_value_at v p = Some x \<and> f x = Inr y \<and> typed_value_at u p = Some y
     \<and> (\<forall>q. parallel q p \<longrightarrow> typed_value_at u q = typed_value_at v q) \<and> (wf_value y \<longrightarrow> wf_value u)"
  using assms
proof (induction quote mismatch f v p arbitrary: u rule: modify_at.induct)
  case (2 quote mismatch f m k segs)
  then obtain child w where child: "imap_get m k = Some child" and w: "modify_at quote mismatch f child segs = Inr w"
    and u: "u = VMapping (imap_insert k w m)" by (auto simp: res_simps split: option.splits)
  have "wf_value child" using 2(3) child by (rule wf_entry)
  then obtain x y where ih: "typed_value_at child segs = Some x" "f x = Inr y" "typed_value_at w segs = Some y"
      "\<And>q. parallel q segs \<Longrightarrow> typed_value_at w q = typed_value_at child q" "wf_value y \<Longrightarrow> wf_value w"
    using "2.IH"[OF child w] by auto
  have "typed_value_at u q = typed_value_at (VMapping m) q" if "parallel q (Key k # segs)" for q
    using that ih(4) child by (cases q; cases "hd q") (auto simp: u omap_simps)
  moreover have "wf_value u" if "wf_value w"
    using that 2(3) imap_insert_set[of k w m] by (fastforce simp: u omap_simps list_all_iff)
  ultimately show ?case using ih child by (auto simp: u omap_simps)
next
  case (3 quote mismatch f s i segs)
  then obtain w where i: "i < length s" and w: "modify_at quote mismatch f (s ! i) segs = Inr w" and u: "u = VSequence (s[i := w])"
    by (auto simp: res_simps split: if_splits)
  have "wf_value (s ! i)" using 3(3) i by (simp add: list_all_length)
  then obtain x y where ih: "typed_value_at (s ! i) segs = Some x" "f x = Inr y" "typed_value_at w segs = Some y"
      "\<And>q. parallel q segs \<Longrightarrow> typed_value_at w q = typed_value_at (s ! i) q" "wf_value y \<Longrightarrow> wf_value w"
    using "3.IH"[OF i w] by auto
  have "typed_value_at u q = typed_value_at (VSequence s) q" if "parallel q (Index i # segs)" for q
    using that ih(4) i by (cases q; cases "hd q") (auto simp: u nth_list_update)
  moreover have "wf_value u" if "wf_value w"
    using that 3(3) set_update_subset_insert[of s i w] by (fastforce simp: u list_all_iff)
  ultimately show ?case using ih i by (auto simp: u)
qed auto

lemma imap_extend_fresh: "imap_valid (m @ xs) \<Longrightarrow> imap_extend m xs = m @ xs"
proof (induction xs arbitrary: m)
  case (Cons kv xs)
  then have "imap_get m (fst kv) = None" by (auto simp: imap_valid_def imap_get_None_iff)
  then show ?case
    using Cons.IH[of "m @ [kv]"] Cons.prems by (cases kv) (simp add: imap_extend_def imap_insert_absent)
qed (simp add: imap_extend_def)

lemma imap_valid_filter: "imap_valid m \<Longrightarrow> imap_valid (filter p m)"
  by (simp add: imap_valid_def distinct_map_filter)

lemma without_key:
  assumes "imap_valid m"
  shows "imap_extend [] (filter (\<lambda>(mk, mv). mk \<noteq> k) m) = filter (\<lambda>(mk, mv). mk \<noteq> k) m"
  by (simp add: imap_extend_fresh[of "[]", simplified] imap_valid_filter assms)

lemma without_key_lookup: "imap_get (filter (\<lambda>(mk, mv). mk \<noteq> k) m) j = (if j = k then None else imap_get m j)"
  by (induction m) auto

lemma remove_entry_wf: "remove_entry seg x = Inr y \<Longrightarrow> wf_value x \<Longrightarrow> wf_value y"
  by (auto simp: remove_entry_def without_key imap_valid_filter list_all_iff split: query_segment.splits "value.splits" if_splits
      dest!: in_set_takeD in_set_dropD)

lemma removed_shape:
  assumes "remove_entry seg x = Inr y" and "wf_value x" and "value_eq z y" and "wf_value z"
  shows "case seg of
           Key k \<Rightarrow> (\<exists>m m'. x = VMapping m \<and> z = VMapping m' \<and> imap_get m' k = None
             \<and> (\<forall>j. j \<noteq> k \<longrightarrow> rel_option value_eq (imap_get m' j) (imap_get m j)))
         | Index i \<Rightarrow> (\<exists>xs ys. x = VSequence xs \<and> z = VSequence ys \<and> i < length xs \<and> list_all2 value_eq ys (take i xs @ drop (Suc i) xs))
         | _ \<Rightarrow> False"
proof (cases seg)
  case (Key k)
  then obtain m where x: "x = VMapping m" and y: "y = VMapping (filter (\<lambda>(mk, mv). mk \<noteq> k) m)"
    using assms(1,2) by (cases x) (auto simp: remove_entry_def without_key)
  obtain m' where z: "z = VMapping m'" using assms(3) y by (cases z) simp_all
  have "rel_option value_eq (imap_get m' j) (if j = k then None else imap_get m j)" for j
    using mapping_eq_lookup[of m' "filter (\<lambda>(mk, mv). mk \<noteq> k) m" j] assms(2-4) x y z
    by (simp add: without_key_lookup imap_valid_filter)
  note found = this
  have "imap_get m' k = None" using found[of k] by simp
  moreover have "\<forall>j. j \<noteq> k \<longrightarrow> rel_option value_eq (imap_get m' j) (imap_get m j)"
  proof (intro allI impI)
    fix j assume "j \<noteq> k"
    then show "rel_option value_eq (imap_get m' j) (imap_get m j)" using found[of j] by simp
  qed
  ultimately show ?thesis by (simp add: Key x z)
next
  case (Index i)
  then obtain xs where "x = VSequence xs" "i < length xs" "y = VSequence (take i xs @ drop (Suc i) xs)"
    using assms(1) by (cases x) (auto simp: remove_entry_def split: if_splits)
  then show ?thesis using assms(3) Index by (cases z) simp_all
qed (use assms(1) in \<open>simp_all add: remove_entry_def\<close>)

lemma expected_entry_removed:
  assumes "expected_after_remove quote v segs = Inr u" and "wf_value v" and "value_eq w u" and "wf_value w"
  shows "entry_removed segs v w"
proof -
  let ?p = "butlast segs"
  have ne: "segs \<noteq> []" and go: "modify_at quote not_found (remove_entry (last segs)) v ?p = Inr u"
    using assms(1) by (auto simp: expected_after_remove_def split: if_splits)
  obtain x y where x: "typed_value_at v ?p = Some x" and y: "remove_entry (last segs) x = Inr y" "typed_value_at u ?p = Some y"
    and same: "\<And>q. parallel q ?p \<Longrightarrow> typed_value_at u q = typed_value_at v q" and wf: "wf_value y \<Longrightarrow> wf_value u"
    using modify_at_effect[OF go assms(2)] by blast
  have wf_x: "wf_value x" by (rule wf_typed_value_at[OF assms(2) x])
  have wf_y: "wf_value y" by (rule remove_entry_wf[OF y(1) wf_x])
  note looked = value_eq_lookup[OF assms(3,4) wf[OF wf_y]]
  have "unchanged_outside ?p v w" using looked same by (metis unchanged_outside_def)
  moreover obtain z where z: "typed_value_at w ?p = Some z" "value_eq z y" using looked[of ?p] y(2) by (auto simp: option_rel_Some2)
  ultimately show ?thesis
    using ne x y(1) wf_x removed_shape[OF y(1) wf_x z(2) wf_typed_value_at[OF assms(4) z(1)]] z(1)
    by (auto simp: entry_removed_def split: query_segment.splits)
qed

lemma keep_if_expected_outcome:
  assumes "document_reachable fmt node_text config doc"
  shows "(\<exists>e. keep_if_expected fmt node_text unreadable rejected expected snapshot doc = Some (Inl e, snapshot))
     \<or> (\<exists>w. keep_if_expected fmt node_text unreadable rejected expected snapshot doc = Some (Inr (), doc)
          \<and> as_value fmt node_text doc = Some (w, doc) \<and> wf_value w \<and> value_eq w expected)"
proof -
  obtain v where "doc_cache doc \<noteq> None" "as_value fmt node_text doc = Some (v, doc)" "wf_value v"
    using reachable_cached[OF assms] by (metis option.distinct(1))
  then show ?thesis by (simp add: keep_if_expected_def validate_def oracle_rejects_def)
qed

lemma key_span_keeps:
  assumes "document_reachable fmt node_text config doc"
  obtains key where "key_span fmt node_text quote path doc = Some (key, doc)"
proof -
  obtain v spans where "doc_cache doc = Some (v, spans)" "ensure_cache fmt node_text doc = Some doc"
    by (rule reachable_cached[OF assms])
  then show thesis using that by (cases "parse_query_path path = []") (simp_all add: key_span_def Let_def)
qed

lemma guarded_remove_outcome:
  assumes "document_reachable fmt node_text config doc" and v: "as_value fmt node_text doc = Some (v, doc)"
  shows "case guarded_remove fmt node_text quote path segs start stop replacement doc of
           None \<Rightarrow> False
         | Some (Inl e, doc') \<Rightarrow> doc' = doc
         | Some (Inr _, doc') \<Rightarrow>
             document_reachable fmt node_text config doc' \<and> doc_source doc' = splice_text (doc_source doc) start stop replacement
             \<and> (\<exists>w. as_value fmt node_text doc' = Some (w, doc') \<and> entry_removed segs v w)"
proof -
  obtain v' spans where c: "doc_cache doc = Some (v', spans)" "as_value fmt node_text doc = Some (v', doc)" "wf_value v'"
    using reachable_cached[OF assms(1)] by metis
  then have [simp]: "v' = v" using v by simp
  show ?thesis
  proof (cases "expected_after_remove quote v segs")
    case (Inl e)
    then show ?thesis by (simp add: guarded_remove_def c)
  next
    case (Inr expected)
    obtain r doc' where go: "replace_span fmt node_text start stop replacement doc = (r, doc')" by (meson surj_pair)
    note outcome = replace_span_outcome[OF assms(1) go]
    show ?thesis
    proof (cases r)
      case (Inl e)
      then show ?thesis using go by (simp add: guarded_remove_def c \<open>expected_after_remove quote v segs = Inr expected\<close>)
    next
      case (Inr u)
      have "\<exists>f g. guarded_remove fmt node_text quote path segs start stop replacement doc
          = keep_if_expected fmt node_text f g expected doc doc'"
        by (simp add: guarded_remove_def c go \<open>r = Inr u\<close> \<open>expected_after_remove quote v segs = Inr expected\<close>) (intro exI, rule refl)
      then obtain f g where eq: "guarded_remove fmt node_text quote path segs start stop replacement doc
          = keep_if_expected fmt node_text f g expected doc doc'" by blast
      show ?thesis
        using keep_if_expected_outcome[OF outcome(1), of f g expected doc] outcome(1) outcome(3)[OF Inr]
          expected_entry_removed[OF \<open>expected_after_remove quote v segs = Inr expected\<close>] c(3)
        by (auto simp: eq)
    qed
  qed
qed

lemma owned_range_line:
  "owned_entry_range source a b c = (start, stop, False) \<Longrightarrow> CHR 0x0A \<notin> set (butlast (slice source start stop))"
  by (auto simp: owned_entry_range_def Let_def split: if_splits dest: in_set_butlastD)

lemma mapping_removal_line:
  "mapping_removal quote source key m s e entries k = Inr (Line start stop False) \<Longrightarrow> CHR 0x0A \<notin> set (butlast (slice source start stop))"
  by (auto simp: mapping_removal_def Let_def split: option.splits if_splits prod.splits dest: owned_range_line)

lemma sequence_removal_line:
  "sequence_removal source key xs s e items i = Inr (Line start stop False) \<Longrightarrow> CHR 0x0A \<notin> set (butlast (slice source start stop))"
  by (auto simp: sequence_removal_def Let_def split: option.splits if_splits prod.splits dest: owned_range_line)

lemma entry_line_span_line:
  "entry_line_span quote v t source segs key = Inr (Line start stop False) \<Longrightarrow> CHR 0x0A \<notin> set (butlast (slice source start stop))"
proof (induction quote v t source segs key rule: entry_line_span.induct)
  case (2 quote v t source seg key)
  then show ?case
    by (auto split: query_segment.splits "value.splits" span_tree.splits dest: mapping_removal_line sequence_removal_line)
next
  case (3 quote v t source seg seg2 segs key)
  then show ?case
    by (cases "descend_entry quote v t seg") (auto simp: res_simps split: prod.splits)
qed simp

lemma absorb_head_comments_le: "absorb_head_comments source start indent \<le> start"
proof (induction source start indent rule: absorb_head_comments.induct)
  case (1 source start indent)
  show ?case
  proof (cases "start = 0")
    case False
    then show ?thesis using "1.IH"[OF False refl refl refl] line_start_le[of source "start - 1"]
      by (subst absorb_head_comments.simps) (auto simp: Let_def, linarith)
  qed (subst absorb_head_comments.simps, simp)
qed

lemma owned_range_start: "owned_entry_range source a b c = (start, stop, multiline) \<Longrightarrow> start \<le> a"
  using absorb_head_comments_le[of source "line_start source a"] line_start_le[of source a]
  by (auto simp: owned_entry_range_def Let_def intro: order_trans)

lemma mapping_removal_start:
  "mapping_removal quote source key m s e entries k = Inr (Line start stop multiline) \<Longrightarrow>
   \<exists>pos. imap_index_of m k = Some pos \<and> start \<le> fst (fst (entries ! pos))"
  by (auto simp: mapping_removal_def Let_def split: option.splits if_splits prod.splits dest: owned_range_start)

text \<open>A removal of lines starts no later than the key of the entry.\<close>

lemma removal_covers_key:
  "entry_line_span quote v t source segs key = Inr (Line start stop multiline) \<Longrightarrow>
   entry_key_site quote v t segs new_key = Inr (ks, ke) \<Longrightarrow> start \<le> ks"
proof (induction quote v t source segs key rule: entry_line_span.induct)
  case (2 quote v t source seg key)
  then show ?case
    by (cases t)
      (auto simp: key_entry_def res_simps split: query_segment.splits "value.splits" option.splits if_splits dest!: mapping_removal_start)
next
  case (3 quote v t source seg seg2 segs key)
  then show ?case
    by (cases t)
      (auto simp: descend_entry_def key_entry_def res_simps split: query_segment.splits "value.splits" option.splits if_splits)
qed simp

lemma key_span_site:
  assumes "key_span fmt node_text quote path doc = Some (Some (ks, ke), doc)"
    and "doc_cache doc = Some (v, spans)" and "ensure_cache fmt node_text doc = Some doc"
  shows "entry_key_site quote v spans (parse_query_path path) key_span_sentinel = Inr (ks, ke)"
  using assms by (auto simp: key_span_def Let_def split: if_splits sum.splits)

text \<open>What the two ways to splice make of a removal.\<close>

definition removed_by ::
  "(f64 \<Rightarrow> string) \<Rightarrow> (token_kind \<Rightarrow> string) \<Rightarrow> (string \<Rightarrow> string) \<Rightarrow> string \<Rightarrow> removal \<Rightarrow> document \<Rightarrow> document \<Rightarrow> bool" where
  "removed_by fmt node_text quote path r doc doc' \<longleftrightarrow>
     (case removal_splice r of (start, stop, multiline, replacement) \<Rightarrow>
        doc_source doc' = splice_text (doc_source doc) start stop replacement
        \<and> (\<exists>v w. as_value fmt node_text doc = Some (v, doc) \<and> as_value fmt node_text doc' = Some (w, doc')
             \<and> (entry_removed (parse_query_path path) v w
                \<or> replacement = [] \<and> owns_single_line fmt node_text quote path start stop doc)))"

lemma fast_remove_outcome:
  assumes "document_reachable fmt node_text config doc"
    and c: "doc_cache doc = Some (v, spans)" "ensure_cache fmt node_text doc = Some doc" "as_value fmt node_text doc = Some (v, doc)"
    and span: "entry_line_span quote v spans (doc_source doc) (parse_query_path path) None = Inr (Line start stop False)"
    and key: "key_span fmt node_text quote path doc = Some (Some (ks, ke), doc)" "list_all yaml_blank (slice (doc_source doc) start ks)"
    and go: "replace_span fmt node_text start stop [] doc = (r, doc')"
  shows "case r of Inl e \<Rightarrow> doc' = doc
    | Inr _ \<Rightarrow> document_reachable fmt node_text config doc' \<and> removed_by fmt node_text quote path (Line start stop False) doc doc'"
proof -
  have "start \<le> ks" using removal_covers_key[OF span] key_span_site[OF key(1) c(1,2)] by blast
  then have "owns_single_line fmt node_text quote path start stop doc"
    using entry_line_span_line[OF span] key by (auto simp: owns_single_line_def)
  moreover note outcome = replace_span_outcome[OF assms(1) go]
  moreover obtain w where "as_value fmt node_text doc' = Some (w, doc')" using reachable_cached[OF outcome(1)] by metis
  ultimately show ?thesis using c(3) by (auto simp: removed_by_def split: sum.split)
qed

text \<open>The three ways a removal goes.\<close>

lemma document_remove_parts:
  assumes "document_reachable fmt node_text config doc"
    and c: "doc_cache doc = Some (v, spans)" "ensure_cache fmt node_text doc = Some doc"
    and r: "entry_line_span quote v spans (doc_source doc) (parse_query_path path) None = Inr r"
    and sp: "removal_splice r = (start, stop, multiline, replacement)"
  obtains (refused) e where "document_remove fmt node_text quote path doc = Some (Inl e, doc)"
  | (fast) ks ke where "document_remove fmt node_text quote path doc = Some (replace_span fmt node_text start stop [] doc)"
      "r = Line start stop False" "key_span fmt node_text quote path doc = Some (Some (ks, ke), doc)"
      "list_all yaml_blank (slice (doc_source doc) start ks)"
  | (guarded) "document_remove fmt node_text quote path doc
      = guarded_remove fmt node_text quote path (parse_query_path path) start stop replacement doc"
proof -
  obtain key where key: "(if is_line r then key_span fmt node_text quote path doc else Some (None, doc)) = Some (key, doc)"
  proof (cases "is_line r")
    case True
    then show ?thesis using key_span_keeps[OF assms(1), of quote path] that by auto
  qed (use that in simp)
  let ?probe = "removal_start r + length (takeWhile (\<lambda>c. c = CHR '' '') (drop (removal_start r) (doc_source doc)))"
  let ?owns = "case key of None \<Rightarrow> False | Some (ks, ke) \<Rightarrow> list_all yaml_blank (slice (doc_source doc) start ks)"
  have remove: "document_remove fmt node_text quote path doc =
      (case refuse_inside_aliased_anchor ''remove'' path ?probe doc of
         Inl e \<Rightarrow> Some (Inl e, doc)
       | Inr _ \<Rightarrow>
           if \<not> multiline \<and> ?owns then Some (replace_span fmt node_text start stop [] doc)
           else guarded_remove fmt node_text quote path (parse_query_path path) start stop replacement doc)"
    using key by (cases "is_line r"; cases "refuse_inside_aliased_anchor ''remove'' path ?probe doc")
      (simp_all add: document_remove_def c sp r Let_def)
  show thesis
  proof (cases "refuse_inside_aliased_anchor ''remove'' path ?probe doc")
    case (Inl e)
    then show thesis using refused remove by simp
  next
    case (Inr u)
    show thesis
    proof (cases "\<not> multiline \<and> ?owns")
      case True
      then obtain ks ke where ks: "key = Some (ks, ke)" "list_all yaml_blank (slice (doc_source doc) start ks)"
        by (auto split: option.splits)
      then have "is_line r" "key_span fmt node_text quote path doc = Some (Some (ks, ke), doc)"
        using key by (auto split: if_splits)
      moreover from this have "r = Line start stop False" using sp True by (cases r) auto
      ultimately show thesis using fast ks True Inr remove by simp
    next
      case False
      then show thesis using guarded Inr by (simp only: remove sum.case if_False)
    qed
  qed
qed


section \<open>Witness\<close>

text \<open>The only entry of a document, removed: braces are left.\<close>

definition braces_parse :: "green_node \<times> value \<times> span_tree" where
  "braces_parse =
     (GreenNode SDocument 2 [ChildNode (GreenNode SFlowMapping 2 [ChildToken SOpenBrace 1, ChildToken SCloseBrace 1])],
      VMapping [], SpanMapping 0 2 [])"

lemma commit_when_unrepaired:
  assumes "check_span ''replace_span'' (doc_source doc) start stop = Inr ()"
    and "splice_text (doc_source doc) start stop replacement = source"
    and "try_local_repair_green node_text doc start stop replacement source = None"
    and "parse_full fmt node_text source (doc_config doc) = Inr (green, parsed)"
  shows "replace_span fmt node_text start stop replacement doc
    = (Inr (), doc\<lparr>doc_source := source, doc_green := green, doc_cache := Some parsed, doc_scope := Some RepairDocument\<rparr>)"
proof -
  have "check_document_length source (doc_config doc) = Inr ()" using assms(4) by (auto simp: parse_full_def res_simps)
  then show ?thesis using assms by (simp add: replace_span_def commit_source_def)
qed

definition braces_document :: document where
  "braces_document = entry_document\<lparr>doc_source := ''{}'', doc_green := fst braces_parse, doc_cache := Some (snd braces_parse),
     doc_scope := Some RepairDocument\<rparr>"

lemma entry_emptied: "replace_span (\<lambda>f. []) (\<lambda>k. []) 0 4 ''{}'' entry_document = (Inr (), braces_document)"
proof -
  have "check_span ''replace_span'' (doc_source entry_document) 0 4 = Inr ()" "splice_text (doc_source entry_document) 0 4 ''{}'' = ''{}''"
    "try_local_repair_green (\<lambda>k. []) entry_document 0 4 ''{}'' ''{}'' = None"
    "parse_full (\<lambda>f. []) (\<lambda>k. []) ''{}'' (doc_config entry_document) = Inr braces_parse"
    by code_simp+
  then show ?thesis
    using commit_when_unrepaired[of entry_document 0 4 "''{}''" "''{}''" "\<lambda>k. []" "\<lambda>f. []" "fst braces_parse" "snd braces_parse"]
    by (simp add: braces_document_def)
qed

lemma entry_removed_at_a: "document_remove (\<lambda>f. []) (\<lambda>k. []) (\<lambda>k. k) ''a'' entry_document = Some (Inr (), braces_document)"
proof -
  have steps: "parse_query_path ''a'' = [Key ''a'']"
    "entry_line_span (\<lambda>k. k) (fst (snd (entry_parse CHR ''a'' 1))) (snd (snd (entry_parse CHR ''a'' 1)))
       (doc_source entry_document) [Key ''a''] None = Inr (SoleEntry 0 4 ''{}'' 0)"
    "refuse_inside_aliased_anchor ''remove'' ''a'' 0 entry_document = Inr ()"
    "takeWhile (\<lambda>c. c = CHR '' '') (drop 0 (doc_source entry_document)) = []"
    "expected_after_remove (\<lambda>k. k) (fst (snd (entry_parse CHR ''a'' 1))) [Key ''a''] = Inr (VMapping [])"
    by code_simp+
  have cache: "doc_cache entry_document = Some (snd (entry_parse CHR ''a'' 1))" by (simp add: entry_document_def)
  obtain v t where parsed: "snd (entry_parse CHR ''a'' 1) = (v, t)" by (meson surj_pair)
  show ?thesis
    using steps cache parsed entry_emptied
    by (simp add: document_remove_def guarded_remove_def keep_if_expected_def validate_def as_value_def ensure_cache_def Let_def
        braces_document_def braces_parse_def oracle_rejects_def del: entry_line_span.simps entry_fields)
qed

lemma removal_at_a:
  assumes "doc_cache entry_document = Some (v, spans)"
  shows "entry_line_span (\<lambda>k. k) v spans (doc_source entry_document) (parse_query_path ''a'') None = Inr (SoleEntry 0 4 ''{}'' 0)"
proof -
  have "snd (entry_parse CHR ''a'' 1) = (v, spans)" using assms by (simp add: entry_document_def)
  moreover have "entry_line_span (\<lambda>k. k) (fst (snd (entry_parse CHR ''a'' 1))) (snd (snd (entry_parse CHR ''a'' 1)))
      (doc_source entry_document) (parse_query_path ''a'') None = Inr (SoleEntry 0 4 ''{}'' 0)"
    by code_simp
  ultimately show ?thesis by simp
qed


end
