(* ===== verification/Spec2Isabelle.thy ===== *)
theory Spec2Isabelle
  imports Scan_Invariant Scan_Reading Stream_Decoder Recovery Plain_Style Emit_Depth Loader_Agreement Loader_Rebuild Query Interpolate Cst_Remove
begin

text \<open>
  A verification development for \<open>noyalib\<close>, a YAML library in Rust.  All paths below are under
  \<open>crates/noyalib/src\<close>.

  \<^bold>\<open>The program.\<close>  A text is turned into tokens by the scanner (\<open>parser/scanner.rs\<close>), the tokens into
  events by a state machine (\<open>parser/events.rs\<close>), the events into values by a tree builder
  (\<open>parser/loader.rs\<close>), under the budgets of a meter (\<open>parser/meter.rs\<close>, \<open>parser/budget.rs\<close>) and
  with the scalars resolved by schema (\<open>streaming.rs\<close>, \<open>parser/loader.rs\<close>).  The emitter writes a
  value as a text again (\<open>ser.rs\<close>).  On the values the
  library offers lookups by path and query (\<open>path.rs\<close>, \<open>value.rs\<close>), deep merge, the merge key, and
  placeholder interpolation (\<open>value.rs\<close>).  Failures are \<open>Error\<close> values with a location and a
  rendering (\<open>error.rs\<close>, \<open>diagnostic.rs\<close>).

  \<^bold>\<open>The theories\<close>, in the order of their imports:

  \<^item> \<open>Prelude\<close>: strings as UTF-8 bytes, results as sums, saturating arithmetic, decimal numerals.
    \<open>Ordered_Map\<close>: the contract of the third-party \<open>IndexMap\<close> as the locales \<open>keyed_store\<close> and
    \<open>removable_store\<close>, interpreted on an association list.  \<open>Text\<close>: the functions of Rust's \<open>str\<close>.
    \<open>F64\<close>: doubles by their bits, with exact comparison and conversion.
  \<^item> \<open>Path\<close> (\<open>path.rs\<close>): the query-path grammar.  Parsing inverts display both ways, joined keys and
    displayed locations parse back to themselves.
  \<^item> \<open>Number\<close> (\<open>value/number.rs\<close>) and \<open>Value\<close> (\<open>value.rs\<close>, \<open>value/mapping.rs\<close>, \<open>value/tag.rs\<close>): the
    data of the library with its equality, hash and order.  Equality is an equivalence and agrees
    with the hash on numbers; three departures from the contracts of \<open>Eq\<close>, \<open>Hash\<close> and \<open>Ord\<close> are
    proved as counterexamples.
  \<^item> \<open>Errors\<close> (\<open>error.rs\<close>, \<open>diagnostic.rs\<close>): the error type with its renderings.  Locations count
    lines and characters, relocation commutes with them, truncation and cropping keep their bounds.
  \<^item> \<open>Query\<close>, \<open>Merge\<close>, \<open>Interpolate\<close> (\<open>value.rs\<close>): the operations on values against their
    specifications (lookup is the first match of the query, recursive descent visits each descendant,
    merge is key-wise, merge keys are resolved by precedence, a template expands to its meaning
    within its budget).
  \<^item> \<open>Unicode\<close>: UTF-8 as characters and code points, with \<open>chars\<close> inverse to the encoding.
  \<^item> The scanner (\<open>parser/scanner.rs\<close> and its two modules), from bytes to tokens.  \<open>Scanner_State\<close>: the
    record, the cursor, the token queue, indentation and simple keys.  \<open>Scan_Plain\<close>, \<open>Scan_Quoted\<close>,
    \<open>Scan_Block\<close>: the readers of scalars, each with the lemma that it only moves the cursor forward,
    which is the termination argument of its loops.  \<open>Scanner\<close>: directives, markers, collections,
    keys, values, anchors, tags and the dispatch on the next byte.  \<open>Scan_Stream\<close>: \<open>next_token\<close> and
    the tokens of a text, total because every token pulled shrinks a measure.
  \<^item> \<open>Scan_Effect\<close>: every reader is a sequence of a few primitive effects (an inductive relation with
    an index that counts the tokens).  \<open>Scan_Invariant\<close>: what the effects keep, by rule induction,
    and so what holds of the tokens of every text: spans inside the text, at most \<open>4 n + 2\<close> tokens,
    block ends matched, the memo of the line end no more than a cache.
  \<^item> \<open>Events\<close> (\<open>parser/events.rs\<close>): the parser's 22 states.  The events of any token list follow an
    abstract grammar (a transition relation on a stack of phases), and the parser ends within eight
    events per token; the same measure is the termination argument of every loop over it.
  \<^item> \<open>Swar\<close> (\<open>simd.rs\<close>): eight digits at a time inside a 64-bit word, equal to digit-wise reading.
  \<^item> \<open>Config\<close> (\<open>parser/loader.rs\<close>, \<open>policy.rs\<close>, \<open>tag_registry.rs\<close>), \<open>Resolve\<close> (\<open>streaming.rs\<close>,
    \<open>parser/loader.rs\<close>): the configuration and the resolution of scalars.  The default is the
    YAML 1.2 core schema; resolved integers fit 64 bits under every flag.
  \<^item> \<open>Meter\<close> (\<open>parser/budget.rs\<close>, \<open>parser/meter.rs\<close>): the limits, the two estimators of an alias and
    the running counters, alone or shared between documents.
  \<^item> \<open>Loader\<close>, \<open>No_Span_Loader\<close> (\<open>parser/loader.rs\<close>): the two tree builders.  \<open>Loader_Invariant\<close>: the
    invariant of the first and what it gives for every loaded document (depth, well-builtness, spans
    that mirror the value and cover its entries).  \<open>Loader_Agreement\<close>: a simulation between the two.  \<open>Loader_Rebuild\<close>: a
    value spelled out as events loads as itself, but for tags and for floats without a plain spelling.
  \<^item> \<open>Serializer\<close> (\<open>ser.rs\<close>): the emitter, configuration, string styles, layout and the fourteen
    writers.  \<open>Emit_Depth\<close>: it fails on depth only.  \<open>Plain_Style\<close>: what it writes plain resolves back
    to the string.  \<open>Scan_Reading\<close>: what it writes between quotes the scanner reads back, with the
    cursor seen as the rest of the text.
  \<^item> \<open>Doc_Boundary\<close> (\<open>doc_boundary.rs\<close>): the split of a stream at its document markers, lossless and
    under the document budget.  \<open>Stream_Decoder\<close> (\<open>tokio_async.rs\<close>): the same cut in a buffer that grows
    by reads, as a step relation of reads and calls that may fail; what it hands out does not depend on
    the reads, though a refusal for size may.
    \<open>Recovery\<close> (\<open>recovery.rs\<close>): strict parse, duplicate keys, truncation, within a budget of errors.
  \<^item> The editable document (\<open>cst/\<close>).  \<open>Scan_Lossless\<close>: a recording scanner accounts for every byte it
    passes exactly once.  \<open>Green\<close> (\<open>syntax.rs\<close>, \<open>green.rs\<close>, \<open>builder.rs\<close>): the tree built from the
    three recordings merged by where they start, and so lossless.  \<open>Green_Splice\<close> (\<open>builder.rs\<close>, \<open>document/edit.rs\<close>): a fragment
    re-parsed in the place of a node and spliced in.  \<open>Green_Path\<close> (\<open>document/path.rs\<close>): the span of a
    path found in the tree alone.  \<open>Cst_Document\<close> (\<open>document.rs\<close>, \<open>document/validation.rs\<close>,
    \<open>document/edit.rs\<close>, \<open>document/transaction.rs\<close>): the document with its typed view.  A step relation of
    its operations keeps source, tree and view in agreement; edits are atomic, never refused when
    their result is a document, and a session is its edits in sequence; a local repair swaps one node
    and keeps all other leaves.  Two inputs where the tree and
    the view part are proved.  \<open>Cst_Spans\<close> (\<open>document.rs\<close>): reading at a path, from the tree or from
    the typed view, with the span of the very subtree at the path, and \<open>set\<close>, which changes the span
    the path names and keeps the fingerprint it compares.  \<open>Cst_Anchors\<close> (\<open>anchor.rs\<close>, \<open>document.rs\<close>): the
    anchors and aliases of a document, renamed or made independent, and the refusal to edit inside a
    shared value.  \<open>Cst_Remove\<close> (\<open>document.rs\<close>): \<open>remove\<close>, from the lines an entry owns to the
    comparison with the value that should be left, which is the value without that entry.

  \<^bold>\<open>Conventions.\<close>  A \<open>&mut self\<close> method returns the updated record; \<open>Result\<close> is a sum with the error on
  the left; \<open>usize\<close> counters are \<open>nat\<close> with their saturation written out, 64-bit words are \<open>64 word\<close>
  where the code works on bits; a \<open>Vec\<close> used as a stack is a list with its top at the head.  Loops
  are recursive functions with a proved measure, so no fuel is used anywhere.  Code outside the
  repository is a parameter: the shortest decimal text of a double (\<open>fmt\<close>), the \<open>Debug\<close> text of a
  token (\<open>node_text\<close>) and of a key (\<open>quote\<close>), the caller's resolver closures, the size of a \<open>Value\<close> in memory
  (\<open>node_bytes\<close>).

  \<^bold>\<open>Not modelled.\<close>  Of the
  document, the mutators that take a path other than \<open>set\<close> and \<open>remove\<close> (renaming keys, insertion,
  moving) and the tools on top of it: comments, entries, typed emission, the formatter.  The serde glue (visitors are the
  caller's code), schema validation, the
  adapters to third-party crates, ANSI colouring, file and network access; the features
  \<open>lossless-u64\<close> and \<open>no_std\<close> are off, except that the span-free loader is modelled too.
\<close>

end
